(* ===== verification/KV_Prelude.thy ===== *)
theory KV_Prelude
  imports Main "HOL-Library.Sublist" "HOL-Library.AList"
begin

text \<open>
  Shared vocabulary of the development: the exceptions of the modelled Python code as values,
  Python slices, the rounding helpers of \<^verbatim>\<open>sglang/srt/utils/common.py\<close>, the length of the
  longest common prefix of two lists, and facts about association lists (Python dictionaries,
  which keep insertion order) and sums over finite sets that several components use.
\<close>

named_theorems py_simps \<open>unfolding rules for the Python helper functions\<close>

section \<open>Exceptions as values\<close>

text \<open>
  A raised exception is an \<open>Inl\<close> value. The message of an exception is kept only where the
  code distinguishes two failures by it; formatted arguments are left out. \<open>OutOfFuel\<close> is not
  an exception of the program: it marks a loop that reached the bound the model gives it, and the
  theorems about such loops show that the bound is enough.
\<close>

datatype py_error =
    IndexError
  | KeyError
  | ValueError string
  | AssertionError string
  | RuntimeError string
  | ZeroDivisionError
  | NotImplementedError string
  | AttributeError
  | TypeError
  | OutOfFuel

type_synonym 'a result = "py_error + 'a"

text \<open>Sequencing: an exception skips the rest of the computation.\<close>

definition rbind :: "'a result \<Rightarrow> ('a \<Rightarrow> 'b result) \<Rightarrow> 'b result" where
  "rbind r f = (case r of Inl e \<Rightarrow> Inl e | Inr x \<Rightarrow> f x)"

lemma rbind_Inr [simp]: "rbind (Inr x) f = f x"
  by (simp add: rbind_def)

lemma rbind_Inl [simp]: "rbind (Inl e) f = Inl e"
  by (simp add: rbind_def)

lemma rbind_eq_Inr: "rbind r f = Inr y \<longleftrightarrow> (\<exists>x. r = Inr x \<and> f x = Inr y)"
  by (cases r) auto

lemma rbind_weak_cong: "r = r' \<Longrightarrow> rbind r f = rbind r' f"
  by simp

text \<open>Congruences for evaluating a program on a concrete state: arguments first, bodies after substitution.\<close>

lemmas eval_cong = let_weak_cong rbind_weak_cong option.case_cong_weak

definition py_assert :: "bool \<Rightarrow> string \<Rightarrow> unit result" where
  "py_assert b msg = (if b then Inr () else Inl (AssertionError msg))"

lemma py_assert_True [simp]: "py_assert True msg = Inr ()"
  by (simp add: py_assert_def)

lemma py_assert_eq_Inr [simp]: "py_assert b msg = Inr u \<longleftrightarrow> b"
  by (simp add: py_assert_def)

text \<open>A \<^verbatim>\<open>for\<close> loop whose body may raise.\<close>

fun rfold :: "('x \<Rightarrow> 's \<Rightarrow> 's result) \<Rightarrow> 'x list \<Rightarrow> 's \<Rightarrow> 's result" where
  "rfold f [] s = Inr s"
| "rfold f (x # xs) s = rbind (f x s) (rfold f xs)"

lemma rfold_append: "rfold f (xs @ ys) s = rbind (rfold f xs s) (rfold f ys)"
proof (induction xs arbitrary: s)
  case (Cons x xs)
  then show ?case by (cases "f x s") simp_all
qed simp

lemma rfold_invariant:
  assumes "rfold f xs s = Inr s'" "P s" "\<And>x s s'. x \<in> set xs \<Longrightarrow> P s \<Longrightarrow> f x s = Inr s' \<Longrightarrow> P s'"
  shows "P s'"
  using assms
proof (induction xs arbitrary: s)
  case (Cons x xs)
  then obtain s1 where s1: "f x s = Inr s1" "rfold f xs s1 = Inr s'" by (auto simp: rbind_eq_Inr)
  have "P s1" by (rule Cons.prems(3) [OF _ Cons.prems(2) s1(1)]) simp
  then show ?case by (rule Cons.IH [OF s1(2)]) (rule Cons.prems(3); simp)
qed simp

section \<open>Slices\<close>

text \<open>\<open>slice xs a b\<close> is Python's \<^verbatim>\<open>xs[a:b]\<close> for non-negative bounds.\<close>

definition slice :: "'a list \<Rightarrow> nat \<Rightarrow> nat \<Rightarrow> 'a list" where
  "slice xs a b = take (b - a) (drop a xs)"

lemma length_slice [simp]: "length (slice xs a b) = min b (length xs) - a"
  by (simp add: slice_def)

lemma slice_0 [simp]: "slice xs 0 b = take b xs"
  by (simp add: slice_def)

lemma slice_ge_length [simp]: "length xs \<le> b \<Longrightarrow> slice xs a b = drop a xs"
  by (simp add: slice_def)

lemma slice_empty [simp]: "b \<le> a \<Longrightarrow> slice xs a b = []"
  by (simp add: slice_def)

lemma nth_slice [simp]: "i < b - a \<Longrightarrow> a + i < length xs \<Longrightarrow> slice xs a b ! i = xs ! (a + i)"
  by (simp add: slice_def)

lemma drop_take_slice: "drop a (take b xs) = slice xs a b"
  by (simp add: slice_def drop_take)

lemma slice_map: "slice (map f xs) a b = map f (slice xs a b)"
  by (simp add: slice_def take_map drop_map)

lemma slice_append_drop: "a \<le> b \<Longrightarrow> slice xs a b @ drop b xs = drop a xs"
proof -
  assume "a \<le> b"
  then have "drop b xs = drop (b - a) (drop a xs)" by simp
  then show ?thesis by (simp only: slice_def append_take_drop_id)
qed

lemma take_slice_append: "a \<le> b \<Longrightarrow> take a xs @ slice xs a b = take b xs"
  using take_add [of a "b - a" xs] by (simp add: slice_def)

lemma upt_append_shift: "[0..<m + n] = [0..<m] @ map (\<lambda>i. i + m) [0..<n]"
  by (simp add: map_add_upt upt_add_eq_append [of 0 m n, simplified] add.commute)

text \<open>
  Python resolves a possibly negative or missing slice bound against the length
  (\<^verbatim>\<open>slice.indices\<close> for step 1).
\<close>

definition slice_start :: "int option \<Rightarrow> nat \<Rightarrow> nat" where
  "slice_start s n = (case s of None \<Rightarrow> 0
     | Some i \<Rightarrow> if i < 0 then nat (max 0 (i + int n)) else min (nat i) n)"

definition slice_stop :: "int option \<Rightarrow> nat \<Rightarrow> nat" where
  "slice_stop s n = (case s of None \<Rightarrow> n
     | Some i \<Rightarrow> if i < 0 then nat (max 0 (i + int n)) else min (nat i) n)"

text \<open>\<^verbatim>\<open>xs[n:]\<close> for a possibly negative \<open>n\<close>, and \<^verbatim>\<open>xs[::step]\<close>.\<close>

definition py_drop :: "int \<Rightarrow> 'a list \<Rightarrow> 'a list" where
  "py_drop n xs = drop (slice_start (Some n) (length xs)) xs"

lemma py_drop_nonneg [simp]: "0 \<le> n \<Longrightarrow> py_drop n xs = drop (nat n) xs"
  by (simp add: py_drop_def slice_start_def min_def)

definition stride :: "nat \<Rightarrow> 'a list \<Rightarrow> 'a list" where
  "stride step xs = map (\<lambda>i. xs ! (i * step)) [0..<(length xs + step - 1) div step]"

text \<open>\<^verbatim>\<open>torch.unique\<close>: the distinct values in ascending order.\<close>

definition unique :: "int list \<Rightarrow> int list" where
  "unique xs = sort (remdups xs)"

lemma set_unique [simp]: "set (unique xs) = set xs"
  by (simp add: unique_def)

lemma distinct_unique [simp]: "distinct (unique xs)"
  by (simp add: unique_def)

lemma unique_eq_Nil [simp]: "unique xs = [] \<longleftrightarrow> xs = []"
  by (metis set_empty set_unique)

lemma slice_start_le: "slice_start s n \<le> n"
  by (auto simp: slice_start_def split: option.splits)

lemma slice_stop_le: "slice_stop s n \<le> n"
  by (auto simp: slice_stop_def split: option.splits)

section \<open>Longest common prefix\<close>

definition lcp :: "'a list \<Rightarrow> 'a list \<Rightarrow> nat" where
  "lcp xs ys = length (longest_common_prefix xs ys)"

lemma lcp_simps [simp]:
  "lcp [] ys = 0" "lcp xs [] = 0"
  "lcp (x # xs) (y # ys) = (if x = y then Suc (lcp xs ys) else 0)"
  by (simp_all add: lcp_def)

lemma lcp_le1: "lcp xs ys \<le> length xs"
  by (simp add: lcp_def prefix_length_le [OF longest_common_prefix_prefix1])

lemma lcp_le2: "lcp xs ys \<le> length ys"
  by (simp add: lcp_def prefix_length_le [OF longest_common_prefix_prefix2])

lemma lcp_take_eq: "k \<le> lcp xs ys \<Longrightarrow> take k xs = take k ys"
proof (induction xs arbitrary: k ys)
  case (Cons x xs)
  then show ?case by (cases ys; cases k) (auto split: if_splits)
qed simp

lemma lcp_geI: "take k xs = take k ys \<Longrightarrow> k \<le> length xs \<Longrightarrow> k \<le> length ys \<Longrightarrow> k \<le> lcp xs ys"
proof (induction xs arbitrary: k ys)
  case (Cons x xs)
  then show ?case by (cases ys; cases k) auto
qed simp

lemma lcp_eqI:
  assumes "take k xs = take k ys" "k \<le> length xs" "k \<le> length ys"
    and "k < length xs \<Longrightarrow> k < length ys \<Longrightarrow> xs ! k \<noteq> ys ! k"
  shows "lcp xs ys = k"
proof (rule antisym)
  show "k \<le> lcp xs ys" by (rule lcp_geI [OF assms(1-3)])
  show "lcp xs ys \<le> k"
  proof (rule ccontr)
    assume "\<not> lcp xs ys \<le> k"
    then have k: "Suc k \<le> lcp xs ys" by simp
    then have "take (Suc k) xs = take (Suc k) ys" by (rule lcp_take_eq)
    moreover have "k < length xs" "k < length ys"
      using k lcp_le1 [of xs ys] lcp_le2 [of xs ys] by simp_all
    ultimately show False
      using assms(4) by (metis lessI nth_take)
  qed
qed

lemma lcp_map_inj: "inj f \<Longrightarrow> lcp (map f xs) (map f ys) = lcp xs ys"
proof (induction xs arbitrary: ys)
  case (Cons x xs)
  then show ?case by (cases ys) (auto simp: inj_eq)
qed simp

lemma lcp_commute: "lcp xs ys = lcp ys xs"
proof (induction xs arbitrary: ys)
  case (Cons x xs)
  then show ?case by (cases ys) auto
qed simp

text \<open>A prefix length rounded down to whole pages.\<close>

definition page_floor :: "nat \<Rightarrow> nat \<Rightarrow> nat" where
  "page_floor page_size n = n div page_size * page_size"

lemma page_floor_le [simp]: "page_floor p n \<le> n"
  by (simp add: page_floor_def div_times_less_eq_dividend)

lemma page_floor_dvd [simp]: "p dvd page_floor p n"
  by (simp add: page_floor_def)

lemma page_floor_1 [simp]: "page_floor (Suc 0) n = n"
  by (simp add: page_floor_def)

lemma page_floor_id [simp]: "p dvd n \<Longrightarrow> page_floor p n = n"
  by (auto simp: page_floor_def)

lemma page_floor_geI: "p dvd k \<Longrightarrow> k \<le> n \<Longrightarrow> k \<le> page_floor p n"
  by (auto simp: page_floor_def elim!: dvdE)
    (metis div_le_mono div_mult_self1_is_m mult.commute mult_le_mono1 not_gr_zero mult_0)

section \<open>Rounding\<close>

text \<open>
  \<open>ceil_div\<close> and \<open>ceil_align\<close> of \<^verbatim>\<open>utils/common.py\<close>, and the same rounding
  written \<^verbatim>\<open>-(-x // y)\<close>, as several modules of the scheduler do. Python's floor division
  is HOL's \<open>div\<close> on \<open>int\<close> for a non-zero divisor.
\<close>

definition ceil_div :: "int \<Rightarrow> int \<Rightarrow> int" where
  "ceil_div x y = (x + y - 1) div y"

definition ceil_align :: "int \<Rightarrow> int \<Rightarrow> int" where
  "ceil_align x y = ceil_div x y * y"

definition neg_ceil_div :: "int \<Rightarrow> int \<Rightarrow> int" where
  "neg_ceil_div value divisor = - ((- value) div divisor)"

lemma neg_ceil_div_eq: "0 < y \<Longrightarrow> neg_ceil_div x y = ceil_div x y"
proof -
  assume y: "0 < y"
  define q where "q = (- x) div y"
  define r where "r = (- x) mod y"
  have x: "- x = q * y + r" and r: "0 \<le> r" "r < y"
    using y by (simp_all add: q_def r_def)
  have "x + y - 1 = (- q) * y + (y - 1 - r)"
    using x by (simp add: algebra_simps)
  moreover have "((- q) * y + (y - 1 - r)) div y = - q + (y - 1 - r) div y"
    using y by (intro div_mult_self3) simp
  ultimately have "(x + y - 1) div y = - q + (y - 1 - r) div y"
    by (simp only:)
  also have "(y - 1 - r) div y = 0"
    using r by simp
  finally show ?thesis by (simp add: neg_ceil_div_def ceil_div_def q_def)
qed

lemma ceil_align_ge: "0 < y \<Longrightarrow> x \<le> ceil_align x y"
proof -
  assume y: "0 < y"
  have "(x + y - 1) div y * y + (x + y - 1) mod y = x + y - 1" by simp
  moreover have "(x + y - 1) mod y < y" using y by simp
  ultimately show ?thesis unfolding ceil_align_def ceil_div_def by linarith
qed

lemma ceil_align_less: "0 < y \<Longrightarrow> ceil_align x y < x + y"
proof -
  assume y: "0 < y"
  have "(x + y - 1) div y * y + (x + y - 1) mod y = x + y - 1" by simp
  moreover have "0 \<le> (x + y - 1) mod y" using y by simp
  ultimately show ?thesis unfolding ceil_align_def ceil_div_def by linarith
qed

lemma ceil_align_dvd [simp]: "y dvd ceil_align x y"
  by (simp add: ceil_align_def)

lemma ceil_align_id: "0 < y \<Longrightarrow> y dvd x \<Longrightarrow> ceil_align x y = x"
proof -
  assume y: "0 < y" and "y dvd x"
  then obtain k where k: "x = k * y" by (auto simp: mult.commute)
  have "(k * y + y - 1) div y = k + (y - 1) div y"
    using y div_mult_self1 [of y "y - 1" k] by (simp add: algebra_simps)
  also have "(y - 1) div y = 0" using y by simp
  finally show ?thesis by (simp add: k ceil_align_def ceil_div_def)
qed

lemma ceil_align_mono: "0 < y \<Longrightarrow> a \<le> b \<Longrightarrow> ceil_align a y \<le> ceil_align b y"
  by (simp add: ceil_align_def ceil_div_def zdiv_mono1)

lemma nat_le_ceil_mult: "0 < p \<Longrightarrow> n \<le> (n + p - 1) div p * (p :: nat)"
  using div_mult_mod_eq [of "n + p - 1" p] mod_less_divisor [of p "n + p - 1"] by linarith

end
