(* ===== verification/Finish_State.thy ===== *)
theory Finish_State
  imports KV_Prelude
begin

text \<open>
  When a request stops (\<^verbatim>\<open>Req.update_finish_state\<close> of \<^verbatim>\<open>managers/schedule_batch.py\<close> and the checks it calls):
  invalid token ids, stop strings and regular expressions, stop tokens, the length budget, a finished
  grammar. A decoding step may accept several tokens. The tokenizer and the search for a regular
  expression are arguments: \<open>search\<close> gives None where \<^verbatim>\<open>re.search\<close> raises. A set of token ids is the list of
  its elements in iteration order.
\<close>

section \<open>State\<close>

datatype finish_reason =
    FINISH_MATCHED_TOKEN int
  | FINISH_MATCHED_STR string
  | FINISHED_MATCHED_REGEX string
  | FINISH_LENGTH nat
  | FINISH_ABORT string

record tokenizer =
  tz_decode :: "int list \<Rightarrow> string"
  tz_eos_token_id :: "int option"
  tz_additional_stop_token_ids :: "int list"

record sampling_params =
  sp_max_new_tokens :: nat
  sp_ignore_eos :: bool
  sp_stop_token_ids :: "int list"
  sp_stop_strs :: "string list"
  sp_stop_regex_strs :: "string list"
  sp_stop_str_max_len :: nat
  sp_stop_regex_max_len :: nat

record fin_req =
  f_output_ids :: "int list"
  f_sampling_params :: sampling_params
  f_tokenizer :: "tokenizer option"
  f_eos_token_ids :: "int list"
  f_vocab_size :: "int option"
  f_decoded_text :: string
  f_grammar_terminated :: "bool option"
  f_finished_reason :: "finish_reason option"
  f_finished_len :: "nat option"
  f_to_finish :: "finish_reason option"

type_synonym regex_search = "string \<Rightarrow> string \<Rightarrow> bool option"

section \<open>Operations\<close>

text \<open>Python's \<^verbatim>\<open>xs[-n:]\<close>, which is the whole list for \<open>n = 0\<close>, and \<^verbatim>\<open>s in t\<close> on strings.\<close>

definition last_n :: "nat \<Rightarrow> 'a list \<Rightarrow> 'a list" where
  "last_n n xs = (if n = 0 then xs else drop (length xs - n) xs)"

definition str_in :: "string \<Rightarrow> string \<Rightarrow> bool" where
  "str_in s t = list_ex (\<lambda>i. take (length s) (drop i t) = s) [0..<length t + 1]"

definition finished :: "fin_req \<Rightarrow> bool" where
  "finished r = (f_finished_reason r \<noteq> None)"

definition output_ids_through_stop :: "fin_req \<Rightarrow> int list" where
  "output_ids_through_stop r = (case f_finished_len r of None \<Rightarrow> f_output_ids r | Some n \<Rightarrow> take n (f_output_ids r))"

definition stop_match_tail_len :: "nat \<Rightarrow> fin_req \<Rightarrow> nat" where
  "stop_match_tail_len new_accepted_len r =
     (let sp = f_sampling_params r;
          max_len_tail_str = max (sp_stop_str_max_len sp + 1) (sp_stop_regex_max_len sp + 1)
      in min (max_len_tail_str + (new_accepted_len - 1)) (length (f_output_ids r)))"

definition decode :: "int list \<Rightarrow> fin_req \<Rightarrow> string result" where
  "decode ids r = (case f_tokenizer r of None \<Rightarrow> Inl AttributeError | Some t \<Rightarrow> Inr (tz_decode t ids))"

definition tail_str :: "nat \<Rightarrow> fin_req \<Rightarrow> string result" where
  "tail_str new_accepted_len r =
     (if length (sp_stop_strs (f_sampling_params r)) = 0 \<and> length (sp_stop_regex_strs (f_sampling_params r)) = 0 then Inr []
      else decode (last_n (stop_match_tail_len new_accepted_len r) (f_output_ids r)) r)"

definition stop_prefix_hit :: "string \<Rightarrow> string \<Rightarrow> bool" where
  "stop_prefix_hit tail stop_str =
     (stop_str \<noteq> [] \<and>
       (str_in stop_str tail \<or>
        list_ex (\<lambda>i. last_n i tail = take i stop_str) [1..<min (length tail) (length stop_str) + 1]))"

definition check_match_stop_str_prefix :: "fin_req \<Rightarrow> bool result" where
  "check_match_stop_str_prefix r =
     (if sp_stop_strs (f_sampling_params r) = [] then Inr False
      else rbind (tail_str 1 r) (\<lambda>tail.
        if tail = [] then Inr False else Inr (list_ex (stop_prefix_hit tail) (sp_stop_strs (f_sampling_params r)))))"

definition is_stop_token :: "fin_req \<Rightarrow> int \<Rightarrow> bool" where
  "is_stop_token r token_id =
     (token_id \<in> set (sp_stop_token_ids (f_sampling_params r)) \<or> token_id \<in> set (f_eos_token_ids r) \<or>
      (case f_tokenizer r of None \<Rightarrow> False
       | Some t \<Rightarrow> tz_eos_token_id t = Some token_id \<or> token_id \<in> set (tz_additional_stop_token_ids t)))"

fun first_stop_token :: "fin_req \<Rightarrow> nat \<Rightarrow> int list \<Rightarrow> (nat \<times> int) option" where
  "first_stop_token r i [] = None"
| "first_stop_token r i (token_id # tokens) =
     (if is_stop_token r token_id then Some (i, token_id) else first_stop_token r (i + 1) tokens)"

definition check_token_based_finish :: "int list \<Rightarrow> fin_req \<Rightarrow> bool \<times> fin_req" where
  "check_token_based_finish new_accepted_tokens r =
     (if sp_ignore_eos (f_sampling_params r) then (False, r)
      else case first_stop_token r 0 new_accepted_tokens of
        None \<Rightarrow> (False, r)
      | Some (i, token_id) \<Rightarrow>
          let matched_pos = length (f_output_ids r) - length new_accepted_tokens + i
          in (True, r\<lparr>f_finished_reason := Some (FINISH_MATCHED_TOKEN token_id), f_finished_len := Some (matched_pos + 1)\<rparr>))"

text \<open>The loop over ever longer parts of the token window, which stops at the first one that matches.\<close>

fun locate_loop :: "(string \<Rightarrow> bool result) \<Rightarrow> fin_req \<Rightarrow> int list \<Rightarrow> nat list \<Rightarrow> nat option result" where
  "locate_loop matched r token_window [] = Inr None"
| "locate_loop matched r token_window (n # ns) =
     rbind (decode (take n token_window) r) (\<lambda>t. rbind (matched t) (\<lambda>b.
       if b then Inr (Some n) else locate_loop matched r token_window ns))"

definition locate_str_stop_finished_len :: "nat \<Rightarrow> (string \<Rightarrow> bool result) \<Rightarrow> fin_req \<Rightarrow> nat result" where
  "locate_str_stop_finished_len new_accepted_len matched r =
     (let tail_len = stop_match_tail_len new_accepted_len r;
          start = length (f_output_ids r) - tail_len;
          token_window = drop start (f_output_ids r)
      in rbind (locate_loop matched r token_window [max 1 (length token_window + 1 - new_accepted_len)..<length token_window]) (\<lambda>found.
           case found of Some token_count \<Rightarrow> Inr (start + token_count) | None \<Rightarrow> Inr (length (f_output_ids r))))"

definition re_matched :: "regex_search \<Rightarrow> string \<Rightarrow> string \<Rightarrow> bool result" where
  "re_matched search pattern t = (case search pattern t of None \<Rightarrow> Inl (RuntimeError ''re.error'') | Some b \<Rightarrow> Inr b)"

fun check_stop_strs :: "nat \<Rightarrow> string \<Rightarrow> string list \<Rightarrow> fin_req \<Rightarrow> (bool \<times> fin_req) result" where
  "check_stop_strs new_accepted_len tail [] r = Inr (False, r)"
| "check_stop_strs new_accepted_len tail (stop_str # stop_strs) r =
     (let stop_str_in_tail = str_in stop_str tail in
      if stop_str_in_tail \<or> str_in stop_str (f_decoded_text r)
      then let r = r\<lparr>f_finished_reason := Some (FINISH_MATCHED_STR stop_str)\<rparr> in
        if stop_str_in_tail
        then rbind (locate_str_stop_finished_len new_accepted_len (\<lambda>t. Inr (str_in stop_str t)) r) (\<lambda>n. Inr (True, r\<lparr>f_finished_len := Some n\<rparr>))
        else Inr (True, r)
      else check_stop_strs new_accepted_len tail stop_strs r)"

fun check_stop_regexes :: "regex_search \<Rightarrow> nat \<Rightarrow> string \<Rightarrow> string list \<Rightarrow> fin_req \<Rightarrow> (bool \<times> fin_req) result" where
  "check_stop_regexes search new_accepted_len tail [] r = Inr (False, r)"
| "check_stop_regexes search new_accepted_len tail (stop_regex_str # regexes) r =
     (case search stop_regex_str tail of
        None \<Rightarrow> Inr (False, r\<lparr>f_finished_reason := Some (FINISH_ABORT ''invalid stop_regex'')\<rparr>)
      | Some True \<Rightarrow>
          let r = r\<lparr>f_finished_reason := Some (FINISHED_MATCHED_REGEX stop_regex_str)\<rparr> in
          rbind (locate_str_stop_finished_len new_accepted_len (re_matched search stop_regex_str) r) (\<lambda>n.
            Inr (True, r\<lparr>f_finished_len := Some n\<rparr>))
      | Some False \<Rightarrow> check_stop_regexes search new_accepted_len tail regexes r)"

definition check_str_based_finish :: "regex_search \<Rightarrow> nat \<Rightarrow> fin_req \<Rightarrow> (bool \<times> fin_req) result" where
  "check_str_based_finish search new_accepted_len r =
     (let sp = f_sampling_params r in
      if length (sp_stop_strs sp) > 0 \<or> length (sp_stop_regex_strs sp) > 0
      then rbind (tail_str new_accepted_len r) (\<lambda>tail.
        rbind (check_stop_strs new_accepted_len tail (sp_stop_strs sp) r) (\<lambda>(hit, r).
          if hit then Inr (True, r) else check_stop_regexes search new_accepted_len tail (sp_stop_regex_strs sp) r))
      else Inr (False, r))"

fun first_invalid_token :: "int option \<Rightarrow> nat \<Rightarrow> int list \<Rightarrow> nat option" where
  "first_invalid_token vocab_size i [] = None"
| "first_invalid_token vocab_size i (token_id # tokens) =
     (if token_id < 0 \<or> (case vocab_size of None \<Rightarrow> False | Some v \<Rightarrow> token_id \<ge> v) then Some i
      else first_invalid_token vocab_size (i + 1) tokens)"

definition check_vocab_boundary_finish :: "int list \<Rightarrow> fin_req \<Rightarrow> bool \<times> fin_req" where
  "check_vocab_boundary_finish new_accepted_tokens r =
     (case first_invalid_token (f_vocab_size r) 0 new_accepted_tokens of
        None \<Rightarrow> (False, r)
      | Some i \<Rightarrow>
          let offset = length (f_output_ids r) - length new_accepted_tokens + i;
              stops = sp_stop_token_ids (f_sampling_params r);
              r = (if stops \<noteq> [] then r\<lparr>f_output_ids := (f_output_ids r)[offset := hd stops]\<rparr> else r);
              r = (if f_eos_token_ids r \<noteq> [] then r\<lparr>f_output_ids := (f_output_ids r)[offset := hd (f_eos_token_ids r)]\<rparr> else r)
          in (True, r\<lparr>f_finished_reason := Some (FINISH_MATCHED_STR ''NaN happened''), f_finished_len := Some (offset + 1)\<rparr>))"

definition cap_finished_len_at_max_new_tokens :: "fin_req \<Rightarrow> fin_req" where
  "cap_finished_len_at_max_new_tokens r =
     (let max_new_tokens = sp_max_new_tokens (f_sampling_params r) in
      case f_finished_len r of
        None \<Rightarrow> r
      | Some n \<Rightarrow> if n > max_new_tokens
          then r\<lparr>f_finished_reason := Some (FINISH_LENGTH max_new_tokens), f_finished_len := Some max_new_tokens\<rparr> else r)"

definition update_finish_state :: "regex_search \<Rightarrow> nat \<Rightarrow> fin_req \<Rightarrow> fin_req result" where
  "update_finish_state search new_accepted_len r =
     (if finished r then Inr r
      else if f_to_finish r \<noteq> None then Inr (r\<lparr>f_finished_reason := f_to_finish r, f_to_finish := None\<rparr>)
      else
        let new_accepted_tokens = last_n new_accepted_len (f_output_ids r);
            (invalid, r) = check_vocab_boundary_finish new_accepted_tokens r
        in if invalid then Inr (cap_finished_len_at_max_new_tokens r)
           else rbind (check_str_based_finish search new_accepted_len r) (\<lambda>(str_hit, r).
             if str_hit then Inr (cap_finished_len_at_max_new_tokens r)
             else let (tok_hit, r) = check_token_based_finish new_accepted_tokens r in
               if tok_hit then Inr (cap_finished_len_at_max_new_tokens r)
               else if length (f_output_ids r) \<ge> sp_max_new_tokens (f_sampling_params r)
               then Inr (r\<lparr>f_finished_reason := Some (FINISH_LENGTH (sp_max_new_tokens (f_sampling_params r))),
                           f_finished_len := Some (sp_max_new_tokens (f_sampling_params r))\<rparr>)
               else if f_grammar_terminated r = Some True
               then (if f_output_ids r = [] then Inl IndexError
                     else Inr (r\<lparr>f_finished_reason := Some (FINISH_MATCHED_TOKEN (last (f_output_ids r)))\<rparr>))
               else Inr r))"

section \<open>Facts about the checks\<close>

lemma length_last_n [simp]: "length (last_n n xs) \<le> length xs"
  by (simp add: last_n_def)

lemma first_stop_token_Some:
  "first_stop_token r i ts = Some (j, t) \<Longrightarrow> i \<le> j \<and> j - i < length ts \<and> t = ts ! (j - i) \<and> is_stop_token r t \<and> (\<forall>k<j - i. \<not> is_stop_token r (ts ! k))"
proof (induction ts arbitrary: i)
  case (Cons x ts)
  show ?case
  proof (cases "is_stop_token r x")
    case False
    then have h: "i + 1 \<le> j \<and> j - (i + 1) < length ts \<and> t = ts ! (j - (i + 1)) \<and> is_stop_token r t \<and> (\<forall>k<j - (i + 1). \<not> is_stop_token r (ts ! k))"
      using Cons by auto
    then have "j - i = Suc (j - (i + 1))" by (elim conjE) arith
    then show ?thesis using h False by (auto simp: less_Suc_eq_0_disj)
  qed (use Cons.prems in auto)
qed simp

lemma first_stop_token_None: "first_stop_token r i ts = None \<longleftrightarrow> (\<forall>t\<in>set ts. \<not> is_stop_token r t)"
  by (induction ts arbitrary: i) auto

lemma first_invalid_token_bound: "first_invalid_token v i ts = Some j \<Longrightarrow> i \<le> j \<and> j < i + length ts"
proof (induction ts arbitrary: i)
  case (Cons x ts)
  from Cons.prems have "j = i \<or> first_invalid_token v (i + 1) ts = Some j" by (auto split: if_splits)
  then show ?case using Cons.IH [of "i + 1"] by auto
qed simp

lemma locate_loop_bound: "locate_loop matched r w ns = Inr (Some n) \<Longrightarrow> n \<in> set ns"
  by (induction ns) (auto simp: rbind_eq_Inr split: if_splits)

lemma locate_bound:
  assumes "locate_str_stop_finished_len k matched r = Inr n"
  shows "n \<le> length (f_output_ids r)"
proof -
  let ?len = "length (f_output_ids r)" and ?tail = "stop_match_tail_len k r"
  let ?w = "drop (?len - ?tail) (f_output_ids r)"
  obtain found where f: "locate_loop matched r ?w [max 1 (length ?w + 1 - k)..<length ?w] = Inr found"
    "n = (case found of Some token_count \<Rightarrow> ?len - ?tail + token_count | None \<Rightarrow> ?len)"
    using assms by (auto simp: locate_str_stop_finished_len_def Let_def rbind_eq_Inr split: option.splits)
  show ?thesis
  proof (cases found)
    case (Some c)
    then have "c < length ?w" using locate_loop_bound [OF f(1) [unfolded Some]] by (simp only: set_upt atLeastLessThan_iff)
    then show ?thesis using f(2) Some by simp
  qed (use f(2) in simp)
qed

text \<open>What a check of strings leaves: the tokens and parameters, and a finish position inside the output.\<close>

definition str_checked :: "fin_req \<Rightarrow> bool \<Rightarrow> fin_req \<Rightarrow> bool" where
  "str_checked r hit r' \<longleftrightarrow> f_output_ids r' = f_output_ids r \<and> f_sampling_params r' = f_sampling_params r \<and>
     f_tokenizer r' = f_tokenizer r \<and> f_eos_token_ids r' = f_eos_token_ids r \<and> f_grammar_terminated r' = f_grammar_terminated r \<and>
     (f_finished_len r' = f_finished_len r \<or> (hit \<and> (\<exists>n\<le>length (f_output_ids r). f_finished_len r' = Some n))) \<and>
     (hit \<longrightarrow> f_finished_reason r' \<noteq> None)"

lemma check_stop_strs_ok: "check_stop_strs k tail strs r = Inr (hit, r') \<Longrightarrow> str_checked r hit r' \<and> (\<not> hit \<longrightarrow> r' = r)"
  by (induction strs) (auto simp: Let_def str_checked_def rbind_eq_Inr dest!: locate_bound split: if_splits)

lemma check_stop_regexes_ok: "check_stop_regexes search k tail strs r = Inr (hit, r') \<Longrightarrow> str_checked r hit r'"
  by (induction strs) (auto simp: Let_def str_checked_def rbind_eq_Inr dest!: locate_bound split: if_splits option.splits bool.splits)

lemma check_str_ok:
  assumes "check_str_based_finish search k r = Inr (hit, r')"
  shows "str_checked r hit r'"
proof -
  have refl: "str_checked r False r" by (simp add: str_checked_def)
  show ?thesis
    using assms check_stop_strs_ok check_stop_regexes_ok refl
    by (fastforce simp: check_str_based_finish_def Let_def rbind_eq_Inr split: if_splits)
qed

lemma cap_bound:
  "f_finished_len (cap_finished_len_at_max_new_tokens r) = Some n \<Longrightarrow>
     n \<le> sp_max_new_tokens (f_sampling_params r) \<and> (\<exists>m. f_finished_len r = Some m \<and> n \<le> m) \<and>
     f_output_ids (cap_finished_len_at_max_new_tokens r) = f_output_ids r"
  by (auto simp: cap_finished_len_at_max_new_tokens_def Let_def split: option.splits if_splits)

lemma vocab_ok:
  assumes "check_vocab_boundary_finish (last_n k (f_output_ids r)) r = (hit, r')"
  shows "length (f_output_ids r') = length (f_output_ids r)" "f_sampling_params r' = f_sampling_params r"
    "hit \<Longrightarrow> \<exists>n\<le>length (f_output_ids r). f_finished_len r' = Some n" "\<not> hit \<Longrightarrow> r' = r"
proof -
  have "length (f_output_ids r) - length (last_n k (f_output_ids r)) + i + 1 \<le> length (f_output_ids r)"
    if "first_invalid_token (f_vocab_size r) 0 (last_n k (f_output_ids r)) = Some i" for i
    using first_invalid_token_bound [OF that] length_last_n [of k "f_output_ids r"] by linarith
  then show "length (f_output_ids r') = length (f_output_ids r)" "f_sampling_params r' = f_sampling_params r"
    "hit \<Longrightarrow> \<exists>n\<le>length (f_output_ids r). f_finished_len r' = Some n" "\<not> hit \<Longrightarrow> r' = r"
    using assms by (auto simp: check_vocab_boundary_finish_def Let_def split: option.splits if_splits)
qed

lemma token_ok:
  assumes "check_token_based_finish (last_n k (f_output_ids r)) r = (hit, r')"
  shows "f_output_ids r' = f_output_ids r" "f_sampling_params r' = f_sampling_params r" "\<not> hit \<Longrightarrow> r' = r"
    "hit \<Longrightarrow> \<exists>n\<le>length (f_output_ids r). f_finished_len r' = Some n"
proof -
  have "length (f_output_ids r) - length (last_n k (f_output_ids r)) + i + 1 \<le> length (f_output_ids r)"
    if "first_stop_token r 0 (last_n k (f_output_ids r)) = Some (i, t)" for i t
    using first_stop_token_Some [OF that] length_last_n [of k "f_output_ids r"] by linarith
  then show "f_output_ids r' = f_output_ids r" "f_sampling_params r' = f_sampling_params r" "\<not> hit \<Longrightarrow> r' = r"
    "hit \<Longrightarrow> \<exists>n\<le>length (f_output_ids r). f_finished_len r' = Some n"
    using assms by (auto simp: check_token_based_finish_def Let_def split: option.splits if_splits)
qed

section \<open>Properties\<close>

text \<open>
  Property C22: whatever check ends a request, the position at which its output is cut lies inside the output and
  within the budget of new tokens, even when one step accepts a run of tokens that crosses the budget.
\<close>

theorem finished_len_within_budget:
  assumes "update_finish_state search new_accepted_len r = Inr r'" "f_finished_len r = None" "f_finished_len r' = Some n"
  shows "n \<le> sp_max_new_tokens (f_sampling_params r) \<and> n \<le> length (f_output_ids r')"
proof -
  have unf: "\<not> finished r" "f_to_finish r = None" using assms by (auto simp: update_finish_state_def split: if_splits)
  let ?new = "last_n new_accepted_len (f_output_ids r)"
  obtain bad r1 where v: "check_vocab_boundary_finish ?new r = (bad, r1)" by fastforce
  note v' = vocab_ok [OF v]
  show ?thesis
  proof (cases bad)
    case True
    then have "r' = cap_finished_len_at_max_new_tokens r1" using assms(1) unf v by (simp add: update_finish_state_def)
    then show ?thesis using cap_bound [of r1 n] v'(1-3) assms(3) True by auto
  next
    case False
    then have r1: "r1 = r" using v'(4) by simp
    have u: "rbind (check_str_based_finish search new_accepted_len r) (\<lambda>(str_hit, r).
        if str_hit then Inr (cap_finished_len_at_max_new_tokens r)
        else let (tok_hit, r) = check_token_based_finish ?new r in
          if tok_hit then Inr (cap_finished_len_at_max_new_tokens r)
          else if length (f_output_ids r) \<ge> sp_max_new_tokens (f_sampling_params r)
          then Inr (r\<lparr>f_finished_reason := Some (FINISH_LENGTH (sp_max_new_tokens (f_sampling_params r))),
                      f_finished_len := Some (sp_max_new_tokens (f_sampling_params r))\<rparr>)
          else if f_grammar_terminated r = Some True
          then (if f_output_ids r = [] then Inl IndexError
                else Inr (r\<lparr>f_finished_reason := Some (FINISH_MATCHED_TOKEN (last (f_output_ids r)))\<rparr>))
          else Inr r) = Inr r'"
      using assms(1) unf v False r1 by (simp add: update_finish_state_def)
    then obtain hit r2 where s: "check_str_based_finish search new_accepted_len r = Inr (hit, r2)" by (auto simp: rbind_eq_Inr)
    note s' = check_str_ok [OF s, unfolded str_checked_def]
    obtain hit3 r3 where k: "check_token_based_finish ?new r2 = (hit3, r3)" by fastforce
    have k2: "check_token_based_finish (last_n new_accepted_len (f_output_ids r2)) r2 = (hit3, r3)" using k s' by simp
    show ?thesis
      using u s k s' token_ok [OF k2] cap_bound [of r2 n] cap_bound [of r3 n] assms(2,3) by (fastforce split: if_splits)
  qed
qed

definition demo_fin :: fin_req where
  "demo_fin = \<lparr>f_output_ids = [4, 9, 5, 6],
     f_sampling_params = \<lparr>sp_max_new_tokens = 3, sp_ignore_eos = False, sp_stop_token_ids = [9], sp_stop_strs = [], sp_stop_regex_strs = [],
       sp_stop_str_max_len = 0, sp_stop_regex_max_len = 0\<rparr>,
     f_tokenizer = None, f_eos_token_ids = [], f_vocab_size = Some 100, f_decoded_text = [], f_grammar_terminated = None,
     f_finished_reason = None, f_finished_len = None, f_to_finish = None\<rparr>"

lemmas demo_steps = update_finish_state_def demo_fin_def finished_def last_n_def check_vocab_boundary_finish_def
  check_str_based_finish_def check_token_based_finish_def is_stop_token_def cap_finished_len_at_max_new_tokens_def

theorem finished_len_within_budget_witness:
  "update_finish_state (\<lambda>_ _. None) 3 demo_fin = Inr (demo_fin\<lparr>f_finished_reason := Some (FINISH_MATCHED_TOKEN 9), f_finished_len := Some 2\<rparr>) \<and>
   2 \<le> sp_max_new_tokens (f_sampling_params demo_fin)"
proof -
  have u: "update_finish_state (\<lambda>_ _. None) 3 demo_fin = Inr (demo_fin\<lparr>f_finished_reason := Some (FINISH_MATCHED_TOKEN 9), f_finished_len := Some 2\<rparr>)"
    by (simp add: demo_steps)
  show ?thesis using u finished_len_within_budget [OF u] by (simp add: demo_fin_def)
qed

lemma check_stop_strs_False: "check_stop_strs k tail strs r = Inr (False, r') \<Longrightarrow> s \<in> set strs \<Longrightarrow> \<not> str_in s tail \<and> \<not> str_in s (f_decoded_text r)"
  by (induction strs) (auto simp: Let_def rbind_eq_Inr split: if_splits)



text \<open>
  Property C24: the abort for an invalid stop expression can be lost. The check of strings reports no hit after recording the
  abort, so the later checks still run, and when the output has reached its budget the recorded reason is
  replaced by an ordinary length finish.
\<close>

theorem invalid_regex_abort_is_overwritten:
  assumes "\<not> finished r" "f_to_finish r = None" "f_tokenizer r = Some tz"
    "sp_stop_strs (f_sampling_params r) = []" "sp_stop_regex_strs (f_sampling_params r) = regex # regexes" "\<And>t. search regex t = None"
    "first_invalid_token (f_vocab_size r) 0 (last_n new_accepted_len (f_output_ids r)) = None"
    "sp_ignore_eos (f_sampling_params r)" "sp_max_new_tokens (f_sampling_params r) \<le> length (f_output_ids r)"
  shows "map_sum id f_finished_reason (update_finish_state search new_accepted_len r) =
    Inr (Some (FINISH_LENGTH (sp_max_new_tokens (f_sampling_params r))))"
  using assms by (simp add: update_finish_state_def check_vocab_boundary_finish_def check_str_based_finish_def tail_str_def decode_def
      check_token_based_finish_def Let_def)

definition demo_regex :: fin_req where
  "demo_regex = demo_fin\<lparr>f_sampling_params := (f_sampling_params demo_fin)\<lparr>sp_stop_regex_strs := [''(''], sp_ignore_eos := True\<rparr>,
     f_tokenizer := Some \<lparr>tz_decode = (\<lambda>_. ''x''), tz_eos_token_id = None, tz_additional_stop_token_ids = []\<rparr>\<rparr>"

theorem invalid_regex_abort_is_overwritten_witness:
  "map_sum id f_finished_reason (update_finish_state (\<lambda>_ _. None) 1 demo_regex) = Inr (Some (FINISH_LENGTH 3))"
  using invalid_regex_abort_is_overwritten [of demo_regex _ "''(''" "[]" "\<lambda>_ _. None" 1]
  by (simp add: demo_regex_def demo_fin_def finished_def last_n_def)

end
