(* ===== verification/Alloc_Kernel.thy ===== *)
theory Alloc_Kernel
  imports KV_Prelude "HOL-Library.Multiset"
begin

text \<open>
  The page-filling kernels of the paged KV allocator: the Triton kernels
  \<^verbatim>\<open>alloc_extend_kernel\<close> and \<^verbatim>\<open>alloc_decode_kernel\<close> of
  \<^verbatim>\<open>kernels/ops/memory/allocator.py\<close> and the vectorised \<open>alloc_extend_naive\<close> of
  \<^verbatim>\<open>mem_cache/allocator/paged.py\<close>. A kernel launch is one program per request; each program
  is the list of its stores \<open>(offset, value)\<close>, and the launch applies the stores of all
  programs to the uninitialised output tensor. Two parameters stand for what the hardware
  decides: \<open>other\<close> is the constant a masked-off lane of a load without \<^verbatim>\<open>other=\<close>
  carries, and \<open>mem\<close> the memory outside a tensor that an out-of-range load reads.
  The reference definition \<open>extend_slots\<close> serves the requests one after the other from the
  front of the free list; the theory shows that both kernels compute it.
\<close>

section \<open>Sizes\<close>

fun bit_length :: "nat \<Rightarrow> nat" where
  "bit_length n = (if n = 0 then 0 else Suc (bit_length (n div 2)))"

declare bit_length.simps [simp del]

definition next_power_of_2 :: "nat \<Rightarrow> nat" where
  "next_power_of_2 n = (if n > 0 then 2 ^ bit_length (n - 1) else 1)"

text \<open>New pages one request needs, and \<open>get_num_new_pages\<close> of \<^verbatim>\<open>utils/common.py\<close>.\<close>

definition new_pages :: "int \<Rightarrow> int \<Rightarrow> int \<Rightarrow> int" where
  "new_pages p pre_len seq_len = (seq_len + p - 1) div p - (pre_len + p - 1) div p"

definition get_num_new_pages :: "int list \<Rightarrow> int \<Rightarrow> int list option \<Rightarrow> bool \<Rightarrow> int result" where
  "get_num_new_pages seq_lens p prefix_lens decode =
     (if prefix_lens = None \<or> decode
      then rbind (py_assert decode ''decode'')
             (\<lambda>_. Inr (sum_list (map (\<lambda>s. if s mod p = 1 then 1 else 0) seq_lens)))
      else Inr (sum_list (map2 (new_pages p) (the prefix_lens) seq_lens)))"

section \<open>Loads and stores\<close>

definition lane_load :: "int \<Rightarrow> int list \<Rightarrow> nat \<Rightarrow> nat \<Rightarrow> int" where
  "lane_load other xs pid lane = (if lane \<le> pid then xs ! lane else other)"

definition tl_load :: "(int \<Rightarrow> int) \<Rightarrow> int list \<Rightarrow> int \<Rightarrow> int" where
  "tl_load mem xs i = (if 0 \<le> i \<and> i < int (length xs) then xs ! nat i else mem i)"

definition tl_store :: "int \<times> int \<Rightarrow> int list \<Rightarrow> int list" where
  "tl_store st out = (let (i, v) = st in if 0 \<le> i \<and> i < int (length out) then out[nat i := v] else out)"

definition launch :: "(nat \<Rightarrow> (int \<times> int) list) \<Rightarrow> nat \<Rightarrow> int list \<Rightarrow> int list" where
  "launch program bs out = fold tl_store (concat (map program [0..<bs])) out"

text \<open>\<^verbatim>\<open>tl.arange(0, n)\<close> restricted to the lanes whose mask holds.\<close>

definition lanes :: "int \<Rightarrow> (int \<Rightarrow> bool) \<Rightarrow> int list" where
  "lanes n msk = filter msk (map int [0..<nat n])"

section \<open>The kernels\<close>

definition alloc_extend_kernel ::
  "int \<Rightarrow> (int \<Rightarrow> int) \<Rightarrow> int list \<Rightarrow> int list \<Rightarrow> int list \<Rightarrow> int list \<Rightarrow> nat \<Rightarrow> int \<Rightarrow> nat
     \<Rightarrow> (int \<times> int) list" where
  "alloc_extend_kernel other mem pre_lens_ptr seq_lens_ptr last_loc_ptr free_page_ptr bs_upper p pid =
    (let seq_lens = map (lane_load other seq_lens_ptr pid) [0..<bs_upper];
         pre_lens = map (lane_load other pre_lens_ptr pid) [0..<bs_upper];
         extend_lens = map2 (-) seq_lens pre_lens;
         seq_len = seq_lens_ptr ! pid;
         pre_len = pre_lens_ptr ! pid;
         extend_len = seq_len - pre_len;
         sum_extend_lens = sum_list extend_lens;
         output_start_loc = sum_extend_lens - extend_len;
         num_pages_after = map (\<lambda>s. (s + p - 1) div p) seq_lens;
         num_pages_before = map (\<lambda>s. (s + p - 1) div p) pre_lens;
         num_new_pages = map2 (-) num_pages_after num_pages_before;
         num_page_start_loc_self = (seq_len + p - 1) div p - (pre_len + p - 1) div p;
         new_page_start_loc = sum_list num_new_pages - num_page_start_loc_self;
         last_loc = last_loc_ptr ! pid;
         num_part1 = min seq_len ((pre_len + p - 1) div p * p) - pre_len;
         part1 = map (\<lambda>i. (output_start_loc + i, last_loc + 1 + i)) (lanes p (\<lambda>i. i < num_part1))
     in if pre_len + num_part1 = seq_len then part1
        else
          let num_part2 = seq_len div p * p - (pre_len + p - 1) div p * p;
              num_blocks = (num_part2 + 4096 - 1) div 4096;
              part2 = concat (map (\<lambda>block_id.
                  map (\<lambda>i. let offset = block_id * 4096 + i;
                            page_start = tl_load mem free_page_ptr (new_page_start_loc + offset div p)
                        in (output_start_loc + num_part1 + offset, page_start * p + offset mod p))
                    (lanes 4096 (\<lambda>i. block_id * 4096 + i < num_part2)))
                (map int [0..<nat num_blocks]))
          in if pre_len + num_part1 + num_part2 = seq_len then part1 @ part2
             else
               let num_part3 = seq_len - seq_len div p * p;
                   start_loc = tl_load mem free_page_ptr
                     (new_page_start_loc + num_page_start_loc_self - 1);
                   part3 = map (\<lambda>i. (output_start_loc + num_part1 + num_part2 + i, start_loc * p + i))
                     (lanes p (\<lambda>i. i < num_part3))
               in part1 @ part2 @ part3)"

definition alloc_decode_kernel ::
  "int \<Rightarrow> (int \<Rightarrow> int) \<Rightarrow> int list \<Rightarrow> int list \<Rightarrow> int list \<Rightarrow> nat \<Rightarrow> int \<Rightarrow> nat \<Rightarrow> (int \<times> int) list" where
  "alloc_decode_kernel other mem seq_lens_ptr last_loc_ptr free_page_ptr bs_upper p pid =
    (let seq_lens = map (lane_load other seq_lens_ptr pid) [0..<bs_upper];
         pre_lens = map (\<lambda>lane. let s = seq_lens ! lane in if lane \<le> pid then s - 1 else s) [0..<bs_upper];
         seq_len = seq_lens_ptr ! pid;
         pre_len = seq_len - 1;
         num_pages_after = map (\<lambda>s. (s + p - 1) div p) seq_lens;
         num_pages_before = map (\<lambda>s. (s + p - 1) div p) pre_lens;
         num_new_pages = map2 (-) num_pages_after num_pages_before;
         num_page_start_loc_self = (seq_len + p - 1) div p - (pre_len + p - 1) div p;
         new_page_start_loc = sum_list num_new_pages - num_page_start_loc_self
     in if num_page_start_loc_self = 0
        then [(int pid, last_loc_ptr ! pid + 1)]
        else [(int pid, tl_load mem free_page_ptr new_page_start_loc * p)])"

text \<open>
  \<open>alloc_extend_naive\<close>: the same as one vectorised computation over the output positions.
  \<^verbatim>\<open>torch.searchsorted(end_pos, j, right=True)\<close> on the sorted \<open>end_pos\<close> is the number of
  entries that are at most \<open>j\<close>; indexing a tensor out of range raises.
\<close>

fun cumsum :: "int \<Rightarrow> int list \<Rightarrow> int list" where
  "cumsum acc [] = []"
| "cumsum acc (x # xs) = (acc + x) # cumsum (acc + x) xs"

definition searchsorted_right :: "int list \<Rightarrow> int \<Rightarrow> nat" where
  "searchsorted_right xs j = length (takeWhile (\<lambda>x. x \<le> j) xs)"

text \<open>The elementwise computations per request and per output position.\<close>

definition naive_ceil :: "int \<Rightarrow> int \<Rightarrow> int" where
  "naive_ceil p x = (x + p - 1) div p * p"

definition naive_num1 :: "int \<Rightarrow> int \<Rightarrow> int \<Rightarrow> int" where
  "naive_num1 p prefix_len seq_len = min seq_len (naive_ceil p prefix_len) - prefix_len"

definition naive_num2 :: "int \<Rightarrow> int \<Rightarrow> int \<Rightarrow> int" where
  "naive_num2 p prefix_len seq_len =
     (let done_after_1 = (prefix_len + naive_num1 p prefix_len seq_len = seq_len);
          floor_seq = seq_len div p * p
      in if done_after_1 then 0 else floor_seq - naive_ceil p prefix_len)"

definition naive_num3 :: "int \<Rightarrow> int \<Rightarrow> int \<Rightarrow> int" where
  "naive_num3 p prefix_len seq_len =
     (let done_after_1 = (prefix_len + naive_num1 p prefix_len seq_len = seq_len);
          floor_seq = seq_len div p * p
      in if done_after_1 then 0 else seq_len - floor_seq)"

definition naive_pages_per_req :: "int \<Rightarrow> int \<Rightarrow> int \<Rightarrow> int" where
  "naive_pages_per_req p prefix_len seq_len =
     (let full_pages = naive_num2 p prefix_len seq_len div p;
          need_extra_page = (if naive_num3 p prefix_len seq_len > 0 then 1 else 0)
      in full_pages + need_extra_page)"

definition naive_slot :: "int list \<Rightarrow> int \<Rightarrow> int \<Rightarrow> int \<Rightarrow> int \<Rightarrow> int \<Rightarrow> int \<Rightarrow> int \<Rightarrow> int" where
  "naive_slot free_pages p last_loc_g num1_g num2_g start_new_pages_g end_new_pages_g local =
     (let top = int (length free_pages) - 1;
          is_phase1 = local < num1_g;
          is_phase2 = (\<not> is_phase1 \<and> local < num1_g + num2_g);
          val_phase1 = last_loc_g + 1 + local;
          rel2 = max 0 (local - num1_g);
          page_idx2 = min top (max 0 (start_new_pages_g + rel2 div p));
          pos_in_page2 = rel2 mod p;
          val_phase2 = free_pages ! nat page_idx2 * p + pos_in_page2;
          rel3 = max 0 (local - num1_g - num2_g);
          page_idx3 = min top (max 0 (end_new_pages_g - 1));
          val_phase3 = free_pages ! nat page_idx3 * p + rel3
      in if is_phase1 then val_phase1 else if is_phase2 then val_phase2 else val_phase3)"

definition alloc_extend_naive ::
  "int list \<Rightarrow> int list \<Rightarrow> int list \<Rightarrow> int list \<Rightarrow> int list \<Rightarrow> int \<Rightarrow> int list result" where
  "alloc_extend_naive prefix_lens seq_lens last_loc free_pages out_indices p =
    (let extend_lens = map2 (-) seq_lens prefix_lens;
         end_pos = cumsum 0 extend_lens;
         start_pos = map2 (-) end_pos extend_lens;
         extend_num_tokens = length out_indices;
         j = map int [0..<extend_num_tokens];
         owner = map (searchsorted_right end_pos) j;
         local = map2 (\<lambda>i k. i - start_pos ! k) j owner;
         ceil_prefix = map (naive_ceil p) prefix_lens;
         ceil_seq = map (naive_ceil p) seq_lens;
         num1 = map2 (naive_num1 p) prefix_lens seq_lens;
         num2 = map2 (naive_num2 p) prefix_lens seq_lens;
         pages_per_req = map2 (naive_pages_per_req p) prefix_lens seq_lens;
         end_new_pages = cumsum 0 pages_per_req;
         start_new_pages = map2 (-) end_new_pages pages_per_req
     in if extend_num_tokens = 0 then Inr out_indices
        else if \<not> list_all (\<lambda>k. k < length start_pos \<and> k < length last_loc) owner then Inl IndexError
        else if free_pages = [] then
          rbind (py_assert (ceil_seq = ceil_prefix) ''free_pages is empty'')
            (\<lambda>_. Inr (map2 (\<lambda>k i. last_loc ! k + 1 + i) owner local))
        else Inr (map2 (\<lambda>k i. naive_slot free_pages p (last_loc ! k) (num1 ! k) (num2 ! k)
                                (start_new_pages ! k) (end_new_pages ! k) i) owner local))"


section \<open>The sequential specification\<close>

text \<open>
  The slot of logical position \<open>q\<close> of a request: positions on the page that the prefix
  already started continue after the last slot, later ones sit at their page offset in the
  next new page.
\<close>


definition request_slots :: "int \<Rightarrow> int \<Rightarrow> int \<Rightarrow> int \<Rightarrow> int list \<Rightarrow> int list" where
  "request_slots p pre_len seq_len last_loc pages =
     map (\<lambda>i. let q = pre_len + int i; c = (pre_len + p - 1) div p * p
              in if q < c then last_loc + 1 + int i
                 else pages ! nat ((q - c) div p) * p + q mod p)
       [0..<nat (seq_len - pre_len)]"

fun extend_slots :: "int \<Rightarrow> (int \<times> int \<times> int) list \<Rightarrow> int list \<Rightarrow> int list" where
  "extend_slots p [] pages = []"
| "extend_slots p ((pre_len, seq_len, last_loc) # rs) pages =
     request_slots p pre_len seq_len last_loc pages
     @ extend_slots p rs (drop (nat (new_pages p pre_len seq_len)) pages)"

definition store_seq :: "int \<Rightarrow> int list \<Rightarrow> (int \<times> int) list" where
  "store_seq s vs = map (\<lambda>i. (s + int i, vs ! i)) [0..<length vs]"

lemma store_seq_append: "store_seq s (xs @ ys) = store_seq s xs @ store_seq (s + int (length xs)) ys"
proof -
  have "[0..<length (xs @ ys)] = [0..<length xs] @ map (\<lambda>i. i + length xs) [0..<length ys]"
    by (simp add: map_add_upt upt_add_eq_append [of 0 "length xs" "length ys", simplified] add.commute)
  then show ?thesis
    by (simp add: store_seq_def nth_append o_def algebra_simps)
qed

lemma fold_tl_store_seq:
  "0 \<le> s \<Longrightarrow> nat s + length vs \<le> length out \<Longrightarrow>
   fold tl_store (store_seq s vs) out = take (nat s) out @ vs @ drop (nat s + length vs) out"
proof (induction vs rule: rev_induct)
  case (snoc v vs)
  have len: "nat s + length vs < length out" using snoc.prems by simp
  then have "s + int (length vs) < int (length out)" using snoc.prems by linarith
  moreover have "nat (s + int (length vs)) = nat s + length vs" using snoc.prems by simp
  moreover have "fold tl_store (store_seq s vs) out = take (nat s) out @ vs @ out ! (nat s + length vs) # drop (Suc (nat s + length vs)) out"
    using snoc len by (simp add: Cons_nth_drop_Suc)
  moreover have "store_seq (s + int (length vs)) [v] = [(s + int (length vs), v)]"
    by (simp add: store_seq_def)
  ultimately show ?case
    using snoc.prems len by (simp only: store_seq_append fold_append comp_def)
      (simp add: tl_store_def list_update_append min_def)
qed (simp add: store_seq_def)

lemma sum_lanes:
  fixes f :: "int \<Rightarrow> int"
  assumes "pid < n"
  shows "sum_list (map2 (-) (map f (map (lane_load other xs pid) [0..<n])) (map f (map (lane_load other ys pid) [0..<n])))
       = (\<Sum>i\<le>pid. f (xs ! i) - f (ys ! i))"
proof -
  have "sum_list (map2 (-) (map f (map (lane_load other xs pid) [0..<n])) (map f (map (lane_load other ys pid) [0..<n])))
     = sum_list (map (\<lambda>i. if i \<le> pid then f (xs ! i) - f (ys ! i) else 0) [0..<n])"
    by (simp add: map2_map_map lane_load_def o_def if_distrib cong: if_cong map_cong)
  also have "\<dots> = (\<Sum>i\<in>{0..<n}. if i \<le> pid then f (xs ! i) - f (ys ! i) else 0)"
    by (simp add: interv_sum_list_conv_sum_set_nat)
  also have "\<dots> = (\<Sum>i\<le>pid. f (xs ! i) - f (ys ! i))"
    using assms by (intro sum.mono_neutral_cong_right) auto
  finally show ?thesis .
qed

lemma lanes_less: "lanes n (\<lambda>i. i < m) = map int [0..<nat (min n m)]"
proof -
  have *: "filter (\<lambda>i. int i < m) [0..<k] = [0..<min k (nat m)]" for k
  proof (induction k)
    case (Suc k)
    show ?case
    proof (cases "int k < m")
      case True
      then have "min k (nat m) = k" "min (Suc k) (nat m) = Suc k" by simp_all
      with Suc True show ?thesis by simp
    next
      case False
      then have "min k (nat m) = nat m" "min (Suc k) (nat m) = nat m" by simp_all
      with Suc False show ?thesis by simp
    qed
  qed simp
  have "min (nat n) (nat m) = nat (min n m)" by simp
  then show ?thesis by (simp add: lanes_def filter_map o_def *)
qed

lemma upt_int_shift: "map (\<lambda>i. int a + i) (map int [0..<k]) = map int [a..<a + k]"
  by (rule nth_equalityI) simp_all

lemma blocks_upto:
  assumes "0 < B"
  shows "concat (map (\<lambda>b. map (\<lambda>i. b * B + i) (lanes B (\<lambda>i. b * B + i < n))) (map int [0..<k]))
    = map int [0..<nat (min (int k * B) n)]"
proof (induction k)
  case (Suc k)
  define a where "a = nat (int k * B)"
  have a: "int k * B = int a" using assms by (simp add: a_def)
  have l: "lanes B (\<lambda>i. int k * B + i < n) = map int [0..<nat (min B (n - int a))]"
    using lanes_less [of B "n - int a"] by (simp add: a less_diff_eq add.commute)
  have m: "map (\<lambda>i. int a + i) (map int [0..<nat (min B (n - int a))])
      = map int [a..<a + nat (min B (n - int a))]"
    by (rule upt_int_shift)
  have e: "int (Suc k) * B = int a + B" using a by (simp add: algebra_simps)
  have sum: "[0..<nat (min (int a) n)] @ [a..<a + nat (min B (n - int a))]
      = [0..<nat (min (int a + B) n)]"
  proof (cases "int a \<le> n")
    case True
    have "nat (min (int a + B) n) = nat (int a + min B (n - int a))"
      by (simp add: min_add_distrib_right)
    also have "\<dots> = a + nat (min B (n - int a))"
      using True assms by (simp add: nat_add_distrib)
    finally have "nat (min (int a + B) n) = a + nat (min B (n - int a))" .
    with True show ?thesis
      using upt_add_eq_append [of 0 a "nat (min B (n - int a))"] by simp
  next
    case False
    then have "min (int a + B) n = n" "min B (n - int a) \<le> 0" using assms by linarith+
    with False show ?thesis by simp
  qed
  have "concat (map (\<lambda>b. map (\<lambda>i. b * B + i) (lanes B (\<lambda>i. b * B + i < n))) (map int [0..<Suc k]))
      = map int [0..<nat (min (int a) n)] @ map int [a..<a + nat (min B (n - int a))]"
    using Suc.IH l m by (simp only: upt_Suc_append map_append concat_append list.map concat.simps append_Nil2 a zero_le)
  also have "\<dots> = map int [0..<nat (min (int a + B) n)]"
    by (simp only: map_append [symmetric] sum)
  finally show ?case by (simp only: e)
qed simp

lemma blocks_concat:
  assumes "0 < B"
  shows "concat (map (\<lambda>b. map (\<lambda>i. b * B + i) (lanes B (\<lambda>i. b * B + i < n))) (map int [0..<nat ((n + B - 1) div B)]))
    = map int [0..<nat n]"
proof -
  have "n \<le> ceil_align n B" by (rule ceil_align_ge [OF assms])
  then have "nat (min (int (nat ((n + B - 1) div B)) * B) n) = nat n"
  proof (cases "0 \<le> n")
    case True
    then have "0 \<le> (n + B - 1) div B" using assms by (simp add: pos_imp_zdiv_nonneg_iff)
    with True \<open>n \<le> ceil_align n B\<close> show ?thesis by (simp add: ceil_align_def ceil_div_def)
  qed simp
  then show ?thesis using blocks_upto [OF assms] by simp
qed

lemma ceil_quotient:
  fixes p :: int
  assumes "0 < p"
  shows "(x + p - 1) div p = (if x mod p = 0 then x div p else x div p + 1)"
proof -
  have x: "x = x div p * p + x mod p" by simp
  have b: "0 \<le> x mod p" "x mod p < p" using assms by simp_all
  have "(x + p - 1) div p = x div p + (x mod p + p - 1) div p"
    using assms div_mult_self3 [of p "x div p" "x mod p + p - 1"]
    by (simp add: algebra_simps)
  also have "(x mod p + p - 1) div p = (if x mod p = 0 then 0 else 1)"
  proof (cases "x mod p = 0")
    case False
    then have "(x mod p + p - 1) div p = (x mod p - 1 + 1 * p) div p" by (simp add: algebra_simps)
    also have "\<dots> = 1 + (x mod p - 1) div p" using assms by (subst div_mult_self1) simp_all
    also have "(x mod p - 1) div p = 0" using b False by (intro div_pos_pos_trivial) linarith+
    finally show ?thesis using False by simp
  qed (use assms in simp)
  finally show ?thesis by simp
qed

lemma int_div_lessI: "0 < p \<Longrightarrow> x < k * p \<Longrightarrow> x div p < (k :: int)"
proof (rule ccontr)
  assume p: "0 < p" and x: "x < k * p" and "\<not> x div p < k"
  then have "k * p \<le> x div p * p" by (simp add: mult_right_mono)
  moreover have "x div p * p \<le> x"
    using minus_div_mult_eq_mod [of x p] pos_mod_sign [OF p, of x] by linarith
  ultimately show False using x by linarith
qed

lemma upt_split3:
  assumes "k = k1 + k2 + k3"
  shows "map f [0..<k] = map f [0..<k1] @ map (\<lambda>i. f (k1 + i)) [0..<k2] @ map (\<lambda>i. f (k1 + k2 + i)) [0..<k3]"
  by (rule nth_equalityI) (auto simp: assms nth_append)

text \<open>The slots of one request split into the old partial page, full pages, and a last partial page.\<close>

lemma request_slots_one_page:
  assumes "0 < p" "pre_len \<le> seq_len" "seq_len \<le> (pre_len + p - 1) div p * p"
  shows "request_slots p pre_len seq_len last_loc pages = map (\<lambda>i. last_loc + 1 + int i) [0..<nat (seq_len - pre_len)]"
  unfolding request_slots_def Let_def using assms by (intro map_cong) auto

lemma request_slots_split:
  fixes p pre_len seq_len last_loc :: int and pages :: "int list"
  defines "A \<equiv> (pre_len + p - 1) div p" and "F \<equiv> seq_len div p"
  assumes p: "0 < p" and le: "pre_len \<le> seq_len" and more: "A * p < seq_len"
  shows "request_slots p pre_len seq_len last_loc pages =
      map (\<lambda>i. last_loc + 1 + int i) [0..<nat (A * p - pre_len)]
    @ map (\<lambda>i. pages ! nat (int i div p) * p + int i mod p) [0..<nat (F * p - A * p)]
    @ map (\<lambda>i. pages ! nat (F - A) * p + int i) [0..<nat (seq_len - F * p)]"
proof -
  have pre: "pre_len \<le> A * p" using ceil_align_ge [OF p, of pre_len] by (simp add: A_def ceil_align_def ceil_div_def)
  have AF: "A * p \<le> F * p"
  proof -
    have "A \<le> F" unfolding F_def using zdiv_mono1 [OF less_imp_le [OF more] p] p by simp
    then show ?thesis using p by simp
  qed
  have F: "F * p \<le> seq_len" "seq_len - F * p < p"
    using minus_div_mult_eq_mod [of seq_len p] pos_mod_sign [OF p, of seq_len]
      pos_mod_bound [OF p, of seq_len] unfolding F_def by linarith+
  have k: "nat (seq_len - pre_len) = nat (A * p - pre_len) + nat (F * p - A * p) + nat (seq_len - F * p)"
    using pre AF F(1) by (simp add: nat_add_distrib [symmetric])
  have e1: "pre_len + int i < A * p \<longleftrightarrow> i < nat (A * p - pre_len)" for i
    using pre by linarith
  have e2: "pre_len + int (nat (A * p - pre_len) + i) = A * p + int i" for i
    using pre by simp
  have e3: "pre_len + int (nat (A * p - pre_len) + nat (F * p - A * p) + i) = F * p + int i" for i
    using pre AF by simp
  have d2: "(A * p + int i - A * p) div p = int i div p" "(A * p + int i) mod p = int i mod p" for i
    by simp_all
  have d3: "(F * p + int i - A * p) div p = F - A" "int i mod p = int i" if "i < nat (seq_len - F * p)" for i
  proof -
    have i: "int i < p" using that F by linarith
    have e: "F * p + int i - A * p = (F - A) * p + int i" by (simp add: algebra_simps)
    show "(F * p + int i - A * p) div p = F - A" unfolding e using p i by simp
    show "int i mod p = int i" using i by simp
  qed
  show ?thesis
    unfolding request_slots_def Let_def A_def [symmetric] upt_split3 [OF k] e2 e3 d2
    using AF by (intro arg_cong2 [where f = append] map_cong refl) (simp_all add: e1 d3)
qed

lemma blocks_map:
  assumes "0 < B"
  shows "concat (map (\<lambda>b. map (\<lambda>i. g (b * B + i)) (lanes B (\<lambda>i. b * B + i < n))) (map int [0..<nat ((n + B - 1) div B)]))
    = map g (map int [0..<nat n])"
  by (simp only: blocks_concat [OF assms, of n, symmetric] map_concat map_map o_def)

lemma tl_load_drop:
  "0 \<le> base \<Longrightarrow> 0 \<le> k \<Longrightarrow> base + k < int (length xs) \<Longrightarrow>
   tl_load mem xs (base + k) = drop (nat base) xs ! nat k"
  by (simp add: tl_load_def nat_add_distrib)

definition tokens_before :: "int list \<Rightarrow> int list \<Rightarrow> nat \<Rightarrow> int" where
  "tokens_before pre_lens seq_lens k = (\<Sum>i<k. seq_lens ! i - pre_lens ! i)"

definition pages_before :: "int \<Rightarrow> int list \<Rightarrow> int list \<Rightarrow> nat \<Rightarrow> int" where
  "pages_before p pre_lens seq_lens k = (\<Sum>i<k. new_pages p (pre_lens ! i) (seq_lens ! i))"

lemma extend_kernel_parts:
  fixes p :: int
  assumes pid: "pid < bs_upper"
  shows "alloc_extend_kernel other mem pre_lens seq_lens last_loc free bs_upper p pid =
    (let s = seq_lens ! pid; q = pre_lens ! pid; l = last_loc ! pid;
         S = tokens_before pre_lens seq_lens pid; B = pages_before p pre_lens seq_lens pid;
         A = (q + p - 1) div p; F = s div p; C = (s + p - 1) div p;
         n1 = min s (A * p) - q; n2 = F * p - A * p;
         part1 = map (\<lambda>i. (S + i, l + 1 + i)) (lanes p (\<lambda>i. i < n1));
         part2 = map (\<lambda>i. (S + n1 + i, tl_load mem free (B + i div p) * p + i mod p)) (map int [0..<nat n2]);
         part3 = map (\<lambda>i. (S + n1 + n2 + i, tl_load mem free (B + (C - A) - 1) * p + i)) (lanes p (\<lambda>i. i < s - F * p))
     in if q + n1 = s then part1 else if q + n1 + n2 = s then part1 @ part2 else part1 @ part2 @ part3)"
proof -
  let ?S = "tokens_before pre_lens seq_lens pid" and ?B = "pages_before p pre_lens seq_lens pid"
  let ?s = "seq_lens ! pid" and ?q = "pre_lens ! pid" and ?l = "last_loc ! pid"
  have start: "sum_list (map2 (-) (map (lane_load other seq_lens pid) [0..<bs_upper]) (map (lane_load other pre_lens pid) [0..<bs_upper])) - (?s - ?q) = ?S"
    using sum_lanes [OF pid, of "\<lambda>x. x" other seq_lens pre_lens] by (simp add: lessThan_Suc_atMost [symmetric] tokens_before_def)
  have pages: "sum_list (map2 (-) (map (\<lambda>s. (s + p - 1) div p) (map (lane_load other seq_lens pid) [0..<bs_upper]))
       (map (\<lambda>s. (s + p - 1) div p) (map (lane_load other pre_lens pid) [0..<bs_upper])))
     - ((?s + p - 1) div p - (?q + p - 1) div p) = ?B"
    using sum_lanes [OF pid, of "\<lambda>s. (s + p - 1) div p" other seq_lens pre_lens]
    by (simp add: lessThan_Suc_atMost [symmetric] pages_before_def new_pages_def del: map_map)
  define A where "A = (?q + p - 1) div p"
  define F where "F = ?s div p"
  define C where "C = (?s + p - 1) div p"
  have blk: "concat (map (\<lambda>b. map (\<lambda>i. (?S + (min ?s (A * p) - ?q) + (b * 4096 + i),
            tl_load mem free (?B + (b * 4096 + i) div p) * p + (b * 4096 + i) mod p))
          (lanes 4096 (\<lambda>i. b * 4096 + i < F * p - A * p))) (map int [0..<nat ((F * p - A * p + 4096 - 1) div 4096)]))
      = map (\<lambda>i. (?S + (min ?s (A * p) - ?q) + i, tl_load mem free (?B + i div p) * p + i mod p)) (map int [0..<nat (F * p - A * p)])"
    by (rule blocks_map) simp
  show ?thesis
    unfolding alloc_extend_kernel_def Let_def start pages
    by (simp only: A_def [symmetric] F_def [symmetric] C_def [symmetric] blk)
qed

lemma extend_program_eq:
  fixes p :: int
  assumes p: "0 < p" and pid: "pid < bs_upper" and le: "pre_lens ! pid \<le> seq_lens ! pid"
    and base: "0 \<le> pages_before p pre_lens seq_lens pid" 
    and fits: "pages_before p pre_lens seq_lens (Suc pid) \<le> int (length free)"
  shows "alloc_extend_kernel other mem pre_lens seq_lens last_loc free bs_upper p pid =
    store_seq (tokens_before pre_lens seq_lens pid)
      (request_slots p (pre_lens ! pid) (seq_lens ! pid) (last_loc ! pid)
         (drop (nat (pages_before p pre_lens seq_lens pid)) free))"
proof -
  let ?S = "tokens_before pre_lens seq_lens pid" and ?B = "pages_before p pre_lens seq_lens pid"
  let ?s = "seq_lens ! pid" and ?q = "pre_lens ! pid" and ?l = "last_loc ! pid"
  define A where "A = (?q + p - 1) div p"
  define F where "F = ?s div p"
  define C where "C = (?s + p - 1) div p"
  note kern = extend_kernel_parts [OF pid, of other mem pre_lens seq_lens last_loc free p,
    unfolded Let_def, folded A_def F_def C_def]
  have pre: "?q \<le> A * p" "A * p - ?q < p"
    using ceil_align_ge [OF p, of ?q] ceil_align_less [OF p, of ?q] by (simp_all add: A_def ceil_align_def ceil_div_def)
  show ?thesis
  proof (cases "?s \<le> A * p")
    case True
    have "min ?s (A * p) = ?s" "min p (?s - ?q) = ?s - ?q" using True pre by simp_all
    then show ?thesis
      using request_slots_one_page [OF p le, of ?l "drop (nat ?B) free"] True
      by (simp add: kern A_def [symmetric] lanes_less store_seq_def)
  next
    case False
    then have more: "A * p < ?s" by simp
    have n1: "min ?s (A * p) = A * p" "min p (A * p - ?q) = A * p - ?q" using more pre by simp_all
    have AF: "A \<le> F" unfolding F_def using zdiv_mono1 [OF less_imp_le [OF more] p] p by simp
    have r: "?s - F * p = ?s mod p" using minus_div_mult_eq_mod [of ?s p] by (simp add: F_def)
    have C: "C = (if ?s mod p = 0 then F else F + 1)" unfolding C_def F_def by (rule ceil_quotient [OF p])
    have BC: "?B + (C - A) \<le> int (length free)" 
      using fits by (simp add: pages_before_def new_pages_def A_def C_def)
    have ld: "tl_load mem free (?B + int i div p) = drop (nat ?B) free ! nat (int i div p)" if "i < nat (F * p - A * p)" for i
    proof (rule tl_load_drop [OF base])
      have "int i < (F - A) * p" using that by (simp add: algebra_simps)
      then have "int i div p < F - A" by (rule int_div_lessI [OF p])
      then show "?B + int i div p < int (length free)" using BC C by (simp split: if_splits)
    qed (use p in \<open>simp add: pos_imp_zdiv_nonneg_iff\<close>)
    have ld3: "tl_load mem free (?B + (C - A) - 1) = drop (nat ?B) free ! nat (F - A)" if "?s mod p \<noteq> 0"
      using tl_load_drop [OF base, of "F - A" free mem] AF BC C that by simp
    let ?D = "drop (nat ?B) free"
    let ?v1 = "map (\<lambda>i. ?l + 1 + int i) [0..<nat (A * p - ?q)]"
    let ?v2 = "map (\<lambda>i. ?D ! nat (int i div p) * p + int i mod p) [0..<nat (F * p - A * p)]"
    let ?v3 = "map (\<lambda>i. ?D ! nat (F - A) * p + int i) [0..<nat (?s - F * p)]"
    have rs: "request_slots p ?q ?s ?l ?D = ?v1 @ ?v2 @ ?v3"
      unfolding A_def F_def by (rule request_slots_split [OF p le]) (use more in \<open>simp add: A_def\<close>)
    have p1: "map (\<lambda>i. (?S + i, ?l + 1 + i)) (lanes p (\<lambda>i. i < A * p - ?q)) = store_seq ?S ?v1"
      by (simp add: lanes_less n1 store_seq_def)
    have p2: "map (\<lambda>i. (?S + (A * p - ?q) + i, tl_load mem free (?B + i div p) * p + i mod p)) (map int [0..<nat (F * p - A * p)])
        = store_seq (?S + (A * p - ?q)) ?v2"
      by (simp add: store_seq_def ld)
    have p3: "map (\<lambda>i. (?S + (A * p - ?q) + (F * p - A * p) + i, tl_load mem free (?B + (C - A) - 1) * p + i)) (lanes p (\<lambda>i. i < ?s - F * p))
        = store_seq (?S + (A * p - ?q) + (F * p - A * p)) ?v3"
      using p by (simp add: lanes_less store_seq_def r ld3)
    have l: "int (length ?v1) = A * p - ?q" "int (length ?v2) = F * p - A * p"
      using pre AF p by (simp_all add: mult_right_mono)
    show ?thesis
      unfolding rs store_seq_append l kern n1 p1 p2 p3 
      using more by (auto simp: store_seq_def)
  qed
qed


lemma new_pages_nonneg: "0 < p \<Longrightarrow> pre_len \<le> seq_len \<Longrightarrow> 0 \<le> new_pages p pre_len seq_len"
  by (simp add: new_pages_def zdiv_mono1)

lemma length_request_slots [simp]: "length (request_slots p q s l pages) = nat (s - q)"
  by (simp add: request_slots_def)

definition total_new :: "int \<Rightarrow> (int \<times> int \<times> int) list \<Rightarrow> nat" where
  "total_new p rs = (\<Sum>(q, s, l)\<leftarrow>rs. nat (new_pages p q s))"

lemma extend_slots_append:
  "extend_slots p (rs @ rs') pages = extend_slots p rs pages @ extend_slots p rs' (drop (total_new p rs) pages)"
  by (induction p rs pages rule: extend_slots.induct) (simp_all add: total_new_def add.commute)

lemma tokens_before_Suc [simp]: "tokens_before ps ss (Suc k) = tokens_before ps ss k + (ss ! k - ps ! k)"
  by (simp add: tokens_before_def)

lemma pages_before_Suc [simp]: "pages_before p ps ss (Suc k) = pages_before p ps ss k + new_pages p (ps ! k) (ss ! k)"
  by (simp add: pages_before_def)

lemma tokens_pages_before_0 [simp]: "tokens_before ps ss 0 = 0" "pages_before p ps ss 0 = 0"
  by (simp_all add: tokens_before_def pages_before_def)

lemma extend_prefix_totals:
  fixes ps ss ls :: "int list"
  defines "rs \<equiv> zip ps (zip ss ls)"
  assumes p: "0 < p" and len: "length ss = length ps" "length ls = length ps"
    and le: "\<forall>i < length ps. ps ! i \<le> ss ! i" and j: "j \<le> length ps"
  shows "int (length (extend_slots p (take j rs) free)) = tokens_before ps ss j"
    and "int (total_new p (take j rs)) = pages_before p ps ss j"
proof -
  have "int (length (extend_slots p (take j rs) free)) = tokens_before ps ss j
      \<and> int (total_new p (take j rs)) = pages_before p ps ss j"
    using j
  proof (induction j)
    case (Suc j)
    then have "take (Suc j) rs = take j rs @ [(ps ! j, ss ! j, ls ! j)]"
      using len by (simp add: take_Suc_conv_app_nth rs_def)
    moreover have "ps ! j \<le> ss ! j" using Suc.prems le by simp
    ultimately show ?case
      using Suc new_pages_nonneg [OF p, of "ps ! j" "ss ! j"]
      by (simp add: extend_slots_append total_new_def)
  qed (simp add: total_new_def)
  then show "int (length (extend_slots p (take j rs) free)) = tokens_before ps ss j"
    and "int (total_new p (take j rs)) = pages_before p ps ss j" by simp_all
qed

lemma extend_slots_nth:
  assumes p: "0 < p" and len: "length ss = length ps" "length ls = length ps"
    and le: "\<forall>i < length ps. ps ! i \<le> ss ! i"
    and k: "k < length ps" and l: "0 \<le> l" "l < ss ! k - ps ! k"
  shows "extend_slots p (zip ps (zip ss ls)) free ! nat (tokens_before ps ss k + l) =
     request_slots p (ps ! k) (ss ! k) (ls ! k) (drop (nat (pages_before p ps ss k)) free) ! nat l"
proof -
  let ?rs = "zip ps (zip ss ls)"
  have rs: "?rs = take k ?rs @ (ps ! k, ss ! k, ls ! k) # drop (Suc k) ?rs"
    using k len id_take_nth_drop [of k ?rs] by simp
  have "length (extend_slots p (take k ?rs) free) = nat (tokens_before ps ss k)"
    and t: "total_new p (take k ?rs) = nat (pages_before p ps ss k)" and "0 \<le> tokens_before ps ss k"
    using extend_prefix_totals(1) [OF p len le less_imp_le [OF k], of free]
      extend_prefix_totals(2) [OF p len le less_imp_le [OF k]] by linarith+
  then show ?thesis
    using l by (subst rs) (simp add: extend_slots_append nth_append nat_add_distrib t)
qed

lemma extend_slots_totals:
  assumes p: "0 < p" and len: "length ss = length ps" "length ls = length ps"
    and le: "\<forall>i < length ps. ps ! i \<le> ss ! i"
  shows "int (length (extend_slots p (zip ps (zip ss ls)) free)) = tokens_before ps ss (length ps)"
    and "int (total_new p (zip ps (zip ss ls))) = pages_before p ps ss (length ps)"
  using extend_prefix_totals(1) [OF p len le order_refl, of free]
    extend_prefix_totals(2) [OF p len le order_refl] len by simp_all

text \<open>
  A launch whose programs each write the slots of their request, at the offset of the tokens
  and from the pages of the requests before it, writes the slots of the whole batch.
\<close>

lemma programs_stores:
  fixes ps ss ls :: "int list"
  defines "rs \<equiv> zip ps (zip ss ls)"
  assumes p: "0 < p" and len: "length ss = length ps" "length ls = length ps"
    and le: "\<forall>i < length ps. ps ! i \<le> ss ! i"
    and prog: "\<And>k. k < length ps \<Longrightarrow> program k = store_seq (tokens_before ps ss k)
       (request_slots p (ps ! k) (ss ! k) (ls ! k) (drop (nat (pages_before p ps ss k)) free))"
  shows "concat (map program [0..<length ps]) = store_seq 0 (extend_slots p rs free)"
proof -
  have "concat (map program [0..<k]) = store_seq 0 (extend_slots p (take k rs) free)" if "k \<le> length ps" for k
    using that
  proof (induction k)
    case (Suc k)
    then have k: "k < length ps" by simp
    have rsk: "take (Suc k) rs = take k rs @ [(ps ! k, ss ! k, ls ! k)]"
      using k len by (simp add: take_Suc_conv_app_nth rs_def)
    have "int (length (extend_slots p (take k rs) free)) = tokens_before ps ss k"
      and "total_new p (take k rs) = nat (pages_before p ps ss k)"
      using extend_prefix_totals(1) [OF p len le less_imp_le [OF k], of free]
        extend_prefix_totals(2) [OF p len le less_imp_le [OF k]] unfolding rs_def by linarith+
    then show ?case
      using Suc k by (simp add: rsk extend_slots_append store_seq_append prog)
  qed (simp add: store_seq_def)
  from this [of "length ps"] show ?thesis using len by (simp add: rs_def)
qed

text \<open>Stores to different places commute, so the programs of a launch may run in any order.\<close>

lemma tl_store_commute: "fst s \<noteq> fst s' \<or> s = s' \<Longrightarrow> tl_store s \<circ> tl_store s' = tl_store s' \<circ> tl_store s"
  by (auto simp: tl_store_def fun_eq_iff list_update_swap split: prod.splits)

definition launch_in :: "(nat \<Rightarrow> (int \<times> int) list) \<Rightarrow> nat list \<Rightarrow> int list \<Rightarrow> int list" where
  "launch_in program order out = fold tl_store (concat (map program order)) out"

lemma launch_any_order:
  assumes "mset order = mset [0..<n]" and "concat (map program [0..<n]) = store_seq 0 vs"
  shows "launch_in program order out = launch program n out"
proof -
  have s: "s = s' \<or> fst s \<noteq> fst s'" if "s \<in> set (store_seq 0 vs)" "s' \<in> set (store_seq 0 vs)" for s s'
    using that by (auto simp: store_seq_def)
  have m: "mset (concat (map program order)) = mset (store_seq 0 vs)"
    unfolding assms(2) [symmetric] mset_concat map_map by (simp add: assms(1) flip: sum_mset_sum_list)
  have "fold tl_store (concat (map program order)) = fold tl_store (store_seq 0 vs)"
  proof (rule fold_multiset_equiv [OF _ m])
    fix s s' assume "s \<in> set (concat (map program order))" "s' \<in> set (concat (map program order))"
    then show "tl_store s \<circ> tl_store s' = tl_store s' \<circ> tl_store s"
      using s mset_eq_setD [OF m] by (intro tl_store_commute) blast
  qed
  then show ?thesis by (simp add: launch_in_def launch_def assms(2))
qed

lemma launch_request_slots:
  fixes ps ss ls :: "int list"
  assumes p: "0 < p" and len: "length ss = length ps" "length ls = length ps"
    and le: "\<forall>i < length ps. ps ! i \<le> ss ! i"
    and out: "int (length out) = tokens_before ps ss (length ps)"
    and prog: "\<And>k. k < length ps \<Longrightarrow> program k = store_seq (tokens_before ps ss k)
       (request_slots p (ps ! k) (ss ! k) (ls ! k) (drop (nat (pages_before p ps ss k)) free))"
  shows "launch program (length ps) out = extend_slots p (zip ps (zip ss ls)) free"
  using programs_stores [OF p len le prog] extend_slots_totals(1) [OF p len le, of free] out
    fold_tl_store_seq [of 0 "extend_slots p (zip ps (zip ss ls)) free" out]
  by (simp add: launch_def)

lemma pages_before_mono:
  assumes "0 < p" "\<forall>i < length ps. ps ! i \<le> ss ! i" "j \<le> length ps" "k \<le> j"
  shows "pages_before p ps ss k \<le> pages_before p ps ss j"
  using assms(3,4)
proof (induction j)
  case (Suc j)
  then show ?case
    using new_pages_nonneg [OF assms(1), of "ps ! j" "ss ! j"] assms(2) by (cases "k = Suc j") auto
qed simp

lemma pages_before_bounds:
  assumes p: "0 < p" and len: "length ss = length ps" "length ls = length ps"
    and le: "\<forall>i < length ps. ps ! i \<le> ss ! i"
    and fits: "total_new p (zip ps (zip ss ls)) \<le> length free" and k: "k < length ps"
  shows "0 \<le> pages_before p ps ss k" "pages_before p ps ss (Suc k) \<le> int (length free)"
  using pages_before_mono [OF p le, of k 0] pages_before_mono [OF p le order_refl, of "Suc k"] k
    extend_slots_totals(2) [OF p len le] fits by simp_all

lemma extend_kernel_program:
  assumes p: "0 < p" and len: "length ss = length ps" "length ls = length ps"
    and bs: "length ps \<le> bs_upper" and le: "\<forall>i < length ps. ps ! i \<le> ss ! i"
    and fits: "total_new p (zip ps (zip ss ls)) \<le> length free" and k: "k < length ps"
  shows "alloc_extend_kernel other mem ps ss ls free bs_upper p k = store_seq (tokens_before ps ss k)
      (request_slots p (ps ! k) (ss ! k) (ls ! k) (drop (nat (pages_before p ps ss k)) free))"
  using pages_before_bounds [OF p len le fits k] k bs le by (intro extend_program_eq [OF p]) simp_all

lemma launch_extend_kernel:
  assumes p: "0 < p" and len: "length ss = length ps" "length ls = length ps"
    and bs: "length ps \<le> bs_upper" and le: "\<forall>i < length ps. ps ! i \<le> ss ! i"
    and fits: "total_new p (zip ps (zip ss ls)) \<le> length free"
    and out: "int (length out) = tokens_before ps ss (length ps)"
  shows "launch (alloc_extend_kernel other mem ps ss ls free bs_upper p) (length ps) out
    = extend_slots p (zip ps (zip ss ls)) free"
  by (rule launch_request_slots [OF p len le out]) (rule extend_kernel_program [OF p len bs le fits])

section \<open>The decode kernel\<close>

lemma decode_program_eq:
  fixes ss :: "int list"
  defines "ps \<equiv> map (\<lambda>s. s - 1) ss"
  assumes p: "0 < p" and k: "k < length ss" and bs: "length ss \<le> bs_upper"
    and base: "0 \<le> pages_before p ps ss k" "pages_before p ps ss (Suc k) \<le> int (length free)"
  shows "alloc_decode_kernel other mem ss ls free bs_upper p k = store_seq (tokens_before ps ss k)
      (request_slots p (ps ! k) (ss ! k) (ls ! k) (drop (nat (pages_before p ps ss k)) free))"
proof -
  let ?f = "\<lambda>s. (s + p - 1) div p" and ?B = "pages_before p ps ss k"
  let ?sl = "map (lane_load other ss k) [0..<bs_upper]"
  let ?pl = "map (\<lambda>lane. let s = ?sl ! lane in if lane \<le> k then s - 1 else s) [0..<bs_upper]"
  let ?n = "new_pages p (ss ! k - 1) (ss ! k)"
  have pl: "?pl = map (lane_load other ps k) [0..<bs_upper]"
    using k by (auto simp: lane_load_def ps_def)
  have "sum_list (map2 (-) (map ?f ?sl) (map ?f ?pl)) = pages_before p ps ss (Suc k)"
    unfolding pl using sum_lanes [of k bs_upper ?f other ss ps] k bs
    by (simp add: pages_before_def new_pages_def lessThan_Suc_atMost del: map_map sum.lessThan_Suc)
  then have pages: "sum_list (map2 (-) (map ?f ?sl) (map ?f ?pl)) - ?n = ?B"
    using k by (simp add: ps_def)
  have kern: "alloc_decode_kernel other mem ss ls free bs_upper p k =
      [(int k, if ?n = 0 then ls ! k + 1 else tl_load mem free ?B * p)]"
    unfolding alloc_decode_kernel_def Let_def using pages unfolding Let_def new_pages_def by simp
  have tok: "tokens_before ps ss k = int k"
    using k by (simp add: tokens_before_def ps_def)
  have "[0..<nat (ss ! k - (ss ! k - 1))] = [0]" by simp
  then have rs: "request_slots p (ss ! k - 1) (ss ! k) (ls ! k) D =
    [if ss ! k - 1 < ?f (ss ! k - 1) * p then ls ! k + 1
     else D ! nat ((ss ! k - 1 - ?f (ss ! k - 1) * p) div p) * p + (ss ! k - 1) mod p]" for D
    unfolding request_slots_def Let_def by (simp only: list.map) simp
  define q where "q = ss ! k - 1"
  have q: "?f q = (if q mod p = 0 then q div p else q div p + 1)" by (rule ceil_quotient [OF p])
  have n: "?n = (if q mod p = 0 then 1 else 0)"
  proof -
    have "?f (q + 1) = q div p + 1" using p by (simp add: div_add_self2)
    then show ?thesis using q by (simp add: new_pages_def q_def)
  qed
  show ?thesis
  proof (cases "q mod p = 0")
    case True
    then have "?f q * p = q" using q by auto
    then show ?thesis
      using True n base kern tok rs [unfolded q_def [symmetric]] k tl_load_drop [of ?B 0 free mem]
      by (simp add: store_seq_def q_def ps_def)
  next
    case False
    then have "q \<noteq> ?f q * p" by (metis mod_mult_self2_is_0)
    then have "q < ?f q * p"
      using ceil_align_ge [OF p, of q] by (simp add: ceil_align_def ceil_div_def)
    then show ?thesis
      using False n kern tok rs [unfolded q_def [symmetric]] k by (simp add: store_seq_def q_def ps_def)
  qed
qed


section \<open>The vectorised version\<close>

lemma length_cumsum [simp]: "length (cumsum a xs) = length xs"
  by (induction a xs rule: cumsum.induct) simp_all

lemma cumsum_nth: "i < length xs \<Longrightarrow> cumsum a xs ! i = a + sum_list (take (Suc i) xs)"
  by (induction a xs arbitrary: i rule: cumsum.induct) (auto simp: nth_Cons split: nat.splits)

lemma cumsum_nth_sum: "i < length xs \<Longrightarrow> cumsum 0 xs ! i = (\<Sum>j<Suc i. xs ! j)"
proof -
  assume "i < length xs"
  then have "sum_list (take (Suc i) xs) = (\<Sum>j<Suc i. take (Suc i) xs ! j)"
    by (simp add: sum_list_sum_nth lessThan_atLeast0 min_absorb2 del: sum.lessThan_Suc)
  then show ?thesis using \<open>i < length xs\<close> by (simp add: cumsum_nth del: sum.lessThan_Suc cong: sum.cong_simp)
qed

lemma searchsorted_owner:
  fixes e :: "int list"
  assumes "k = searchsorted_right e j" "k < length e"
  shows "j < e ! k" and "k > 0 \<Longrightarrow> e ! (k - 1) \<le> j"
proof -
  show "j < e ! k"
    using nth_length_takeWhile [of "\<lambda>x. x \<le> j" e] assms by (simp add: searchsorted_right_def)
  show "e ! (k - 1) \<le> j" if "k > 0"
  proof -
    have "k - 1 < length (takeWhile (\<lambda>x. x \<le> j) e)" using assms that by (simp add: searchsorted_right_def)
    then show ?thesis using takeWhile_nth [of "k - 1" "\<lambda>x. x \<le> j" e] set_takeWhileD nth_mem by metis
  qed
qed

lemma searchsorted_less: "e \<noteq> [] \<Longrightarrow> j < last e \<Longrightarrow> searchsorted_right e j < length e"
  unfolding searchsorted_right_def
  by (metis last_in_set length_takeWhile_le linorder_not_le nat_less_le set_takeWhileD takeWhile_eq_all_conv takeWhile_eq_take take_all_iff le_refl)

lemma naive_pages_per_req_eq:
  fixes p q s :: int
  assumes p: "0 < p" and le: "q \<le> s"
  shows "naive_pages_per_req p q s = new_pages p q s"
proof -
  define c where "c = (q + p - 1) div p * p"
  define f where "f = s div p * p"
  define d where "d = (q + (min s c - q) = s)"
  have "(if d then 0 else f - c) div p + (if (if d then 0 else s - f) > 0 then 1 else 0) = new_pages p q s"
proof (cases "s \<le> c")
  case True
  have c: "q \<le> c" "c < q + p"
    using ceil_align_ge [OF p, of q] ceil_align_less [OF p, of q]
    by (simp_all add: c_def ceil_align_def ceil_div_def)
  have "(s + p - 1) div p = (q + p - 1) div p"
  proof (rule antisym)
    have "(s + p - 1) div p < (q + p - 1) div p + 1"
      using True by (intro int_div_lessI [OF p]) (simp add: c_def algebra_simps)
    then show "(s + p - 1) div p \<le> (q + p - 1) div p" by simp
  qed (use le p in \<open>simp add: zdiv_mono1\<close>)
  then show ?thesis using True by (simp add: d_def new_pages_def)
next
  case False
  have r: "s - f = s mod p" using minus_div_mult_eq_mod [of s p] by (simp add: f_def)
  have "(f - c) div p = s div p - (q + p - 1) div p"
    using p by (simp add: f_def c_def left_diff_distrib [symmetric])
  moreover have "s mod p = 0 \<or> s mod p > 0" using pos_mod_sign [OF p, of s] by linarith
  ultimately show ?thesis using False ceil_quotient [OF p, of s]
    by (auto simp: d_def new_pages_def r)
qed
  then show ?thesis
    unfolding naive_pages_per_req_def naive_num2_def naive_num3_def naive_num1_def naive_ceil_def Let_def
      c_def f_def d_def .
qed

lemma naive_slot_eq:
  fixes p q s l :: int and free :: "int list"
  assumes p: "0 < p" and le: "q \<le> s" and l: "0 \<le> l" "l < s - q" and base: "0 \<le> base"
    and fits: "base + new_pages p q s \<le> int (length free)"
  shows "naive_slot free p ll (naive_num1 p q s) (naive_num2 p q s) base (base + new_pages p q s) l
       = request_slots p q s ll (drop (nat base) free) ! nat l"
proof -
  define c where "c = (q + p - 1) div p * p"
  define f where "f = s div p * p"
  define n1 where "n1 = min s c - q"
  define d where "d = (q + n1 = s)"
  define n2 where "n2 = (if d then 0 else f - c)"
  define N where "N = int (length free) - 1"
  have "(if l < n1 then ll + 1 + l
          else if \<not> l < n1 \<and> l < n1 + n2
          then free ! nat (min N (max 0 (base + max 0 (l - n1) div p))) * p + max 0 (l - n1) mod p
          else free ! nat (min N (max 0 (base + new_pages p q s - 1))) * p + max 0 (l - n1 - n2))
       = request_slots p q s ll (drop (nat base) free) ! nat l"
proof (cases "s \<le> c")
  case True
  then have "n1 = s - q" by (simp add: n1_def)
  then show ?thesis
    using l True request_slots_one_page [OF p le, of ll "drop (nat base) free"] by (simp add: c_def)
next
  case False
  then have n: "n1 = c - q" "n2 = f - c" by (simp_all add: n1_def n2_def d_def)
  have c: "q \<le> c"
    using ceil_align_ge [OF p, of q] by (simp add: c_def ceil_align_def ceil_div_def)
  have r: "s - f = s mod p" using minus_div_mult_eq_mod [of s p] by (simp add: f_def)
  let ?A = "(q + p - 1) div p" and ?F = "s div p"
  have AF: "?A \<le> ?F" using zdiv_mono1 [of c s p] False p by (simp add: c_def)
  then have cf: "c \<le> f" using p by (simp add: c_def f_def)
  have new: "new_pages p q s = (if s mod p = 0 then ?F else ?F + 1) - ?A"
    using ceil_quotient [OF p, of s] by (simp add: new_pages_def)
  have rs: "request_slots p q s ll (drop (nat base) free) =
      map (\<lambda>i. ll + 1 + int i) [0..<nat (c - q)]
    @ map (\<lambda>i. drop (nat base) free ! nat (int i div p) * p + int i mod p) [0..<nat (f - c)]
    @ map (\<lambda>i. drop (nat base) free ! nat (?F - ?A) * p + int i) [0..<nat (s - f)]"
    using request_slots_split [OF p le] False by (simp add: c_def f_def)
  have bl: "nat base \<le> length free" using base fits new AF by (simp split: if_splits)
  consider "l < c - q" | "c - q \<le> l" "l < f - q" | "f - q \<le> l" by linarith
  then show ?thesis
  proof cases
    case 1
    then show ?thesis using l by (simp add: rs n nth_append)
  next
    case 2
    define o' where "o' = nat (l - (c - q))"
    have o': "l - (c - q) = int o'" "o' < nat (f - c)" using 2 by (simp_all add: o'_def)
    have "int o' div p < ?F - ?A"
      using o' cf by (intro int_div_lessI [OF p]) (simp add: c_def f_def left_diff_distrib)
    moreover have "0 \<le> int o' div p" using p by (simp add: pos_imp_zdiv_nonneg_iff)
    ultimately have "min N (max 0 (base + int o' div p)) = base + int o' div p"
      using base fits new by (simp add: N_def split: if_splits)
    moreover have "nat l = nat (c - q) + o'" using 2 c by (simp add: o'_def)
    ultimately show ?thesis
      using 2 o' base fits new \<open>0 \<le> int o' div p\<close> \<open>int o' div p < ?F - ?A\<close>
      by (simp add: rs n nth_append nat_add_distrib nth_drop [OF bl])
  next
    case 3
    define o' where "o' = nat (l - (f - q))"
    have o': "l - (f - q) = int o'" "o' < nat (s - f)" using 3 l by (simp_all add: o'_def)
    have "s mod p \<noteq> 0" using o' r by auto
    then have idx: "min N (max 0 (base + new_pages p q s - 1)) = base + (?F - ?A)"
      using base fits new AF by (simp add: N_def)
    have "nat l = nat (c - q) + (nat (f - c) + o')" using 3 c cf by (simp add: o'_def)
    then show ?thesis
      using 3 o' base fits new AF idx cf c \<open>s mod p \<noteq> 0\<close>
      by (simp add: rs n nth_append nat_add_distrib nth_drop [OF bl])
  qed
qed
  then show ?thesis
    unfolding naive_slot_def naive_num2_def naive_num1_def naive_ceil_def Let_def
      N_def n2_def d_def n1_def c_def f_def .
qed


lemma naive_owner:
  fixes ps ss :: "int list"
  defines "E \<equiv> cumsum 0 (map2 (-) ss ps)"
  assumes len: "length ss = length ps" and j: "0 \<le> j" "j < tokens_before ps ss (length ps)"
  defines "k \<equiv> searchsorted_right E j"
  shows "k < length ps" and "map2 (-) E (map2 (-) ss ps) ! k = tokens_before ps ss k"
    and "tokens_before ps ss k \<le> j" and "j < tokens_before ps ss k + (ss ! k - ps ! k)"
proof -
  have ne: "ps \<noteq> []" using j by auto
  have E: "E ! i = tokens_before ps ss (Suc i)" if "i < length ps" for i
    using that len by (simp add: E_def cumsum_nth_sum tokens_before_def del: sum.lessThan_Suc)
  have lE: "length E = length ps" using len by (simp add: E_def)
  have "E \<noteq> []" using ne lE by auto
  moreover have "last E = tokens_before ps ss (length ps)"
    using E [of "length ps - 1"] ne lE \<open>E \<noteq> []\<close> by (simp add: last_conv_nth)
  ultimately show k: "k < length ps"
    using searchsorted_less [of E j] j lE by (simp add: k_def)
  show "map2 (-) E (map2 (-) ss ps) ! k = tokens_before ps ss k"
    using k len lE E [of k] by simp
  have o: "j < E ! k" "k > 0 \<Longrightarrow> E ! (k - 1) \<le> j"
    using searchsorted_owner [of k E j] k lE by (simp_all add: k_def)
  show "j < tokens_before ps ss k + (ss ! k - ps ! k)" using o(1) E [OF k] by simp
  show "tokens_before ps ss k \<le> j"
  proof (cases k)
    case (Suc k')
    then show ?thesis using o(2) E [of k'] k by simp
  qed (use j in simp)
qed



text \<open>Any per-position computation that agrees with the slots of the owning request.\<close>

lemma naive_positions:
  fixes ps ss ls :: "int list"
  defines "x \<equiv> map2 (-) ss ps"
  defines "E \<equiv> cumsum 0 x"
  defines "own \<equiv> \<lambda>i. searchsorted_right E (int i)"
  assumes p: "0 < p" and len: "length ss = length ps" "length ls = length ps"
    and le: "\<forall>i < length ps. ps ! i \<le> ss ! i"
    and n: "int n = tokens_before ps ss (length ps)"
    and g: "\<And>k l. k < length ps \<Longrightarrow> 0 \<le> l \<Longrightarrow> l < ss ! k - ps ! k \<Longrightarrow> g k l =
       request_slots p (ps ! k) (ss ! k) (ls ! k) (drop (nat (pages_before p ps ss k)) free) ! nat l"
  shows "map (\<lambda>i. g (own i) (int i - map2 (-) E x ! own i)) [0..<n] = extend_slots p (zip ps (zip ss ls)) free"
proof (rule nth_equalityI)
  show "length (map (\<lambda>i. g (own i) (int i - map2 (-) E x ! own i)) [0..<n]) = length (extend_slots p (zip ps (zip ss ls)) free)"
    using extend_slots_totals(1) [OF p len le, of free] n by simp
next
  fix i assume "i < length (map (\<lambda>i. g (own i) (int i - map2 (-) E x ! own i)) [0..<n])"
  then have i: "i < n" by simp
  then have "int i < tokens_before ps ss (length ps)" using n by linarith
  note own_i = naive_owner [OF len(1) of_nat_0_le_iff this]
  have o: "own i < length ps" "map2 (-) E x ! own i = tokens_before ps ss (own i)"
    "tokens_before ps ss (own i) \<le> int i" "int i < tokens_before ps ss (own i) + (ss ! own i - ps ! own i)"
    unfolding own_def E_def x_def by (rule own_i)+
  have "map (\<lambda>i. g (own i) (int i - map2 (-) E x ! own i)) [0..<n] ! i = g (own i) (int i - map2 (-) E x ! own i)"
    using i by simp
  also have "\<dots> = extend_slots p (zip ps (zip ss ls)) free ! i"
    unfolding o(2) using extend_slots_nth [OF p len le o(1), of "int i - tokens_before ps ss (own i)" free]
      o(3,4) g [OF o(1), of "int i - tokens_before ps ss (own i)"]
    by simp
  finally show "map (\<lambda>i. g (own i) (int i - map2 (-) E x ! own i)) [0..<n] ! i = extend_slots p (zip ps (zip ss ls)) free ! i" .
qed

lemma naive_result:
  fixes p :: int
  defines "x \<equiv> \<lambda>ps ss. map2 (-) ss ps"
  defines "N \<equiv> \<lambda>ps ss. map2 (naive_pages_per_req p) ps ss"
  defines "own \<equiv> \<lambda>ps ss i. searchsorted_right (cumsum 0 (x ps ss)) (int i)"
  assumes len: "length ss = length ps" "length ls = length ps"
    and out: "int (length out) = tokens_before ps ss (length ps)" "length out \<noteq> 0"
    and ceil: "free = [] \<Longrightarrow> map (naive_ceil p) ss = map (naive_ceil p) ps"
  shows "alloc_extend_naive ps ss ls free out p =
    Inr (map (\<lambda>i. (\<lambda>k l. if free = [] then ls ! k + 1 + l
        else naive_slot free p (ls ! k) (map2 (naive_num1 p) ps ss ! k) (map2 (naive_num2 p) ps ss ! k)
               (map2 (-) (cumsum 0 (N ps ss)) (N ps ss) ! k) (cumsum 0 (N ps ss) ! k) l)
      (own ps ss i) (int i - map2 (-) (cumsum 0 (x ps ss)) (x ps ss) ! own ps ss i)) [0..<length out])"
proof -
  have "own ps ss i < length ps" if "i < length out" for i
    using naive_owner(1) [OF len(1), of "int i"] that out by (simp add: own_def x_def)
  then have idx: "list_all (\<lambda>k. k < length (map2 (-) (cumsum 0 (x ps ss)) (x ps ss)) \<and> k < length ls)
      (map (searchsorted_right (cumsum 0 (x ps ss))) (map int [0..<length out]))"
    using len by (simp add: list_all_iff own_def x_def)
  then show ?thesis
    using out(2) ceil
    by (simp add: alloc_extend_naive_def Let_def map2_map_map o_def x_def N_def own_def)
qed

lemma alloc_extend_naive_eq:
  fixes p :: int
  assumes p: "0 < p" and len: "length ss = length ps" "length ls = length ps"
    and le: "\<forall>i < length ps. ps ! i \<le> ss ! i"
    and fits: "total_new p (zip ps (zip ss ls)) \<le> length free"
    and out: "int (length out) = tokens_before ps ss (length ps)"
  shows "alloc_extend_naive ps ss ls free out p = Inr (extend_slots p (zip ps (zip ss ls)) free)"
proof (cases "length out = 0")
  case True
  then show ?thesis
    using extend_slots_totals(1) [OF p len le, of free] out by (simp add: alloc_extend_naive_def)
next
  case False
  let ?N = "map2 (naive_pages_per_req p) ps ss"
  note b = pages_before_bounds [OF p len le fits]
  have pg: "?N ! k = new_pages p (ps ! k) (ss ! k)" if "k < length ps" for k
    using that len le by (simp add: naive_pages_per_req_eq [OF p])
  have endp: "cumsum 0 ?N ! k = pages_before p ps ss (Suc k)" if "k < length ps" for k
    using that len pg by (simp add: cumsum_nth_sum pages_before_def)
  have start: "map2 (-) (cumsum 0 ?N) ?N ! k = pages_before p ps ss k" if "k < length ps" for k
    using that len endp pg by simp
  have new0: "naive_ceil p (ss ! k) = naive_ceil p (ps ! k)" if "free = []" "k < length ps" for k
    using b [of k] that new_pages_nonneg [OF p, of "ps ! k" "ss ! k"] le by (simp add: naive_ceil_def new_pages_def)
  then have ceil: "map (naive_ceil p) ss = map (naive_ceil p) ps" if "free = []"
    using that len by (intro nth_equalityI) simp_all
  show ?thesis
  proof (subst naive_result [OF len out False ceil], assumption, rule arg_cong [where f = Inr],
      rule naive_positions [OF p len le out])
    fix k l assume k: "k < length ps" and l: "0 \<le> l" "l < ss ! k - ps ! k"
    show "(if free = [] then ls ! k + 1 + l
        else naive_slot free p (ls ! k) (map2 (naive_num1 p) ps ss ! k) (map2 (naive_num2 p) ps ss ! k)
               (map2 (-) (cumsum 0 ?N) ?N ! k) (cumsum 0 ?N ! k) l)
       = request_slots p (ps ! k) (ss ! k) (ls ! k) (drop (nat (pages_before p ps ss k)) free) ! nat l"
    proof (cases "free = []")
      case True
      have "ss ! k \<le> naive_ceil p (ss ! k)"
        using ceil_align_ge [OF p, of "ss ! k"] by (simp add: naive_ceil_def ceil_align_def ceil_div_def)
      then have "ss ! k \<le> naive_ceil p (ps ! k)" unfolding new0 [OF True k] .
      then show ?thesis using True l le k by (simp add: request_slots_one_page [OF p] naive_ceil_def)
    next
      case nonempty: False
      then show ?thesis
        unfolding start [OF k] endp [OF k]
        using naive_slot_eq [OF p, of "ps ! k" "ss ! k" l] b [OF k] k l le len by simp
    qed
  qed
qed


lemma nth_in_take: "k < n \<Longrightarrow> n \<le> length xs \<Longrightarrow> xs ! k \<in> set (take n xs)"
  by (metis in_set_conv_nth length_take min.absorb2 nth_take)

section \<open>Pages and offsets of the slots\<close>

text \<open>
  The contract of the caller: the slot after \<open>last_loc\<close> sits at the page offset of the
  next position (the debug assertion of \<open>alloc_extend\<close>).
\<close>

definition loc_aligned :: "int \<Rightarrow> int \<times> int \<times> int \<Rightarrow> bool" where
  "loc_aligned p r = (let (q, s, l) = r in 0 \<le> q \<and> q \<le> s \<and> (l + 1) mod p = q mod p)"

text \<open>Pages the request already owns in part: the page of \<open>last_loc\<close>, unless the prefix ends on a page boundary.\<close>

definition old_pages :: "int \<Rightarrow> int \<times> int \<times> int \<Rightarrow> int list" where
  "old_pages p r = (let (q, s, l) = r in if q mod p = 0 then [] else [l div p])"

lemma slot_old:
  fixes p q l i :: int
  assumes p: "0 < p" and al: "(l + 1) mod p = q mod p" and i: "0 \<le> i" "q + i < (q + p - 1) div p * p"
  shows "q mod p \<noteq> 0" and "(l + 1 + i) div p = l div p" and "(l + 1 + i) mod p = (q + i) mod p"
proof -
  show qm: "q mod p \<noteq> 0"
    using i ceil_quotient [OF p, of q] by auto
  have q: "q = q div p * p + q mod p" by simp
  have "(q + p - 1) div p * p = q div p * p + p" using ceil_quotient [OF p, of q] qm by (simp add: distrib_right)
  then have r: "q mod p + i < p" using i q by linarith
  have "l + 1 = (l + 1) div p * p + q mod p" using al by (metis div_mult_mod_eq)
  then have l: "l + 1 + i = (l + 1) div p * p + (q mod p + i)" by linarith
  have qi: "0 \<le> q mod p + i" "0 < q mod p" using p i qm by (simp_all add: order.not_eq_order_implies_strict)
  have d: "(l + 1 + i) div p = (l + 1) div p" unfolding l using p r qi by simp
  have "l = (l + 1) div p * p + (q mod p - 1)" using \<open>l + 1 = _\<close> by linarith
  then have "l div p = ((l + 1) div p * p + (q mod p - 1)) div p" by simp
  also have "\<dots> = (l + 1) div p" using p qi r i by simp
  finally show "(l + 1 + i) div p = l div p" using d by simp
  have "(l + 1 + i) mod p = q mod p + i" unfolding l using p r qi by simp
  moreover have "(q + i) mod p = q mod p + i"
    using r qi by (metis mod_add_left_eq mod_pos_pos_trivial)
  ultimately show "(l + 1 + i) mod p = (q + i) mod p" by simp
qed

lemma slot_new:
  fixes p q s i :: int
  assumes p: "0 < p" and i: "(q + p - 1) div p * p \<le> q + i" "q + i < s"
  shows "0 \<le> (q + i - (q + p - 1) div p * p) div p"
    and "(q + i - (q + p - 1) div p * p) div p < new_pages p q s"
proof -
  show "0 \<le> (q + i - (q + p - 1) div p * p) div p" using p i by (simp add: pos_imp_zdiv_nonneg_iff)
  have "s \<le> (s + p - 1) div p * p"
    using ceil_align_ge [OF p, of s] by (simp add: ceil_align_def ceil_div_def)
  then show "(q + i - (q + p - 1) div p * p) div p < new_pages p q s"
    using i by (intro int_div_lessI [OF p]) (simp add: new_pages_def left_diff_distrib)
qed

lemma request_slot_nth:
  assumes p: "0 < p" and al: "loc_aligned p (q, s, l)" and i: "i < nat (s - q)"
  shows "request_slots p q s l pages ! i mod p = (q + int i) mod p"
    and "(q + int i < (q + p - 1) div p * p \<and> q mod p \<noteq> 0 \<and> request_slots p q s l pages ! i div p = l div p) \<or>
         ((q + p - 1) div p * p \<le> q + int i \<and>
          request_slots p q s l pages ! i div p = pages ! nat ((q + int i - (q + p - 1) div p * p) div p))"
  using slot_old [OF p, of l q "int i"] al i p
  by (auto simp: request_slots_def Let_def loc_aligned_def)


lemma request_slots_pages:
  assumes p: "0 < p" and al: "loc_aligned p (q, s, l)" and fits: "nat (new_pages p q s) \<le> length pages"
    and x: "x \<in> set (request_slots p q s l pages)"
  shows "x div p \<in> set (old_pages p (q, s, l)) \<union> set (take (nat (new_pages p q s)) pages)"
proof -
  obtain i where i: "i < nat (s - q)" and xi: "x = request_slots p q s l pages ! i"
    using x by (metis in_set_conv_nth length_request_slots)
  have "q + int i < s" using i by simp
  from request_slot_nth(2) [OF p al i, of pages] show ?thesis
  proof
    assume c: "(q + p - 1) div p * p \<le> q + int i \<and>
      request_slots p q s l pages ! i div p = pages ! nat ((q + int i - (q + p - 1) div p * p) div p)"
    let ?k = "nat ((q + int i - (q + p - 1) div p * p) div p)"
    have "?k < nat (new_pages p q s)" using slot_new [OF p _ \<open>q + int i < s\<close>] c by auto
    then have "pages ! ?k \<in> set (take (nat (new_pages p q s)) pages)" by (rule nth_in_take [OF _ fits])
    then show ?thesis using c xi by simp
  qed (simp add: xi old_pages_def)
qed

lemma request_slots_distinct:
  assumes p: "0 < p" and al: "loc_aligned p (q, s, l)" and fits: "nat (new_pages p q s) \<le> length pages"
    and d: "distinct (old_pages p (q, s, l) @ take (nat (new_pages p q s)) pages)"
  shows "distinct (request_slots p q s l pages)"
  unfolding distinct_conv_nth length_request_slots
proof (intro allI impI)
  fix i j assume ij: "i < nat (s - q)" "j < nat (s - q)" "i \<noteq> j"
  let ?r = "request_slots p q s l pages" and ?c = "(q + p - 1) div p * p"
  let ?k = "\<lambda>i. nat ((q + int i - ?c) div p)"
  show "?r ! i \<noteq> ?r ! j"
  proof
    assume eq: "?r ! i = ?r ! j"
    have m: "(q + int i) mod p = (q + int j) mod p"
      using request_slot_nth(1) [OF p al ij(1), of pages] request_slot_nth(1) [OF p al ij(2), of pages] eq by simp
    have nn: "0 \<le> (q + int n - ?c) div p" if "?c \<le> q + int n" for n
      using p that by (simp add: pos_imp_zdiv_nonneg_iff)
    have lt: "?k n < nat (new_pages p q s)" if "n < nat (s - q)" "?c \<le> q + int n" for n
    proof -
      have "q + int n < s" using that(1) by simp
      then show ?thesis using slot_new [OF p that(2), of s] by auto
    qed
    have in_new: "pages ! ?k n \<in> set (take (nat (new_pages p q s)) pages)" if "n < nat (s - q)" "?c \<le> q + int n" for n
      by (rule nth_in_take [OF lt [OF that] fits])
    consider "q + int i < ?c" "q + int j < ?c" | "?c \<le> q + int i" "?c \<le> q + int j"
      | "q + int i < ?c" "?c \<le> q + int j" | "q + int j < ?c" "?c \<le> q + int i" by linarith
    then show False
    proof cases
      case 1
      then show False using ij eq by (simp add: request_slots_def Let_def)
    next
      case 2
      then have "pages ! ?k i = pages ! ?k j"
        using request_slot_nth(2) [OF p al ij(1), of pages] request_slot_nth(2) [OF p al ij(2), of pages] eq by auto
      then have "?k i = ?k j"
        using nth_eq_iff_index_eq [of "take (nat (new_pages p q s)) pages" "?k i" "?k j"] d
          lt [OF ij(1) 2(1)] lt [OF ij(2) 2(2)] fits by simp
      then have "(q + int i - ?c) div p = (q + int j - ?c) div p"
        using nn [OF 2(1)] nn [OF 2(2)] by simp
      moreover have "(q + int i - ?c) mod p = (q + int j - ?c) mod p" using m by (metis mod_diff_left_eq)
      ultimately have "q + int i - ?c = q + int j - ?c" by (metis div_mult_mod_eq)
      then show False using ij by simp
    next
      case 3
      then show False
        using request_slot_nth(2) [OF p al ij(1), of pages] request_slot_nth(2) [OF p al ij(2), of pages] eq
          in_new [OF ij(2)] d by (auto simp: old_pages_def)
    next
      case 4
      then show False
        using request_slot_nth(2) [OF p al ij(1), of pages] request_slot_nth(2) [OF p al ij(2), of pages] eq
          in_new [OF ij(1)] d by (auto simp: old_pages_def)
    qed
  qed
qed

lemma extend_slots_pages:
  assumes "0 < p" "list_all (loc_aligned p) rs" "total_new p rs \<le> length pages"
    and "x \<in> set (extend_slots p rs pages)"
  shows "x div p \<in> set (concat (map (old_pages p) rs)) \<union> set (take (total_new p rs) pages)"
  using assms
proof (induction p rs pages rule: extend_slots.induct)
  case (2 p q s l rs pages)
  let ?n = "nat (new_pages p q s)"
  have t: "take (total_new p ((q, s, l) # rs)) pages = take ?n pages @ take (total_new p rs) (drop ?n pages)"
    by (simp add: total_new_def take_add)
  from "2.prems"(4) consider "x \<in> set (request_slots p q s l pages)" | "x \<in> set (extend_slots p rs (drop ?n pages))"
    by auto
  then show ?case
  proof cases
    assume "x \<in> set (request_slots p q s l pages)"
    then have "x div p \<in> set (old_pages p (q, s, l)) \<union> set (take ?n pages)"
      using "2.prems" by (intro request_slots_pages) (simp_all add: total_new_def)
    then show ?case by (auto simp: t)
  next
    assume "x \<in> set (extend_slots p rs (drop ?n pages))"
    then have "x div p \<in> set (concat (map (old_pages p) rs)) \<union> set (take (total_new p rs) (drop ?n pages))"
      using "2.prems" by (intro "2.IH") (simp_all add: total_new_def)
    then show ?case by (auto simp: t)
  qed
qed simp

lemma extend_slots_distinct:
  assumes "0 < p" "list_all (loc_aligned p) rs" "total_new p rs \<le> length pages"
    and "distinct (concat (map (old_pages p) rs) @ take (total_new p rs) pages)"
  shows "distinct (extend_slots p rs pages)"
  using assms
proof (induction p rs pages rule: extend_slots.induct)
  case (2 p q s l rs pages)
  let ?n = "nat (new_pages p q s)"
  have t: "take (total_new p ((q, s, l) # rs)) pages = take ?n pages @ take (total_new p rs) (drop ?n pages)"
    by (simp add: total_new_def take_add)
  have n: "?n \<le> length pages" "total_new p rs \<le> length (drop ?n pages)"
    using "2.prems"(3) by (simp_all add: total_new_def)
  have d: "distinct (request_slots p q s l pages)"
    using "2.prems" n t by (intro request_slots_distinct) auto
  have r: "distinct (extend_slots p rs (drop ?n pages))"
    using "2.prems" n t by (intro "2.IH") auto
  have "set (request_slots p q s l pages) \<inter> set (extend_slots p rs (drop ?n pages)) = {}"
  proof (intro equals0I, elim IntE)
    fix x assume x: "x \<in> set (request_slots p q s l pages)" "x \<in> set (extend_slots p rs (drop ?n pages))"
    have "x div p \<in> set (old_pages p (q, s, l)) \<union> set (take ?n pages)"
      using request_slots_pages [OF "2.prems"(1) _ n(1) x(1)] "2.prems"(2) by simp
    moreover have "x div p \<in> set (concat (map (old_pages p) rs)) \<union> set (take (total_new p rs) (drop ?n pages))"
      using extend_slots_pages [OF "2.prems"(1) _ n(2) x(2)] "2.prems"(2) by simp
    ultimately show False using "2.prems"(4) unfolding t by auto
  qed
  then show ?case using d r by simp
qed simp

lemma launch_decode_kernel:
  fixes ss :: "int list"
  defines "ps \<equiv> map (\<lambda>s. s - 1) ss"
  assumes p: "0 < p" and len: "length ls = length ss" "length out = length ss" and bs: "length ss \<le> bs_upper"
    and fits: "total_new p (zip ps (zip ss ls)) \<le> length free"
  shows "launch (alloc_decode_kernel other mem ss ls free bs_upper p) (length ss) out
    = extend_slots p (zip ps (zip ss ls)) free"
proof -
  have l: "length ss = length ps" "length ls = length ps" using len by (simp_all add: ps_def)
  have le: "\<forall>i < length ps. ps ! i \<le> ss ! i" by (simp add: ps_def)
  have out: "int (length out) = tokens_before ps ss (length ps)"
    using len by (simp add: tokens_before_def ps_def)
  have "launch (alloc_decode_kernel other mem ss ls free bs_upper p) (length ps) out
    = extend_slots p (zip ps (zip ss ls)) free"
  proof (rule launch_request_slots [OF p l le out])
    fix k assume k: "k < length ps"
    show "alloc_decode_kernel other mem ss ls free bs_upper p k = store_seq (tokens_before ps ss k)
      (request_slots p (ps ! k) (ss ! k) (ls ! k) (drop (nat (pages_before p ps ss k)) free))"
      unfolding ps_def
      by (rule decode_program_eq [OF p _ bs])
        (use pages_before_bounds [OF p l le fits k] k in \<open>simp_all add: ps_def\<close>)
  qed
  then show ?thesis by (simp only: l(1))
qed

lemma get_num_new_pages_extend:
  assumes p: "0 < p" and len: "length ss = length ps" "length ls = length ps"
    and le: "\<forall>i < length ps. ps ! i \<le> ss ! i"
  shows "get_num_new_pages ss p (Some ps) False = Inr (int (total_new p (zip ps (zip ss ls))))"
proof -
  have "sum_list (map2 (new_pages p) ps ss) = pages_before p ps ss (length ps)"
    using len by (simp add: sum_list_sum_nth pages_before_def lessThan_atLeast0)
  then show ?thesis
    using extend_slots_totals(2) [OF p len le] by (simp add: get_num_new_pages_def)
qed

lemma new_pages_decode:
  assumes "2 \<le> p"
  shows "new_pages p (s - 1) s = (if s mod p = 1 then 1 else 0)"
proof -
  have p: "0 < p" using assms by simp
  have a: "(s + p - 1) div p = (s - 1) div p + 1" using p div_mult_self1 [of p "s - 1" 1] by (simp add: algebra_simps)
  have "s mod p = 1 \<longleftrightarrow> (s - 1) mod p = 0"
    using assms mod_eq_dvd_iff [of s p 1] by (simp add: dvd_eq_mod_eq_0)
  then show ?thesis
    using ceil_quotient [OF p, of "s - 1"] a by (simp add: new_pages_def)
qed

lemma get_num_new_pages_decode:
  fixes ss :: "int list"
  defines "ps \<equiv> map (\<lambda>s. s - 1) ss"
  assumes p: "2 \<le> p" and len: "length ls = length ss"
  shows "get_num_new_pages ss p pre True = Inr (int (total_new p (zip ps (zip ss ls))))"
  using len unfolding ps_def
proof (induction ss arbitrary: ls)
  case (Cons s ss)
  then obtain l ls' where "ls = l # ls'" by (metis length_Suc_conv)
  then show ?case
    using Cons.IH [of ls'] Cons.prems by (simp add: get_num_new_pages_def total_new_def new_pages_decode [OF p])
qed (simp add: get_num_new_pages_def total_new_def)


section \<open>Properties of the kernels\<close>

text \<open>
  Property C3: the parallel \<open>alloc_extend_kernel\<close>, in whatever order the device runs its programs,
  and the vectorised \<open>alloc_extend_naive\<close> fill the output with the same slots, namely those that
  serving the requests one after the other from the front of the free list gives, as long as the
  free list holds enough pages. Neither depends on masked lanes, on memory outside the tensors or
  on the previous content of the output.
\<close>

theorem alloc_extend_kernel_matches_naive:
  assumes "0 < p" "length seq_lens = length pre_lens" "length last_loc = length pre_lens"
    and "length pre_lens \<le> bs_upper" "\<forall>i < length pre_lens. pre_lens ! i \<le> seq_lens ! i"
    and "total_new p (zip pre_lens (zip seq_lens last_loc)) \<le> length free_pages"
    and "int (length out) = tokens_before pre_lens seq_lens (length pre_lens)"
    and "mset order = mset [0..<length pre_lens]"
  shows "alloc_extend_naive pre_lens seq_lens last_loc free_pages out p =
      Inr (launch_in (alloc_extend_kernel other mem pre_lens seq_lens last_loc free_pages bs_upper p) order out) \<and>
    launch_in (alloc_extend_kernel other mem pre_lens seq_lens last_loc free_pages bs_upper p) order out =
      extend_slots p (zip pre_lens (zip seq_lens last_loc)) free_pages"
  using launch_any_order [OF assms(8) programs_stores [OF assms(1-3,5) extend_kernel_program [OF assms(1-6)]]]
    launch_extend_kernel [OF assms(1-7)] alloc_extend_naive_eq [OF assms(1-3,5-7)] by simp

theorem alloc_extend_kernel_matches_naive_witness:
  "alloc_extend_naive [0, 6] [5, 9] [-1, 13] [1, 2, 4] [0, 0, 0, 0, 0, 0, 0, 0] 4 =
     Inr (launch_in (alloc_extend_kernel 7 (\<lambda>_. 9) [0, 6] [5, 9] [-1, 13] [1, 2, 4] 2 4) [1, 0] [0, 0, 0, 0, 0, 0, 0, 0]) \<and>
   launch_in (alloc_extend_kernel 7 (\<lambda>_. 9) [0, 6] [5, 9] [-1, 13] [1, 2, 4] 2 4) [1, 0] [0, 0, 0, 0, 0, 0, 0, 0] =
     [4, 5, 6, 7, 8, 14, 15, 16]"
proof -
  have h: "total_new 4 (zip [0, 6] (zip [5, 9] [-1, 13])) \<le> length [1, 2, 4 :: int]"
    "\<forall>i < length [0, 6 :: int]. [0, 6 :: int] ! i \<le> [5, 9] ! i"
    "int (length [0, 0, 0, 0, 0, 0, 0, 0 :: int]) = tokens_before [0, 6] [5, 9] (length [0, 6 :: int])"
    "mset [1, 0] = mset [0..<length [0, 6 :: int]]"
    by (code_simp, simp add: less_Suc_eq numeral_2_eq_2, simp add: tokens_before_def numeral_2_eq_2, simp add: numeral_2_eq_2)
  have "extend_slots 4 (zip [0, 6] (zip [5, 9] [-1, 13])) [1, 2, 4] = [4, 5, 6, 7, 8, 14, 15, 16]" by code_simp
  then show ?thesis
    using alloc_extend_kernel_matches_naive [of 4 "[5, 9]" "[0, 6]" "[-1, 13]" 2 "[1, 2, 4]" "[0, 0, 0, 0, 0, 0, 0, 0]" "[1, 0]" 7 "\<lambda>_. 9"]
      h by simp
qed

end
