(* ===== verification/KV_Allocator.thy ===== *)
theory KV_Allocator
  imports Alloc_Kernel
begin

text \<open>
  The KV slot allocators of \<^verbatim>\<open>mem_cache/allocator\<close>: the shared state and helpers of
  \<^verbatim>\<open>BaseTokenToKVPoolAllocator\<close> (\<^verbatim>\<open>base.py\<close>), \<^verbatim>\<open>TokenToKVPoolAllocator\<close>
  (\<^verbatim>\<open>token.py\<close>, one slot per page), \<^verbatim>\<open>PagedTokenToKVPoolAllocator\<close> (\<^verbatim>\<open>paged.py\<close>) and
  \<^verbatim>\<open>MambaSlotAllocator\<close> (\<^verbatim>\<open>mamba.py\<close>). Tensors of indices are lists of integers,
  requested sizes are natural numbers. Their correctness is in the theory \<open>KV_Pool\<close>.
\<close>

section \<open>State of the base class\<close>

record kv_base =
  al_size :: nat
  al_page_size :: nat
  al_need_sort :: bool
  al_free_pages :: "int list"
  al_free_group :: "int list list option"

record token_alloc = kv_base +
  al_release_pages :: "int list"

record paged_alloc = kv_base +
  al_num_pages :: nat
  al_debug_mode :: bool
  al_staged_pages :: "int list list"
  al_num_staged_pages :: nat
  al_free_page_ids_group :: "int list list"

section \<open>Capacity hooks of the base class\<close>

definition max_new_tokens_for_memory :: "('a) kv_base_scheme \<Rightarrow> int \<Rightarrow> int \<Rightarrow> int \<Rightarrow> int" where
  "max_new_tokens_for_memory a input_tokens max_new_tokens token_capacity =
     (let p = int (al_page_size a);
          paged_input = - ((- input_tokens) div p) * p
      in max 0 (min max_new_tokens (token_capacity - paged_input - p - 1)))"

definition prealloc_fits :: "int \<Rightarrow> int \<Rightarrow> int \<Rightarrow> int option \<Rightarrow> bool" where
  "prealloc_fits full_tokens swa_tokens full_budget_tokens swa_budget_tokens =
     (full_tokens \<le> full_budget_tokens \<and>
      (case swa_budget_tokens of None \<Rightarrow> True | Some b \<Rightarrow> swa_tokens \<le> b))"

text \<open>\<open>_page_disjoint\<close>: the non-empty segments, with the check that they share no page.\<close>

fun page_disjoint :: "nat \<Rightarrow> nat option \<Rightarrow> (int list \<times> nat) list \<Rightarrow> (int list \<times> nat) list result" where
  "page_disjoint ps prev_end [] = Inr []"
| "page_disjoint ps prev_end ((free_index, start_pos) # segments) =
     (let n = length free_index in
      if n = 0 then page_disjoint ps prev_end segments
      else rbind (py_assert (case prev_end of None \<Rightarrow> True
                   | Some e \<Rightarrow> int start_pos div int ps > (int e - 1) div int ps) ''shares a page'')
        (\<lambda>_. rbind (page_disjoint ps (Some (start_pos + n)) segments)
          (\<lambda>rest. Inr ((free_index, start_pos) # rest))))"

section \<open>The token allocator\<close>

definition tok_clear :: "token_alloc \<Rightarrow> token_alloc" where
  "tok_clear a = a\<lparr>al_free_pages := map int [1..<al_size a + 1], al_free_group := None,
                    al_release_pages := []\<rparr>"

definition TokenToKVPoolAllocator :: "nat \<Rightarrow> bool \<Rightarrow> token_alloc" where
  "TokenToKVPoolAllocator sz need_sort =
     tok_clear \<lparr>al_size = sz, al_page_size = 1, al_need_sort = need_sort, al_free_pages = [],
                al_free_group = None, al_release_pages = []\<rparr>"

definition tok_available_size :: "token_alloc \<Rightarrow> nat" where
  "tok_available_size a = length (al_free_pages a) + length (al_release_pages a)"

definition tok_get_all_free_pages :: "token_alloc \<Rightarrow> int list" where
  "tok_get_all_free_pages a =
     (if length (al_release_pages a) = 0 then al_free_pages a
      else al_free_pages a @ al_release_pages a)"

definition tok_merge_and_sort_free :: "token_alloc \<Rightarrow> token_alloc" where
  "tok_merge_and_sort_free a =
     (if length (al_release_pages a) > 0
      then a\<lparr>al_free_pages := sort (al_free_pages a @ al_release_pages a), al_release_pages := []\<rparr>
      else a)"

definition tok_alloc :: "nat \<Rightarrow> token_alloc \<Rightarrow> int list option \<times> token_alloc" where
  "tok_alloc need_size a =
     (let a = (if al_need_sort a \<and> need_size > length (al_free_pages a)
               then tok_merge_and_sort_free a else a)
      in if need_size > length (al_free_pages a) then (None, a)
         else (Some (take need_size (al_free_pages a)),
               a\<lparr>al_free_pages := drop need_size (al_free_pages a)\<rparr>))"

definition tok_free :: "int list \<Rightarrow> token_alloc \<Rightarrow> token_alloc" where
  "tok_free free_index a =
     (if length free_index = 0 then a
      else case al_free_group a of
        None \<Rightarrow> (if al_need_sort a then a\<lparr>al_release_pages := al_release_pages a @ free_index\<rparr>
                  else a\<lparr>al_free_pages := al_free_pages a @ free_index\<rparr>)
      | Some g \<Rightarrow> a\<lparr>al_free_group := Some (g @ [free_index])\<rparr>)"

definition tok_free_page_ids :: "int list \<Rightarrow> token_alloc \<Rightarrow> token_alloc" where
  "tok_free_page_ids page_ids a = tok_free page_ids a"

definition tok_free_group_begin :: "token_alloc \<Rightarrow> token_alloc result" where
  "tok_free_group_begin a =
     rbind (py_assert (al_free_group a = None) ''free groups cannot be nested'')
       (\<lambda>_. Inr (a\<lparr>al_free_group := Some []\<rparr>))"

definition tok_free_group_end :: "token_alloc \<Rightarrow> token_alloc" where
  "tok_free_group_end a =
     (let pending = al_free_group a; a = a\<lparr>al_free_group := None\<rparr>
      in case pending of None \<Rightarrow> a
         | Some g \<Rightarrow> if g \<noteq> [] then tok_free (concat g) a else a)"

definition tok_free_segment :: "int list \<Rightarrow> nat \<Rightarrow> token_alloc \<Rightarrow> token_alloc result" where
  "tok_free_segment free_index start_pos a =
     rbind (py_assert (start_pos mod al_page_size a = 0) ''segment start is not page-aligned'')
       (\<lambda>_. Inr (tok_free free_index a))"

definition tok_free_segments :: "(int list \<times> nat) list \<Rightarrow> token_alloc \<Rightarrow> token_alloc result" where
  "tok_free_segments segments a =
     rbind (page_disjoint (al_page_size a) None segments)
       (\<lambda>segs. rfold (\<lambda>(free_index, start_pos). tok_free_segment free_index start_pos) segs a)"

definition tok_resize :: "nat \<Rightarrow> token_alloc \<Rightarrow> token_alloc" where
  "tok_resize max_total_num_tokens a = tok_clear (a\<lparr>al_size := max_total_num_tokens\<rparr>)"

section \<open>The paged allocator\<close>

definition pag_clear :: "paged_alloc \<Rightarrow> paged_alloc" where
  "pag_clear a = a\<lparr>al_free_pages := map int [1..<al_num_pages a + 1], al_free_group := None,
     al_free_page_ids_group := [], al_staged_pages := [], al_num_staged_pages := 0\<rparr>"

definition PagedTokenToKVPoolAllocator :: "nat \<Rightarrow> nat \<Rightarrow> bool \<Rightarrow> bool \<Rightarrow> paged_alloc result" where
  "PagedTokenToKVPoolAllocator sz ps need_sort debug =
     (if ps = 0 then Inl ZeroDivisionError
      else Inr (pag_clear \<lparr>al_size = sz, al_page_size = ps, al_need_sort = need_sort,
        al_free_pages = [], al_free_group = None, al_num_pages = sz div ps, al_debug_mode = debug,
        al_staged_pages = [], al_num_staged_pages = 0, al_free_page_ids_group = []\<rparr>))"

definition pag_available_size :: "paged_alloc \<Rightarrow> nat" where
  "pag_available_size a = (length (al_free_pages a) + al_num_staged_pages a) * al_page_size a"

definition pag_get_all_free_pages :: "paged_alloc \<Rightarrow> int list" where
  "pag_get_all_free_pages a = al_free_pages a @ concat (al_staged_pages a)"

definition pag_merge_and_sort_free :: "paged_alloc \<Rightarrow> paged_alloc" where
  "pag_merge_and_sort_free a =
     (if al_staged_pages a = [] then a
      else a\<lparr>al_free_pages := sort (pag_get_all_free_pages a), al_staged_pages := [],
              al_num_staged_pages := 0\<rparr>)"

text \<open>All slots of some pages, in order.\<close>

definition page_slots :: "nat \<Rightarrow> int list \<Rightarrow> int list" where
  "page_slots ps pages = concat (map (\<lambda>pg. map (\<lambda>i. pg * int ps + int i) [0..<ps]) pages)"

definition pag_alloc :: "nat \<Rightarrow> paged_alloc \<Rightarrow> (int list option \<times> paged_alloc) result" where
  "pag_alloc need_size a =
     rbind (py_assert (\<not> al_debug_mode a \<or> need_size mod al_page_size a = 0)
              ''The allocation size should be page-aligned'')
       (\<lambda>_. let num_pages = need_size div al_page_size a;
                 a = (if num_pages > length (al_free_pages a) then pag_merge_and_sort_free a else a)
             in if num_pages > length (al_free_pages a) then Inr (None, a)
                else Inr (Some (page_slots (al_page_size a) (take num_pages (al_free_pages a))),
                          a\<lparr>al_free_pages := drop num_pages (al_free_pages a)\<rparr>))"

text \<open>What the device decides: masked lanes, memory behind a tensor, and uninitialised memory.\<close>

record gpu =
  lane_other :: int
  behind :: "int \<Rightarrow> int"
  uninit :: "nat \<Rightarrow> int"

definition pag_alloc_extend ::
  "gpu \<Rightarrow> int list \<Rightarrow> int list \<Rightarrow> int list \<Rightarrow> nat \<Rightarrow> int option \<Rightarrow> paged_alloc
     \<Rightarrow> (int list option \<times> paged_alloc) result" where
  "pag_alloc_extend dev prefix_lens seq_lens last_loc extend_num_tokens num_new_pages a =
     (let p = int (al_page_size a) in
      rbind (py_assert (\<not> al_debug_mode a \<or>
               list_all2 (\<lambda>l q. (l + 1) mod p = q mod p) last_loc prefix_lens) ''last_loc'')
        (\<lambda>_. let bs = length prefix_lens;
                 a = (if extend_num_tokens div al_page_size a + bs + 1 > length (al_free_pages a)
                      then pag_merge_and_sort_free a else a);
                 out_indices = launch (alloc_extend_kernel (lane_other dev) (behind dev) prefix_lens seq_lens
                     last_loc (al_free_pages a) (next_power_of_2 bs) p) bs
                   (map (uninit dev) [0..<extend_num_tokens])
             in rbind (py_assert (\<not> al_debug_mode a \<or> length (unique out_indices) = length out_indices) ''unique'')
                  (\<lambda>_. rbind (case num_new_pages of Some n \<Rightarrow> Inr n
                              | None \<Rightarrow> get_num_new_pages seq_lens p (Some prefix_lens) False)
                    (\<lambda>n. if n > int (length (al_free_pages a)) then Inr (None, a)
                         else Inr (Some out_indices, a\<lparr>al_free_pages := py_drop n (al_free_pages a)\<rparr>)))))"

definition pag_alloc_decode ::
  "gpu \<Rightarrow> int list \<Rightarrow> int list \<Rightarrow> paged_alloc \<Rightarrow> (int list option \<times> paged_alloc) result" where
  "pag_alloc_decode dev seq_lens last_loc a =
     (let p = int (al_page_size a) in
      rbind (py_assert (\<not> al_debug_mode a \<or>
               list_all2 (\<lambda>l s. (l + 2) mod p = s mod p) last_loc seq_lens) ''last_loc'')
        (\<lambda>_. let bs = length seq_lens;
                 a = (if bs > length (al_free_pages a) then pag_merge_and_sort_free a else a);
                 out_indices = launch (alloc_decode_kernel (lane_other dev) (behind dev) seq_lens
                     last_loc (al_free_pages a) (next_power_of_2 bs) p) bs (map (uninit dev) [0..<bs])
             in rbind (py_assert (\<not> al_debug_mode a \<or> length (unique out_indices) = length out_indices) ''unique'')
                  (\<lambda>_. rbind (get_num_new_pages seq_lens p None True)
                    (\<lambda>n. if n > int (length (al_free_pages a)) then Inr (None, a)
                         else Inr (Some out_indices, a\<lparr>al_free_pages := py_drop n (al_free_pages a)\<rparr>)))))"

definition pag_debug_check_no_duplicate_pages :: "paged_alloc \<Rightarrow> unit result" where
  "pag_debug_check_no_duplicate_pages a =
     (let pages = pag_get_all_free_pages a
      in py_assert (length (unique pages) = length pages) ''duplicate free pages'')"

definition pag_release_page_ids :: "int list \<Rightarrow> paged_alloc \<Rightarrow> paged_alloc" where
  "pag_release_page_ids page_ids a =
     (if al_need_sort a
      then a\<lparr>al_staged_pages := al_staged_pages a @ [page_ids],
              al_num_staged_pages := al_num_staged_pages a + length page_ids\<rparr>
      else a\<lparr>al_free_pages := page_ids @ al_free_pages a\<rparr>)"

definition pag_check :: "paged_alloc \<Rightarrow> paged_alloc result" where
  "pag_check a = (if al_debug_mode a then rbind (pag_debug_check_no_duplicate_pages a) (\<lambda>_. Inr a) else Inr a)"

definition pag_free :: "int list \<Rightarrow> paged_alloc \<Rightarrow> paged_alloc result" where
  "pag_free free_index a =
     (if length free_index = 0 then Inr a
      else case al_free_group a of
        None \<Rightarrow> pag_check (pag_release_page_ids
          (unique (map (\<lambda>x. x div int (al_page_size a)) free_index)) a)
      | Some g \<Rightarrow> pag_check (a\<lparr>al_free_group := Some (g @ [free_index])\<rparr>))"

definition pag_free_page_ids :: "int list \<Rightarrow> paged_alloc \<Rightarrow> paged_alloc result" where
  "pag_free_page_ids page_ids a =
     (if length page_ids = 0 then Inr a
      else case al_free_group a of
        None \<Rightarrow> pag_check (pag_release_page_ids page_ids a)
      | Some g \<Rightarrow> Inr (a\<lparr>al_free_page_ids_group := al_free_page_ids_group a @ [page_ids]\<rparr>))"

definition pag_free_segment :: "int list \<Rightarrow> nat \<Rightarrow> paged_alloc \<Rightarrow> paged_alloc result" where
  "pag_free_segment free_index start_pos a =
     (if length free_index = 0 then Inr a
      else let ps = al_page_size a; reps = stride ps free_index in
        rbind (py_assert (start_pos mod ps = 0) ''segment start is not page-aligned'')
          (\<lambda>_. rbind (py_assert (\<not> al_debug_mode a \<or>
                   sort (map (\<lambda>x. x div int ps) reps) = unique (map (\<lambda>x. x div int ps) free_index)) ''reps'')
            (\<lambda>_. pag_free_page_ids (map (\<lambda>x. x div int ps) reps) a)))"

definition pag_free_segments :: "(int list \<times> nat) list \<Rightarrow> paged_alloc \<Rightarrow> paged_alloc result" where
  "pag_free_segments segments a =
     rbind (page_disjoint (al_page_size a) None segments)
       (\<lambda>segs. rfold (\<lambda>(free_index, start_pos). pag_free_segment free_index start_pos) segs a)"

definition pag_free_group_begin :: "paged_alloc \<Rightarrow> paged_alloc result" where
  "pag_free_group_begin a =
     rbind (py_assert (al_free_group a = None) ''free groups cannot be nested'')
       (\<lambda>_. Inr (a\<lparr>al_free_group := Some [], al_free_page_ids_group := []\<rparr>))"

definition pag_free_group_end :: "paged_alloc \<Rightarrow> paged_alloc result" where
  "pag_free_group_end a =
     (let pending = al_free_group a; a = a\<lparr>al_free_group := None\<rparr>
      in rbind (case pending of None \<Rightarrow> Inr a
                | Some g \<Rightarrow> if g \<noteq> [] then pag_free (concat g) a else Inr a)
          (\<lambda>a. let a = (if al_free_page_ids_group a \<noteq> []
                        then (pag_release_page_ids (concat (al_free_page_ids_group a)) a)\<lparr>al_free_page_ids_group := []\<rparr>
                        else a)
               in pag_check a))"

definition pag_resize :: "nat \<Rightarrow> paged_alloc \<Rightarrow> paged_alloc" where
  "pag_resize max_total_num_tokens a =
     (let a = a\<lparr>al_size := max_total_num_tokens\<rparr>;
          a = (if al_page_size a > 1 then a\<lparr>al_num_pages := max_total_num_tokens div al_page_size a\<rparr> else a)
      in pag_clear a)"

section \<open>The Mamba slot allocator\<close>

text \<open>\<open>mb_alloc_iter\<close> holds the slots the group iterator has not yet yielded.\<close>

record mamba_alloc =
  mb_size :: nat
  mb_free_slots :: "int list"
  mb_alloc_iter :: "int list option"

definition mb_clear :: "mamba_alloc \<Rightarrow> mamba_alloc" where
  "mb_clear m = m\<lparr>mb_free_slots := map int [1..<mb_size m + 1]\<rparr>"

definition MambaSlotAllocator :: "nat \<Rightarrow> mamba_alloc" where
  "MambaSlotAllocator sz = mb_clear \<lparr>mb_size = sz, mb_free_slots = [], mb_alloc_iter = None\<rparr>"

definition mb_available_size :: "mamba_alloc \<Rightarrow> nat" where
  "mb_available_size m = length (mb_free_slots m)"

definition mb_do_alloc :: "nat \<Rightarrow> mamba_alloc \<Rightarrow> int list option \<times> mamba_alloc" where
  "mb_do_alloc need_size m =
     (if need_size > length (mb_free_slots m) then (None, m)
      else (Some (take need_size (mb_free_slots m)),
            m\<lparr>mb_free_slots := drop need_size (mb_free_slots m)\<rparr>))"

definition mb_free :: "int list \<Rightarrow> mamba_alloc \<Rightarrow> mamba_alloc" where
  "mb_free free_index m =
     (if length free_index = 0 then m else m\<lparr>mb_free_slots := mb_free_slots m @ free_index\<rparr>)"

definition mb_alloc :: "nat \<Rightarrow> mamba_alloc \<Rightarrow> int list option \<times> mamba_alloc" where
  "mb_alloc need_size m =
     (case mb_alloc_iter m of
        Some (slot # rest) \<Rightarrow> if need_size = 1 then (Some [slot], m\<lparr>mb_alloc_iter := Some rest\<rparr>)
                              else mb_do_alloc need_size m
      | _ \<Rightarrow> mb_do_alloc need_size m)"

definition mb_alloc_group_begin :: "nat \<Rightarrow> mamba_alloc \<Rightarrow> mamba_alloc" where
  "mb_alloc_group_begin num_reqs m =
     (let m = m\<lparr>mb_alloc_iter := None\<rparr>
      in if num_reqs > 0
         then case mb_do_alloc num_reqs m of
            (None, m) \<Rightarrow> m
          | (Some result, m) \<Rightarrow> m\<lparr>mb_alloc_iter := Some result\<rparr>
         else m)"

definition mb_alloc_group_end :: "mamba_alloc \<Rightarrow> mamba_alloc" where
  "mb_alloc_group_end m =
     (let m' = (case mb_alloc_iter m of None \<Rightarrow> m
                | Some remaining \<Rightarrow> if remaining \<noteq> [] then mb_free remaining m else m)
      in m'\<lparr>mb_alloc_iter := None\<rparr>)"

end
