(* ===== verification/Radix_Key.thy ===== *)
theory Radix_Key
  imports KV_Prelude
begin

text \<open>
  Model of the class \<^verbatim>\<open>RadixKey\<close> of \<^verbatim>\<open>mem_cache/radix_cache.py\<close>: a token-id array
  with a namespace (\<open>extra_key\<close>, \<open>cache_salt\<close>), an optional bigram view (logical unit
  \<open>i\<close> is the pair of tokens \<open>i\<close> and \<open>i+1\<close>) and an optional cap on the raw tokens.
  The logical content of a key is \<open>units\<close> (the class's \<^verbatim>\<open>__iter__\<close>); the theory shows
  that every other operation is determined by it: slicing is slicing of the units, the
  galloping-and-bisecting \<open>match_at\<close> is the longest common prefix rounded down to pages, and
  two keys have the same dictionary key exactly when namespace and first page agree.
\<close>

section \<open>The key and its views\<close>

record radix_key =
  token_ids :: "int list"
  extra_key :: "string option"
  cache_salt :: "string option"
  is_bigram :: bool
  limit :: "nat option"

text \<open>The constructor stores \<^verbatim>\<open>cache_salt or None\<close>: an empty salt is no salt.\<close>

definition RadixKey :: "int list \<Rightarrow> string option \<Rightarrow> bool \<Rightarrow> nat option \<Rightarrow> string option \<Rightarrow> radix_key" where
  "RadixKey tokens ek bigram lim salt =
     \<lparr>token_ids = tokens, extra_key = ek,
      cache_salt = (if salt = Some [] then None else salt),
      is_bigram = bigram, limit = lim\<rparr>"

definition raw_len :: "radix_key \<Rightarrow> nat" where
  "raw_len k = (let n = length (token_ids k) in
     case limit k of None \<Rightarrow> n | Some l \<Rightarrow> if l < n then l else n)"

definition raw_token_ids :: "radix_key \<Rightarrow> int list" where
  "raw_token_ids k = (let n = raw_len k; t = token_ids k in
     if n = length t then t else take n t)"

definition rk_len :: "radix_key \<Rightarrow> nat" where
  "rk_len k = (let n = raw_len k in
     if is_bigram k then (if n > 0 then n - 1 else 0) else n)"

text \<open>A logical unit: a token, or a pair of neighbouring tokens in bigram mode.\<close>

datatype unit_key = Tok int | Bi int int

definition units :: "radix_key \<Rightarrow> unit_key list" where
  "units k = (let t = token_ids k; n = raw_len k in
     if is_bigram k then map (\<lambda>i. Bi (t ! i) (t ! (i + 1))) [0..<(if n > 0 then n - 1 else 0)]
     else if n = length t then map Tok t
     else map (\<lambda>i. Tok (t ! i)) [0..<n])"

lemma raw_len_le: "raw_len k \<le> length (token_ids k)"
  by (simp add: raw_len_def Let_def split: option.splits)

lemma raw_token_ids_take: "raw_token_ids k = take (raw_len k) (token_ids k)"
  by (simp add: raw_token_ids_def Let_def)

lemma length_raw_token_ids [simp]: "length (raw_token_ids k) = raw_len k"
  by (simp add: raw_token_ids_take raw_len_le)

lemma length_units [simp]: "length (units k) = rk_len k"
  by (simp add: units_def rk_len_def Let_def)

lemma rk_len_bigram: "is_bigram k \<Longrightarrow> rk_len k = raw_len k - 1"
  by (simp add: rk_len_def Let_def)

lemma rk_len_plain: "\<not> is_bigram k \<Longrightarrow> rk_len k = raw_len k"
  by (simp add: rk_len_def Let_def)

definition pairs :: "int list \<Rightarrow> unit_key list" where
  "pairs t = map (\<lambda>i. Bi (t ! i) (t ! (i + 1))) [0..<length t - 1]"

lemma length_pairs [simp]: "length (pairs t) = length t - 1"
  by (simp add: pairs_def)

lemma units_plain: "\<not> is_bigram k \<Longrightarrow> units k = map Tok (raw_token_ids k)"
proof -
  assume "\<not> is_bigram k"
  moreover have "map (\<lambda>i. Tok (token_ids k ! i)) [0..<raw_len k] = map Tok (take (raw_len k) (token_ids k))"
    using raw_len_le [of k] by (intro nth_equalityI) auto
  ultimately show ?thesis
    by (simp add: units_def raw_token_ids_take Let_def)
qed

lemma units_bigram: "is_bigram k \<Longrightarrow> units k = pairs (raw_token_ids k)"
  using raw_len_le [of k]
  by (auto simp: units_def pairs_def raw_token_ids_take Let_def intro!: nth_equalityI)

section \<open>Slicing\<close>

text \<open>
  \<open>rk_sub k a b\<close> is the tail of \<^verbatim>\<open>__getitem__\<close> after the bounds were resolved: bigrams
  \<open>[a, b)\<close> span the raw tokens \<open>[a, b + 1)\<close>, and an empty slice keeps no boundary token.
\<close>

definition rk_sub :: "radix_key \<Rightarrow> nat \<Rightarrow> nat \<Rightarrow> radix_key" where
  "rk_sub k a b =
     (if is_bigram k
      then RadixKey (if b > a then slice (token_ids k) a (b + 1) else []) (extra_key k) True None (cache_salt k)
      else RadixKey (slice (token_ids k) a b) (extra_key k) False None (cache_salt k))"

datatype index = Idx int | Sl "int option" "int option" "int option"

definition rk_getitem :: "radix_key \<Rightarrow> index \<Rightarrow> radix_key result" where
  "rk_getitem k ix =
     (case ix of
        Idx i \<Rightarrow>
          (let n = int (rk_len k); i' = (if i < 0 then i + n else i) in
           if i' < 0 \<or> i' \<ge> n then Inl IndexError
           else Inr (rk_sub k (nat i') (nat i' + 1)))
      | Sl a b s \<Rightarrow>
          (if s \<noteq> None \<and> s \<noteq> Some 1 then Inl (ValueError ''RadixKey slice step must be 1'')
           else Inr (rk_sub k (slice_start a (rk_len k)) (slice_stop b (rk_len k)))))"

text \<open>The two slices the tree uses, \<^verbatim>\<open>key[n:]\<close> and \<^verbatim>\<open>key[:n]\<close>.\<close>

definition rk_drop :: "nat \<Rightarrow> radix_key \<Rightarrow> radix_key" where
  "rk_drop n k = rk_sub k (slice_start (Some (int n)) (rk_len k)) (slice_stop None (rk_len k))"

definition rk_take :: "nat \<Rightarrow> radix_key \<Rightarrow> radix_key" where
  "rk_take n k = rk_sub k (slice_start None (rk_len k)) (slice_stop (Some (int n)) (rk_len k))"

definition page_aligned :: "radix_key \<Rightarrow> nat \<Rightarrow> radix_key result" where
  "page_aligned k page_size =
     (if page_size = 1 then Inr k
      else if page_size = 0 then Inl ZeroDivisionError
      else Inr (rk_take (rk_len k div page_size * page_size) k))"

definition maybe_to_bigram_view :: "radix_key \<Rightarrow> bool \<Rightarrow> 'v list option \<Rightarrow> radix_key \<times> 'v list option" where
  "maybe_to_bigram_view k is_eagle v =
     (if is_eagle \<and> \<not> is_bigram k
      then (let k' = k\<lparr>is_bigram := True\<rparr> in (k', map_option (take (rk_len k')) v))
      else (k, v))"

lemma rk_getitem_slices:
  "rk_getitem k (Sl (Some (int n)) None None) = Inr (rk_drop n k)"
  "rk_getitem k (Sl None (Some (int n)) None) = Inr (rk_take n k)"
  by (simp_all add: rk_getitem_def rk_drop_def rk_take_def)

abbreviation namespace :: "radix_key \<Rightarrow> string option \<times> string option" where
  "namespace k \<equiv> (extra_key k, cache_salt k)"

text \<open>Every key built by the constructor has a normalised salt.\<close>

definition salt_ok :: "radix_key \<Rightarrow> bool" where
  "salt_ok k \<longleftrightarrow> cache_salt k \<noteq> Some []"

lemma RadixKey_fields [simp]:
  "token_ids (RadixKey t e b l s) = t" "extra_key (RadixKey t e b l s) = e"
  "is_bigram (RadixKey t e b l s) = b" "limit (RadixKey t e b l s) = l"
  "salt_ok (RadixKey t e b l s)"
  by (simp_all add: RadixKey_def salt_ok_def)

lemma rk_sub_fields [simp]:
  "extra_key (rk_sub k a b) = extra_key k" "is_bigram (rk_sub k a b) = is_bigram k"
  "salt_ok (rk_sub k a b)" "limit (rk_sub k a b) = None"
  by (simp_all add: rk_sub_def)

lemma cache_salt_rk_sub [simp]: "salt_ok k \<Longrightarrow> cache_salt (rk_sub k a b) = cache_salt k"
  by (simp add: rk_sub_def RadixKey_def salt_ok_def)

lemma pairs_slice: "a < b \<Longrightarrow> b < length t \<Longrightarrow> pairs (slice t a (Suc b)) = slice (pairs t) a b"
  by (rule nth_equalityI) (auto simp: pairs_def)

lemma units_rk_sub:
  assumes "b \<le> rk_len k"
  shows "units (rk_sub k a b) = slice (units k) a b"
proof (cases "is_bigram k")
  case True
  show ?thesis
  proof (cases "a < b")
    case ab: True
    with True assms have b: "b < raw_len k" by (simp add: rk_len_bigram)
    have "slice (token_ids k) a (b + 1) = slice (raw_token_ids k) a (b + 1)"
      using b by (simp add: raw_token_ids_take slice_def drop_take min_def)
    moreover have "raw_token_ids (rk_sub k a b) = slice (token_ids k) a (b + 1)"
      using True ab by (simp add: rk_sub_def raw_token_ids_def raw_len_def)
    ultimately show ?thesis
      using True ab b by (simp add: units_bigram pairs_slice)
  next
    case False
    with True show ?thesis
      by (simp add: units_bigram rk_sub_def raw_token_ids_def raw_len_def pairs_def)
  qed
next
  case False
  with assms have b: "b \<le> raw_len k" by (simp add: rk_len_plain)
  have "slice (token_ids k) a b = slice (raw_token_ids k) a b"
    using b by (simp add: raw_token_ids_take slice_def drop_take min_def)
  moreover have "raw_token_ids (rk_sub k a b) = slice (token_ids k) a b"
    using False by (simp add: rk_sub_def raw_token_ids_def raw_len_def)
  ultimately show ?thesis
    using False by (simp add: units_plain slice_map)
qed

lemma units_rk_drop [simp]: "units (rk_drop n k) = drop n (units k)"
  by (simp add: rk_drop_def units_rk_sub slice_stop_def slice_start_def) (simp add: min_def)

lemma units_rk_take [simp]: "units (rk_take n k) = take n (units k)"
  by (simp add: rk_take_def units_rk_sub slice_stop_def slice_start_def) (simp add: min_def)

lemma rk_drop_take_fields [simp]:
  "extra_key (rk_drop n k) = extra_key k" "is_bigram (rk_drop n k) = is_bigram k"
  "extra_key (rk_take n k) = extra_key k" "is_bigram (rk_take n k) = is_bigram k"
  "salt_ok (rk_drop n k)" "salt_ok (rk_take n k)"
  "salt_ok k \<Longrightarrow> cache_salt (rk_drop n k) = cache_salt k"
  "salt_ok k \<Longrightarrow> cache_salt (rk_take n k) = cache_salt k"
  by (simp_all add: rk_drop_def rk_take_def)

lemma rk_len_drop_take [simp]:
  "rk_len (rk_drop n k) = rk_len k - n" "rk_len (rk_take n k) = min n (rk_len k)"
  by (metis length_drop length_units units_rk_drop)
    (metis length_take length_units units_rk_take min.commute)

section \<open>Matching\<close>

definition check_compatible :: "radix_key \<Rightarrow> radix_key \<Rightarrow> unit result" where
  "check_compatible k other =
     (if extra_key k \<noteq> extra_key other then Inl (ValueError ''extra_key'')
      else if cache_salt k \<noteq> cache_salt other then Inl (ValueError ''cache_salt'')
      else Inr ())"

text \<open>
  The two nested loops of \<^verbatim>\<open>match_at\<close>. \<open>seg_eq lo hi\<close> stands for the comparison
  \<^verbatim>\<open>t0[lo:hi] == t1[offset+lo:offset+hi]\<close>. The inner loop bisects a window known to hold a
  difference; the outer loop gallops with the window width \<^verbatim>\<open>step\<close>, which starts at 1 and
  doubles, so it is \<open>2 ^ j\<close> in round \<open>j\<close>.
\<close>

function bisect :: "(nat \<Rightarrow> nat \<Rightarrow> bool) \<Rightarrow> nat \<Rightarrow> nat \<Rightarrow> nat" where
  "bisect seg_eq lo hi =
     (if hi - lo > 1
      then (let mid = (lo + hi) div 2 in
            if seg_eq lo mid then bisect seg_eq mid hi else bisect seg_eq lo mid)
      else lo)"
  by pat_completeness auto
termination
  by (relation "measure (\<lambda>(seg_eq, lo, hi). hi - lo)") auto

function gallop :: "(nat \<Rightarrow> nat \<Rightarrow> bool) \<Rightarrow> nat \<Rightarrow> nat \<Rightarrow> nat \<Rightarrow> nat" where
  "gallop seg_eq n lo j =
     (if lo < n
      then (let hi = (if lo + 2 ^ j < n then lo + 2 ^ j else n) in
            if \<not> seg_eq lo hi then bisect seg_eq lo hi
            else gallop seg_eq n hi (Suc j))
      else n)"
  by pat_completeness auto
termination
  by (relation "measure (\<lambda>(seg_eq, n, lo, j). n - lo)") (auto intro: diff_less_mono2)

declare bisect.simps [simp del] gallop.simps [simp del]

definition match_at :: "radix_key \<Rightarrow> radix_key \<Rightarrow> int \<Rightarrow> nat \<Rightarrow> nat result" where
  "match_at k other offset page_size =
     rbind (check_compatible k other) (\<lambda>_.
     if is_bigram k \<noteq> is_bigram other then Inl (ValueError ''bigram modes'')
     else if offset < 0 \<or> offset > int (rk_len other) then Inl IndexError
     else
       (let t0 = token_ids k; t1 = token_ids other; off = nat offset;
            n = min (raw_len k) (raw_len other - off);
            seg_eq = (\<lambda>lo hi. slice t0 lo hi = slice t1 (off + lo) (off + hi));
            matched_tokens = gallop seg_eq n 0 0
        in if is_bigram k
           then (let matched = min (matched_tokens - 1) (min (rk_len k) (rk_len other - off))
                 in Inr (if page_size > 1 then matched div page_size * page_size else matched))
           else (let matched = min matched_tokens (min (rk_len k) (rk_len other - off))
                 in if page_size = 1 then Inr matched
                    else if page_size = 0 then Inl ZeroDivisionError
                    else Inr (matched div page_size * page_size))))"

definition rk_match :: "radix_key \<Rightarrow> radix_key \<Rightarrow> nat \<Rightarrow> nat result" where
  "rk_match k other page_size = match_at k other 0 page_size"

text \<open>
  Correctness of the two loops. \<open>agrees d lo hi\<close> says that no position of \<open>[lo, hi)\<close> is a
  difference, for \<open>d\<close> the set of differing positions.
\<close>

lemma bisect_spec:
  assumes "lo < hi" "\<And>a b. lo \<le> a \<Longrightarrow> a \<le> b \<Longrightarrow> b \<le> hi \<Longrightarrow> seg_eq a b = (\<forall>i. a \<le> i \<and> i < b \<longrightarrow> p i)"
    and "\<not> seg_eq lo hi"
  shows "lo \<le> bisect seg_eq lo hi \<and> bisect seg_eq lo hi < hi \<and> \<not> p (bisect seg_eq lo hi) \<and>
         (\<forall>i. lo \<le> i \<and> i < bisect seg_eq lo hi \<longrightarrow> p i)"
  using assms
proof (induction seg_eq lo hi rule: bisect.induct)
  case (1 seg_eq lo hi)
  define mid where "mid = (lo + hi) div 2"
  show ?case
  proof (cases "hi - lo > 1")
    case wide: True
    then have mid: "lo < mid" "mid < hi" by (auto simp: mid_def)
    show ?thesis
    proof (cases "seg_eq lo mid")
      case True
      have eq: "bisect seg_eq lo hi = bisect seg_eq mid hi"
        using wide True by (simp add: bisect.simps [of seg_eq lo hi] mid_def Let_def)
      have pre: "\<And>i. lo \<le> i \<Longrightarrow> i < mid \<Longrightarrow> p i"
        using "1.prems"(2) [of lo mid] mid True by auto
      have "\<not> seg_eq mid hi"
      proof
        assume "seg_eq mid hi"
        then have "\<forall>i. mid \<le> i \<and> i < hi \<longrightarrow> p i" using "1.prems"(2) [of mid hi] mid by simp
        with pre have "\<forall>i. lo \<le> i \<and> i < hi \<longrightarrow> p i" by (meson linorder_not_le)
        with "1.prems"(2) [of lo hi] "1.prems"(1,3) show False by simp
      qed
      then have rest: "mid \<le> bisect seg_eq mid hi \<and> bisect seg_eq mid hi < hi \<and>
          \<not> p (bisect seg_eq mid hi) \<and> (\<forall>i. mid \<le> i \<and> i < bisect seg_eq mid hi \<longrightarrow> p i)"
        using mid "1.prems"(2) by (intro "1.IH"(1) [OF wide mid_def True]) auto
      have "p i" if "lo \<le> i" "i < bisect seg_eq mid hi" for i
        using rest pre that by (cases "i < mid") auto
      with rest mid show ?thesis unfolding eq by auto
    next
      case False
      have eq: "bisect seg_eq lo hi = bisect seg_eq lo mid"
        using wide False by (simp add: bisect.simps [of seg_eq lo hi] mid_def Let_def)
      have "lo \<le> bisect seg_eq lo mid \<and> bisect seg_eq lo mid < mid \<and>
          \<not> p (bisect seg_eq lo mid) \<and> (\<forall>i. lo \<le> i \<and> i < bisect seg_eq lo mid \<longrightarrow> p i)"
        using mid "1.prems"(2) False by (intro "1.IH"(2) [OF wide mid_def False]) auto
      with mid show ?thesis unfolding eq by auto
    qed
  next
    case False
    then have hi: "hi = Suc lo" using "1.prems"(1) by simp
    have lo: "bisect seg_eq lo hi = lo" using False by (simp add: bisect.simps [of seg_eq lo hi])
    have "\<not> (\<forall>i. lo \<le> i \<and> i < hi \<longrightarrow> p i)" using "1.prems"(2) [of lo hi] "1.prems"(1,3) by simp
    then have "\<not> p lo" unfolding hi by (metis le_antisym less_Suc_eq_le)
    then show ?thesis unfolding lo using hi by auto
  qed
qed

lemma gallop_spec:
  assumes "lo \<le> n" "\<And>a b. a \<le> b \<Longrightarrow> b \<le> n \<Longrightarrow> seg_eq a b = (\<forall>i. a \<le> i \<and> i < b \<longrightarrow> p i)"
    and "\<forall>i < lo. p i"
  shows "gallop seg_eq n lo j \<le> n \<and> (\<forall>i < gallop seg_eq n lo j. p i) \<and>
         (gallop seg_eq n lo j < n \<longrightarrow> \<not> p (gallop seg_eq n lo j))"
  using assms
proof (induction seg_eq n lo j rule: gallop.induct)
  case (1 seg_eq n lo j)
  define hi where "hi = (if lo + 2 ^ j < n then lo + 2 ^ j else n)"
  show ?case
  proof (cases "lo < n")
    case lo: True
    then have hi: "lo < hi" "hi \<le> n" by (auto simp: hi_def)
    show ?thesis
    proof (cases "seg_eq lo hi")
      case True
      have eq: "gallop seg_eq n lo j = gallop seg_eq n hi (Suc j)"
        using lo True by (simp add: gallop.simps [of seg_eq n lo j] hi_def Let_def)
      have "p i" if "i < hi" for i
        using "1.prems"(2) [of lo hi] "1.prems"(3) hi True that by (cases "i < lo") auto
      then show ?thesis
        unfolding eq using hi "1.prems"(2) True by (intro "1.IH" [OF lo hi_def]) auto
    next
      case False
      have eq: "gallop seg_eq n lo j = bisect seg_eq lo hi"
        using lo False by (simp add: gallop.simps [of seg_eq n lo j] hi_def Let_def)
      have b: "lo \<le> bisect seg_eq lo hi \<and> bisect seg_eq lo hi < hi \<and> \<not> p (bisect seg_eq lo hi) \<and>
         (\<forall>i. lo \<le> i \<and> i < bisect seg_eq lo hi \<longrightarrow> p i)"
        using hi "1.prems"(2) False by (intro bisect_spec) auto
      have "p i" if "i < bisect seg_eq lo hi" for i
        using b "1.prems"(3) that by (cases "i < lo") auto
      with b hi show ?thesis unfolding eq by auto
    qed
  next
    case False
    with "1.prems" have "lo = n" by simp
    with "1.prems"(3) show ?thesis by (simp add: gallop.simps [of seg_eq n n j])
  qed
qed

lemma slice_eq_iff:
  assumes "a \<le> b" "b \<le> length xs" "off + b \<le> length ys"
  shows "slice xs a b = slice ys (off + a) (off + b) \<longleftrightarrow> (\<forall>i. a \<le> i \<and> i < b \<longrightarrow> xs ! i = ys ! (off + i))"
proof
  assume eq: "slice xs a b = slice ys (off + a) (off + b)"
  show "\<forall>i. a \<le> i \<and> i < b \<longrightarrow> xs ! i = ys ! (off + i)"
  proof (intro allI impI)
    fix i assume i: "a \<le> i \<and> i < b"
    have "slice xs a b ! (i - a) = slice ys (off + a) (off + b) ! (i - a)" using eq by simp
    moreover have "slice xs a b ! (i - a) = xs ! (a + (i - a))"
      using i assms by (intro nth_slice) auto
    moreover have "slice ys (off + a) (off + b) ! (i - a) = ys ! (off + a + (i - a))"
      using i assms by (intro nth_slice) auto
    ultimately show "xs ! i = ys ! (off + i)" using i by (simp add: add.assoc)
  qed
next
  assume "\<forall>i. a \<le> i \<and> i < b \<longrightarrow> xs ! i = ys ! (off + i)"
  then show "slice xs a b = slice ys (off + a) (off + b)"
    using assms by (intro nth_equalityI) (auto simp: add.assoc)
qed

lemma gallop_tokens:
  assumes "off \<le> raw_len other"
    and "n = min (raw_len k) (raw_len other - off)"
  shows "gallop (\<lambda>lo hi. slice (token_ids k) lo hi = slice (token_ids other) (off + lo) (off + hi)) n 0 0
         = lcp (raw_token_ids k) (drop off (raw_token_ids other))"
proof -
  let ?seg = "\<lambda>lo hi. slice (token_ids k) lo hi = slice (token_ids other) (off + lo) (off + hi)"
  let ?p = "\<lambda>i. token_ids k ! i = token_ids other ! (off + i)"
  let ?g = "gallop ?seg n 0 0"
  have n: "n \<le> length (token_ids k)" "off + n \<le> length (token_ids other)"
    using assms raw_len_le [of k] raw_len_le [of other] by auto
  have spec: "?g \<le> n \<and> (\<forall>i < ?g. ?p i) \<and> (?g < n \<longrightarrow> \<not> ?p ?g)"
  proof (rule gallop_spec)
    fix a b assume "a \<le> b" "b \<le> n"
    then show "?seg a b = (\<forall>i. a \<le> i \<and> i < b \<longrightarrow> ?p i)" using n by (intro slice_eq_iff) simp_all
  qed simp_all
  have n': "n \<le> raw_len k" "n \<le> raw_len other - off" by (simp_all add: assms(2))
  have idx1: "raw_token_ids k ! i = token_ids k ! i" if "i < n" for i
    using that n' by (simp add: raw_token_ids_take)
  have idx2: "drop off (raw_token_ids other) ! i = token_ids other ! (off + i)" if "i < n" for i
    using that n' raw_len_le [of other] by (simp add: raw_token_ids_take)
  have "lcp (raw_token_ids k) (drop off (raw_token_ids other)) = ?g"
  proof (rule lcp_eqI)
    show le: "?g \<le> length (raw_token_ids k)" "?g \<le> length (drop off (raw_token_ids other))"
      using spec n' by auto
    show "take ?g (raw_token_ids k) = take ?g (drop off (raw_token_ids other))"
    proof (rule nth_equalityI)
      fix i assume "i < length (take ?g (raw_token_ids k))"
      then have "i < ?g" "i < n" using spec by auto
      then show "take ?g (raw_token_ids k) ! i = take ?g (drop off (raw_token_ids other)) ! i"
        using spec idx1 idx2 by (simp del: nth_drop)
    qed (use le in simp)
    show "raw_token_ids k ! ?g \<noteq> drop off (raw_token_ids other) ! ?g"
      if "?g < length (raw_token_ids k)" "?g < length (drop off (raw_token_ids other))"
    proof -
      have "?g < n" using that by (simp add: assms(2))
      then show ?thesis using spec idx1 idx2 by (simp del: nth_drop)
    qed
  qed
  then show ?thesis by simp
qed

lemma lcp_pairs: "lcp (pairs xs) (pairs ys) = lcp xs ys - 1"
proof -
  have step: "pairs (x # z # zs) = Bi x z # pairs (z # zs)" for x z zs
    by (simp add: pairs_def map_upt_Suc del: upt_Suc)
  show ?thesis
  proof (induction xs arbitrary: ys)
    case Nil
    then show ?case by (simp add: pairs_def)
  next
    case (Cons x xs)
    show ?case
    proof (cases xs)
      case Nil
      then show ?thesis by (cases ys) (auto simp: pairs_def)
    next
      case xs: (Cons x' xs')
      show ?thesis
      proof (cases ys)
        case Nil
        then show ?thesis by (simp add: pairs_def)
      next
        case ys: (Cons y ys')
        show ?thesis
        proof (cases ys')
          case Nil
          then show ?thesis using ys by (simp add: pairs_def)
        next
          case ys': (Cons y' ys'')
          have "lcp (pairs xs) (pairs ys') = lcp xs ys' - 1" by (rule Cons.IH)
          then show ?thesis by (cases "x' = y'") (simp_all add: xs ys ys' step)
        qed
      qed
    qed
  qed
qed

lemma pairs_drop: "pairs (drop n t) = drop n (pairs t)"
  by (rule nth_equalityI) (auto simp: pairs_def)

lemma lcp_units:
  assumes "is_bigram k = is_bigram other" "off \<le> raw_len other"
  shows "lcp (units k) (drop off (units other)) =
    (if is_bigram k then lcp (raw_token_ids k) (drop off (raw_token_ids other)) - 1
     else lcp (raw_token_ids k) (drop off (raw_token_ids other)))"
proof (cases "is_bigram k")
  case True
  with assms(1) show ?thesis
    by (simp add: units_bigram flip: pairs_drop) (simp add: lcp_pairs)
next
  case False
  with assms(1) show ?thesis
    by (simp add: units_plain drop_map lcp_map_inj inj_def)
qed

lemma match_at_eq:
  assumes "namespace k = namespace other" "is_bigram k = is_bigram other"
    and "off \<le> rk_len other" "0 < page_size"
  shows "match_at k other (int off) page_size
         = Inr (page_floor page_size (lcp (units k) (drop off (units other))))"
proof -
  have off: "off \<le> raw_len other" using assms(3) by (cases "is_bigram other") (auto simp: rk_len_bigram rk_len_plain)
  let ?l = "lcp (units k) (drop off (units other))"
  have l: "?l \<le> rk_len k" "?l \<le> rk_len other - off"
    using lcp_le1 [of "units k" "drop off (units other)"] lcp_le2 [of "units k" "drop off (units other)"] by simp_all
  have g: "gallop (\<lambda>lo hi. slice (token_ids k) lo hi = slice (token_ids other) (off + lo) (off + hi))
             (min (raw_len k) (raw_len other - off)) 0 0
         = lcp (raw_token_ids k) (drop off (raw_token_ids other))"
    by (rule gallop_tokens [OF off refl])
  show ?thesis
  proof (cases "is_bigram k")
    case True
    then have "lcp (raw_token_ids k) (drop off (raw_token_ids other)) - 1 = ?l"
      using lcp_units [OF assms(2) off] by simp
    with True assms l show ?thesis
      by (simp add: match_at_def check_compatible_def g Let_def page_floor_def)
  next
    case False
    then have "lcp (raw_token_ids k) (drop off (raw_token_ids other)) = ?l"
      using lcp_units [OF assms(2) off] by simp
    with False assms l show ?thesis
      by (simp add: match_at_def check_compatible_def g Let_def page_floor_def)
  qed
qed

lemma rk_match_eq:
  assumes "namespace k = namespace other" "is_bigram k = is_bigram other" "0 < page_size"
  shows "rk_match k other page_size = Inr (page_floor page_size (lcp (units k) (units other)))"
  using match_at_eq [of k other 0 page_size] assms by (simp add: rk_match_def)

section \<open>Dictionary keys\<close>

text \<open>
  The value \<^verbatim>\<open>child_key\<close> returns is a Python int or a nested tuple of ints, strings and
  \<^verbatim>\<open>None\<close>; a node's \<^verbatim>\<open>children\<close> dictionary is indexed by it.
\<close>

datatype pyval = PInt int | PStr string | PNone | PTuple "pyval list"

fun py_opt_str :: "string option \<Rightarrow> pyval" where
  "py_opt_str None = PNone"
| "py_opt_str (Some s) = PStr s"

definition child_key_at :: "radix_key \<Rightarrow> int \<Rightarrow> nat \<Rightarrow> pyval result" where
  "child_key_at k offset page_size =
     (if offset < 0 \<or> offset + int page_size > int (rk_len k) then Inl IndexError
      else
        (let t = token_ids k; off = nat offset;
             plain = (if is_bigram k
                      then (if page_size = 1 then PTuple [PInt (t ! off), PInt (t ! (off + 1))]
                            else PTuple (map (\<lambda>j. PTuple [PInt (t ! j), PInt (t ! (j + 1))]) [off..<off + page_size]))
                      else (if page_size = 1 then PInt (t ! off)
                            else PTuple (map PInt (slice t off (off + page_size)))))
         in Inr (case cache_salt k of
                   Some salt \<Rightarrow> PTuple [PTuple [py_opt_str (extra_key k), PStr salt], plain]
                 | None \<Rightarrow> (case extra_key k of None \<Rightarrow> plain | Some e \<Rightarrow> PTuple [PStr e, plain]))))"

definition child_key :: "radix_key \<Rightarrow> nat \<Rightarrow> pyval result" where
  "child_key k page_size = child_key_at k 0 page_size"

fun enc_unit :: "unit_key \<Rightarrow> pyval" where
  "enc_unit (Tok t) = PInt t"
| "enc_unit (Bi a b) = PTuple [PInt a, PInt b]"

definition enc_page :: "nat \<Rightarrow> unit_key list \<Rightarrow> pyval" where
  "enc_page p us = (if p = 1 then enc_unit (hd us) else PTuple (map enc_unit us))"

fun enc_ns :: "string option \<times> string option \<Rightarrow> pyval \<Rightarrow> pyval" where
  "enc_ns (e, Some salt) v = PTuple [PTuple [py_opt_str e, PStr salt], v]"
| "enc_ns (None, None) v = v"
| "enc_ns (Some e, None) v = PTuple [PStr e, v]"

lemma units_nth_bigram: "is_bigram k \<Longrightarrow> i < rk_len k \<Longrightarrow> units k ! i = Bi (token_ids k ! i) (token_ids k ! (i + 1))"
  by (auto simp: units_def rk_len_def Let_def)

lemma units_nth_plain: "\<not> is_bigram k \<Longrightarrow> i < rk_len k \<Longrightarrow> units k ! i = Tok (token_ids k ! i)"
  by (auto simp: units_def rk_len_def Let_def)

lemma child_key_eq:
  assumes "0 < p" "p \<le> rk_len k"
  shows "child_key k p = Inr (enc_ns (namespace k) (enc_page p (take p (units k))))"
proof -
  let ?plain = "if is_bigram k
      then (if p = 1 then PTuple [PInt (token_ids k ! 0), PInt (token_ids k ! 1)]
            else PTuple (map (\<lambda>j. PTuple [PInt (token_ids k ! j), PInt (token_ids k ! (j + 1))]) [0..<p]))
      else (if p = 1 then PInt (token_ids k ! 0) else PTuple (map PInt (slice (token_ids k) 0 p)))"
  have len: "p \<le> length (token_ids k)"
    using assms raw_len_le [of k] by (cases "is_bigram k") (auto simp: rk_len_bigram rk_len_plain)
  have ne: "units k \<noteq> []" using assms by (metis length_units list.size(3) not_le)
  have hd: "hd (take p (units k)) = units k ! 0" using assms ne by (simp add: hd_conv_nth)
  have step: "child_key k p = Inr (enc_ns (namespace k) ?plain)"
    using assms by (cases "cache_salt k"; cases "extra_key k")
      (simp_all add: child_key_def child_key_at_def Let_def del: One_nat_def)
  have "?plain = enc_page p (take p (units k))"
  proof (cases "is_bigram k")
    case True
    have "map (\<lambda>j. PTuple [PInt (token_ids k ! j), PInt (token_ids k ! (j + 1))]) [0..<p]
        = map enc_unit (take p (units k))"
      using assms True by (intro nth_equalityI) (auto simp: units_nth_bigram)
    with True assms hd show ?thesis by (simp add: enc_page_def units_nth_bigram)
  next
    case False
    have "map PInt (slice (token_ids k) 0 p) = map enc_unit (take p (units k))"
      using assms False len by (intro nth_equalityI) (auto simp: units_nth_plain)
    with False assms hd show ?thesis by (simp add: enc_page_def units_nth_plain)
  qed
  with step show ?thesis by (simp only:)
qed

lemma child_key_IndexError: "rk_len k < p \<Longrightarrow> child_key k p = Inl IndexError"
  by (simp add: child_key_def child_key_at_def)

lemma enc_unit_inj: "enc_unit u = enc_unit v \<longleftrightarrow> u = v"
  by (cases u; cases v) auto

lemma enc_page_inj:
  assumes "0 < p" "length us = p" "length vs = p"
  shows "enc_page p us = enc_page p vs \<longleftrightarrow> us = vs"
proof (cases "p = 1")
  case True
  then obtain u v where "us = [u]" "vs = [v]"
    using assms by (metis length_0_conv length_Suc_conv One_nat_def)
  with True show ?thesis by (simp add: enc_page_def enc_unit_inj)
next
  case False
  then show ?thesis
    by (simp add: enc_page_def inj_map_eq_map inj_def enc_unit_inj)
qed

text \<open>A page never starts like a namespace tag, so tagged and untagged keys cannot collide.\<close>

lemma enc_page_not_tagged:
  assumes "0 < p" "length us = p"
  shows "enc_page p us \<noteq> PTuple [PStr e, v]"
    and "enc_page p us \<noteq> PTuple [PTuple [w, PStr s], v]"
proof -
  obtain u us' where us: "us = u # us'" using assms by (cases us) auto
  show "enc_page p us \<noteq> PTuple [PStr e, v]"
    by (cases u) (auto simp: us enc_page_def)
  show "enc_page p us \<noteq> PTuple [PTuple [w, PStr s], v]"
    by (cases u) (auto simp: us enc_page_def)
qed

lemma enc_ns_inj:
  assumes "0 < p" "length us = p" "length vs = p"
  shows "enc_ns ns (enc_page p us) = enc_ns ns' (enc_page p vs) \<longleftrightarrow> ns = ns' \<and> us = vs"
proof -
  note tag = enc_page_not_tagged [OF assms(1,2)] enc_page_not_tagged [OF assms(1,3)]
  obtain e s e' s' where ns: "ns = (e, s)" "ns' = (e', s')" by (metis surj_pair)
  have opt: "py_opt_str e = py_opt_str e' \<longleftrightarrow> e = e'" by (cases e; cases e') auto
  show ?thesis
    using tag tag [symmetric]
    by (cases s; cases s'; cases e; cases e') (auto simp: ns opt enc_page_inj [OF assms])
qed

text \<open>The logical content of a key with its namespace on every unit: what the tree is keyed by.\<close>

type_synonym tunit = "(string option \<times> string option) \<times> unit_key"

definition tk :: "radix_key \<Rightarrow> tunit list" where
  "tk k = map (Pair (namespace k)) (units k)"

lemma length_tk [simp]: "length (tk k) = rk_len k"
  by (simp add: tk_def)

lemma tk_rk_drop [simp]: "salt_ok k \<Longrightarrow> tk (rk_drop n k) = drop n (tk k)"
  by (simp add: tk_def drop_map)

lemma tk_rk_take [simp]: "salt_ok k \<Longrightarrow> tk (rk_take n k) = take n (tk k)"
  by (simp add: tk_def take_map)

lemma tk_eq_Nil [simp]: "tk k = [] \<longleftrightarrow> rk_len k = 0"
  by (metis length_0_conv length_tk)

lemma child_key_inj:
  assumes "0 < p" "p \<le> rk_len k" "p \<le> rk_len k'"
  shows "child_key k p = child_key k' p \<longleftrightarrow> take p (tk k) = take p (tk k')"
proof -
  have ne: "take p (units k) \<noteq> []" "take p (units k') \<noteq> []"
    using assms by (auto simp flip: length_0_conv)
  have "take p (tk k) = take p (tk k') \<longleftrightarrow>
      namespace k = namespace k' \<and> take p (units k) = take p (units k')"
  proof
    assume eq: "take p (tk k) = take p (tk k')"
    then have "map fst (take p (tk k)) = map fst (take p (tk k'))"
      and "map snd (take p (tk k)) = map snd (take p (tk k'))" by simp_all
    with ne show "namespace k = namespace k' \<and> take p (units k) = take p (units k')"
      by (auto simp: tk_def take_map comp_def)
  qed (simp add: tk_def take_map)
  moreover have "length (take p (units k)) = p" "length (take p (units k')) = p" using assms by auto
  ultimately show ?thesis
    using enc_ns_inj [OF assms(1), of "take p (units k)" "take p (units k')" "namespace k" "namespace k'"]
    by (simp add: child_key_eq [OF assms(1,2)] child_key_eq [OF assms(1,3)])
qed

lemma lcp_tk: "namespace k = namespace k' \<Longrightarrow> lcp (tk k) (tk k') = lcp (units k) (units k')"
  by (simp add: tk_def lcp_map_inj inj_def)

section \<open>Properties\<close>

text \<open>
  Property C1. \<open>match_at\<close> (galloping, then bisecting) computes exactly the length of the longest
  common prefix of the logical units of one key and the units of the other from \<open>offset\<close> on,
  rounded down to whole pages, in plain and in bigram mode and with a raw-token limit.
\<close>

theorem match_at_longest_common_prefix:
  assumes "extra_key k = extra_key other" "cache_salt k = cache_salt other"
    and "is_bigram k = is_bigram other"
    and "offset \<le> rk_len other" "0 < page_size"
  shows "match_at k other (int offset) page_size
         = Inr (lcp (units k) (drop offset (units other)) div page_size * page_size)"
  using match_at_eq [of k other offset page_size] assms by (simp add: page_floor_def)

theorem match_at_longest_common_prefix_witness:
  "match_at (RadixKey [1, 2, 3, 4, 9] None True None None)
            (RadixKey [7, 1, 2, 3, 4, 5] None True None None) (int 1) 2 = Inr 2"
proof -
  have "lcp (units (RadixKey [1, 2, 3, 4, 9] None True None None))
     (drop 1 (units (RadixKey [7, 1, 2, 3, 4, 5] None True None None))) = 3"
    by (simp add: units_def RadixKey_def raw_len_def upt_rec)
  moreover have "1 \<le> rk_len (RadixKey [7, 1, 2, 3, 4, 5] None True None None)"
    by (simp add: rk_len_def RadixKey_def raw_len_def)
  ultimately show ?thesis
    using match_at_longest_common_prefix
      [of "RadixKey [1, 2, 3, 4, 9] None True None None" "RadixKey [7, 1, 2, 3, 4, 5] None True None None" 1 2]
    by (simp add: RadixKey_def)
qed

text \<open>
  Property C2. Two keys of one mode fall under the same entry of a node's \<^verbatim>\<open>children\<close> dictionary
  exactly when they agree on the namespace (\<open>extra_key\<close> and \<open>cache_salt\<close>) and on the whole
  first page of logical units: the nested-tuple encoding never makes two namespaces collide.
\<close>

theorem child_key_identifies_namespace_and_page:
  assumes "0 < page_size" "page_size \<le> rk_len k" "page_size \<le> rk_len k'"
  shows "child_key k page_size = child_key k' page_size \<longleftrightarrow>
         extra_key k = extra_key k' \<and> cache_salt k = cache_salt k' \<and>
         take page_size (units k) = take page_size (units k')"
proof -
  have "length (take page_size (units k)) = page_size" "length (take page_size (units k')) = page_size"
    using assms by auto
  from enc_ns_inj [OF assms(1) this] show ?thesis
    by (simp add: child_key_eq [OF assms(1,2)] child_key_eq [OF assms(1,3)])
qed

theorem child_key_identifies_namespace_and_page_witness:
  "child_key (RadixKey [1, 2] (Some ''lora'') False None None) 2
     \<noteq> child_key (RadixKey [1, 2] (Some ''lora'') False None (Some ''s'')) 2"
proof -
  have "2 \<le> rk_len (RadixKey [1, 2] (Some ''lora'') False None s)" for s
    by (simp add: rk_len_def RadixKey_def raw_len_def)
  from child_key_identifies_namespace_and_page [OF _ this this, of None "Some ''s''"]
  show ?thesis by (simp add: RadixKey_def)
qed

end
