(* ===== verification/Tree_Node.thy ===== *)
theory Tree_Node
  imports Radix_Key
begin

text \<open>
  The class \<^verbatim>\<open>TreeNode\<close> of \<^verbatim>\<open>mem_cache/radix_cache.py\<close> and the store of its objects. Nodes are
  shared and mutable and point to their parent, so they live in a store from node ids to
  records; a reference is an id. The children dictionary is an association list in insertion
  order. \<^verbatim>\<open>time.monotonic()\<close> is a stream of readings, one per call.
\<close>

record node =
  n_children :: "(pyval \<times> nat) list"
  n_parent :: "nat option"
  n_key :: radix_key
  n_value :: "int list option"
  n_lock_ref :: int
  n_last_access :: int
  n_creation :: int
  n_hit_count :: int
  n_host_ref :: int
  n_host_value :: "int list option"
  n_hash :: "string list option"
  n_event_hash :: "string list option"
  n_tlru :: "(int \<times> int) option"
  n_priority :: int

type_synonym store = "nat \<Rightarrow> node option"

abbreviation node_at :: "store \<Rightarrow> nat \<Rightarrow> node" where
  "node_at st i \<equiv> the (st i)"

definition upd :: "nat \<Rightarrow> (node \<Rightarrow> node) \<Rightarrow> store \<Rightarrow> store" where
  "upd i f st = st(i := map_option f (st i))"

text \<open>
  The constructor: no children, no parent, no value; the key is set by the caller, and the two
  time stamps are two readings of the clock. The class counter gives the id.
\<close>

definition TreeNode :: "int \<Rightarrow> int \<Rightarrow> int \<Rightarrow> node" where
  "TreeNode now now' prio =
     \<lparr>n_children = [], n_parent = None, n_key = RadixKey [] None False None None, n_value = None,
      n_lock_ref = 0, n_last_access = now, n_creation = now', n_hit_count = 0, n_host_ref = 0,
      n_host_value = None, n_hash = None, n_event_hash = None, n_tlru = None, n_priority = prio\<rparr>"

definition evicted :: "node \<Rightarrow> bool" where
  "evicted n = (n_value n = None)"

definition backuped :: "node \<Rightarrow> bool" where
  "backuped n = (n_host_value n \<noteq> None)"

definition protect_host :: "node \<Rightarrow> node" where
  "protect_host n = n\<lparr>n_host_ref := n_host_ref n + 1\<rparr>"

definition release_host :: "node \<Rightarrow> node result" where
  "release_host n =
     (if n_host_ref n > 0 then Inr (n\<lparr>n_host_ref := n_host_ref n - 1\<rparr>)
      else Inl (RuntimeError ''Host reference counter is already zero.''))"

definition get_last_hash_value :: "node \<Rightarrow> string option" where
  "get_last_hash_value n =
     (case n_hash n of None \<Rightarrow> None | Some hs \<Rightarrow> if length hs = 0 then None else Some (last hs))"

text \<open>
  The upward loop of \<open>get_prefix_hash_values\<close>, with the number of nodes as its bound. The chunks
  are collected from the node upwards and concatenated from the root downwards.
\<close>

fun prefix_hash_chunks :: "nat \<Rightarrow> store \<Rightarrow> nat option \<Rightarrow> string list list result" where
  "prefix_hash_chunks fuel st None = Inr []"
| "prefix_hash_chunks 0 st (Some i) = Inl OutOfFuel"
| "prefix_hash_chunks (Suc fuel) st (Some i) =
     (case n_hash (node_at st i) of
        None \<Rightarrow> Inr []
      | Some hs \<Rightarrow> rbind (prefix_hash_chunks fuel st (n_parent (node_at st i))) (\<lambda>cs. Inr (hs # cs)))"

definition get_prefix_hash_values :: "nat \<Rightarrow> store \<Rightarrow> nat option \<Rightarrow> string list result" where
  "get_prefix_hash_values fuel st i =
     rbind (prefix_hash_chunks fuel st i) (\<lambda>chunks. Inr (concat (rev chunks)))"

text \<open>\<^verbatim>\<open>__lt__\<close>: an earlier last access.\<close>

definition node_lt :: "node \<Rightarrow> node \<Rightarrow> bool" where
  "node_lt a b = (n_last_access a < n_last_access b)"

lemma upd_apply: "upd i f st j = (if j = i then map_option f (st i) else st j)"
  by (simp add: upd_def)

lemma upd_same [simp]: "upd i f st i = map_option f (st i)"
  by (simp add: upd_def)

lemma upd_other [simp]: "j \<noteq> i \<Longrightarrow> upd i f st j = st j"
  by (simp add: upd_def)

lemma dom_upd [simp]: "dom (upd i f st) = dom st"
  by (auto simp: upd_def dom_def)

end
