(* ===== verification/Evict_Policy.thy ===== *)
theory Evict_Policy
  imports Tree_Node "HOL-Library.Multiset"
begin

text \<open>
  The eviction strategies of \<^verbatim>\<open>mem_cache/evict_policy.py\<close> and their factory
  \<open>get_eviction_strategy\<close> of \<^verbatim>\<open>mem_cache/utils.py\<close>. A priority is a number or a pair of
  numbers; Python orders pairs lexicographically. A plain number \<open>x\<close> is the pair
  \<open>(x, 0)\<close>, which has the same order. The smallest priority is evicted first.
\<close>

datatype eviction_strategy =
    LRUStrategy
  | LFUStrategy
  | FIFOStrategy
  | MRUStrategy
  | FILOStrategy
  | PriorityStrategy
  | TLRUStrategy int int
  | SLRUStrategy int

type_synonym prio = "int \<times> int"

text \<open>
  T-LRU reads two lengths that only the unified tree keeps on its nodes; on a node without them
  the attribute access raises.
\<close>

fun get_priority :: "eviction_strategy \<Rightarrow> node \<Rightarrow> prio result" where
  "get_priority LRUStrategy n = Inr (n_last_access n, 0)"
| "get_priority LFUStrategy n = Inr (n_hit_count n, n_last_access n)"
| "get_priority FIFOStrategy n = Inr (n_creation n, 0)"
| "get_priority MRUStrategy n = Inr (- n_last_access n, 0)"
| "get_priority FILOStrategy n = Inr (- n_creation n, 0)"
| "get_priority PriorityStrategy n = Inr (n_priority n, n_last_access n)"
| "get_priority (TLRUStrategy threshold next_prompt_estimate) n =
     (case n_tlru n of
        None \<Rightarrow> Inl AttributeError
      | Some (history_len, cached_prefix_len) \<Rightarrow>
          let budget = max (history_len + next_prompt_estimate - threshold) 0;
              cached_without_this_node = cached_prefix_len - int (rk_len (n_key n));
              tel_safe = (cached_without_this_node \<ge> budget)
          in Inr (if tel_safe then -1 else 0, n_last_access n))"
| "get_priority (SLRUStrategy protected_threshold) n =
     (let is_protected = (if n_hit_count n \<ge> protected_threshold then 1 else 0)
      in Inr (is_protected, n_last_access n))"

text \<open>
  The factory. \<open>config\<close> is the keyword dictionary of the two strategies that take parameters; the
  others accept no keyword. Policy names are compared after lowering, given as \<open>policy\<close>.
\<close>

definition kwarg :: "(string \<times> int) list \<Rightarrow> string \<Rightarrow> int \<Rightarrow> int" where
  "kwarg config name dflt = (case map_of config name of None \<Rightarrow> dflt | Some v \<Rightarrow> v)"

definition kwargs_ok :: "(string \<times> int) list \<Rightarrow> string list \<Rightarrow> bool" where
  "kwargs_ok config names = list_all (\<lambda>(k, v). k \<in> set names) config"

definition get_eviction_strategy :: "string \<Rightarrow> (string \<times> int) list \<Rightarrow> eviction_strategy result" where
  "get_eviction_strategy policy config =
     (let strict = (\<lambda>names s. if kwargs_ok config names then Inr s
                              else Inl (ValueError ''unexpected keyword argument''))
      in if policy = ''lru'' then strict [] LRUStrategy
         else if policy = ''lfu'' then strict [] LFUStrategy
         else if policy = ''fifo'' then strict [] FIFOStrategy
         else if policy = ''mru'' then strict [] MRUStrategy
         else if policy = ''filo'' then strict [] FILOStrategy
         else if policy = ''priority'' then strict [] PriorityStrategy
         else if policy = ''slru'' then strict [''protected_threshold'']
                (SLRUStrategy (kwarg config ''protected_threshold'' 2))
         else if policy = ''tlru'' then strict [''threshold'', ''next_prompt_estimate'']
                (TLRUStrategy (kwarg config ''threshold'' 0) (kwarg config ''next_prompt_estimate'' 0))
         else Inl (ValueError ''Unknown eviction policy''))"

text \<open>Lexicographic comparison, and the order of the heap entries \<open>(priority, node)\<close>.\<close>

definition prio_less :: "prio \<Rightarrow> prio \<Rightarrow> bool" where
  "prio_less p q = (fst p < fst q \<or> fst p = fst q \<and> snd p < snd q)"

definition entry_less :: "store \<Rightarrow> prio \<times> nat \<Rightarrow> prio \<times> nat \<Rightarrow> bool" where
  "entry_less st a b =
     (prio_less (fst a) (fst b) \<or>
      fst a = fst b \<and> node_lt (node_at st (snd a)) (node_at st (snd b)))"

lemma entry_less_trans: "entry_less st a b \<Longrightarrow> entry_less st b c \<Longrightarrow> entry_less st a c"
  by (auto simp: entry_less_def prio_less_def node_lt_def prod_eq_iff)

lemma entry_less_irrefl [simp]: "\<not> entry_less st a a"
  by (auto simp: entry_less_def prio_less_def node_lt_def)

lemma entry_less_neg_trans: "\<not> entry_less st a b \<Longrightarrow> \<not> entry_less st b c \<Longrightarrow> \<not> entry_less st a c"
  by (auto simp: entry_less_def prio_less_def node_lt_def prod_eq_iff)

text \<open>
  \<^verbatim>\<open>heapq.heappop\<close>: a smallest entry and the remaining entries. Entries that compare equal are
  popped in an order the heap layout decides; the model takes the first in list order.
\<close>

fun heappop :: "store \<Rightarrow> prio \<times> nat \<Rightarrow> (prio \<times> nat) list \<Rightarrow> (prio \<times> nat) \<times> (prio \<times> nat) list" where
  "heappop st x [] = (x, [])"
| "heappop st x (y # ys) =
     (if entry_less st y x then let (m, rest) = heappop st y ys in (m, x # rest)
      else let (m, rest) = heappop st x ys in (m, y # rest))"

lemma heappop_cases:
  assumes "heappop st x (y # ys) = (m, rest)"
  obtains (swap) r where "entry_less st y x" "heappop st y ys = (m, r)" "rest = x # r"
    | (keep) r where "\<not> entry_less st y x" "heappop st x ys = (m, r)" "rest = y # r"
proof (cases "entry_less st y x")
  case True
  with assms show ?thesis by (cases "heappop st y ys") (auto intro: swap)
next
  case False
  with assms show ?thesis by (cases "heappop st x ys") (auto intro: keep)
qed

lemma heappop_mset: "heappop st x ys = (m, rest) \<Longrightarrow> mset (m # rest) = mset (x # ys)"
proof (induction ys arbitrary: x m rest)
  case (Cons y ys)
  from Cons.prems show ?case
  proof (rule heappop_cases)
    fix r assume "heappop st y ys = (m, r)" "rest = x # r"
    then show ?thesis using Cons.IH [of y m r] by (simp add: add_mset_commute)
  next
    fix r assume "heappop st x ys = (m, r)" "rest = y # r"
    then show ?thesis using Cons.IH [of x m r] by (simp add: add_mset_commute)
  qed
qed simp

lemma heappop_set: "heappop st x ys = (m, rest) \<Longrightarrow> insert m (set rest) = insert x (set ys)"
  using mset_eq_setD [OF heappop_mset] by simp

lemma heappop_distinct:
  assumes "heappop st x ys = (m, rest)" and "distinct (map snd (x # ys))"
  shows "distinct (map snd (m # rest))"
proof -
  have "mset (map snd (m # rest)) = mset (map snd (x # ys))"
    using heappop_mset [OF assms(1)] by (metis mset_map)
  then show ?thesis using assms(2) mset_eq_imp_distinct_iff by blast
qed

lemma heappop_min: "heappop st x ys = (m, rest) \<Longrightarrow> e \<in> set (x # ys) \<Longrightarrow> \<not> entry_less st e m"
proof (induction ys arbitrary: x m rest e)
  case (Cons y ys)
  from Cons.prems(1) show ?case
  proof (rule heappop_cases)
    fix r assume l: "entry_less st y x" and h: "heappop st y ys = (m, r)"
    have ih: "\<not> entry_less st e' m" if "e' \<in> set (y # ys)" for e' by (rule Cons.IH [OF h that])
    have "\<not> entry_less st x m" using ih [of y] l entry_less_trans [of st y x m] by auto
    then show ?thesis using ih Cons.prems(2) by (cases "e = x") simp_all
  next
    fix r assume l: "\<not> entry_less st y x" and h: "heappop st x ys = (m, r)"
    have ih: "\<not> entry_less st e' m" if "e' \<in> set (x # ys)" for e' by (rule Cons.IH [OF h that])
    have "\<not> entry_less st y m" using ih [of x] l entry_less_neg_trans [of st y x m] by auto
    then show ?thesis using ih Cons.prems(2) by (cases "e = y") simp_all
  qed
qed simp

end
