(* ===== verification/KV_Events.thy ===== *)
theory KV_Events
  imports Tree_Node
begin

text \<open>
  Block hashes (\<^verbatim>\<open>mem_cache/utils.py\<close>) and the event recorder \<^verbatim>\<open>KVCacheEventRecorder\<close>
  (\<^verbatim>\<open>mem_cache/events.py\<close>) with the event types of \<^verbatim>\<open>disaggregation/kv_events.py\<close>. The native
  page hash and SHA-256 are parameters (\<open>hasher\<close>); strings stand for their UTF-8 bytes. The
  theory shows that coalescing events in the queue loses nothing: expanding the queue into one
  event per page gives the pages in the order they were recorded.
\<close>

section \<open>Hashes\<close>

record hasher =
  native_hash :: "unit_key list \<Rightarrow> string option \<Rightarrow> nat \<Rightarrow> string list"
  sha256_hex :: "nat list \<Rightarrow> string"

definition bytes :: "string \<Rightarrow> nat list" where
  "bytes s = map of_char s"

fun to_bytes_little :: "nat \<Rightarrow> nat \<Rightarrow> nat list" where
  "to_bytes_little 0 n = []"
| "to_bytes_little (Suc k) n = n mod 256 # to_bytes_little k (n div 256)"

definition get_hash_str :: "hasher \<Rightarrow> radix_key \<Rightarrow> string option \<Rightarrow> nat \<Rightarrow> string list" where
  "get_hash_str h key prior_hash ps =
     native_hash h (units key) (if prior_hash = Some [] then None else prior_hash) ps"

definition namespace_part :: "string option \<Rightarrow> nat list" where
  "namespace_part part = (case part of None \<Rightarrow> [0]
     | Some s \<Rightarrow> [1] @ to_bytes_little 8 (length (bytes s)) @ bytes s)"

definition storage_namespace_seed :: "hasher \<Rightarrow> string option \<Rightarrow> string option \<Rightarrow> string option" where
  "storage_namespace_seed h ek salt =
     (if ek = None \<and> salt = None then None
      else Some (sha256_hex h (bytes ''sglang-cache-namespace-v1'' @ namespace_part ek @ namespace_part salt)))"

definition get_storage_hash_str :: "hasher \<Rightarrow> radix_key \<Rightarrow> string option \<Rightarrow> nat \<Rightarrow> string list" where
  "get_storage_hash_str h key prior_hash ps =
     get_hash_str h key
       (case prior_hash of None \<Rightarrow> storage_namespace_seed h (extra_key key) (cache_salt key)
        | Some p \<Rightarrow> Some p) ps"

definition hex_digit :: "char \<Rightarrow> int option" where
  "hex_digit c = (let n = of_char c :: int in
     if 48 \<le> n \<and> n \<le> 57 then Some (n - 48)
     else if 97 \<le> n \<and> n \<le> 102 then Some (n - 87)
     else if 65 \<le> n \<and> n \<le> 70 then Some (n - 55) else None)"

fun parse_hex :: "int \<Rightarrow> string \<Rightarrow> int result" where
  "parse_hex acc [] = Inr acc"
| "parse_hex acc (c # cs) = (case hex_digit c of None \<Rightarrow> Inl (ValueError ''invalid literal for int()'')
     | Some d \<Rightarrow> parse_hex (16 * acc + d) cs)"

definition hash_str_to_int64 :: "string \<Rightarrow> int result" where
  "hash_str_to_int64 hash_str =
     (if take 16 hash_str = [] then Inl (ValueError ''invalid literal for int()'')
      else rbind (parse_hex 0 (take 16 hash_str)) (\<lambda>uint64_val.
        Inr (if uint64_val \<ge> 2 ^ 63 then uint64_val - 2 ^ 64 else uint64_val)))"

definition compute_node_hash_values :: "hasher \<Rightarrow> store \<Rightarrow> nat \<Rightarrow> nat \<Rightarrow> string list" where
  "compute_node_hash_values h st i ps =
     (let n = node_at st i;
          parent_hash = (case n_parent n of None \<Rightarrow> None
            | Some p \<Rightarrow> (case n_hash (node_at st p) of None \<Rightarrow> None
               | Some hs \<Rightarrow> if rk_len (n_key (node_at st p)) > 0 \<and> length hs > 0 then Some (last hs) else None))
      in get_storage_hash_str h (n_key n) parent_hash ps)"

text \<open>
  The upward loop of \<open>compute_node_event_hash_values\<close>: the nodes without event hashes, from the
  node upwards, and the node (if any) where the walk stopped.
\<close>

fun missing_nodes :: "nat \<Rightarrow> store \<Rightarrow> string option \<times> string option \<Rightarrow> nat option \<Rightarrow> (nat list \<times> nat option) result" where
  "missing_nodes fuel st ns None = Inr ([], None)"
| "missing_nodes 0 st ns (Some i) = Inl OutOfFuel"
| "missing_nodes (Suc fuel) st ns (Some i) =
     (let n = node_at st i in
      if rk_len (n_key n) = 0 then Inr ([], Some i)
      else if namespace (n_key n) \<noteq> ns
      then Inl (ValueError ''Radix path contains mismatched cache namespaces'')
      else if n_event_hash n \<noteq> None then Inr ([], Some i)
      else rbind (missing_nodes fuel st ns (n_parent n)) (\<lambda>(ms, c). Inr (i # ms, c)))"

fun fill_event_hashes :: "hasher \<Rightarrow> nat \<Rightarrow> nat list \<Rightarrow> string option \<Rightarrow> store \<Rightarrow> store" where
  "fill_event_hashes h ps [] parent_hash st = st"
| "fill_event_hashes h ps (i # is) parent_hash st =
     (let hash_values = get_hash_str h (n_key (node_at st i)) parent_hash ps
      in fill_event_hashes h ps is (if hash_values \<noteq> [] then Some (last hash_values) else parent_hash)
           (upd i (\<lambda>n. n\<lparr>n_event_hash := Some hash_values\<rparr>) st))"

definition compute_node_event_hash_values ::
  "hasher \<Rightarrow> nat \<Rightarrow> store \<Rightarrow> nat \<Rightarrow> nat \<Rightarrow> (string list \<times> store) result" where
  "compute_node_event_hash_values h fuel st i ps =
     (let n = node_at st i; ns = namespace (n_key n) in
      if ns = (None, None) then Inr (compute_node_hash_values h st i ps, st)
      else case n_event_hash n of
        Some hs \<Rightarrow> Inr (hs, st)
      | None \<Rightarrow> rbind (missing_nodes fuel st ns (Some i)) (\<lambda>(missing, current).
          let current_hash = (case current of None \<Rightarrow> None
                | Some c \<Rightarrow> (case n_event_hash (node_at st c) of None \<Rightarrow> None
                    | Some hs \<Rightarrow> if hs \<noteq> [] then Some (last hs) else None));
              parent_hash = (case current_hash of Some x \<Rightarrow> Some x
                | None \<Rightarrow> (case cache_salt (n_key n) of
                     Some salt \<Rightarrow> Some (sha256_hex h (bytes ''sglang-cache-salt-v1'' @ [0] @ bytes salt))
                   | None \<Rightarrow> None));
              st' = fill_event_hashes h ps (rev missing) parent_hash st
          in case n_event_hash (node_at st' i) of
               None \<Rightarrow> Inl (AssertionError ''event_hash_value'')
             | Some hs \<Rightarrow> Inr (hs, st')))"

definition split_node_hash_value ::
  "string list option \<Rightarrow> nat \<Rightarrow> nat \<Rightarrow> (string list option \<times> string list option) result" where
  "split_node_hash_value child_hash_value split_len ps =
     (case child_hash_value of
        None \<Rightarrow> Inr (None, None)
      | Some hs \<Rightarrow>
          if ps = 0 then Inl ZeroDivisionError
          else let split_pages = (if ps = 1 then split_len else split_len div ps)
               in Inr (Some (take split_pages hs), Some (drop split_pages hs)))"

section \<open>The recorder\<close>

datatype StorageMedium = GPU | CPU | DISK | EXTERNAL

datatype kv_event =
    BlockStored (block_hashes: "int list") (parent_block_hash: "int option") (ev_token_ids: "unit_key list")
      (block_size: nat) (lora_id: "int option") (ev_medium: StorageMedium) (ev_cache_salt: "string option")
      (session_id: "string option")
  | BlockRemoved (removed_hashes: "int list") (removed_medium: StorageMedium)
  | AllBlocksCleared

record recorder =
  ev_enabled :: bool
  ev_page_size :: nat
  ev_queue :: "kv_event list"

definition KVCacheEventRecorder :: "bool \<Rightarrow> nat \<Rightarrow> recorder" where
  "KVCacheEventRecorder en ps = \<lparr>ev_enabled = en, ev_page_size = ps, ev_queue = []\<rparr>"

text \<open>The tail event after absorbing a compatible event.\<close>

fun coalesce :: "kv_event \<Rightarrow> kv_event \<Rightarrow> kv_event option" where
  "coalesce (BlockRemoved hs m) (BlockRemoved hs' m') =
     (if m = m' then Some (BlockRemoved (hs @ hs') m) else None)"
| "coalesce (BlockStored hs par toks bs lora m salt sess) (BlockStored hs' par' toks' bs' lora' m' salt' sess') =
     (if m = m' \<and> lora = lora' \<and> bs = bs' \<and> salt = salt' \<and> sess = sess' \<and> hs \<noteq> [] \<and> par' = Some (last hs)
      then Some (BlockStored (hs @ hs') par (toks @ toks') bs lora m salt sess) else None)"
| "coalesce _ _ = None"

definition enqueue :: "kv_event \<Rightarrow> recorder \<Rightarrow> recorder" where
  "enqueue event r =
     (let q = ev_queue r in
      if q = [] then r\<lparr>ev_queue := [event]\<rparr>
      else case coalesce (last q) event of
             Some tail \<Rightarrow> r\<lparr>ev_queue := butlast q @ [tail]\<rparr>
           | None \<Rightarrow> r\<lparr>ev_queue := q @ [event]\<rparr>)"

definition node_event_hash_values :: "hasher \<Rightarrow> nat \<Rightarrow> recorder \<Rightarrow> store \<Rightarrow> nat \<Rightarrow> (string list \<times> store) result" where
  "node_event_hash_values h fuel r st i =
     (let st = (if n_hash (node_at st i) = None
                then upd i (\<lambda>n. n\<lparr>n_hash := Some (compute_node_hash_values h st i (ev_page_size r))\<rparr>) st
                else st)
      in if extra_key (n_key (node_at st i)) = None \<and> cache_salt (n_key (node_at st i)) = None
         then Inr (the (n_hash (node_at st i)), st)
         else compute_node_event_hash_values h fuel st i (ev_page_size r))"

definition get_parent_block_hash :: "store \<Rightarrow> nat \<Rightarrow> int option result" where
  "get_parent_block_hash st i =
     (let n = node_at st i in
      case n_parent n of
        None \<Rightarrow> Inr None
      | Some p \<Rightarrow>
          if n_parent (node_at st p) = None then Inr None
          else rbind (if extra_key (n_key n) \<noteq> None \<or> cache_salt (n_key n) \<noteq> None
                      then (case n_event_hash (node_at st p) of
                              None \<Rightarrow> Inl (AssertionError ''parent_hash_values'') | Some hs \<Rightarrow> Inr hs)
                      else Inr (case n_hash (node_at st p) of None \<Rightarrow> [] | Some hs \<Rightarrow> hs))
                (\<lambda>hs. if hs = [] then Inr None else rbind (hash_str_to_int64 (last hs)) (\<lambda>x. Inr (Some x))))"

text \<open>
  The pages of a node: \<^verbatim>\<open>range(0, logical_len, page_size)\<close> with the logical units of each
  page, and the loop that enqueues one \<open>BlockStored\<close> per page.
\<close>

definition key_pages :: "nat \<Rightarrow> radix_key \<Rightarrow> unit_key list list" where
  "key_pages ps key =
     map (\<lambda>i. slice (units key) (i * ps) (min (i * ps + ps) (rk_len key))) [0..<(rk_len key + ps - 1) div ps]"

definition hash_at :: "string list \<Rightarrow> nat \<Rightarrow> int result" where
  "hash_at hs i = (if i < length hs then hash_str_to_int64 (hs ! i) else Inl IndexError)"

fun store_pages :: "(unit_key list \<Rightarrow> int \<Rightarrow> int option \<Rightarrow> kv_event) \<Rightarrow> string list \<Rightarrow> unit_key list list \<Rightarrow>
    nat \<Rightarrow> int option \<Rightarrow> recorder \<Rightarrow> recorder result" where
  "store_pages mk hs [] page_index par r = Inr r"
| "store_pages mk hs (page # pages) page_index par r =
     rbind (hash_at hs page_index) (\<lambda>block_hash.
       store_pages mk hs pages (Suc page_index) (Some block_hash) (enqueue (mk page block_hash par) r))"

definition record_store ::
  "hasher \<Rightarrow> nat \<Rightarrow> StorageMedium \<Rightarrow> string option \<Rightarrow> nat \<Rightarrow> recorder \<times> store \<Rightarrow> (recorder \<times> store) result" where
  "record_store h fuel med sess i rs =
     (let (r, st) = rs in
      if \<not> ev_enabled r then Inr (r, st)
      else rbind (node_event_hash_values h fuel r st i) (\<lambda>(event_hash_values, st).
        rbind (get_parent_block_hash st i) (\<lambda>par.
          if ev_page_size r = 0 then Inl (ValueError ''range() arg 3 must not be zero'')
          else rbind (store_pages
              (\<lambda>page_tokens block_hash par. BlockStored [block_hash] par page_tokens (length page_tokens) None med
                 (cache_salt (n_key (node_at st i))) sess)
              event_hash_values (key_pages (ev_page_size r) (n_key (node_at st i))) 0 par r)
            (\<lambda>r. Inr (r, st)))))"

fun rmap :: "('a \<Rightarrow> 'b result) \<Rightarrow> 'a list \<Rightarrow> 'b list result" where
  "rmap f [] = Inr []"
| "rmap f (x # xs) = rbind (f x) (\<lambda>y. rbind (rmap f xs) (\<lambda>ys. Inr (y # ys)))"

definition record_remove ::
  "hasher \<Rightarrow> nat \<Rightarrow> StorageMedium \<Rightarrow> nat \<Rightarrow> recorder \<times> store \<Rightarrow> (recorder \<times> store) result" where
  "record_remove h fuel med i rs =
     (let (r, st) = rs in
      if \<not> ev_enabled r then Inr (r, st)
      else rbind (node_event_hash_values h fuel r st i) (\<lambda>(event_hash_values, st).
        if ev_page_size r = 0 then Inl (ValueError ''range() arg 3 must not be zero'')
        else rbind (rmap (hash_at event_hash_values)
               [0..<length (key_pages (ev_page_size r) (n_key (node_at st i)))]) (\<lambda>hashes.
          Inr (if hashes \<noteq> [] then enqueue (BlockRemoved hashes med) r else r, st))))"

definition record_all_cleared :: "recorder \<Rightarrow> recorder" where
  "record_all_cleared r = (if \<not> ev_enabled r then r else enqueue AllBlocksCleared r)"

definition take_events :: "recorder \<Rightarrow> kv_event list \<times> recorder" where
  "take_events r = (if \<not> ev_enabled r then ([], r) else (ev_queue r, r\<lparr>ev_queue := []\<rparr>))"

section \<open>Coalescing loses nothing\<close>

text \<open>One event per page: the reading of an event by a consumer that rebuilds the cache tree.\<close>

fun expand :: "kv_event \<Rightarrow> kv_event list" where
  "expand (BlockStored hs par toks bs lora m salt sess) =
     map (\<lambda>k. BlockStored [hs ! k] (if k = 0 then par else Some (hs ! (k - 1)))
                (slice toks (k * bs) (k * bs + bs)) bs lora m salt sess) [0..<length hs]"
| "expand (BlockRemoved hs m) = map (\<lambda>h. BlockRemoved [h] m) hs"
| "expand AllBlocksCleared = [AllBlocksCleared]"

fun event_ok :: "kv_event \<Rightarrow> bool" where
  "event_ok (BlockStored hs par toks bs lora m salt sess) = (length toks = length hs * bs)"
| "event_ok _ = True"

definition expanded :: "recorder \<Rightarrow> kv_event list" where
  "expanded r = concat (map expand (ev_queue r))"

definition queue_ok :: "recorder \<Rightarrow> bool" where
  "queue_ok r = list_all event_ok (ev_queue r)"

lemma coalesce_expand:
  assumes "coalesce a b = Some c" "event_ok a" "event_ok b"
  shows "event_ok c \<and> expand c = expand a @ expand b"
proof (cases "(a, b)" rule: coalesce.cases)
  case (2 hs par toks bs lora m salt sess hs' par' toks' bs' lora' m' salt' sess')
  have c: "c = BlockStored (hs @ hs') par (toks @ toks') bs lora m salt sess"
    and a: "a = BlockStored hs par toks bs lora m salt sess"
    and b: "b = BlockStored hs' (Some (last hs)) toks' bs lora m salt sess" and ne: "hs \<noteq> []"
    using assms(1) 2 by (auto split: if_splits)
  have l: "length toks = length hs * bs" "length toks' = length hs' * bs" using assms a b by simp_all
  let ?f = "\<lambda>k. BlockStored [(hs @ hs') ! k] (if k = 0 then par else Some ((hs @ hs') ! (k - 1)))
     (slice (toks @ toks') (k * bs) (k * bs + bs)) bs lora m salt sess"
  have s1: "slice (toks @ toks') (k * bs) (k * bs + bs) = slice toks (k * bs) (k * bs + bs)" if "k < length hs" for k
  proof -
    have "Suc k * bs \<le> length hs * bs" using that by (intro mult_le_mono1) simp
    then show ?thesis using l(1) by (simp add: slice_def)
  qed
  have "map ?f [0..<length hs] = expand a"
    unfolding a by (auto simp: nth_append s1)
  moreover have "map (\<lambda>k. ?f (k + length hs)) [0..<length hs'] = expand b"
    unfolding b using ne l(1)
    by (auto simp: nth_append slice_def distrib_right last_conv_nth)
  ultimately show ?thesis
    unfolding c using l by (simp add: upt_append_shift o_def distrib_right del: upt_Suc)
qed (use assms in \<open>auto split: if_splits\<close>)

lemma enqueue_expand:
  assumes "queue_ok r" "event_ok e"
  shows "queue_ok (enqueue e r) \<and> expanded (enqueue e r) = expanded r @ expand e"
proof (cases "ev_queue r = []")
  case True
  then show ?thesis using assms by (simp add: enqueue_def expanded_def queue_ok_def)
next
  case False
  then obtain q t where q: "ev_queue r = q @ [t]" by (metis rev_exhaust)
  show ?thesis
  proof (cases "coalesce t e")
    case None
    then show ?thesis using assms q by (simp add: enqueue_def expanded_def queue_ok_def)
  next
    case (Some c)
    then have "event_ok c \<and> expand c = expand t @ expand e"
      using coalesce_expand assms q by (simp add: queue_ok_def)
    then show ?thesis using assms q Some by (simp add: enqueue_def expanded_def queue_ok_def)
  qed
qed

lemma enqueue_fields [simp]: "ev_enabled (enqueue e r) = ev_enabled r" "ev_page_size (enqueue e r) = ev_page_size r"
  by (simp_all add: enqueue_def Let_def split: option.splits)

lemma store_pages_expanded:
  assumes "store_pages mk hs pages n par r = Inr r'" and "queue_ok r"
    and mk: "\<And>page x par. event_ok (mk page x par) \<and> expand (mk page x par) = [mk page x par]"
  shows "queue_ok r' \<and> ev_enabled r' = ev_enabled r \<and> ev_page_size r' = ev_page_size r \<and>
    (\<exists>xs. length xs = length pages \<and> rmap (hash_at hs) [n..<n + length pages] = Inr xs \<and>
       expanded r' = expanded r @ map (\<lambda>k. mk (pages ! k) (xs ! k) (if k = 0 then par else Some (xs ! (k - 1)))) [0..<length pages])"
  using assms(1,2)
proof (induction pages arbitrary: n par r)
  case Nil
  then show ?case by simp
next
  case (Cons page pages)
  then obtain x where x: "hash_at hs n = Inr x"
    and s: "store_pages mk hs pages (Suc n) (Some x) (enqueue (mk page x par) r) = Inr r'"
    by (auto simp: rbind_eq_Inr)
  have e: "queue_ok (enqueue (mk page x par) r)" "expanded (enqueue (mk page x par) r) = expanded r @ [mk page x par]"
    using enqueue_expand [OF Cons.prems(2)] mk by simp_all
  obtain xs where xs: "length xs = length pages" "rmap (hash_at hs) [Suc n..<Suc n + length pages] = Inr xs"
      "expanded r' = expanded r @ mk page x par # map (\<lambda>k. mk (pages ! k) (xs ! k) (if k = 0 then Some x else Some (xs ! (k - 1)))) [0..<length pages]"
    and q: "queue_ok r'" "ev_enabled r' = ev_enabled r" "ev_page_size r' = ev_page_size r"
    using Cons.IH [OF s e(1)] e(2) by auto
  have "map (\<lambda>k. mk ((page # pages) ! k) ((x # xs) ! k) (if k = 0 then par else Some ((x # xs) ! (k - 1)))) [0..<length (page # pages)]
     = mk page x par # map (\<lambda>k. mk (pages ! k) (xs ! k) (if k = 0 then Some x else Some (xs ! (k - 1)))) [0..<length pages]"
    by (simp add: map_upt_Suc nth_Cons' del: upt_Suc)
  moreover have "[n..<n + length (page # pages)] = n # [Suc n..<Suc n + length pages]"
    by (simp add: upt_conv_Cons del: upt_Suc)
  ultimately show ?case
    using xs q x by (intro conjI exI [of _ "x # xs"]) (simp_all del: upt_Suc)
qed


section \<open>Recording leaves the tree alone\<close>

text \<open>Two stores that differ at most in the hash fields of their nodes.\<close>

definition strip :: "node \<Rightarrow> node" where
  "strip n = n\<lparr>n_hash := None, n_event_hash := None\<rparr>"

definition same_tree :: "store \<Rightarrow> store \<Rightarrow> bool" where
  "same_tree st st' \<longleftrightarrow> (\<forall>j. map_option strip (st' j) = map_option strip (st j))"

lemma same_tree_refl [simp]: "same_tree st st"
  by (simp add: same_tree_def)

lemma same_tree_trans: "same_tree a b \<Longrightarrow> same_tree b c \<Longrightarrow> same_tree a c"
  by (simp add: same_tree_def)

lemma same_tree_upd: "(\<And>n. strip (f n) = strip n) \<Longrightarrow> same_tree st (upd i f st)"
  by (simp add: same_tree_def upd_apply option.map_comp o_def)

lemma same_tree_dom: "same_tree st st' \<Longrightarrow> dom st' = dom st"
proof -
  assume "same_tree st st'"
  then have "st' j = None \<longleftrightarrow> st j = None" for j by (metis map_option_is_None same_tree_def)
  then show ?thesis by (simp add: dom_def)
qed

lemma same_tree_fields:
  assumes "same_tree st st'" and "st i = Some n"
  obtains n' where "st' i = Some n'" "n_children n' = n_children n" "n_parent n' = n_parent n" "n_key n' = n_key n"
    "n_value n' = n_value n" "n_lock_ref n' = n_lock_ref n" "n_last_access n' = n_last_access n"
    "n_creation n' = n_creation n" "n_hit_count n' = n_hit_count n" "n_priority n' = n_priority n"
proof -
  have "map_option strip (st' i) = Some (strip n)" using assms by (simp add: same_tree_def)
  then obtain n' where n': "st' i = Some n'" and s: "strip n' = strip n" by auto
  have e: "n_children (strip m) = n_children m" "n_parent (strip m) = n_parent m" "n_key (strip m) = n_key m"
    "n_value (strip m) = n_value m" "n_lock_ref (strip m) = n_lock_ref m" "n_last_access (strip m) = n_last_access m"
    "n_creation (strip m) = n_creation m" "n_hit_count (strip m) = n_hit_count m" "n_priority (strip m) = n_priority m" for m
    by (simp_all add: strip_def)
  show ?thesis
    by (rule that [OF n']) (metis e s)+
qed

lemma fill_event_hashes_same: "same_tree st (fill_event_hashes h ps is par st)"
proof (induction h ps "is" par st rule: fill_event_hashes.induct)
  case (2 h ps i "is" par st)
  show ?case
    unfolding fill_event_hashes.simps Let_def
    by (rule same_tree_trans [OF same_tree_upd "2.IH" [OF refl]]) (simp add: strip_def)
qed simp

lemma node_event_hash_values_same:
  assumes "node_event_hash_values h fuel r st i = Inr (hs, st')"
  shows "same_tree st st'"
proof -
  define st1 where "st1 = (if n_hash (node_at st i) = None
     then upd i (\<lambda>n. n\<lparr>n_hash := Some (compute_node_hash_values h st i (ev_page_size r))\<rparr>) st else st)"
  have s1: "same_tree st st1" unfolding st1_def by (auto intro!: same_tree_upd simp: strip_def)
  have "same_tree st1 st'"
    using assms unfolding node_event_hash_values_def st1_def [symmetric] Let_def
    by (auto simp: compute_node_event_hash_values_def rbind_eq_Inr Let_def fill_event_hashes_same split: if_splits option.splits)
  then show ?thesis by (rule same_tree_trans [OF s1])
qed

lemma record_store_same: "record_store h fuel med sess i (r, st) = Inr (r', st') \<Longrightarrow> same_tree st st'"
  by (auto simp: record_store_def rbind_eq_Inr dest: node_event_hash_values_same split: if_splits)

lemma record_remove_same: "record_remove h fuel med i (r, st) = Inr (r', st') \<Longrightarrow> same_tree st st'"
  by (auto simp: record_remove_def rbind_eq_Inr dest: node_event_hash_values_same split: if_splits)



lemma concat_key_pages:
  assumes ps: "0 < ps"
  shows "concat (key_pages ps key) = units key"
proof -
  let ?n = "rk_len key"
  have "concat (map (\<lambda>i. slice (units key) (i * ps) (min (i * ps + ps) ?n)) [0..<m]) = take (m * ps) (units key)" for m
  proof (induction m)
    case (Suc m)
    have "slice (units key) (m * ps) (min (m * ps + ps) ?n) = slice (units key) (m * ps) (m * ps + ps)"
      using length_units [of key] by (cases "m * ps + ps \<le> ?n") (simp_all add: min_def)
    then show ?case using Suc take_slice_append [of "m * ps" "m * ps + ps" "units key"] by (simp add: add.commute)
  qed simp
  moreover have "?n \<le> (?n + ps - 1) div ps * ps"
    by (rule nat_le_ceil_mult [OF ps])
  ultimately show ?thesis using length_units [of key] by (simp add: key_pages_def)
qed


definition page_event :: "StorageMedium \<Rightarrow> string option \<Rightarrow> string option \<Rightarrow> unit_key list \<Rightarrow> int \<Rightarrow> int option \<Rightarrow> kv_event" where
  "page_event med salt sess page_tokens block_hash par =
     BlockStored [block_hash] par page_tokens (length page_tokens) None med salt sess"

lemma page_event_single: "event_ok (page_event med salt sess p x par) \<and> expand (page_event med salt sess p x par) = [page_event med salt sess p x par]"
  by (simp add: page_event_def)

definition demo_hasher :: hasher where
  "demo_hasher = \<lparr>native_hash = (\<lambda>us prior ps. replicate ((length us + ps - 1) div ps) ''0f''), sha256_hex = (\<lambda>_. ''ab'')\<rparr>"

definition demo_store :: store where
  "demo_store = [0 \<mapsto> TreeNode 0 0 0, 1 \<mapsto> (TreeNode 0 0 0)\<lparr>n_parent := Some 0, n_key := RadixKey [7, 8, 9] None False None None\<rparr>]"



end
