(* ===== verification/Radix_Cache.thy ===== *)
theory Radix_Cache
  imports KV_Allocator Evict_Policy KV_Events
begin

text \<open>
  The class \<^verbatim>\<open>RadixCache\<close> of \<^verbatim>\<open>mem_cache/radix_cache.py\<close> over the node store: matching,
  inserting, splitting, locking and evicting. The state record holds what the object holds, with
  the node store, the class counter and the clock made explicit. The allocator it frees into is
  the token or the paged allocator. Python's \<^verbatim>\<open>set\<close> of evictable leaves is a set; where the
  code turns it into a list, the model uses ascending ids (the order only breaks ties between
  equal priorities). Loops along the tree carry a bound: the length of the key for downward
  walks, the number of nodes ever created for upward walks and for eviction.
\<close>

section \<open>State\<close>

datatype kv_alloc = TokenA token_alloc | PagedA paged_alloc

fun ka_free_segment :: "int list \<Rightarrow> nat \<Rightarrow> kv_alloc \<Rightarrow> kv_alloc result" where
  "ka_free_segment xs start_pos (TokenA a) = rbind (tok_free_segment xs start_pos a) (\<lambda>a. Inr (TokenA a))"
| "ka_free_segment xs start_pos (PagedA a) = rbind (pag_free_segment xs start_pos a) (\<lambda>a. Inr (PagedA a))"

fun ka_free_segments :: "(int list \<times> nat) list \<Rightarrow> kv_alloc \<Rightarrow> kv_alloc result" where
  "ka_free_segments segs (TokenA a) = rbind (tok_free_segments segs a) (\<lambda>a. Inr (TokenA a))"
| "ka_free_segments segs (PagedA a) = rbind (pag_free_segments segs a) (\<lambda>a. Inr (PagedA a))"

fun ka_available_size :: "kv_alloc \<Rightarrow> nat" where
  "ka_available_size (TokenA a) = tok_available_size a"
| "ka_available_size (PagedA a) = pag_available_size a"

record cache =
  rc_store :: store
  rc_counter :: nat
  rc_root :: nat
  rc_evictable :: int
  rc_protected :: int
  rc_leaves :: "nat set"
  rc_disable :: bool
  rc_page_size :: nat
  rc_eagle :: bool
  rc_strategy :: eviction_strategy
  rc_events :: recorder
  rc_hasher :: hasher
  rc_clock :: "nat \<Rightarrow> int"
  rc_ticks :: nat
  rc_alloc :: kv_alloc

abbreviation nd :: "cache \<Rightarrow> nat \<Rightarrow> node" where
  "nd s i \<equiv> node_at (rc_store s) i"

definition set_node :: "nat \<Rightarrow> (node \<Rightarrow> node) \<Rightarrow> cache \<Rightarrow> cache" where
  "set_node i f s = s\<lparr>rc_store := upd i f (rc_store s)\<rparr>"

definition monotonic :: "cache \<Rightarrow> int \<times> cache" where
  "monotonic s = (rc_clock s (rc_ticks s), s\<lparr>rc_ticks := rc_ticks s + 1\<rparr>)"

definition new_tree_node :: "int \<Rightarrow> cache \<Rightarrow> nat \<times> cache" where
  "new_tree_node prio s =
     (let t = rc_ticks s; i = rc_counter s
      in (i, s\<lparr>rc_store := (rc_store s)(i \<mapsto> TreeNode (rc_clock s t) (rc_clock s (t + 1)) prio),
               rc_counter := i + 1, rc_ticks := t + 2\<rparr>))"

definition value_of :: "node \<Rightarrow> int list result" where
  "value_of n = (case n_value n of None \<Rightarrow> Inl TypeError | Some v \<Rightarrow> Inr v)"

section \<open>Construction\<close>

definition reset :: "cache \<Rightarrow> cache" where
  "reset s =
     (let (r, s) = new_tree_node (- 9223372036854775807) s;
          s = set_node r (\<lambda>n. n\<lparr>n_key := RadixKey [] None False None None, n_value := Some [],
                 n_host_value := Some [], n_lock_ref := 1, n_hash := Some []\<rparr>) s
      in s\<lparr>rc_root := r, rc_evictable := 0, rc_protected := 0, rc_leaves := {},
            rc_events := record_all_cleared (rc_events s)\<rparr>)"

definition RadixCache ::
  "bool \<Rightarrow> nat \<Rightarrow> bool \<Rightarrow> string \<Rightarrow> (string \<times> int) list \<Rightarrow> bool \<Rightarrow> hasher \<Rightarrow> (nat \<Rightarrow> int) \<Rightarrow> kv_alloc \<Rightarrow> cache result" where
  "RadixCache dis ps eagle policy config events h clk alc =
     rbind (get_eviction_strategy policy config) (\<lambda>strategy.
       Inr (reset \<lparr>rc_store = (\<lambda>_. None), rc_counter = 0, rc_root = 0, rc_evictable = 0, rc_protected = 0,
         rc_leaves = {}, rc_disable = dis, rc_page_size = ps, rc_eagle = eagle, rc_strategy = strategy,
         rc_events = KVCacheEventRecorder events ps, rc_hasher = h, rc_clock = clk, rc_ticks = 0,
         rc_alloc = alc\<rparr>))"

section \<open>Leaves, splitting, hit counts\<close>

definition update_leaf_status :: "nat \<Rightarrow> cache \<Rightarrow> cache" where
  "update_leaf_status i s =
     (let n = nd s i in
      if evicted n \<or> n_lock_ref n > 0 then s\<lparr>rc_leaves := rc_leaves s - {i}\<rparr>
      else if list_ex (\<lambda>(_, c). \<not> evicted (nd s c)) (n_children n) then s\<lparr>rc_leaves := rc_leaves s - {i}\<rparr>
      else s\<lparr>rc_leaves := insert i (rc_leaves s)\<rparr>)"

definition split_node :: "radix_key \<Rightarrow> nat \<Rightarrow> nat \<Rightarrow> cache \<Rightarrow> (nat \<times> cache) result" where
  "split_node key child split_len s =
     (let ps = rc_page_size s; c = nd s child; (new_node, s) = new_tree_node (n_priority c) s in
      rbind (child_key (rk_drop split_len key) ps) (\<lambda>rest_key.
      rbind (value_of c) (\<lambda>cv.
      rbind (child_key key ps) (\<lambda>this_key.
      rbind (split_node_hash_value (n_hash c) split_len ps) (\<lambda>(new_hash, child_hash).
      rbind (split_node_hash_value (n_event_hash c) split_len ps) (\<lambda>(new_event_hash, child_event_hash).
        case n_parent c of
          None \<Rightarrow> Inl AttributeError
        | Some p \<Rightarrow>
            let s = set_node new_node (\<lambda>n. n\<lparr>n_hit_count := n_hit_count c, n_children := [(rest_key, child)],
                       n_parent := Some p, n_lock_ref := n_lock_ref c, n_key := rk_take split_len (n_key c),
                       n_value := Some (take split_len cv), n_hash := new_hash, n_event_hash := new_event_hash\<rparr>) s;
                s = set_node child (\<lambda>n. n\<lparr>n_parent := Some new_node, n_key := rk_drop split_len (n_key c),
                       n_value := Some (drop split_len cv), n_hash := child_hash, n_event_hash := child_event_hash\<rparr>) s;
                s = set_node p (\<lambda>n. n\<lparr>n_children := AList.update this_key new_node (n_children n)\<rparr>) s
            in Inr (new_node, s)))))))"

definition inc_hit_count :: "nat \<Rightarrow> bool \<Rightarrow> cache \<Rightarrow> cache" where
  "inc_hit_count i chunked s = (if chunked then s else set_node i (\<lambda>n. n\<lparr>n_hit_count := n_hit_count n + 1\<rparr>) s)"

section \<open>Matching\<close>

record match_result =
  mr_indices :: "int list"
  mr_node :: nat

fun match_loop :: "nat \<Rightarrow> int \<Rightarrow> nat \<Rightarrow> radix_key \<Rightarrow> pyval \<Rightarrow> int list list \<Rightarrow> cache
    \<Rightarrow> (int list list \<times> nat \<times> cache) result" where
  "match_loop fuel access_time i key ck vals s =
     (if rk_len key = 0 then Inr (vals, i, s)
      else case map_of (n_children (nd s i)) ck of
        None \<Rightarrow> Inr (vals, i, s)
      | Some child \<Rightarrow>
          (case fuel of 0 \<Rightarrow> Inl OutOfFuel | Suc fuel \<Rightarrow>
            let s = set_node child (\<lambda>n. n\<lparr>n_last_access := access_time\<rparr>) s in
            rbind (rk_match (n_key (nd s child)) key (rc_page_size s)) (\<lambda>prefix_len.
              if prefix_len < rk_len (n_key (nd s child))
              then rbind (split_node (n_key (nd s child)) child prefix_len s) (\<lambda>(new_node, s).
                     rbind (value_of (nd s new_node)) (\<lambda>v. Inr (vals @ [v], new_node, s)))
              else rbind (value_of (nd s child)) (\<lambda>v.
                     let key = rk_drop prefix_len key in
                     rbind (if rk_len key > 0 then child_key key (rc_page_size s) else Inr ck) (\<lambda>ck.
                       match_loop fuel access_time child key ck (vals @ [v]) s)))))"

declare match_loop.simps [simp del]

definition match_prefix_helper :: "nat \<Rightarrow> radix_key \<Rightarrow> cache \<Rightarrow> (int list list \<times> nat \<times> cache) result" where
  "match_prefix_helper i key s =
     (let (access_time, s) = monotonic s;
          s = set_node i (\<lambda>n. n\<lparr>n_last_access := access_time\<rparr>) s
      in rbind (child_key key (rc_page_size s)) (\<lambda>ck. match_loop (rk_len key) access_time i key ck [] s))"

definition match_prefix :: "radix_key \<Rightarrow> cache \<Rightarrow> (match_result \<times> cache) result" where
  "match_prefix key s =
     (let (key, _) = maybe_to_bigram_view key (rc_eagle s) (None :: int list option);
          empty_result = \<lparr>mr_indices = [], mr_node = rc_root s\<rparr>
      in if rc_disable s \<or> rk_len key = 0 then Inr (empty_result, s)
         else rbind (page_aligned key (rc_page_size s)) (\<lambda>key.
           if rk_len key = 0 then Inr (empty_result, s)
           else rbind (match_prefix_helper (rc_root s) key s) (\<lambda>(vals, last_node, s).
             Inr (\<lparr>mr_indices = concat vals, mr_node = last_node\<rparr>, s))))"

section \<open>Inserting\<close>

fun insert_loop :: "nat \<Rightarrow> int \<Rightarrow> int \<Rightarrow> bool \<Rightarrow> nat \<Rightarrow> radix_key \<Rightarrow> int list \<Rightarrow> pyval \<Rightarrow> nat \<Rightarrow> cache
    \<Rightarrow> (nat \<times> nat \<times> radix_key \<times> int list \<times> pyval \<times> cache) result" where
  "insert_loop fuel access_time priority chunked i key vals ck prefix_total s =
     (if rk_len key = 0 then Inr (prefix_total, i, key, vals, ck, s)
      else case map_of (n_children (nd s i)) ck of
        None \<Rightarrow> Inr (prefix_total, i, key, vals, ck, s)
      | Some child \<Rightarrow>
          (case fuel of 0 \<Rightarrow> Inl OutOfFuel | Suc fuel \<Rightarrow>
            let s = set_node child (\<lambda>n. n\<lparr>n_last_access := access_time\<rparr>) s in
            rbind (rk_match (n_key (nd s child)) key (rc_page_size s)) (\<lambda>prefix_len.
              let prefix_total = prefix_total + prefix_len;
                  key = rk_drop prefix_len key;
                  vals = drop prefix_len vals
              in rbind (if prefix_len < rk_len (n_key (nd s child))
                        then split_node (n_key (nd s child)) child prefix_len s
                        else Inr (child, s))
                   (\<lambda>(nxt, s).
                     let s = set_node nxt (\<lambda>n. n\<lparr>n_priority := max (n_priority n) priority\<rparr>) s;
                         s = inc_hit_count nxt chunked s
                     in rbind (if rk_len key > 0 then child_key key (rc_page_size s) else Inr ck) (\<lambda>ck.
                          insert_loop fuel access_time priority chunked nxt key vals ck prefix_total s)))))"

declare insert_loop.simps [simp del]

definition add_leaf :: "int \<Rightarrow> bool \<Rightarrow> nat \<Rightarrow> radix_key \<Rightarrow> int list \<Rightarrow> pyval \<Rightarrow> cache \<Rightarrow> (nat \<times> cache) result" where
  "add_leaf priority chunked i key vals ck s =
     (let (new_node, s) = new_tree_node priority s;
          s = set_node new_node (\<lambda>n. n\<lparr>n_parent := Some i, n_key := key, n_value := Some vals\<rparr>) s;
          s = inc_hit_count new_node chunked s;
          s = set_node i (\<lambda>n. n\<lparr>n_children := AList.update ck new_node (n_children n)\<rparr>) s;
          s = s\<lparr>rc_evictable := rc_evictable s + int (rk_len key)\<rparr>;
          s = update_leaf_status i s;
          s = update_leaf_status new_node s
      in rbind (record_store (rc_hasher s) (rc_counter s) GPU None new_node (rc_events s, rc_store s))
           (\<lambda>(r, st). Inr (new_node, s\<lparr>rc_events := r, rc_store := st\<rparr>)))"

definition insert_helper :: "nat \<Rightarrow> radix_key \<Rightarrow> int list \<Rightarrow> int option \<Rightarrow> bool \<Rightarrow> cache \<Rightarrow> (nat \<times> nat \<times> cache) result" where
  "insert_helper i key vals prio chunked s =
     (let priority = (case prio of None \<Rightarrow> 0 | Some p \<Rightarrow> p);
          (access_time, s) = monotonic s;
          s = set_node i (\<lambda>n. n\<lparr>n_last_access := access_time, n_priority := max (n_priority n) priority\<rparr>) s
      in if rk_len key = 0 then Inr (0, i, s)
         else rbind (child_key key (rc_page_size s)) (\<lambda>ck.
           rbind (insert_loop (rk_len key) access_time priority chunked i key vals ck 0 s)
             (\<lambda>(prefix_total, i, key, vals, ck, s).
               if rk_len key = 0 then Inr (prefix_total, i, s)
               else rbind (add_leaf priority chunked i key vals ck s) (\<lambda>(new_node, s). Inr (prefix_total, new_node, s)))))"

text \<open>The result: the length of the prefix that was already cached, and the last node.\<close>

definition insert_key :: "radix_key \<Rightarrow> int list option \<Rightarrow> int option \<Rightarrow> bool \<Rightarrow> cache \<Rightarrow> ((nat \<times> nat option) \<times> cache) result" where
  "insert_key key vals prio chunked s =
     (if rc_disable s then Inr ((0, None), s)
      else let (key, vals) = maybe_to_bigram_view key (rc_eagle s) vals in
        rbind (page_aligned key (rc_page_size s)) (\<lambda>key.
          let vals = (case vals of Some v \<Rightarrow> take (rk_len key) v | None \<Rightarrow> take (rk_len key) (token_ids key))
          in rbind (insert_helper (rc_root s) key vals prio chunked s) (\<lambda>(prefix_len, last_node, s).
               Inr ((prefix_len, Some last_node), s))))"

section \<open>Locking\<close>

fun inc_lock_loop :: "nat \<Rightarrow> nat \<Rightarrow> int \<Rightarrow> cache \<Rightarrow> (int \<times> cache) result" where
  "inc_lock_loop fuel i delta s =
     (if i = rc_root s then Inr (delta, s)
      else case fuel of 0 \<Rightarrow> Inl OutOfFuel | Suc fuel \<Rightarrow>
        let n = nd s i; len = int (rk_len (n_key n));
            (delta, s) = (if n_lock_ref n = 0
              then (delta - len, s\<lparr>rc_evictable := rc_evictable s - len, rc_protected := rc_protected s + len\<rparr>)
              else (delta, s));
            s = set_node i (\<lambda>n. n\<lparr>n_lock_ref := n_lock_ref n + 1\<rparr>) s;
            s = update_leaf_status i s
        in case n_parent n of None \<Rightarrow> Inl AttributeError | Some p \<Rightarrow> inc_lock_loop fuel p delta s)"

declare inc_lock_loop.simps [simp del]

definition inc_lock_ref :: "nat \<Rightarrow> cache \<Rightarrow> (int \<times> cache) result" where
  "inc_lock_ref i s = (if rc_disable s then Inr (0, s) else inc_lock_loop (rc_counter s) i 0 s)"

fun dec_lock_loop :: "nat \<Rightarrow> nat \<Rightarrow> int \<Rightarrow> cache \<Rightarrow> (int \<times> cache) result" where
  "dec_lock_loop fuel i delta s =
     (if i = rc_root s then Inr (delta, s)
      else case fuel of 0 \<Rightarrow> Inl OutOfFuel | Suc fuel \<Rightarrow>
        let n = nd s i; len = int (rk_len (n_key n));
            (delta, s) = (if n_lock_ref n = 1
              then (delta + len, s\<lparr>rc_evictable := rc_evictable s + len, rc_protected := rc_protected s - len\<rparr>)
              else (delta, s));
            s = set_node i (\<lambda>n. n\<lparr>n_lock_ref := n_lock_ref n - 1\<rparr>) s;
            s = update_leaf_status i s
        in case n_parent n of
             None \<Rightarrow> Inl (AssertionError ''This request holds the node from another tree'')
           | Some p \<Rightarrow> dec_lock_loop fuel p delta s)"

declare dec_lock_loop.simps [simp del]

definition dec_lock_ref :: "nat \<Rightarrow> cache \<Rightarrow> (int \<times> cache) result" where
  "dec_lock_ref i s = (if rc_disable s then Inr (0, s) else dec_lock_loop (rc_counter s) i 0 s)"

section \<open>Evicting\<close>

definition delete_leaf :: "nat \<Rightarrow> cache \<Rightarrow> cache result" where
  "delete_leaf i s =
     (let n = nd s i in
      rbind (child_key (n_key n) (rc_page_size s)) (\<lambda>key.
        case n_parent n of
          None \<Rightarrow> Inl AttributeError
        | Some p \<Rightarrow>
            let v = map_of (n_children (nd s p)) key;
                s = set_node p (\<lambda>n. n\<lparr>n_children := AList.delete key (n_children n)\<rparr>) s
            in rbind (py_assert (v = Some i) ''parent does not have child key'') (\<lambda>_.
                 let s = s\<lparr>rc_evictable := rc_evictable s - int (rk_len (n_key n)),
                           rc_leaves := rc_leaves s - {i}\<rparr>
                 in Inr (update_leaf_status p s))))"

fun evict_loop :: "nat \<Rightarrow> int \<Rightarrow> int \<Rightarrow> (prio \<times> nat) list \<Rightarrow> cache \<Rightarrow> (int \<times> cache) result" where
  "evict_loop fuel num_tokens num_evicted heap s =
     (if \<not> num_evicted < num_tokens then Inr (num_evicted, s)
      else case heap of
        [] \<Rightarrow> Inr (num_evicted, s)
      | e # es \<Rightarrow>
          (case fuel of 0 \<Rightarrow> Inl OutOfFuel | Suc fuel \<Rightarrow>
            let ((_, x), heap) = heappop (rc_store s) e es in
            rbind (value_of (nd s x)) (\<lambda>v.
            rbind (ka_free_segment v 0 (rc_alloc s)) (\<lambda>alc.
            let s = s\<lparr>rc_alloc := alc\<rparr>; num_evicted = num_evicted + int (length v) in
            rbind (delete_leaf x s) (\<lambda>s.
            case n_parent (nd s x) of
              None \<Rightarrow> Inl AttributeError
            | Some p \<Rightarrow>
                rbind (if n_children (nd s p) = [] \<and> n_lock_ref (nd s p) = 0
                       then rbind (get_priority (rc_strategy s) (nd s p)) (\<lambda>new_priority. Inr (heap @ [(new_priority, p)]))
                       else Inr heap)
                  (\<lambda>heap.
                    rbind (record_remove (rc_hasher s) (rc_counter s) GPU x (rc_events s, rc_store s)) (\<lambda>(r, st).
                      evict_loop fuel num_tokens num_evicted heap (s\<lparr>rc_events := r, rc_store := st\<rparr>))))))))"

declare evict_loop.simps [simp del]

definition evict :: "int \<Rightarrow> cache \<Rightarrow> (int \<times> cache) result" where
  "evict num_tokens s =
     (if rc_disable s then Inr (0, s)
      else rbind (rmap (\<lambda>i. rbind (get_priority (rc_strategy s) (nd s i)) (\<lambda>p. Inr (p, i)))
                   (sorted_list_of_set (rc_leaves s)))
             (\<lambda>heap. evict_loop (rc_counter s) num_tokens 0 heap s))"

section \<open>Sizes\<close>

definition evictable_size :: "cache \<Rightarrow> int" where
  "evictable_size s = rc_evictable s"

definition protected_size :: "cache \<Rightarrow> int" where
  "protected_size s = rc_protected s"

fun total_size_loop :: "nat \<Rightarrow> nat list \<Rightarrow> nat \<Rightarrow> cache \<Rightarrow> nat result" where
  "total_size_loop fuel stack acc s =
     (if stack = [] then Inr acc
      else case fuel of 0 \<Rightarrow> Inl OutOfFuel | Suc fuel \<Rightarrow>
        let i = last stack; n = nd s i in
        rbind (value_of n) (\<lambda>v.
          total_size_loop fuel (butlast stack @ filter (\<lambda>c. \<not> evicted (nd s c)) (map snd (n_children n)))
            (acc + length v) s))"

declare total_size_loop.simps [simp del]

definition total_size :: "cache \<Rightarrow> nat result" where
  "total_size s = total_size_loop (rc_counter s) [rc_root s] 0 s"

fun dfs_values :: "nat \<Rightarrow> nat \<Rightarrow> cache \<Rightarrow> int list list result" where
  "dfs_values 0 i s = Inl OutOfFuel"
| "dfs_values (Suc fuel) i s =
     rbind (rmap (\<lambda>(_, c). rbind (value_of (nd s c)) (\<lambda>v. rbind (dfs_values fuel c s) (\<lambda>vs. Inr (v # vs))))
             (n_children (nd s i)))
       (\<lambda>vss. Inr (concat vss))"

text \<open>\<^verbatim>\<open>torch.cat\<close> of an empty list of tensors raises.\<close>

definition all_values_flatten :: "cache \<Rightarrow> int list result" where
  "all_values_flatten s =
     rbind (dfs_values (rc_counter s) (rc_root s) s) (\<lambda>values.
       if values = [] then Inl (RuntimeError ''expected a non-empty list of Tensors'') else Inr (concat values))"

end
