(* ===== verification/Radix_Tree.thy ===== *)
theory Radix_Tree
  imports Radix_Cache
begin

text \<open>
  The shape of the radix tree in the store, what it stands for, and its representation invariant.
  A tree denotes a finite map from page-aligned sequences of namespace-tagged units to slot
  sequences: the sequences spelled by the paths from the root, with the slots stored along them.
\<close>

section \<open>Paths\<close>

fun chain :: "(nat \<Rightarrow> nat \<Rightarrow> bool) \<Rightarrow> nat \<Rightarrow> nat list \<Rightarrow> bool" where
  "chain E p [] = True"
| "chain E p (i # is) = (E p i \<and> chain E i is)"

lemma chain_append: "chain E p (is @ js) \<longleftrightarrow> chain E p is \<and> chain E (last (p # is)) js"
  by (induction "is" arbitrary: p) auto

lemma chain_take: "chain E p is \<Longrightarrow> chain E p (take n is)"
  by (metis append_take_drop_id chain_append)

lemma chain_mono: "(\<And>a b. E a b \<Longrightarrow> F a b) \<Longrightarrow> chain E p is \<Longrightarrow> chain F p is"
  by (induction "is" arbitrary: p) auto

lemma chain_closed: "(\<And>a b. a \<in> L \<Longrightarrow> E a b \<Longrightarrow> b \<in> L) \<Longrightarrow> p \<in> L \<Longrightarrow> chain E p is \<Longrightarrow> set is \<subseteq> L"
  by (induction "is" arbitrary: p) auto

definition edge :: "store \<Rightarrow> nat \<Rightarrow> nat \<Rightarrow> bool" where
  "edge st p i \<longleftrightarrow> i \<in> snd ` set (n_children (node_at st p))"

definition path_key :: "store \<Rightarrow> nat list \<Rightarrow> tunit list" where
  "path_key st is = concat (map (\<lambda>i. tk (n_key (node_at st i))) is)"

definition path_val :: "store \<Rightarrow> nat list \<Rightarrow> int list" where
  "path_val st is = concat (map (\<lambda>i. the (n_value (node_at st i))) is)"

lemma path_simps [simp]:
  "path_key st [] = []" "path_val st [] = []"
  "path_key st (i # is) = tk (n_key (node_at st i)) @ path_key st is"
  "path_val st (i # is) = the (n_value (node_at st i)) @ path_val st is"
  "path_key st (is @ js) = path_key st is @ path_key st js"
  "path_val st (is @ js) = path_val st is @ path_val st js"
  by (simp_all add: path_key_def path_val_def)

section \<open>The invariant of the shape\<close>

definition node_ok :: "nat \<Rightarrow> bool \<Rightarrow> node \<Rightarrow> bool" where
  "node_ok ps eagle n \<longleftrightarrow> 0 < rk_len (n_key n) \<and> ps dvd rk_len (n_key n) \<and> salt_ok (n_key n) \<and>
     is_bigram (n_key n) = eagle \<and> (\<exists>v. n_value n = Some v \<and> length v = rk_len (n_key n))"

definition children_ok :: "nat \<Rightarrow> store \<Rightarrow> nat \<Rightarrow> nat set \<Rightarrow> nat \<Rightarrow> bool" where
  "children_ok ps st r L i \<longleftrightarrow> distinct (map fst (n_children (node_at st i))) \<and>
     (\<forall>(ck, c) \<in> set (n_children (node_at st i)).
        c \<in> L \<and> c \<noteq> r \<and> n_parent (node_at st c) = Some i \<and> child_key (n_key (node_at st c)) ps = Inr ck)"

definition tree_ok :: "nat \<Rightarrow> bool \<Rightarrow> store \<Rightarrow> nat \<Rightarrow> nat set \<Rightarrow> bool" where
  "tree_ok ps eagle st r L \<longleftrightarrow>
     0 < ps \<and> finite L \<and> r \<in> L \<and> L \<subseteq> dom st \<and>
     n_parent (node_at st r) = None \<and> rk_len (n_key (node_at st r)) = 0 \<and> n_value (node_at st r) = Some [] \<and>
     (\<forall>i\<in>L. children_ok ps st r L i) \<and> (\<forall>i\<in>L - {r}. node_ok ps eagle (node_at st i)) \<and>
     (\<forall>i\<in>L. \<exists>is. chain (edge st) r is \<and> last (r # is) = i)"

lemma tree_okD:
  assumes "tree_ok ps eagle st r L"
  shows "0 < ps" "finite L" "r \<in> L" "i \<in> L \<Longrightarrow> \<exists>n. st i = Some n"
    "n_parent (node_at st r) = None" "rk_len (n_key (node_at st r)) = 0" "n_value (node_at st r) = Some []"
    "i \<in> L \<Longrightarrow> children_ok ps st r L i" "i \<in> L \<Longrightarrow> i \<noteq> r \<Longrightarrow> node_ok ps eagle (node_at st i)"
    "i \<in> L \<Longrightarrow> \<exists>is. chain (edge st) r is \<and> last (r # is) = i"
  using assms unfolding tree_ok_def by blast+

lemma tree_ok_edge:
  assumes "tree_ok ps eagle st r L" "p \<in> L" "edge st p i"
  shows "i \<in> L" "i \<noteq> r" "n_parent (node_at st i) = Some p"
  using tree_okD(8) [OF assms(1,2)] assms(3) by (auto simp: children_ok_def edge_def)

lemma tree_ok_chain:
  assumes "tree_ok ps eagle st r L" "p \<in> L" "chain (edge st) p is"
  shows "set is \<subseteq> L - {r}"
  using assms(2,3)
proof (induction "is" arbitrary: p)
  case (Cons i "is")
  then show ?case using tree_ok_edge [OF assms(1) Cons.prems(1), of i] by auto
qed simp

lemma tree_ok_last: "tree_ok ps eagle st r L \<Longrightarrow> p \<in> L \<Longrightarrow> chain (edge st) p is \<Longrightarrow> last (p # is) \<in> L"
  using tree_ok_chain [of ps eagle st r L p "is"] by (cases "is" rule: rev_cases) auto

lemma tree_ok_parent:
  assumes t: "tree_ok ps eagle st r L" and i: "i \<in> L" "i \<noteq> r"
  obtains p where "p \<in> L" "edge st p i" "n_parent (node_at st i) = Some p"
proof -
  obtain "is" where c: "chain (edge st) r is" "last (r # is) = i" using tree_okD(10) [OF t i(1)] by blast
  then obtain js where js: "is = js @ [i]" using i(2) by (cases "is" rule: rev_cases) auto
  let ?p = "last (r # js)"
  have "edge st ?p i" "chain (edge st) r js" using c(1) js by (simp_all add: chain_append)
  moreover have "?p \<in> L" using tree_ok_last [OF t tree_okD(3) [OF t]] calculation(2) by blast
  ultimately show ?thesis using that tree_ok_edge(3) [OF t] by blast
qed

lemma map_of_child:
  assumes "children_ok ps st r L p"
  shows "map_of (n_children (node_at st p)) ck = Some c \<longleftrightarrow>
     edge st p c \<and> child_key (n_key (node_at st c)) ps = Inr ck"
proof
  assume "map_of (n_children (node_at st p)) ck = Some c"
  then have "(ck, c) \<in> set (n_children (node_at st p))" by (rule map_of_SomeD)
  then show "edge st p c \<and> child_key (n_key (node_at st c)) ps = Inr ck"
    using assms by (force simp: children_ok_def edge_def)
next
  assume h: "edge st p c \<and> child_key (n_key (node_at st c)) ps = Inr ck"
  then obtain ck' where m: "(ck', c) \<in> set (n_children (node_at st p))" by (auto simp: edge_def)
  then have "child_key (n_key (node_at st c)) ps = Inr ck'" using assms by (auto simp: children_ok_def)
  then have "(ck, c) \<in> set (n_children (node_at st p))" using h m by simp
  then show "map_of (n_children (node_at st p)) ck = Some c"
    using assms by (simp add: children_ok_def)
qed

text \<open>Different children of a node differ on their first page.\<close>

lemma siblings_differ:
  assumes t: "tree_ok ps eagle st r L" and p: "p \<in> L" and e: "edge st p i" "edge st p j"
    and same: "take ps (tk (n_key (node_at st i))) = take ps (tk (n_key (node_at st j)))"
  shows "i = j"
proof -
  have ps: "0 < ps" using tree_okD(1) [OF t] .
  have ij: "i \<in> L" "i \<noteq> r" "j \<in> L" "j \<noteq> r" using tree_ok_edge [OF t p] e by blast+
  have len: "ps \<le> rk_len (n_key (node_at st i))" "ps \<le> rk_len (n_key (node_at st j))"
    using tree_okD(9) [OF t] ij by (auto simp: node_ok_def intro: dvd_imp_le)
  have "child_key (n_key (node_at st i)) ps = child_key (n_key (node_at st j)) ps"
    using child_key_inj [OF ps len] same by blast
  moreover obtain ck where "child_key (n_key (node_at st i)) ps = Inr ck"
    using child_key_eq [OF ps len(1)] by blast
  ultimately have "map_of (n_children (node_at st p)) ck = Some i" "map_of (n_children (node_at st p)) ck = Some j"
    using map_of_child [OF tree_okD(8) [OF t p]] e by simp_all
  then show ?thesis by simp
qed

lemma length_path: "tree_ok ps eagle st r L \<Longrightarrow> set is \<subseteq> L - {r} \<Longrightarrow> length (path_val st is) = length (path_key st is)"
proof (induction "is")
  case (Cons i "is")
  then have "node_ok ps eagle (node_at st i)" using tree_okD(9) by auto
  then show ?case using Cons by (auto simp: node_ok_def)
qed simp

section \<open>What the tree stands for\<close>

definition cached :: "nat \<Rightarrow> store \<Rightarrow> nat \<Rightarrow> tunit list \<Rightarrow> int list \<Rightarrow> bool" where
  "cached ps st p w v \<longleftrightarrow> ps dvd length w \<and>
     (\<exists>is. chain (edge st) p is \<and> prefix w (path_key st is) \<and> v = take (length w) (path_val st is))"

lemma cached_Nil [simp]: "cached ps st p [] [] "
  by (auto simp: cached_def intro: exI [of _ "[]"])

lemma cached_prefix: "cached ps st p w v \<Longrightarrow> prefix w' w \<Longrightarrow> ps dvd length w' \<Longrightarrow> cached ps st p w' (take (length w') v)"
  unfolding cached_def by (metis min.absorb1 prefix_length_le prefix_order.trans take_take)

lemma first_page:
  assumes t: "tree_ok ps eagle st r L" and p: "p \<in> L" and c: "chain (edge st) p (i # is)"
    and w: "prefix w (path_key st (i # is))" "ps dvd length w" "w \<noteq> []"
  shows "take ps w = take ps (tk (n_key (node_at st i)))"
proof -
  have i: "i \<in> L" "i \<noteq> r" using tree_ok_edge [OF t p] c by auto
  have "ps \<le> length w" using w by (auto intro: dvd_imp_le)
  moreover have "ps \<le> length (tk (n_key (node_at st i)))"
    using tree_okD(9) [OF t i] by (auto simp: node_ok_def intro: dvd_imp_le)
  moreover obtain z where "path_key st (i # is) = w @ z" using w(1) by (auto elim: prefixE)
  then have "take ps (w @ z) = take ps (tk (n_key (node_at st i)) @ path_key st is)" by simp
  ultimately show ?thesis by simp
qed

text \<open>A page-aligned sequence has at most one value: the tree is a map.\<close>

lemma cached_fun:
  assumes t: "tree_ok ps eagle st r L"
  shows "p \<in> L \<Longrightarrow> chain (edge st) p is \<Longrightarrow> chain (edge st) p js \<Longrightarrow> ps dvd length w \<Longrightarrow>
    prefix w (path_key st is) \<Longrightarrow> prefix w (path_key st js) \<Longrightarrow>
    take (length w) (path_val st is) = take (length w) (path_val st js)"
proof (induction "is" arbitrary: p js w)
  case (Cons i "is")
  show ?case
  proof (cases "w = []")
    case False
    with Cons.prems obtain j js' where js: "js = j # js'" by (cases js) auto
    have "take ps (tk (n_key (node_at st i))) = take ps (tk (n_key (node_at st j)))"
      using first_page [OF t Cons.prems(1,2,5,4) False] first_page [OF t Cons.prems(1,3,6,4) [unfolded js] False]
      by simp
    then have ij: "i = j" using siblings_differ [OF t Cons.prems(1)] Cons.prems(2,3) js by simp
    let ?k = "tk (n_key (node_at st i))" and ?v = "the (n_value (node_at st i))"
    have i: "i \<in> L" "i \<noteq> r" using tree_ok_edge [OF t Cons.prems(1)] Cons.prems(2) by auto
    have lv: "length ?v = length ?k" and dk: "ps dvd length ?k"
      using tree_okD(9) [OF t i] by (auto simp: node_ok_def)
    show ?thesis
    proof (cases "length w \<le> length ?k")
      case True
      then show ?thesis using ij js lv by simp
    next
      case f: False
      then have "length ?k \<le> length w" by simp
      then have "prefix ?k w" using prefix_length_prefix [of ?k "path_key st (i # is)" w] Cons.prems(5) by simp
      then obtain w' where w': "w = ?k @ w'" by (elim prefixE)
      have "take (length w') (path_val st is) = take (length w') (path_val st js')"
        using Cons.prems js ij w' dk by (intro Cons.IH [OF i(1)]) (simp_all add: dvd_add_right_iff)
      then show ?thesis using ij js lv w' by simp
    qed
  qed simp
qed simp

lemma tree_ok_path_unique:
  assumes t: "tree_ok ps eagle st r L"
  shows "chain (edge st) r is \<Longrightarrow> chain (edge st) r js \<Longrightarrow> last (r # is) = last (r # js) \<Longrightarrow> is = js"
proof (induction "is" arbitrary: js rule: rev_induct)
  case Nil
  then show ?case
    using tree_ok_chain [OF t tree_okD(3) [OF t] Nil.prems(2)] by (cases js rule: rev_cases) auto
next
  case (snoc i "is")
  have "i \<noteq> r" using tree_ok_chain [OF t tree_okD(3) [OF t] snoc.prems(1)] by auto
  then obtain js' where js: "js = js' @ [i]" using snoc.prems(3) by (cases js rule: rev_cases) auto
  have c: "chain (edge st) r is" "edge st (last (r # is)) i" "chain (edge st) r js'" "edge st (last (r # js')) i"
    using snoc.prems js by (simp_all add: chain_append)
  have l: "last (r # is) \<in> L" "last (r # js') \<in> L"
    by (rule tree_ok_last [OF t tree_okD(3) [OF t] c(1)], rule tree_ok_last [OF t tree_okD(3) [OF t] c(3)])
  have "last (r # is) = last (r # js')"
    using tree_ok_edge(3) [OF t l(1) c(2)] tree_ok_edge(3) [OF t l(2) c(4)] by (simp only: option.inject)
  then have "is = js'" by (rule snoc.IH [OF c(1,3)])
  then show ?case by (simp only: js)
qed

lemma tree_ok_no_cycle:
  assumes t: "tree_ok ps eagle st r L" and p: "p \<in> L" and c: "chain (edge st) p is" "is \<noteq> []"
  shows "last is \<noteq> p"
proof
  assume l: "last is = p"
  obtain js where js: "chain (edge st) r js" "last (r # js) = p" using tree_okD(10) [OF t p] by blast
  then have "chain (edge st) r (js @ is)" using c by (simp add: chain_append)
  moreover have "last (r # js @ is) = last (r # js)" unfolding js(2) using l c(2) by simp
  ultimately have "js @ is = js" by (rule tree_ok_path_unique [OF t _ js(1)])
  then show False using c(2) by simp
qed

lemma tree_ok_edge_neq: "tree_ok ps eagle st r L \<Longrightarrow> p \<in> L \<Longrightarrow> edge st p i \<Longrightarrow> i \<noteq> p"
  using tree_ok_no_cycle [of ps eagle st r L p "[i]"] by simp

section \<open>Stores of the same shape\<close>

definition same_shape :: "store \<Rightarrow> store \<Rightarrow> bool" where
  "same_shape st st' \<longleftrightarrow> dom st' = dom st \<and>
     (\<forall>i. n_children (node_at st' i) = n_children (node_at st i) \<and> n_parent (node_at st' i) = n_parent (node_at st i) \<and>
          n_key (node_at st' i) = n_key (node_at st i) \<and> n_value (node_at st' i) = n_value (node_at st i) \<and>
          n_lock_ref (node_at st' i) = n_lock_ref (node_at st i))"

lemma same_shape_refl [simp]: "same_shape st st"
  by (simp add: same_shape_def)

lemma same_shape_trans: "same_shape a b \<Longrightarrow> same_shape b c \<Longrightarrow> same_shape a c"
  by (simp add: same_shape_def)

lemma same_shape_upd:
  assumes "\<And>n. n_children (f n) = n_children n \<and> n_parent (f n) = n_parent n \<and> n_key (f n) = n_key n \<and>
     n_value (f n) = n_value n \<and> n_lock_ref (f n) = n_lock_ref n"
  shows "same_shape st (upd i f st)"
  using assms by (cases "st i") (auto simp: same_shape_def upd_apply dom_def)

lemma same_tree_same_shape: "same_tree st st' \<Longrightarrow> same_shape st st'"
proof -
  assume s: "same_tree st st'"
  have d: "dom st' = dom st" by (rule same_tree_dom [OF s])
  have "n_children (node_at st' i) = n_children (node_at st i) \<and> n_parent (node_at st' i) = n_parent (node_at st i) \<and>
          n_key (node_at st' i) = n_key (node_at st i) \<and> n_value (node_at st' i) = n_value (node_at st i) \<and>
          n_lock_ref (node_at st' i) = n_lock_ref (node_at st i)" for i
  proof (cases "st i")
    case None
    then have "st' i = None" using d by auto
    then show ?thesis using None by simp
  next
    case (Some n)
    show ?thesis by (rule same_tree_fields [OF s Some]) (use Some in simp)
  qed
  then show ?thesis using d by (simp add: same_shape_def)
qed

lemma same_shape_simps:
  assumes "same_shape st st'"
  shows "edge st' = edge st" "path_key st' = path_key st" "path_val st' = path_val st"
    "cached ps st' p w v = cached ps st p w v" "children_ok ps st' r L i = children_ok ps st r L i"
    "node_ok ps eagle (node_at st' i) = node_ok ps eagle (node_at st i)"
    "tree_ok ps eagle st' r L = tree_ok ps eagle st r L"
proof -
  show e: "edge st' = edge st" using assms by (simp add: fun_eq_iff edge_def same_shape_def)
  show k: "path_key st' = path_key st" "path_val st' = path_val st"
    using assms by (simp_all add: fun_eq_iff path_key_def path_val_def same_shape_def)
  show "cached ps st' p w v = cached ps st p w v" by (simp add: cached_def e k)
  show c: "children_ok ps st' r L i = children_ok ps st r L i" for i
    using assms by (simp add: children_ok_def same_shape_def)
  show n: "node_ok ps eagle (node_at st' i) = node_ok ps eagle (node_at st i)" for i
    using assms by (simp add: node_ok_def same_shape_def)
  show "tree_ok ps eagle st' r L = tree_ok ps eagle st r L"
    using assms by (simp add: tree_ok_def e c n) (simp add: same_shape_def)
qed

section \<open>Locks and sizes\<close>

definition below :: "store \<Rightarrow> nat \<Rightarrow> nat \<Rightarrow> bool" where
  "below st i h \<longleftrightarrow> (\<exists>is. chain (edge st) i is \<and> last (i # is) = h)"

text \<open>\<open>H\<close> lists the nodes the requests hold a lock on; a node counts the holders in its subtree.\<close>

definition locks_ok :: "store \<Rightarrow> nat \<Rightarrow> nat set \<Rightarrow> nat list \<Rightarrow> bool" where
  "locks_ok st r L H \<longleftrightarrow> set H \<subseteq> L \<and> n_lock_ref (node_at st r) = 1 \<and>
     (\<forall>i\<in>L - {r}. n_lock_ref (node_at st i) = int (length (filter (below st i) H)))"

definition unlocked :: "store \<Rightarrow> nat \<Rightarrow> nat set \<Rightarrow> nat set" where
  "unlocked st r L = {i \<in> L - {r}. n_lock_ref (node_at st i) = 0}"

definition locked :: "store \<Rightarrow> nat \<Rightarrow> nat set \<Rightarrow> nat set" where
  "locked st r L = {i \<in> L - {r}. n_lock_ref (node_at st i) \<noteq> 0}"

definition tokens :: "store \<Rightarrow> nat set \<Rightarrow> int" where
  "tokens st A = (\<Sum>i\<in>A. int (rk_len (n_key (node_at st i))))"

definition leaf_set :: "store \<Rightarrow> nat \<Rightarrow> nat set \<Rightarrow> nat set" where
  "leaf_set st r L = {i \<in> unlocked st r L. n_children (node_at st i) = []}"

definition cache_wf :: "nat set \<Rightarrow> nat list \<Rightarrow> cache \<Rightarrow> bool" where
  "cache_wf L H s \<longleftrightarrow>
     tree_ok (rc_page_size s) (rc_eagle s) (rc_store s) (rc_root s) L \<and>
     (\<forall>i \<in> dom (rc_store s). i < rc_counter s) \<and>
     locks_ok (rc_store s) (rc_root s) L H \<and>
     rc_leaves s = leaf_set (rc_store s) (rc_root s) L \<and>
     rc_evictable s = tokens (rc_store s) (unlocked (rc_store s) (rc_root s) L) \<and>
     rc_protected s = tokens (rc_store s) (locked (rc_store s) (rc_root s) L)"

text \<open>The parts of the state the invariant reads.\<close>

definition same_state :: "cache \<Rightarrow> cache \<Rightarrow> bool" where
  "same_state s s' \<longleftrightarrow> same_shape (rc_store s) (rc_store s') \<and> rc_counter s' = rc_counter s \<and> rc_root s' = rc_root s \<and>
     rc_evictable s' = rc_evictable s \<and> rc_protected s' = rc_protected s \<and> rc_leaves s' = rc_leaves s \<and>
     rc_page_size s' = rc_page_size s \<and> rc_eagle s' = rc_eagle s"

lemma wf_same_state: "same_state s s' \<Longrightarrow> cache_wf L H s' = cache_wf L H s"
proof -
  assume "same_state s s'"
  then have sh: "same_shape (rc_store s) (rc_store s')" by (simp add: same_state_def)
  have f: "n_lock_ref (node_at (rc_store s') i) = n_lock_ref (nd s i)" "n_children (node_at (rc_store s') i) = n_children (nd s i)"
    "n_key (node_at (rc_store s') i) = n_key (nd s i)" for i
    using sh by (simp_all add: same_shape_def)
  have b: "below (rc_store s') = below (rc_store s)" by (simp add: fun_eq_iff below_def same_shape_simps [OF sh])
  show ?thesis
    using \<open>same_state s s'\<close> sh
    by (simp add: cache_wf_def same_state_def b same_shape_simps [OF sh] locks_ok_def leaf_set_def unlocked_def locked_def
        tokens_def f) (simp add: same_shape_def)
qed

lemma wfD:
  assumes "cache_wf L H s"
  shows "tree_ok (rc_page_size s) (rc_eagle s) (rc_store s) (rc_root s) L" "i \<in> dom (rc_store s) \<Longrightarrow> i < rc_counter s"
    "locks_ok (rc_store s) (rc_root s) L H" "rc_leaves s = leaf_set (rc_store s) (rc_root s) L"
    "rc_evictable s = tokens (rc_store s) (unlocked (rc_store s) (rc_root s) L)"
    "rc_protected s = tokens (rc_store s) (locked (rc_store s) (rc_root s) L)"
  using assms unfolding cache_wf_def by blast+

lemma wf_fresh: "cache_wf L H s \<Longrightarrow> rc_counter s \<notin> dom (rc_store s)"
  using wfD(2) by blast

end
