(* ===== verification/Radix_Split.thy ===== *)
theory Radix_Split
  imports Radix_Tree
begin

text \<open>
  Splitting a node: the new node takes over the first part of the key and of the slots and stands
  between the old node and its parent. The tree stands for the same map, locks, leaves and sizes
  are accounted for as before, and \<open>split_node\<close> never fails inside a node.
\<close>

section \<open>Splitting an edge\<close>

definition ins :: "nat \<Rightarrow> nat \<Rightarrow> nat list \<Rightarrow> nat list" where
  "ins n c is = concat (map (\<lambda>i. if i = c then [n, c] else [i]) is)"

lemma ins_simps [simp]: "ins n c [] = []" "ins n c (i # is) = (if i = c then [n, c] else [i]) @ ins n c is"
  "ins n c (is @ js) = ins n c is @ ins n c js"
  by (simp_all add: ins_def)

lemma last_ins: "last (q # ins n c is) = last (q # is)"
  by (induction "is" arbitrary: q) auto

definition split_edge :: "(nat \<Rightarrow> nat \<Rightarrow> bool) \<Rightarrow> nat \<Rightarrow> nat \<Rightarrow> nat \<Rightarrow> nat \<Rightarrow> nat \<Rightarrow> bool" where
  "split_edge E p n c a b \<longleftrightarrow> (E a b \<and> \<not> (a = p \<and> b = c)) \<or> (a = p \<and> b = n) \<or> (a = n \<and> b = c)"

lemma chain_split1:
  assumes "\<And>a. E a c \<Longrightarrow> a = p" "chain E q is"
  shows "chain (split_edge E p n c) q (ins n c is)"
  using assms(2)
proof (induction "is" arbitrary: q)
  case (Cons i "is")
  then show ?case using assms(1) by (auto simp: split_edge_def)
qed simp

lemma chain_split2:
  assumes fresh: "\<And>a. \<not> E n a" "\<And>a. \<not> E a n" and pc: "E p c" "n \<noteq> c" and uniq: "\<And>a. E a c \<Longrightarrow> a = p"
    and "q \<noteq> n" "chain (split_edge E p n c) q js"
  shows "\<exists>is. chain E q is \<and> (js = ins n c is \<or> js = ins n c is @ [n] \<and> last (q # is) = p)"
  using assms(6,7)
proof (induction "length js" arbitrary: q js rule: less_induct)
  case less
  show ?case
  proof (cases js)
    case Nil
    then show ?thesis by (auto intro: exI [of _ "[]"])
  next
    case (Cons j js')
    show ?thesis
    proof (cases "j = n")
      case True
      then have q: "q = p" using less.prems Cons fresh by (auto simp: split_edge_def)
      show ?thesis
      proof (cases js')
        case Nil
        then show ?thesis using Cons True q by (auto intro: exI [of _ "[]"])
      next
        case (Cons k ks)
        then have "k = c" "chain (split_edge E p n c) c ks"
          using less.prems \<open>js = j # js'\<close> True fresh by (auto simp: split_edge_def)
        then obtain "is" where "chain E c is" "ks = ins n c is \<or> ks = ins n c is @ [n] \<and> last (c # is) = p"
          using less.hyps [of ks c] pc(2) Cons \<open>js = j # js'\<close> by auto
        then show ?thesis
          using Cons \<open>js = j # js'\<close> True q pc(1) \<open>k = c\<close> by (intro exI [of _ "c # is"]) auto
      qed
    next
      case False
      then have E: "E q j" "j \<noteq> c"
        using less.prems Cons uniq by (auto simp: split_edge_def)
      obtain "is" where i: "chain E j is" "js' = ins n c is \<or> js' = ins n c is @ [n] \<and> last (j # is) = p"
        using less.hyps [of js' j] less.prems Cons False by auto
      then show ?thesis using Cons E by (intro exI [of _ "j # is"]) auto
    qed
  qed
qed

text \<open>Edges between live nodes.\<close>

definition ledge :: "store \<Rightarrow> nat set \<Rightarrow> nat \<Rightarrow> nat \<Rightarrow> bool" where
  "ledge st L a b \<longleftrightarrow> a \<in> L \<and> edge st a b"

lemma chain_ledge:
  assumes t: "\<And>i. i \<in> L \<Longrightarrow> children_ok ps st r L i"
  shows "p \<in> L \<Longrightarrow> chain (edge st) p is \<longleftrightarrow> chain (ledge st L) p is"
proof (induction "is" arbitrary: p)
  case (Cons i "is")
  have "edge st p i \<Longrightarrow> i \<in> L" using t [OF Cons.prems] by (auto simp: children_ok_def edge_def)
  then show ?case using Cons by (auto simp: ledge_def)
qed simp

text \<open>
  The effect of \<open>split_node\<close> on the store: node \<open>c\<close> keeps its units from \<open>k\<close> on, the new node \<open>n\<close>
  takes the first \<open>k\<close> and stands between \<open>c\<close> and its parent \<open>p\<close>.
\<close>

definition split_store :: "nat \<Rightarrow> store \<Rightarrow> store \<Rightarrow> nat \<Rightarrow> nat \<Rightarrow> nat \<Rightarrow> nat \<Rightarrow> bool" where
  "split_store ps st st' n c p k \<longleftrightarrow>
     dom st' = insert n (dom st) \<and> (\<forall>i. i \<noteq> n \<longrightarrow> i \<noteq> c \<longrightarrow> i \<noteq> p \<longrightarrow> st' i = st i) \<and>
     n_key (node_at st' n) = rk_take k (n_key (node_at st c)) \<and>
     n_value (node_at st' n) = Some (take k (the (n_value (node_at st c)))) \<and>
     n_lock_ref (node_at st' n) = n_lock_ref (node_at st c) \<and> n_parent (node_at st' n) = Some p \<and>
     (\<exists>rest. n_children (node_at st' n) = [(rest, c)] \<and> child_key (rk_drop k (n_key (node_at st c))) ps = Inr rest) \<and>
     n_key (node_at st' c) = rk_drop k (n_key (node_at st c)) \<and>
     n_value (node_at st' c) = Some (drop k (the (n_value (node_at st c)))) \<and>
     n_lock_ref (node_at st' c) = n_lock_ref (node_at st c) \<and> n_parent (node_at st' c) = Some n \<and>
     n_children (node_at st' c) = n_children (node_at st c) \<and>
     n_key (node_at st' p) = n_key (node_at st p) \<and> n_value (node_at st' p) = n_value (node_at st p) \<and>
     n_lock_ref (node_at st' p) = n_lock_ref (node_at st p) \<and> n_parent (node_at st' p) = n_parent (node_at st p) \<and>
     (\<exists>this. n_children (node_at st' p) = AList.update this n (n_children (node_at st p)) \<and>
        child_key (n_key (node_at st c)) ps = Inr this)"

definition split_ctx :: "nat \<Rightarrow> bool \<Rightarrow> store \<Rightarrow> store \<Rightarrow> nat \<Rightarrow> nat \<Rightarrow> nat \<Rightarrow> nat \<Rightarrow> nat \<Rightarrow> nat set \<Rightarrow> bool" where
  "split_ctx ps eagle st st' r n c p k L \<longleftrightarrow>
     tree_ok ps eagle st r L \<and> split_store ps st st' n c p k \<and> n \<notin> dom st \<and> c \<in> L \<and> p \<in> L \<and> edge st p c \<and>
     0 < k \<and> k < rk_len (n_key (node_at st c)) \<and> ps dvd k"

lemma split_ctxD:
  assumes "split_ctx ps eagle st st' r n c p k L"
  shows "tree_ok ps eagle st r L" "split_store ps st st' n c p k" "n \<notin> dom st" "c \<in> L" "p \<in> L" "edge st p c"
    "0 < k" "k < rk_len (n_key (node_at st c))" "ps dvd k"
  using assms unfolding split_ctx_def by blast+

lemma split_fresh:
  assumes X: "split_ctx ps eagle st st' r n c p k L"
  shows "n \<notin> L" "n \<noteq> c" "n \<noteq> p" "n \<noteq> r" "c \<noteq> r" "c \<noteq> p" "node_ok ps eagle (node_at st c)"
proof -
  note x = split_ctxD [OF X]
  show "n \<notin> L" using x(3) tree_okD(4) [OF x(1)] by blast
  then show "n \<noteq> c" "n \<noteq> p" "n \<noteq> r" using x(4,5) tree_okD(3) [OF x(1)] by blast+
  show "c \<noteq> r" using tree_ok_edge(2) [OF x(1,5,6)] .
  show "c \<noteq> p" using tree_ok_edge_neq [OF x(1,5,6)] .
  show "node_ok ps eagle (node_at st c)" using tree_okD(9) [OF x(1,4)] \<open>c \<noteq> r\<close> .
qed

lemma split_new:
  assumes X: "split_ctx ps eagle st st' r n c p k L"
  shows "n_key (node_at st' n) = rk_take k (n_key (node_at st c))"
    "n_value (node_at st' n) = Some (take k (the (n_value (node_at st c))))"
    "n_lock_ref (node_at st' n) = n_lock_ref (node_at st c)" "n_parent (node_at st' n) = Some p"
    "\<exists>rest. n_children (node_at st' n) = [(rest, c)] \<and> child_key (rk_drop k (n_key (node_at st c))) ps = Inr rest"
  using split_ctxD(2) [OF X] unfolding split_store_def by blast+

lemma split_child:
  assumes X: "split_ctx ps eagle st st' r n c p k L"
  shows "n_key (node_at st' c) = rk_drop k (n_key (node_at st c))"
    "n_value (node_at st' c) = Some (drop k (the (n_value (node_at st c))))"
    "n_lock_ref (node_at st' c) = n_lock_ref (node_at st c)" "n_parent (node_at st' c) = Some n"
    "n_children (node_at st' c) = n_children (node_at st c)"
  using split_ctxD(2) [OF X] unfolding split_store_def by blast+

lemma split_parent:
  assumes X: "split_ctx ps eagle st st' r n c p k L"
  shows "n_key (node_at st' p) = n_key (node_at st p)" "n_value (node_at st' p) = n_value (node_at st p)"
    "n_lock_ref (node_at st' p) = n_lock_ref (node_at st p)" "n_parent (node_at st' p) = n_parent (node_at st p)"
    "\<exists>this. n_children (node_at st' p) = AList.update this n (n_children (node_at st p)) \<and>
       child_key (n_key (node_at st c)) ps = Inr this"
  using split_ctxD(2) [OF X] unfolding split_store_def by blast+

lemma split_other:
  assumes X: "split_ctx ps eagle st st' r n c p k L"
  shows "i \<noteq> n \<Longrightarrow> i \<noteq> c \<Longrightarrow> i \<noteq> p \<Longrightarrow> st' i = st i"
  using split_ctxD(2) [OF X] unfolding split_store_def by blast

lemma split_dom:
  assumes X: "split_ctx ps eagle st st' r n c p k L"
  shows "dom st' = insert n (dom st)"
  using split_ctxD(2) [OF X] unfolding split_store_def by blast

lemma split_lock:
  assumes X: "split_ctx ps eagle st st' r n c p k L" and i: "i \<noteq> n"
  shows "n_lock_ref (node_at st' i) = n_lock_ref (node_at st i)"
  using split_child(3) [OF X] split_parent(3) [OF X] split_other [OF X i] by (cases "i = c"; cases "i = p") simp_all

lemma split_kids:
  assumes X: "split_ctx ps eagle st st' r n c p k L" and i: "i \<noteq> n" "i \<noteq> p"
  shows "n_children (node_at st' i) = n_children (node_at st i)"
  using split_child(5) [OF X] split_other [OF X i(1) _ i(2)] by (cases "i = c") simp_all

lemma split_keyval:
  assumes X: "split_ctx ps eagle st st' r n c p k L" and i: "i \<noteq> n" "i \<noteq> c"
  shows "n_key (node_at st' i) = n_key (node_at st i)" "n_value (node_at st' i) = n_value (node_at st i)"
    "n_parent (node_at st' i) = n_parent (node_at st i)"
  using split_parent [OF X] split_other [OF X i] by (cases "i = p"; simp)+

lemma split_parts:
  assumes X: "split_ctx ps eagle st st' r n c p k L"
  shows "tk (n_key (node_at st' n)) = take k (tk (n_key (node_at st c)))"
    "tk (n_key (node_at st' c)) = drop k (tk (n_key (node_at st c)))"
    "the (n_value (node_at st' n)) = take k (the (n_value (node_at st c)))"
    "the (n_value (node_at st' c)) = drop k (the (n_value (node_at st c)))"
  using split_fresh(7) [OF X] by (simp_all add: split_new [OF X] split_child [OF X] node_ok_def)

lemma split_nodes_ok:
  assumes X: "split_ctx ps eagle st st' r n c p k L" and i: "i \<in> insert n L - {r}"
  shows "node_ok ps eagle (node_at st' i)"
proof -
  note x = split_ctxD [OF X] and f = split_fresh [OF X]
  have d: "ps dvd rk_len (n_key (node_at st c)) - k" and b: "is_bigram (n_key (node_at st c)) = eagle"
    using f(7) x(9) by (simp_all add: node_ok_def dvd_diff_nat)
  consider "i = n" | "i = c" | "i \<noteq> n" "i \<noteq> c" by blast
  then show ?thesis
  proof cases
    case 1
    show ?thesis unfolding 1
      using x(7-9) b f(7) by (auto simp: node_ok_def split_new [OF X])
  next
    case 2
    show ?thesis unfolding 2
      using x(7-9) b d f(7) by (auto simp: node_ok_def split_child [OF X])
  next
    case 3
    then have "node_ok ps eagle (node_at st i)" using tree_okD(9) [OF x(1)] i by simp
    then show ?thesis using split_keyval [OF X 3] by (simp add: node_ok_def)
  qed
qed

lemma edge_map_of:
  assumes "distinct (map fst (n_children (node_at st p)))"
  shows "edge st p i \<longleftrightarrow> (\<exists>ck. map_of (n_children (node_at st p)) ck = Some i)"
  using assms by (force simp: edge_def image_iff map_of_eq_Some_iff)

lemma split_children_p:
  assumes X: "split_ctx ps eagle st st' r n c p k L"
  shows "distinct (map fst (n_children (node_at st' p)))"
    and "map_of (n_children (node_at st' p)) ck = Some i \<longleftrightarrow>
       (if child_key (n_key (node_at st c)) ps = Inr ck then i = n else map_of (n_children (node_at st p)) ck = Some i)"
proof -
  note x = split_ctxD [OF X]
  have d: "distinct (map fst (n_children (node_at st p)))" using tree_okD(8) [OF x(1,5)] by (simp add: children_ok_def)
  show "distinct (map fst (n_children (node_at st' p)))"
    using split_parent(5) [OF X] by (auto simp: distinct_update d)
  show "map_of (n_children (node_at st' p)) ck = Some i \<longleftrightarrow>
       (if child_key (n_key (node_at st c)) ps = Inr ck then i = n else map_of (n_children (node_at st p)) ck = Some i)"
    using split_parent(5) [OF X] by (auto simp: update_conv)
qed

lemma split_edges:
  assumes X: "split_ctx ps eagle st st' r n c p k L"
  shows "ledge st' (insert n L) = split_edge (ledge st L) p n c"
proof (intro ext)
  fix a b
  note x = split_ctxD [OF X] and f = split_fresh [OF X]
  have okp: "children_ok ps st r L p" by (rule tree_okD(8) [OF x(1,5)])
  consider "a = n" | "a = p" | "a \<noteq> n" "a \<noteq> p" by blast
  then show "ledge st' (insert n L) a b = split_edge (ledge st L) p n c a b"
  proof cases
    case 1
    show ?thesis
      using split_new(5) [OF X] 1 f by (auto simp: ledge_def edge_def split_edge_def)
  next
    case 2
    have "edge st' p b \<longleftrightarrow> b = n \<or> (edge st p b \<and> b \<noteq> c)"
      unfolding edge_map_of [where st = st' and p = p, OF split_children_p(1) [OF X]] split_children_p(2) [OF X]
    proof -
      obtain tck where tck: "child_key (n_key (node_at st c)) ps = Inr tck" using split_parent(5) [OF X] by blast
      have "(\<exists>ck. map_of (n_children (node_at st p)) ck = Some b \<and> ck \<noteq> tck) \<longleftrightarrow> edge st p b \<and> b \<noteq> c"
      proof
        assume "\<exists>ck. map_of (n_children (node_at st p)) ck = Some b \<and> ck \<noteq> tck"
        then obtain ck where "map_of (n_children (node_at st p)) ck = Some b" "ck \<noteq> tck" by blast
        then show "edge st p b \<and> b \<noteq> c" using map_of_child [OF okp] tck by auto
      next
        assume h: "edge st p b \<and> b \<noteq> c"
        then obtain ck where ck: "map_of (n_children (node_at st p)) ck = Some b"
          using okp edge_map_of [of st p b] by (auto simp: children_ok_def)
        moreover have "map_of (n_children (node_at st p)) tck = Some c" using map_of_child [OF okp] x(6) tck by blast
        ultimately have "ck \<noteq> tck" using h by auto
        then show "\<exists>ck. map_of (n_children (node_at st p)) ck = Some b \<and> ck \<noteq> tck" using ck by blast
      qed
      then show "(\<exists>ck. if child_key (n_key (node_at st c)) ps = Inr ck then b = n else map_of (n_children (node_at st p)) ck = Some b) \<longleftrightarrow>
         b = n \<or> (edge st p b \<and> b \<noteq> c)"
        using tck by auto
    qed
    then show ?thesis using 2 x(5) f by (auto simp: ledge_def split_edge_def)
  next
    case 3
    then show ?thesis using split_kids [OF X 3] by (auto simp: ledge_def split_edge_def edge_def)
  qed
qed


lemma split_children_ok:
  assumes X: "split_ctx ps eagle st st' r n c p k L" and i: "i \<in> insert n L"
  shows "children_ok ps st' r (insert n L) i"
proof -
  note x = split_ctxD [OF X] and f = split_fresh [OF X]
  have ps: "0 < ps" by (rule tree_okD(1) [OF x(1)])
  have pk: "ps \<le> k" using x(7,9) by (simp add: dvd_imp_le)
  have old: "b \<in> insert n L \<and> b \<noteq> r \<and> n_parent (node_at st' b) = Some a \<and> child_key (n_key (node_at st' b)) ps = Inr ck"
    if "a \<in> L" "(ck, b) \<in> set (n_children (node_at st a))" "b \<noteq> c" for a b ck
  proof -
    have "b \<in> L \<and> b \<noteq> r \<and> n_parent (node_at st b) = Some a \<and> child_key (n_key (node_at st b)) ps = Inr ck"
      using tree_okD(8) [OF x(1) that(1)] that(2) by (auto simp: children_ok_def)
    moreover have "b \<noteq> n" using calculation f(1) by auto
    ultimately show ?thesis using split_keyval [OF X _ that(3)] by simp
  qed
  consider "i = n" | "i = p" | "i \<noteq> n" "i \<noteq> p" "i \<in> L" using i by blast
  then show ?thesis
  proof cases
    case 1
    then show ?thesis
      using split_new(5) [OF X] f x(4) split_child [OF X] by (auto simp: children_ok_def)
  next
    case 2
    have tck: "child_key (rk_take k (n_key (node_at st c))) ps = child_key (n_key (node_at st c)) ps"
      using child_key_inj [OF ps, of "rk_take k (n_key (node_at st c))" "n_key (node_at st c)"] pk x(8) f(7)
      by (simp add: node_ok_def)
    have "b \<in> insert n L \<and> b \<noteq> r \<and> n_parent (node_at st' b) = Some p \<and> child_key (n_key (node_at st' b)) ps = Inr ck"
      if "(ck, b) \<in> set (n_children (node_at st' p))" for ck b
    proof -
      have m: "map_of (n_children (node_at st' p)) ck = Some b"
        using that split_children_p(1) [OF X] by simp
      show ?thesis
      proof (cases "child_key (n_key (node_at st c)) ps = Inr ck")
        case True
        then have "b = n" using m split_children_p(2) [OF X] by simp
        then show ?thesis using True tck f split_new [OF X] by simp
      next
        case False
        then have mb: "map_of (n_children (node_at st p)) ck = Some b" using m split_children_p(2) [OF X] by simp
        then have "b \<noteq> c" using False map_of_child [OF tree_okD(8) [OF x(1,5)]] by auto
        then show ?thesis using old [OF x(5) map_of_SomeD [OF mb]] by simp
      qed
    qed
    then show ?thesis using 2 split_children_p(1) [OF X] by (auto simp: children_ok_def)
  next
    case 3
    have "b \<noteq> c" if "(ck, b) \<in> set (n_children (node_at st i))" for ck b
      using that tree_ok_edge(3) [OF x(1) 3(3), of b] tree_ok_edge(3) [OF x(1,5,6)] 3(2) by (force simp: edge_def)
    then show ?thesis
      using old [OF 3(3)] tree_okD(8) [OF x(1) 3(3)] split_kids [OF X 3(1,2)] by (auto simp: children_ok_def)
  qed
qed

lemma split_chain:
  assumes X: "split_ctx ps eagle st st' r n c p k L" and q: "q \<in> L"
  shows "chain (edge st) q is \<Longrightarrow> chain (edge st') q (ins n c is)"
    and "chain (edge st') q js \<Longrightarrow>
      \<exists>is. chain (edge st) q is \<and> (js = ins n c is \<or> js = ins n c is @ [n] \<and> last (q # is) = p)"
proof -
  note x = split_ctxD [OF X] and f = split_fresh [OF X]
  have c1: "chain (edge st) q is \<longleftrightarrow> chain (ledge st L) q is" if "q \<in> L" for "is" q
    using chain_ledge [of L ps st r q "is"] tree_okD(8) [OF x(1)] that by blast
  have c2: "chain (edge st') q is \<longleftrightarrow> chain (split_edge (ledge st L) p n c) q is" if "q \<in> insert n L" for "is" q
    using chain_ledge [of "insert n L" ps st' r q "is"] split_children_ok [OF X] that split_edges [OF X] by simp
  have u: "a = p" if "ledge st L a c" for a
    using that tree_ok_edge(3) [OF x(1) _ , of a c] tree_ok_edge(3) [OF x(1,5,6)] by (auto simp: ledge_def)
  have fr: "\<not> ledge st L n a" "\<not> ledge st L a n" for a
    using f(1) tree_ok_edge(1) [OF x(1), of a n] by (auto simp: ledge_def)
  have pc: "ledge st L p c" using x(5,6) by (simp add: ledge_def)
  have qn: "q \<noteq> n" "q \<in> insert n L" using q f(1) by auto
  show "chain (edge st') q (ins n c is)" if "chain (edge st) q is"
  proof -
    have "chain (ledge st L) q is" using that c1 [OF q] by blast
    then have "chain (split_edge (ledge st L) p n c) q (ins n c is)" by (rule chain_split1 [rotated]) (rule u)
    then show ?thesis using c2 [OF qn(2)] by blast
  qed
  show "\<exists>is. chain (edge st) q is \<and> (js = ins n c is \<or> js = ins n c is @ [n] \<and> last (q # is) = p)"
    if "chain (edge st') q js"
    unfolding c1 [OF q]
  proof (rule chain_split2)
    show "chain (split_edge (ledge st L) p n c) q js" using that c2 [OF qn(2)] by blast
  qed (fact fr pc f(2) u qn(1))+
qed

lemma split_paths:
  assumes X: "split_ctx ps eagle st st' r n c p k L" and i: "set is \<subseteq> L"
  shows "path_key st' (ins n c is) = path_key st is" "path_val st' (ins n c is) = path_val st is"
proof -
  have "path_key st' (ins n c is) = path_key st is \<and> path_val st' (ins n c is) = path_val st is"
    using i
  proof (induction "is")
    case (Cons j "is")
    have "j \<noteq> n" using Cons.prems split_fresh(1) [OF X] by auto
    then show ?case using Cons split_keyval [OF X, of j] split_parts [OF X] by (cases "j = c") simp_all
  qed simp
  then show "path_key st' (ins n c is) = path_key st is" "path_val st' (ins n c is) = path_val st is" by simp_all
qed


lemma split_tree_ok:
  assumes X: "split_ctx ps eagle st st' r n c p k L"
  shows "tree_ok ps eagle st' r (insert n L)"
proof -
  note x = split_ctxD [OF X] and f = split_fresh [OF X]
  have r: "n_parent (node_at st' r) = None" "rk_len (n_key (node_at st' r)) = 0" "n_value (node_at st' r) = Some []"
    using split_keyval [OF X, of r] f tree_okD(5-7) [OF x(1)] by auto
  have reach: "\<exists>is. chain (edge st') r is \<and> last (r # is) = i" if i: "i \<in> insert n L" for i
  proof (cases "i = n")
    case True
    obtain js where js: "chain (edge st) r js" "last (r # js) = p" using tree_okD(10) [OF x(1,5)] by blast
    have "chain (edge st') r (ins n c js)" by (rule split_chain(1) [OF X tree_okD(3) [OF x(1)] js(1)])
    moreover have "edge st' p n"
      using split_edges [OF X] x(5) by (auto simp: fun_eq_iff ledge_def split_edge_def)
    ultimately have "chain (edge st') r (ins n c js @ [n])"
      unfolding chain_append last_ins js(2) by simp
    then show ?thesis using True by (intro exI [of _ "ins n c js @ [n]"]) simp
  next
    case False
    then obtain js where js: "chain (edge st) r js" "last (r # js) = i" using tree_okD(10) [OF x(1), of i] i by blast
    have "chain (edge st') r (ins n c js)" by (rule split_chain(1) [OF X tree_okD(3) [OF x(1)] js(1)])
    then show ?thesis using js(2) last_ins by blast
  qed
  show ?thesis
    unfolding tree_ok_def
  proof (intro conjI ballI)
    show "insert n L \<subseteq> dom st'" using split_dom [OF X] x(1) by (auto simp: tree_ok_def)
  qed (use r reach tree_okD(1-3) [OF x(1)] split_children_ok [OF X] split_nodes_ok [OF X] in auto)
qed

lemma split_cached:
  assumes X: "split_ctx ps eagle st st' r n c p k L" and q: "q \<in> L"
  shows "cached ps st' q w v = cached ps st q w v"
proof
  note x = split_ctxD [OF X] and f = split_fresh [OF X]
  have sub: "set is \<subseteq> L" if "chain (edge st) q is" for "is"
    using tree_ok_chain [OF x(1) q that] by blast
  show "cached ps st q w v \<Longrightarrow> cached ps st' q w v"
  proof -
    assume "cached ps st q w v"
    then obtain "is" where i: "ps dvd length w" "chain (edge st) q is" "prefix w (path_key st is)"
      "v = take (length w) (path_val st is)" unfolding cached_def by blast
    show "cached ps st' q w v"
      unfolding cached_def
      using i split_chain(1) [OF X q i(2)] split_paths [OF X sub [OF i(2)]] by (intro conjI exI [of _ "ins n c is"]) simp_all
  qed
  assume "cached ps st' q w v"
  then obtain js where w: "ps dvd length w" and js: "chain (edge st') q js" "prefix w (path_key st' js)"
    "v = take (length w) (path_val st' js)" unfolding cached_def by blast
  obtain "is" where i: "chain (edge st) q is" and c: "js = ins n c is \<or> js = ins n c is @ [n] \<and> last (q # is) = p"
    using split_chain(2) [OF X q js(1)] by blast
  show "cached ps st q w v"
    using c
  proof
    assume "js = ins n c is"
    then show ?thesis using w i js split_paths [OF X sub [OF i]] unfolding cached_def by auto
  next
    assume h: "js = ins n c is @ [n] \<and> last (q # is) = p"
    have i': "chain (edge st) q (is @ [c])" unfolding chain_append using i h x(6) by simp
    have k: "path_key st (is @ [c]) = path_key st' js @ drop k (tk (n_key (node_at st c)))"
      "path_val st (is @ [c]) = path_val st' js @ drop k (the (n_value (node_at st c)))"
      using h split_paths [OF X sub [OF i]] split_parts [OF X] by simp_all
    have "length w \<le> length (path_val st' js)"
      using js(2) length_path [OF split_tree_ok [OF X] tree_ok_chain [OF split_tree_ok [OF X] _ js(1)]] q
      by (simp add: prefix_length_le)
    then have "v = take (length w) (path_val st (is @ [c]))" using js(3) k(2) by simp
    moreover have "prefix w (path_key st (is @ [c]))" unfolding k(1) using js(2) by (rule prefix_prefix)
    ultimately show ?thesis unfolding cached_def using w i' by blast
  qed
qed

lemma split_below:
  assumes X: "split_ctx ps eagle st st' r n c p k L" and h: "h \<in> L"
  shows "q \<in> L \<Longrightarrow> below st' q h = below st q h" "below st' n h = below st c h"
proof -
  note x = split_ctxD [OF X] and f = split_fresh [OF X]
  have hn: "h \<noteq> n" using f(1) h by auto
  show old: "below st' q h = below st q h" if q: "q \<in> L" for q
  proof
    assume "below st' q h"
    then obtain js where js: "chain (edge st') q js" "last (q # js) = h" by (auto simp: below_def)
    then obtain "is" where i: "chain (edge st) q is" "js = ins n c is \<or> js = ins n c is @ [n] \<and> last (q # is) = p"
      using split_chain(2) [OF X q] by blast
    from i(2) have "last (q # is) = h"
    proof
      assume "js = ins n c is"
      then show ?thesis using js(2) last_ins [of q n c "is"] by (simp only:)
    next
      assume "js = ins n c is @ [n] \<and> last (q # is) = p"
      then show ?thesis using js(2) hn by simp
    qed
    then show "below st q h" unfolding below_def using i(1) by blast
  next
    assume "below st q h"
    then obtain "is" where i: "chain (edge st) q is" "last (q # is) = h" by (auto simp: below_def)
    have "last (q # ins n c is) = h" unfolding last_ins by (rule i(2))
    then show "below st' q h" unfolding below_def using split_chain(1) [OF X q i(1)] by blast
  qed
  have e: "edge st' n i \<longleftrightarrow> i = c" for i
    using split_new(5) [OF X] by (auto simp: edge_def)
  have "below st' n h \<longleftrightarrow> below st' c h"
  proof
    assume "below st' n h"
    then obtain js where js: "chain (edge st') n js" "last (n # js) = h" by (auto simp: below_def)
    then show "below st' c h" using hn e by (cases js) (auto simp: below_def)
  next
    assume "below st' c h"
    then obtain js where "chain (edge st') c js" "last (c # js) = h" by (auto simp: below_def)
    then show "below st' n h" unfolding below_def using e by (intro exI [of _ "c # js"]) auto
  qed
  then show "below st' n h = below st c h" using old [OF x(4)] by simp
qed

lemma split_lock_live:
  assumes X: "split_ctx ps eagle st st' r n c p k L" and i: "i \<in> L"
  shows "n_lock_ref (node_at st' i) = n_lock_ref (node_at st i)"
proof -
  have "i \<noteq> n" using i split_fresh(1) [OF X] by auto
  then show ?thesis by (rule split_lock [OF X])
qed

lemma split_hash_total: "0 < ps \<Longrightarrow> \<exists>a b. split_node_hash_value hs k ps = Inr (a, b)"
  by (cases hs) (simp_all add: split_node_hash_value_def Let_def)

lemma split_tokens:
  assumes X: "split_ctx ps eagle st st' r n c p k L"
  shows "tokens st' {i \<in> insert n L - {r}. Q (n_lock_ref (node_at st' i))} =
     tokens st {i \<in> L - {r}. Q (n_lock_ref (node_at st i))}"
proof -
  note x = split_ctxD [OF X] and f = split_fresh [OF X]
  define A where "A = {i \<in> L - {r}. Q (n_lock_ref (node_at st i))}"
  have fin: "finite A" and nA: "n \<notin> A" using tree_okD(2) [OF x(1)] f(1) by (auto simp: A_def)
  have len: "rk_len (n_key (node_at st' i)) = rk_len (n_key (node_at st i))" if "i \<in> A - {c}" for i
  proof -
    have "i \<noteq> n" "i \<noteq> c" using that nA by auto
    then show ?thesis using split_keyval(1) [OF X] by simp
  qed
  have A': "{i \<in> insert n L - {r}. Q (n_lock_ref (node_at st' i))} = (if c \<in> A then insert n A else A)"
    using split_lock_live [OF X] split_new(3) [OF X] f x(4) by (auto simp: A_def)
  show ?thesis
    unfolding A' A_def [symmetric]
  proof (cases "c \<in> A")
    case True
    have "tokens st' (insert n A) = int k + (int (rk_len (n_key (node_at st c))) - int k) + tokens st' (A - {c})"
      using True fin nA split_new(1) [OF X] split_child(1) [OF X] x(8)
      by (simp add: tokens_def sum.remove [of A c])
    also have "\<dots> = tokens st A"
      using True fin len by (simp add: tokens_def sum.remove [of A c])
    finally show "tokens st' (if c \<in> A then insert n A else A) = tokens st A" using True by simp
  next
    case False
    then show "tokens st' (if c \<in> A then insert n A else A) = tokens st A"
      using len by (simp add: tokens_def)
  qed
qed

lemma split_leaf_set:
  assumes X: "split_ctx ps eagle st st' r n c p k L"
  shows "leaf_set st' r (insert n L) = leaf_set st r L"
proof -
  note x = split_ctxD [OF X] and f = split_fresh [OF X]
  have p: "n_children (node_at st p) \<noteq> []" using x(6) by (auto simp: edge_def)
  have p': "n_children (node_at st' p) \<noteq> []"
    using split_parent(5) [OF X] p by (metis list.map_disc_iff update_nonempty)
  have n: "n_children (node_at st' n) \<noteq> []" using split_new(5) [OF X] by auto
  have "n_children (node_at st' i) = [] \<longleftrightarrow> n_children (node_at st i) = []" if "i \<in> L" for i
  proof -
    have "i \<noteq> n" using that f(1) by auto
    then show ?thesis using p p' split_kids [OF X, of i] by (cases "i = p") simp_all
  qed
  then show ?thesis using n split_lock_live [OF X] f(1) by (auto simp: leaf_set_def unlocked_def)
qed

lemma split_locks_ok:
  assumes X: "split_ctx ps eagle st st' r n c p k L" and h: "locks_ok st r L H"
  shows "locks_ok st' r (insert n L) H"
proof -
  note x = split_ctxD [OF X] and f = split_fresh [OF X]
  have H: "set H \<subseteq> L" using h by (simp add: locks_ok_def)
  have flt: "filter (below st' i) H = filter (below st (if i = n then c else i)) H" if "i \<in> insert n L" for i
    using that H split_below [OF X] f(1) by (intro filter_cong) auto
  have "n_lock_ref (node_at st' i) = int (length (filter (below st' i) H))" if i: "i \<in> insert n L - {r}" for i
  proof -
    let ?j = "if i = n then c else i"
    have "?j \<in> L - {r}" using i x(4) f by auto
    then have "n_lock_ref (node_at st ?j) = int (length (filter (below st ?j) H))"
      using h unfolding locks_ok_def by blast
    moreover have "n_lock_ref (node_at st' i) = n_lock_ref (node_at st ?j)"
      using split_lock [OF X] split_new(3) [OF X] by simp
    ultimately show ?thesis using flt i by auto
  qed
  then show ?thesis using h split_lock [OF X, of r] f(4) by (auto simp: locks_ok_def)
qed

lemma split_wf:
  assumes w: "cache_wf L H s" and X: "split_ctx (rc_page_size s) (rc_eagle s) (rc_store s) st' (rc_root s) (rc_counter s) c p k L"
  shows "cache_wf (insert (rc_counter s) L) H (s\<lparr>rc_store := st', rc_counter := rc_counter s + 1, rc_ticks := t\<rparr>)"
  using w split_tree_ok [OF X] split_locks_ok [OF X] split_leaf_set [OF X] split_dom [OF X]
    split_tokens [OF X, of "\<lambda>x. x = 0"] split_tokens [OF X, of "\<lambda>x. x \<noteq> 0"]
  by (auto simp: cache_wf_def unlocked_def locked_def less_Suc_eq)


text \<open>\<open>split_node\<close> always succeeds inside a node and has the effect described by \<open>split_store\<close>.\<close>

lemma split_node_eq:
  assumes w: "cache_wf L H s" and c: "c \<in> L" "c \<noteq> rc_root s"
    and k: "0 < k" "k < rk_len (n_key (nd s c))" "rc_page_size s dvd k"
  shows "\<exists>st' p. split_node (n_key (nd s c)) c k s =
      Inr (rc_counter s, s\<lparr>rc_store := st', rc_counter := rc_counter s + 1, rc_ticks := rc_ticks s + 2\<rparr>) \<and>
    split_ctx (rc_page_size s) (rc_eagle s) (rc_store s) st' (rc_root s) (rc_counter s) c p k L"
proof -
  let ?ps = "rc_page_size s" and ?st = "rc_store s" and ?n = "rc_counter s" and ?key = "n_key (nd s c)"
  note t = wfD(1) [OF w]
  have ps: "0 < ?ps" by (rule tree_okD(1) [OF t])
  have nc: "node_ok ?ps (rc_eagle s) (nd s c)" by (rule tree_okD(9) [OF t c])
  obtain p where p: "p \<in> L" "edge ?st p c" "n_parent (nd s c) = Some p" by (rule tree_ok_parent [OF t c])
  obtain v where v: "n_value (nd s c) = Some v" "length v = rk_len ?key" using nc by (auto simp: node_ok_def)
  have "?ps \<le> k" using k(1,3) by (simp add: dvd_imp_le)
  moreover have "?ps dvd rk_len ?key - k" using nc k(3) by (simp add: node_ok_def dvd_diff_nat)
  then have "?ps \<le> rk_len ?key - k" using k(2) by (simp add: dvd_imp_le)
  ultimately obtain rest this where ck: "child_key (rk_drop k ?key) ?ps = Inr rest" "child_key ?key ?ps = Inr this"
    using child_key_eq [OF ps, of "rk_drop k ?key"] child_key_eq [OF ps, of ?key] k(2) by force
  obtain h1 h2 where h: "split_node_hash_value (n_hash (nd s c)) k ?ps = Inr (h1, h2)"
    using split_hash_total [OF ps] by blast
  obtain e1 e2 where e: "split_node_hash_value (n_event_hash (nd s c)) k ?ps = Inr (e1, e2)"
    using split_hash_total [OF ps] by blast
  have dn: "?n \<notin> dom ?st" by (rule wf_fresh [OF w])
  have dom: "c \<in> dom ?st" "p \<in> dom ?st" using tree_okD(4) [OF t] c(1) p(1) by blast+
  have ne: "?n \<noteq> c" "?n \<noteq> p" "c \<noteq> p" using dn dom tree_ok_edge_neq [OF t p(1,2)] by auto
  let ?st1 = "?st(?n \<mapsto> TreeNode (rc_clock s (rc_ticks s)) (rc_clock s (rc_ticks s + 1)) (n_priority (nd s c)))"
  let ?st2 = "upd ?n (\<lambda>n. n\<lparr>n_hit_count := n_hit_count (nd s c), n_children := [(rest, c)], n_parent := Some p,
      n_lock_ref := n_lock_ref (nd s c), n_key := rk_take k ?key, n_value := Some (take k v), n_hash := h1, n_event_hash := e1\<rparr>) ?st1"
  let ?st3 = "upd c (\<lambda>n. n\<lparr>n_parent := Some ?n, n_key := rk_drop k ?key, n_value := Some (drop k v), n_hash := h2,
      n_event_hash := e2\<rparr>) ?st2"
  let ?st' = "upd p (\<lambda>n. n\<lparr>n_children := AList.update this ?n (n_children n)\<rparr>) ?st3"
  have "split_node ?key c k s = Inr (?n, s\<lparr>rc_store := ?st', rc_counter := ?n + 1, rc_ticks := rc_ticks s + 2\<rparr>)"
    by (simp add: split_node_def new_tree_node_def set_node_def ck h e v(1) p(3) value_of_def Let_def rbind_Inr)
  moreover have "split_store ?ps ?st ?st' ?n c p k"
    using ne dom dn ck v(1) by (auto simp: split_store_def upd_apply dom_def)
  then have "split_ctx ?ps (rc_eagle s) ?st ?st' (rc_root s) ?n c p k L"
    unfolding split_ctx_def using t dn c(1) p k by blast
  ultimately show ?thesis by blast
qed

end
