(* ===== verification/KV_Pool.thy ===== *)
theory KV_Pool
  imports KV_Allocator
begin

text \<open>
  Correctness of the KV slot allocators. The locale \<open>slot_pool\<close> is the contract the radix cache and
  the scheduler rely on (what allocating, freeing and free groups do to the sets of available and
  pending slots); it is interpreted on the token and on the paged allocator, and its client lemma
  accounts for every slot along any sequence of operations. The rest shows that an allocation
  fails only for lack of pages, that extend and decode batches get slots at the right page offsets,
  and that the strided \<open>free_segment\<close> frees what the general \<open>free\<close> frees.
\<close>


section \<open>The contract of a slot pool\<close>

datatype pool_op = OpAlloc nat | OpFree "int list" | OpGroupBegin | OpGroupEnd

text \<open>
  A client of a pool: it keeps the slots it was given, and frees only whole granules of slots it
  holds (\<open>closed\<close>); a client that breaks this stops the run.
\<close>

fun pool_step ::
  "(nat \<Rightarrow> 's \<Rightarrow> (int list option \<times> 's) result) \<Rightarrow> (int list \<Rightarrow> 's \<Rightarrow> 's result) \<Rightarrow>
   ('s \<Rightarrow> 's result) \<Rightarrow> ('s \<Rightarrow> 's result) \<Rightarrow> ('s \<Rightarrow> int list \<Rightarrow> bool) \<Rightarrow>
   pool_op \<Rightarrow> 's \<times> int list \<Rightarrow> ('s \<times> int list) result" where
  "pool_step alloc free gb ge closed (OpAlloc n) (s, owned) =
     rbind (alloc n s) (\<lambda>(r, s'). Inr (s', case r of None \<Rightarrow> owned | Some xs \<Rightarrow> owned @ xs))"
| "pool_step alloc free gb ge closed (OpFree xs) (s, owned) =
     (if distinct xs \<and> set xs \<subseteq> set owned \<and> closed s xs
      then rbind (free xs s) (\<lambda>s'. Inr (s', filter (\<lambda>x. x \<notin> set xs) owned))
      else Inl (ValueError ''client''))"
| "pool_step alloc free gb ge closed OpGroupBegin (s, owned) = rbind (gb s) (\<lambda>s'. Inr (s', owned))"
| "pool_step alloc free gb ge closed OpGroupEnd (s, owned) = rbind (ge s) (\<lambda>s'. Inr (s', owned))"

definition partitioned :: "int set \<Rightarrow> int set \<Rightarrow> int set \<Rightarrow> int list \<Rightarrow> bool" where
  "partitioned universe avail pending owned \<longleftrightarrow>
     distinct owned \<and> avail \<inter> pending = {} \<and> set owned \<inter> (avail \<union> pending) = {} \<and>
     set owned \<union> (avail \<union> pending) = universe"

locale slot_pool =
  fixes inv :: "'s \<Rightarrow> bool"
    and avail pending universe :: "'s \<Rightarrow> int set"
    and alloc :: "nat \<Rightarrow> 's \<Rightarrow> (int list option \<times> 's) result"
    and free :: "int list \<Rightarrow> 's \<Rightarrow> 's result"
    and group_begin group_end :: "'s \<Rightarrow> 's result"
    and closed :: "'s \<Rightarrow> int list \<Rightarrow> bool"
  assumes avail_pending: "inv s \<Longrightarrow> avail s \<inter> pending s = {}"
    and alloc_some: "inv s \<Longrightarrow> alloc n s = Inr (Some xs, s') \<Longrightarrow>
      inv s' \<and> distinct xs \<and> set xs \<subseteq> avail s \<and> avail s' = avail s - set xs \<and>
      pending s' = pending s \<and> universe s' = universe s"
    and alloc_none: "inv s \<Longrightarrow> alloc n s = Inr (None, s') \<Longrightarrow>
      inv s' \<and> avail s' = avail s \<and> pending s' = pending s \<and> universe s' = universe s"
    and free_closed: "inv s \<Longrightarrow> closed s xs \<Longrightarrow> distinct xs \<Longrightarrow> set xs \<subseteq> universe s \<Longrightarrow>
      set xs \<inter> (avail s \<union> pending s) = {} \<Longrightarrow> free xs s = Inr s' \<Longrightarrow>
      inv s' \<and> avail s' \<union> pending s' = avail s \<union> pending s \<union> set xs \<and> universe s' = universe s"
    and begin_keeps: "inv s \<Longrightarrow> group_begin s = Inr s' \<Longrightarrow>
      inv s' \<and> avail s' \<union> pending s' = avail s \<union> pending s \<and> universe s' = universe s"
    and end_keeps: "inv s \<Longrightarrow> group_end s = Inr s' \<Longrightarrow>
      inv s' \<and> avail s' \<union> pending s' = avail s \<union> pending s \<and> universe s' = universe s"
begin

abbreviation "step \<equiv> pool_step alloc free group_begin group_end closed"

definition accounted :: "'s \<times> int list \<Rightarrow> bool" where
  "accounted c \<longleftrightarrow> inv (fst c) \<and> partitioned (universe (fst c)) (avail (fst c)) (pending (fst c)) (snd c)"

lemma accounted_step:
  assumes "accounted (s, owned)" and "step oper (s, owned) = Inr c'"
  shows "accounted c' \<and> universe (fst c') = universe s"
proof (cases oper)
  case (OpAlloc n)
  obtain r s' where r: "alloc n s = Inr (r, s')" "c' = (s', case r of None \<Rightarrow> owned | Some xs \<Rightarrow> owned @ xs)"
    using assms(2) OpAlloc by (auto simp: rbind_eq_Inr)
  show ?thesis
  proof (cases r)
    case None
    then show ?thesis using assms(1) r alloc_none [of s n s'] by (simp add: accounted_def)
  next
    case (Some xs)
    then show ?thesis
      using assms(1) r alloc_some [of s n xs s'] by (auto simp: accounted_def partitioned_def)
  qed
next
  case (OpFree xs)
  obtain s' where f: "free xs s = Inr s'" "c' = (s', filter (\<lambda>x. x \<notin> set xs) owned)"
    and c: "distinct xs" "set xs \<subseteq> set owned" "closed s xs"
    using assms(2) OpFree by (auto simp: rbind_eq_Inr split: if_splits)
  have i: "inv s" and p: "partitioned (universe s) (avail s) (pending s) owned"
    using assms(1) by (simp_all add: accounted_def)
  have "inv s' \<and> avail s' \<union> pending s' = avail s \<union> pending s \<union> set xs \<and> universe s' = universe s"
    using p c by (intro free_closed [OF i c(3,1) _ _ f(1)]) (auto simp: partitioned_def)
  then show ?thesis
    using p c f(2) avail_pending [of s'] by (auto simp: accounted_def partitioned_def)
next
  case OpGroupBegin
  then obtain s' where "group_begin s = Inr s'" "c' = (s', owned)"
    using assms(2) by (auto simp: rbind_eq_Inr)
  then show ?thesis
    using assms(1) begin_keeps [of s s'] avail_pending [of s'] by (simp add: accounted_def partitioned_def)
next
  case OpGroupEnd
  then obtain s' where "group_end s = Inr s'" "c' = (s', owned)"
    using assms(2) by (auto simp: rbind_eq_Inr)
  then show ?thesis
    using assms(1) end_keeps [of s s'] avail_pending [of s'] by (simp add: accounted_def partitioned_def)
qed

lemma accounted_run:
  assumes "rfold step ops c = Inr c'" and "accounted c"
  shows "accounted c' \<and> universe (fst c') = universe (fst c)"
  using assms
proof (induction ops arbitrary: c)
  case (Cons oper ops)
  then obtain c1 where c1: "step oper c = Inr c1" "rfold step ops c1 = Inr c'"
    by (auto simp: rbind_eq_Inr)
  moreover have "accounted c1 \<and> universe (fst c1) = universe (fst c)"
    using accounted_step [of "fst c" "snd c" oper c1] Cons.prems(2) c1(1) by simp
  ultimately show ?case using Cons.IH [of c1] by simp
qed simp

end

section \<open>The token allocator is a slot pool\<close>

lemma distinct_take_drop:
  "distinct (xs @ ys) \<Longrightarrow>
   distinct (take n xs) \<and> distinct (drop n xs @ ys) \<and> set (take n xs) \<inter> set (drop n xs @ ys) = {}"
  by (metis append_assoc append_take_drop_id distinct_append)

definition tok_avail :: "token_alloc \<Rightarrow> int set" where
  "tok_avail a = set (al_free_pages a @ al_release_pages a)"

definition group_slots :: "int list list option \<Rightarrow> int list" where
  "group_slots g = (case g of None \<Rightarrow> [] | Some xss \<Rightarrow> concat xss)"

lemma group_slots_simps [simp]: "group_slots None = []" "group_slots (Some xss) = concat xss"
  by (simp_all add: group_slots_def)

definition tok_pending :: "token_alloc \<Rightarrow> int set" where
  "tok_pending a = set (group_slots (al_free_group a))"

definition tok_inv :: "token_alloc \<Rightarrow> bool" where
  "tok_inv a \<longleftrightarrow> al_page_size a = 1 \<and>
     distinct (al_free_pages a @ al_release_pages a @ group_slots (al_free_group a)) \<and>
     (al_need_sort a \<or> al_release_pages a = [])"

definition tok_universe :: "token_alloc \<Rightarrow> int set" where
  "tok_universe a = {1..int (al_size a)}"

lemma tok_merge [simp]:
  "al_size (tok_merge_and_sort_free a) = al_size a"
  "al_free_group (tok_merge_and_sort_free a) = al_free_group a"
  "tok_avail (tok_merge_and_sort_free a) = tok_avail a"
  "tok_inv a \<Longrightarrow> tok_inv (tok_merge_and_sort_free a)"
  by (auto simp: tok_merge_and_sort_free_def tok_avail_def tok_inv_def)

definition tok_prepare :: "nat \<Rightarrow> token_alloc \<Rightarrow> token_alloc" where
  "tok_prepare n a = (if al_need_sort a \<and> n > length (al_free_pages a) then tok_merge_and_sort_free a else a)"

lemma tok_prepare_simps [simp]:
  "al_size (tok_prepare n a) = al_size a" "al_free_group (tok_prepare n a) = al_free_group a"
  "tok_avail (tok_prepare n a) = tok_avail a" "tok_inv a \<Longrightarrow> tok_inv (tok_prepare n a)"
  by (simp_all add: tok_prepare_def)

lemma tok_alloc_unfold:
  "tok_alloc n a = (let b = tok_prepare n a in
     if n > length (al_free_pages b) then (None, b)
     else (Some (take n (al_free_pages b)), b\<lparr>al_free_pages := drop n (al_free_pages b)\<rparr>))"
  by (simp add: tok_alloc_def tok_prepare_def)

lemma tok_take:
  assumes "tok_inv a"
  shows "tok_inv (a\<lparr>al_free_pages := drop n (al_free_pages a)\<rparr>)"
    and "distinct (take n (al_free_pages a))" and "set (take n (al_free_pages a)) \<subseteq> tok_avail a"
    and "tok_avail (a\<lparr>al_free_pages := drop n (al_free_pages a)\<rparr>) = tok_avail a - set (take n (al_free_pages a))"
proof -
  let ?f = "al_free_pages a" and ?r = "al_release_pages a @ group_slots (al_free_group a)"
  have d: "distinct (take n ?f) \<and> distinct (drop n ?f @ ?r) \<and> set (take n ?f) \<inter> set (drop n ?f @ ?r) = {}"
    using assms by (intro distinct_take_drop) (simp add: tok_inv_def)
  then show "distinct (take n ?f)" by simp
  show "tok_inv (a\<lparr>al_free_pages := drop n ?f\<rparr>)" using d assms by (simp add: tok_inv_def)
  show "set (take n ?f) \<subseteq> tok_avail a" by (auto simp: tok_avail_def dest: in_set_takeD)
  have "set ?f = set (take n ?f) \<union> set (drop n ?f)" by (metis append_take_drop_id set_append)
  then show "tok_avail (a\<lparr>al_free_pages := drop n ?f\<rparr>) = tok_avail a - set (take n ?f)"
    using d by (auto simp: tok_avail_def)
qed

lemma tok_free_none:
  assumes "tok_inv a" "al_free_group a = None" "distinct xs" "set xs \<inter> tok_avail a = {}"
  shows "tok_inv (tok_free xs a)" "tok_avail (tok_free xs a) = tok_avail a \<union> set xs"
    "al_free_group (tok_free xs a) = None" "al_size (tok_free xs a) = al_size a"
  using assms by (auto simp: tok_free_def tok_inv_def tok_avail_def)

lemma tok_free_some:
  assumes "tok_inv a" "al_free_group a = Some g" "distinct xs" "set xs \<inter> (tok_avail a \<union> tok_pending a) = {}"
  shows "tok_inv (tok_free xs a)" "tok_avail (tok_free xs a) = tok_avail a"
    "tok_pending (tok_free xs a) = tok_pending a \<union> set xs" "al_size (tok_free xs a) = al_size a"
  using assms by (auto simp: tok_free_def tok_inv_def tok_avail_def tok_pending_def)

lemma tok_free_keeps:
  assumes "tok_inv a" "distinct xs" "set xs \<inter> (tok_avail a \<union> tok_pending a) = {}"
  shows "tok_inv (tok_free xs a) \<and> tok_avail (tok_free xs a) \<union> tok_pending (tok_free xs a) =
      tok_avail a \<union> tok_pending a \<union> set xs \<and> tok_universe (tok_free xs a) = tok_universe a"
proof (cases "al_free_group a")
  case None
  have "set xs \<inter> tok_avail a = {}" using assms(3) by blast
  then show ?thesis
    using tok_free_none [OF assms(1) None assms(2)] None by (simp add: tok_pending_def tok_universe_def)
next
  case (Some g)
  show ?thesis
    using tok_free_some [OF assms(1) Some assms(2,3)] by (simp add: tok_universe_def Un_assoc)
qed

lemma tok_free_group_end_keeps:
  assumes "tok_inv a"
  shows "tok_inv (tok_free_group_end a)" "tok_avail (tok_free_group_end a) = tok_avail a \<union> tok_pending a"
    "tok_pending (tok_free_group_end a) = {}" "al_size (tok_free_group_end a) = al_size a"
proof -
  let ?a = "a\<lparr>al_free_group := None\<rparr>"
  have a: "tok_inv ?a" "tok_avail ?a = tok_avail a" using assms by (auto simp: tok_inv_def tok_avail_def)
  have d: "distinct (group_slots (al_free_group a))" "set (group_slots (al_free_group a)) \<inter> tok_avail ?a = {}"
    using assms by (auto simp: tok_inv_def tok_avail_def)
  note f = tok_free_none [OF a(1) _ d, simplified]
  have e: "tok_free_group_end a = tok_free (group_slots (al_free_group a)) ?a"
    by (cases "al_free_group a") (auto simp: tok_free_group_end_def tok_free_def Let_def)
  show "tok_inv (tok_free_group_end a)" "tok_avail (tok_free_group_end a) = tok_avail a \<union> tok_pending a"
    "tok_pending (tok_free_group_end a) = {}" "al_size (tok_free_group_end a) = al_size a"
    using f a by (simp_all add: e tok_pending_def)
qed

interpretation tokp: slot_pool tok_inv tok_avail tok_pending tok_universe
  "\<lambda>n a. Inr (tok_alloc n a)" "\<lambda>xs a. Inr (tok_free xs a)" tok_free_group_begin
  "\<lambda>a. Inr (tok_free_group_end a)" "\<lambda>a xs. True"
proof (unfold_locales, goal_cases)
  case (1 s)
  then show ?case by (auto simp: tok_inv_def tok_avail_def tok_pending_def)
next
  case (2 s n xs s')
  then show ?case
    using tok_take [of "tok_prepare n s" n]
    by (simp add: tok_alloc_unfold Let_def tok_pending_def tok_universe_def split: if_splits) force
next
  case (3 s n s')
  then show ?case
    by (auto simp: tok_alloc_unfold Let_def tok_pending_def tok_universe_def split: if_splits)
next
  case (4 s xs s')
  then show ?case
    using tok_free_keeps [of s xs] by simp
next
  case (5 s s')
  then show ?case
    by (auto simp: tok_free_group_begin_def rbind_eq_Inr tok_inv_def tok_avail_def tok_pending_def tok_universe_def)
next
  case (6 s s')
  then show ?case
    using tok_free_group_end_keeps [of s] by (simp add: tok_universe_def)
qed


section \<open>The paged allocator is a slot pool\<close>

text \<open>The slots of a set of pages.\<close>

definition slots_of :: "nat \<Rightarrow> int set \<Rightarrow> int set" where
  "slots_of ps P = {x. x div int ps \<in> P}"

lemma slots_of_Un: "slots_of ps (P \<union> Q) = slots_of ps P \<union> slots_of ps Q"
  by (auto simp: slots_of_def)

lemma set_page_slots [simp]: "0 < ps \<Longrightarrow> set (page_slots ps pages) = slots_of ps (set pages)"
proof (intro set_eqI iffI)
  fix x assume ps: "0 < ps"
  show "x \<in> slots_of ps (set pages)" if "x \<in> set (page_slots ps pages)"
    using that ps by (auto simp: page_slots_def slots_of_def)
  assume x: "x \<in> slots_of ps (set pages)"
  have m: "0 \<le> x mod int ps" "x mod int ps < int ps" using ps by simp_all
  then have "x = x div int ps * int ps + int (nat (x mod int ps))" by simp
  moreover have "nat (x mod int ps) \<in> set [0..<ps]" using m by simp
  ultimately have "x \<in> set (map (\<lambda>i. x div int ps * int ps + int i) [0..<ps])" unfolding set_map by (rule image_eqI)
  then show "x \<in> set (page_slots ps pages)"
    using x unfolding page_slots_def slots_of_def by auto
qed

lemma distinct_page_slots: "distinct pages \<Longrightarrow> distinct (page_slots ps pages)"
proof (cases "ps = 0")
  case False
  assume "distinct pages"
  then show ?thesis
  proof (induction pages)
    case (Cons pg pages)
    have "set (page_slots ps [pg]) \<inter> set (page_slots ps pages) = {}"
      using Cons.prems False by (auto simp: slots_of_def)
    moreover have "distinct (page_slots ps [pg])" by (simp add: page_slots_def distinct_map inj_on_def)
    moreover have "page_slots ps (pg # pages) = page_slots ps [pg] @ page_slots ps pages" by (simp add: page_slots_def)
    ultimately show ?case using Cons by simp
  qed (simp add: page_slots_def)
qed (induction pages; simp add: page_slots_def)

lemma length_page_slots [simp]: "length (page_slots ps pages) = length pages * ps"
  by (induction pages) (simp_all add: page_slots_def)

text \<open>The client of a paged pool frees whole pages.\<close>

definition page_closed :: "nat \<Rightarrow> int list \<Rightarrow> bool" where
  "page_closed ps xs \<longleftrightarrow> list_all (\<lambda>x. set (page_slots ps [x div int ps]) \<subseteq> set xs) xs"

lemma page_closed_iff: "0 < ps \<Longrightarrow> page_closed ps xs \<longleftrightarrow> set xs = slots_of ps ((\<lambda>x. x div int ps) ` set xs)"
  by (fastforce simp: page_closed_def list_all_iff slots_of_def)

lemma page_closed_append: "page_closed ps xs \<Longrightarrow> page_closed ps ys \<Longrightarrow> page_closed ps (xs @ ys)"
  by (auto simp: page_closed_def list_all_iff)

definition pag_core :: "paged_alloc \<Rightarrow> int list \<Rightarrow> bool" where
  "pag_core a held \<longleftrightarrow> 0 < al_page_size a \<and> distinct (pag_get_all_free_pages a @ held) \<and>
     al_num_staged_pages a = length (concat (al_staged_pages a))"

definition pag_inv :: "paged_alloc \<Rightarrow> bool" where
  "pag_inv a \<longleftrightarrow> pag_core a (concat (al_free_page_ids_group a)) \<and>
     page_closed (al_page_size a) (group_slots (al_free_group a)) \<and>
     (\<lambda>x. x div int (al_page_size a)) ` set (group_slots (al_free_group a)) \<inter>
       set (pag_get_all_free_pages a @ concat (al_free_page_ids_group a)) = {} \<and>
     (al_free_group a = None \<longrightarrow> al_free_page_ids_group a = [])"

definition pag_avail :: "paged_alloc \<Rightarrow> int set" where
  "pag_avail a = slots_of (al_page_size a) (set (pag_get_all_free_pages a))"

definition pag_pending :: "paged_alloc \<Rightarrow> int set" where
  "pag_pending a = set (group_slots (al_free_group a)) \<union>
     slots_of (al_page_size a) (set (concat (al_free_page_ids_group a)))"

definition pag_universe :: "paged_alloc \<Rightarrow> int set" where
  "pag_universe a = slots_of (al_page_size a) {1..int (al_num_pages a)}"

lemma pag_group_fields [simp]:
  "pag_core (a\<lparr>al_free_group := g\<rparr>) held = pag_core a held"
  "pag_core (a\<lparr>al_free_page_ids_group := ids\<rparr>) held = pag_core a held"
  "pag_get_all_free_pages (a\<lparr>al_free_group := g\<rparr>) = pag_get_all_free_pages a"
  "pag_get_all_free_pages (a\<lparr>al_free_page_ids_group := ids\<rparr>) = pag_get_all_free_pages a"
  by (simp_all add: pag_core_def pag_get_all_free_pages_def)

lemma pag_check_eq: "pag_check a = Inr a' \<Longrightarrow> a' = a"
  by (auto simp: pag_check_def rbind_eq_Inr split: if_splits)

lemma pag_merge [simp]:
  "al_page_size (pag_merge_and_sort_free a) = al_page_size a"
  "al_num_pages (pag_merge_and_sort_free a) = al_num_pages a"
  "al_debug_mode (pag_merge_and_sort_free a) = al_debug_mode a"
  "al_free_group (pag_merge_and_sort_free a) = al_free_group a"
  "al_free_page_ids_group (pag_merge_and_sort_free a) = al_free_page_ids_group a"
  "set (pag_get_all_free_pages (pag_merge_and_sort_free a)) = set (pag_get_all_free_pages a)"
  "pag_core a held \<Longrightarrow> pag_core (pag_merge_and_sort_free a) held"
  by (auto simp: pag_merge_and_sort_free_def pag_get_all_free_pages_def pag_core_def)

lemma pag_merge_inv [simp]: "pag_inv a \<Longrightarrow> pag_inv (pag_merge_and_sort_free a)"
  by (simp add: pag_inv_def)

lemma pag_release:
  assumes "pag_core a (P @ held)"
  shows "pag_core (pag_release_page_ids P a) held"
    and "set (pag_get_all_free_pages (pag_release_page_ids P a)) = set P \<union> set (pag_get_all_free_pages a)"
  using assms
  by (auto simp: pag_release_page_ids_def pag_core_def pag_get_all_free_pages_def)

lemma pag_release_fields [simp]:
  "al_page_size (pag_release_page_ids P a) = al_page_size a"
  "al_num_pages (pag_release_page_ids P a) = al_num_pages a"
  "al_debug_mode (pag_release_page_ids P a) = al_debug_mode a"
  "al_free_group (pag_release_page_ids P a) = al_free_group a"
  "al_free_page_ids_group (pag_release_page_ids P a) = al_free_page_ids_group a"
  by (simp_all add: pag_release_page_ids_def)

definition pag_prepare :: "nat \<Rightarrow> paged_alloc \<Rightarrow> paged_alloc" where
  "pag_prepare n a = (if n > length (al_free_pages a) then pag_merge_and_sort_free a else a)"

lemma pag_prepare_simps [simp]:
  "al_page_size (pag_prepare n a) = al_page_size a" "al_num_pages (pag_prepare n a) = al_num_pages a"
  "al_debug_mode (pag_prepare n a) = al_debug_mode a"
  "al_free_group (pag_prepare n a) = al_free_group a"
  "al_free_page_ids_group (pag_prepare n a) = al_free_page_ids_group a"
  "set (pag_get_all_free_pages (pag_prepare n a)) = set (pag_get_all_free_pages a)"
  "pag_inv a \<Longrightarrow> pag_inv (pag_prepare n a)"
  "pag_core a held \<Longrightarrow> pag_core (pag_prepare n a) held"
  by (simp_all add: pag_prepare_def)

lemma pag_alloc_unfold:
  "pag_alloc n a =
     (if al_debug_mode a \<and> n mod al_page_size a \<noteq> 0
      then Inl (AssertionError ''The allocation size should be page-aligned'')
      else let k = n div al_page_size a; b = pag_prepare k a in
        if k > length (al_free_pages b) then Inr (None, b)
        else Inr (Some (page_slots (al_page_size a) (take k (al_free_pages b))),
                  b\<lparr>al_free_pages := drop k (al_free_pages b)\<rparr>))"
  by (auto simp: pag_alloc_def pag_prepare_def py_assert_def Let_def)

lemma pag_take:
  fixes k :: nat
  assumes "pag_inv a"
  defines "b \<equiv> a\<lparr>al_free_pages := drop k (al_free_pages a)\<rparr>"
  shows "pag_inv b" and "distinct (take k (al_free_pages a))"
    and "set (take k (al_free_pages a)) \<subseteq> set (pag_get_all_free_pages a)"
    and "set (pag_get_all_free_pages b) = set (pag_get_all_free_pages a) - set (take k (al_free_pages a))"
proof -
  let ?f = "al_free_pages a" and ?r = "concat (al_staged_pages a) @ concat (al_free_page_ids_group a)"
  have d: "distinct (take k ?f) \<and> distinct (drop k ?f @ ?r) \<and> set (take k ?f) \<inter> set (drop k ?f @ ?r) = {}"
    using assms by (intro distinct_take_drop) (simp add: pag_inv_def pag_core_def pag_get_all_free_pages_def)
  then show "distinct (take k ?f)" by simp
  have f: "set ?f = set (take k ?f) \<union> set (drop k ?f)" by (metis append_take_drop_id set_append)
  show "set (take k ?f) \<subseteq> set (pag_get_all_free_pages a)" using f by (auto simp: pag_get_all_free_pages_def)
  show "set (pag_get_all_free_pages b) = set (pag_get_all_free_pages a) - set (take k ?f)"
    using f d by (auto simp: pag_get_all_free_pages_def b_def)
  then show "pag_inv b"
    using assms d by (auto simp: pag_inv_def pag_core_def pag_get_all_free_pages_def b_def)
qed

lemma slots_of_Diff: "slots_of ps (P - Q) = slots_of ps P - slots_of ps Q"
  by (auto simp: slots_of_def)

lemma slots_of_mono: "P \<subseteq> Q \<Longrightarrow> slots_of ps P \<subseteq> slots_of ps Q"
  by (auto simp: slots_of_def)


lemma pag_avail_pending: "pag_inv a \<Longrightarrow> pag_avail a \<inter> pag_pending a = {}"
  by (auto simp: pag_avail_def pag_pending_def slots_of_def pag_inv_def pag_core_def)

lemma pag_free_keeps:
  assumes i: "pag_inv a" and c: "page_closed (al_page_size a) xs"
    and disj: "set xs \<inter> (pag_avail a \<union> pag_pending a) = {}" and f: "pag_free xs a = Inr a'"
  shows "pag_inv a' \<and> pag_avail a' \<union> pag_pending a' = pag_avail a \<union> pag_pending a \<union> set xs \<and>
     pag_universe a' = pag_universe a"
proof (cases "xs = []")
  case False
  let ?ps = "al_page_size a" and ?pg = "\<lambda>x. x div int (al_page_size a)"
  have ps: "0 < ?ps" using i by (simp add: pag_inv_def pag_core_def)
  have cl: "set xs = slots_of ?ps (?pg ` set xs)" using c page_closed_iff [OF ps] by blast
  have pd: "?pg ` set xs \<inter> set (pag_get_all_free_pages a @ concat (al_free_page_ids_group a)) = {}"
    using disj by (auto simp: pag_avail_def pag_pending_def slots_of_def)
  show ?thesis
  proof (cases "al_free_group a")
    case None
    let ?P = "unique (map ?pg xs)"
    have ids: "al_free_page_ids_group a = []" using i None by (simp add: pag_inv_def)
    have "pag_core a (?P @ [])" using i pd ids by (auto simp: pag_inv_def pag_core_def)
    note r = pag_release [OF this]
    have a': "a' = pag_release_page_ids ?P a"
      using f False None pag_check_eq by (simp add: pag_free_def)
    show ?thesis
      using r ids None cl
      by (simp add: a' pag_inv_def pag_avail_def pag_pending_def pag_universe_def page_closed_def slots_of_Un Un_commute)
        (simp add: slots_of_def)
  next
    case (Some g)
    have a': "a' = a\<lparr>al_free_group := Some (g @ [xs])\<rparr>"
      using f False Some pag_check_eq by (simp add: pag_free_def)
    have "page_closed ?ps (concat g @ xs)" using i c Some by (simp add: pag_inv_def page_closed_append)
    then show ?thesis
      using i Some pd
      by (simp add: a' pag_inv_def pag_avail_def pag_pending_def pag_universe_def image_Un Int_Un_distrib2 Un_ac
          del: set_concat)
  qed
qed (use i f in \<open>simp add: pag_free_def\<close>)

lemma pag_free_group_end_keeps:
  assumes i: "pag_inv a" and f: "pag_free_group_end a = Inr a'"
  shows "pag_inv a' \<and> pag_avail a' \<union> pag_pending a' = pag_avail a \<union> pag_pending a \<and> pag_universe a' = pag_universe a"
proof -
  let ?ps = "al_page_size a" and ?pg = "\<lambda>x. x div int (al_page_size a)"
  let ?G = "group_slots (al_free_group a)" and ?I = "concat (al_free_page_ids_group a)"
  let ?P = "unique (map ?pg ?G)"
  let ?a = "a\<lparr>al_free_group := None\<rparr>"
  have ps: "0 < ?ps" and G: "set ?G = slots_of ?ps (set ?P)"
    using i page_closed_iff by (auto simp: pag_inv_def pag_core_def)
  have "pag_core ?a (?P @ ?I)" using i by (auto simp: pag_inv_def pag_core_def)
  then have c1: "pag_core (if ?G = [] then ?a else pag_release_page_ids ?P ?a) ?I"
    and s1: "set (pag_get_all_free_pages (if ?G = [] then ?a else pag_release_page_ids ?P ?a)) = set ?P \<union> set (pag_get_all_free_pages a)"
    using pag_release [of ?a ?P ?I] by (auto simp: unique_def)
  let ?b = "if ?G = [] then ?a else pag_release_page_ids ?P ?a"
  have fb: "al_free_group ?b = None" "al_free_page_ids_group ?b = al_free_page_ids_group a"
      "al_page_size ?b = ?ps" "al_num_pages ?b = al_num_pages a" by simp_all
  let ?c = "if al_free_page_ids_group a = [] then ?b
            else (pag_release_page_ids ?I ?b)\<lparr>al_free_page_ids_group := []\<rparr>"
  have a': "a' = ?c"
    using f
    by (auto simp: pag_free_group_end_def rbind_eq_Inr pag_free_def Let_def dest!: pag_check_eq split: option.splits if_splits)
  note r2 = pag_release [of ?b ?I "[]", simplified, OF c1]
  have "pag_core ?c []" "set (pag_get_all_free_pages ?c) = set ?I \<union> set ?P \<union> set (pag_get_all_free_pages a)"
    using c1 s1 r2 by auto
  moreover have "al_free_group ?c = None" "al_free_page_ids_group ?c = []" "al_page_size ?c = ?ps" "al_num_pages ?c = al_num_pages a"
    using fb by simp_all
  ultimately have c: "pag_core a' []" "set (pag_get_all_free_pages a') = set ?I \<union> set ?P \<union> set (pag_get_all_free_pages a)"
    "al_free_group a' = None" "al_free_page_ids_group a' = []" "al_page_size a' = ?ps" "al_num_pages a' = al_num_pages a"
    unfolding a' [symmetric] by blast+
  have "pag_avail a' = slots_of ?ps (set ?I) \<union> slots_of ?ps (set ?P) \<union> pag_avail a"
    unfolding pag_avail_def c(2,5) slots_of_Un ..
  moreover have "pag_pending a' = {}" "pag_pending a = slots_of ?ps (set ?P) \<union> slots_of ?ps (set ?I)"
    unfolding pag_pending_def c(3,4,5) G by (simp_all add: slots_of_def)
  ultimately have "pag_avail a' \<union> pag_pending a' = pag_avail a \<union> pag_pending a" by blast
  moreover have "pag_inv a'" using c by (simp add: pag_inv_def page_closed_def)
  ultimately show ?thesis using c by (simp add: pag_universe_def)
qed

interpretation pagp: slot_pool pag_inv pag_avail pag_pending pag_universe pag_alloc pag_free
  pag_free_group_begin pag_free_group_end "\<lambda>a. page_closed (al_page_size a)"
proof (unfold_locales, goal_cases)
  case (1 s)
  then show ?case by (rule pag_avail_pending)
next
  case (2 s n xs s')
  let ?k = "n div al_page_size s"
  have ps: "0 < al_page_size s" using 2 by (simp add: pag_inv_def pag_core_def)
  have xs: "xs = page_slots (al_page_size s) (take ?k (al_free_pages (pag_prepare ?k s)))"
    and s': "s' = (pag_prepare ?k s)\<lparr>al_free_pages := drop ?k (al_free_pages (pag_prepare ?k s))\<rparr>"
    using 2(2) by (auto simp: pag_alloc_unfold Let_def split: if_splits)
  have "pag_inv (pag_prepare ?k s)" using 2(1) by simp
  note t = pag_take [OF this, of ?k]
  show ?case
    using t ps unfolding s' xs
    by (simp add: pag_avail_def pag_pending_def pag_universe_def distinct_page_slots slots_of_Diff slots_of_mono)
next
  case (3 s n s')
  then show ?case
    by (auto simp: pag_alloc_unfold Let_def pag_avail_def pag_pending_def pag_universe_def split: if_splits)
next
  case (4 s xs s')
  then show ?case using pag_free_keeps [of s xs s'] by simp
next
  case (5 s s')
  then show ?case
    by (auto simp: pag_free_group_begin_def rbind_eq_Inr pag_inv_def pag_avail_def pag_pending_def
        pag_universe_def page_closed_def)
next
  case (6 s s')
  then show ?case by (rule pag_free_group_end_keeps)
qed


section \<open>Allocation for extend and decode batches\<close>

lemma less_power_bit_length: "n < 2 ^ bit_length n"
proof (induction n rule: bit_length.induct)
  case (1 n)
  show ?case
  proof (cases "n = 0")
    case False
    then have "n div 2 < 2 ^ bit_length (n div 2)" using 1 by blast
    then have "n < 2 * 2 ^ bit_length (n div 2)" by linarith
    then show ?thesis using False by (subst bit_length.simps) simp
  qed (simp add: bit_length.simps)
qed

lemma next_power_of_2_ge: "n \<le> next_power_of_2 n"
  using less_power_bit_length [of "n - 1"] by (cases n) (simp_all add: next_power_of_2_def Suc_le_eq)

lemma new_pages_le:
  assumes p: "0 < p" and le: "q \<le> s"
  shows "new_pages p q s \<le> (s - q) div p + 1"
proof -
  have "(s - q) div p * p + (s - q) mod p = s - q" by simp
  moreover have "(s - q) mod p < p" using p by simp
  ultimately have "s - q < ((s - q) div p + 1) * p" unfolding distrib_right by linarith
  then have "s + p - 1 < ((q + p - 1) div p + 1) * p + ((s - q) div p + 1) * p"
    using ceil_align_ge [OF p, of q] by (simp add: ceil_align_def ceil_div_def distrib_right)
  then have "s + p - 1 < ((q + p - 1) div p + 1 + ((s - q) div p + 1)) * p" by (simp add: distrib_right)
  then have "(s + p - 1) div p < (q + p - 1) div p + 1 + ((s - q) div p + 1)" by (rule int_div_lessI [OF p])
  then show ?thesis by (simp add: new_pages_def)
qed

lemma div_superadd: "0 < p \<Longrightarrow> x div p + y div p \<le> (x + y) div (p :: int)"
  by (simp add: div_add1_eq [of x y p] pos_imp_zdiv_nonneg_iff)

lemma pages_before_le:
  assumes p: "0 < p" and le: "\<forall>i < length ps. ps ! i \<le> ss ! i" and k: "k \<le> length ps"
  shows "pages_before p ps ss k \<le> tokens_before ps ss k div p + int k"
  using k
proof (induction k)
  case (Suc k)
  have "new_pages p (ps ! k) (ss ! k) \<le> (ss ! k - ps ! k) div p + 1"
    using Suc.prems le by (intro new_pages_le [OF p]) simp
  moreover have "tokens_before ps ss k div p + (ss ! k - ps ! k) div p \<le> tokens_before ps ss (Suc k) div p"
    using div_superadd [OF p] by simp
  ultimately show ?case using Suc by simp
qed simp

lemma pag_prepare_enough:
  assumes "pag_core a held" and "t \<le> n" and "t \<le> length (pag_get_all_free_pages a)"
  shows "t \<le> length (al_free_pages (pag_prepare n a))"
  using assms
  by (auto simp: pag_prepare_def pag_merge_and_sort_free_def pag_get_all_free_pages_def)

lemma pag_prepare_length:
  "length (al_free_pages (pag_prepare n a)) \<le> length (pag_get_all_free_pages a)"
  by (simp add: pag_prepare_def pag_merge_and_sort_free_def pag_get_all_free_pages_def)


text \<open>
  The batch a caller may pass: one \<open>last_loc\<close> per request, aligned with its prefix, whose
  partly filled pages are owned by different requests and are not free.
\<close>

definition batch_ok :: "paged_alloc \<Rightarrow> int list \<Rightarrow> int list \<Rightarrow> int list \<Rightarrow> bool" where
  "batch_ok a prefix_lens seq_lens last_loc \<longleftrightarrow>
     length seq_lens = length prefix_lens \<and> length last_loc = length prefix_lens \<and>
     (let rs = zip prefix_lens (zip seq_lens last_loc); olds = concat (map (old_pages (int (al_page_size a))) rs)
      in list_all (loc_aligned (int (al_page_size a))) rs \<and>
         distinct olds \<and> set olds \<inter> set (pag_get_all_free_pages a) = {})"

lemma batch_ok_le: "batch_ok a ps ss ls \<Longrightarrow> \<forall>i < length ps. ps ! i \<le> ss ! i"
  by (auto simp: batch_ok_def Let_def list_all_length loc_aligned_def)

lemma batch_extend_slots:
  fixes a :: paged_alloc and ps ss ls :: "int list"
  defines "p \<equiv> int (al_page_size a)" and "rs \<equiv> zip ps (zip ss ls)"
  assumes i: "pag_inv a" and b: "batch_ok a ps ss ls" and f: "total_new p rs \<le> length (al_free_pages a)"
  shows "distinct (extend_slots p rs (al_free_pages a))"
    and "k < length ps \<Longrightarrow> j < nat (ss ! k - ps ! k) \<Longrightarrow>
      extend_slots p rs (al_free_pages a) ! nat (tokens_before ps ss k + int j) mod p = (ps ! k + int j) mod p"
proof -
  have p: "0 < p" using i by (simp add: p_def pag_inv_def pag_core_def)
  have al: "list_all (loc_aligned p) rs" and len: "length ss = length ps" "length ls = length ps"
    using b by (simp_all add: batch_ok_def p_def rs_def Let_def)
  have "distinct (al_free_pages a)" "set (al_free_pages a) \<subseteq> set (pag_get_all_free_pages a)"
    using i by (simp_all add: pag_inv_def pag_core_def pag_get_all_free_pages_def)
  then have "distinct (concat (map (old_pages p) rs) @ take (total_new p rs) (al_free_pages a))"
    using b by (auto simp: batch_ok_def p_def rs_def Let_def dest!: in_set_takeD simp del: set_concat)
  then show "distinct (extend_slots p rs (al_free_pages a))" by (rule extend_slots_distinct [OF p al f])
  assume k: "k < length ps" and j: "j < nat (ss ! k - ps ! k)"
  have "loc_aligned p (ps ! k, ss ! k, ls ! k)" using al k len by (simp add: list_all_length rs_def)
  note r = request_slot_nth(1) [OF p this j]
  show "extend_slots p rs (al_free_pages a) ! nat (tokens_before ps ss k + int j) mod p = (ps ! k + int j) mod p"
    using extend_slots_nth [OF p len batch_ok_le [OF b] k, of "int j" "al_free_pages a"] j r by (simp add: rs_def)
qed

lemma length_unique_distinct: "distinct xs \<Longrightarrow> length (unique xs) = length xs"
  by (simp add: unique_def distinct_remdups_id)

lemma pag_extend_fits:
  fixes a :: paged_alloc and ps ss ls :: "int list"
  defines "p \<equiv> int (al_page_size a)" and "rs \<equiv> zip ps (zip ss ls)"
  assumes i: "pag_inv a" and b: "batch_ok a ps ss ls" and n: "int n = tokens_before ps ss (length ps)"
    and t: "total_new p rs \<le> length (pag_get_all_free_pages a)"
  shows "total_new p rs \<le> length (al_free_pages (pag_prepare (n div al_page_size a + length ps + 1) a))"
proof -
  have p: "0 < p" and core: "pag_core a (concat (al_free_page_ids_group a))" and len: "length ss = length ps" "length ls = length ps"
    using i b by (simp_all add: p_def pag_inv_def pag_core_def batch_ok_def)
  note le = batch_ok_le [OF b]
  have "int (total_new p rs) \<le> int n div p + int (length ps)"
    using pages_before_le [OF p le order_refl] extend_slots_totals(2) [OF p len le] n by (simp add: rs_def)
  then have "total_new p rs \<le> n div al_page_size a + length ps + 1" unfolding p_def zdiv_int [symmetric] by linarith
  then show ?thesis using t by (intro pag_prepare_enough [OF core])
qed

lemma pag_alloc_extend_eq:
  fixes a :: paged_alloc and ps ss ls :: "int list"
  defines "p \<equiv> int (al_page_size a)" and "rs \<equiv> zip ps (zip ss ls)"
  assumes i: "pag_inv a" and b: "batch_ok a ps ss ls" and n: "int n = tokens_before ps ss (length ps)"
  defines "c \<equiv> pag_prepare (n div al_page_size a + length ps + 1) a"
  shows "total_new p rs \<le> length (pag_get_all_free_pages a) \<Longrightarrow>
      pag_alloc_extend dev ps ss ls n None a =
        Inr (Some (extend_slots p rs (al_free_pages c)),
             c\<lparr>al_free_pages := drop (total_new p rs) (al_free_pages c)\<rparr>)"
    and "length (pag_get_all_free_pages a) < total_new p rs \<Longrightarrow> \<not> al_debug_mode a \<Longrightarrow>
      pag_alloc_extend dev ps ss ls n None a = Inr (None, c)"
proof -
  have p: "0 < p" and len: "length ss = length ps" "length ls = length ps"
    using i b by (simp_all add: p_def pag_inv_def pag_core_def batch_ok_def)
  note le = batch_ok_le [OF b]
  have gn: "get_num_new_pages ss p (Some ps) False = Inr (int (total_new p rs))"
    unfolding rs_def by (rule get_num_new_pages_extend [OF p len le])
  have dbg: "list_all2 (\<lambda>l q. (l + 1) mod p = q mod p) ls ps"
    using b len by (auto simp: batch_ok_def p_def Let_def list_all2_conv_all_nth list_all_length loc_aligned_def)
  have cs: "al_page_size c = al_page_size a" "al_debug_mode c = al_debug_mode a" by (simp_all add: c_def)
  have cdef: "(if n div al_page_size a + length ps + 1 > length (al_free_pages a) then pag_merge_and_sort_free a else a) = c"
    by (simp add: c_def pag_prepare_def)
  show "pag_alloc_extend dev ps ss ls n None a = Inr (None, c)"
    if "length (pag_get_all_free_pages a) < total_new p rs" "\<not> al_debug_mode a"
  proof -
    have "length (al_free_pages c) < total_new p rs" using that pag_prepare_length [of _ a] unfolding c_def by (meson le_less_trans)
    then show ?thesis
      unfolding pag_alloc_extend_def Let_def cdef p_def [symmetric] gn using that cs dbg by simp
  qed
  show "pag_alloc_extend dev ps ss ls n None a = Inr (Some (extend_slots p rs (al_free_pages c)),
             c\<lparr>al_free_pages := drop (total_new p rs) (al_free_pages c)\<rparr>)"
    if "total_new p rs \<le> length (pag_get_all_free_pages a)"
  proof -
    have fits: "total_new p rs \<le> length (al_free_pages c)"
      using pag_extend_fits [OF i b n] that unfolding p_def rs_def c_def .
    have out: "launch (alloc_extend_kernel (lane_other dev) (behind dev) ps ss ls (al_free_pages c)
          (next_power_of_2 (length ps)) p) (length ps) (map (uninit dev) [0..<n])
        = extend_slots p rs (al_free_pages c)"
      unfolding rs_def
      by (rule launch_extend_kernel [OF p len next_power_of_2_ge le]) (use fits n in \<open>simp_all add: rs_def\<close>)
    have "batch_ok c ps ss ls" "pag_inv c" using b i by (simp_all add: c_def batch_ok_def)
    then have "distinct (extend_slots p rs (al_free_pages c))"
      using batch_extend_slots(1) [of c ps ss ls] fits cs by (simp add: p_def rs_def)
    then show ?thesis
      unfolding pag_alloc_extend_def Let_def cdef p_def [symmetric] gn out
      using fits dbg by (simp add: length_unique_distinct)
  qed
qed


lemma pag_alloc_decode_eq:
  fixes a :: paged_alloc and ss ls :: "int list"
  defines "p \<equiv> int (al_page_size a)" and "rs \<equiv> zip (map (\<lambda>s. s - 1) ss) (zip ss ls)"
  assumes i: "pag_inv a" and p2: "2 \<le> al_page_size a" and b: "batch_ok a (map (\<lambda>s. s - 1) ss) ss ls"
  defines "c \<equiv> pag_prepare (length ss) a"
  shows "total_new p rs \<le> length (pag_get_all_free_pages a) \<Longrightarrow>
      pag_alloc_decode dev ss ls a =
        Inr (Some (extend_slots p rs (al_free_pages c)),
             c\<lparr>al_free_pages := drop (total_new p rs) (al_free_pages c)\<rparr>)"
proof -
  let ?ps = "map (\<lambda>s. s - 1) ss"
  have p: "0 < p" "2 \<le> p" and core: "pag_core a (concat (al_free_page_ids_group a))"
    using i p2 by (simp_all add: p_def pag_inv_def pag_core_def)
  have len: "length ls = length ss" using b by (simp add: batch_ok_def)
  have gn: "get_num_new_pages ss p None True = Inr (int (total_new p rs))"
    unfolding rs_def by (rule get_num_new_pages_decode [OF p(2) len])
  have dbg: "list_all2 (\<lambda>l s. (l + 2) mod p = s mod p) ls ss"
  proof (unfold list_all2_conv_all_nth, intro conjI allI impI)
    fix k assume "k < length ls"
    then have "(ls ! k + 1) mod p = (ss ! k - 1) mod p"
      using b len by (auto simp: batch_ok_def p_def Let_def list_all_length loc_aligned_def)
    then have "(ls ! k + 1 + 1) mod p = (ss ! k - 1 + 1) mod p" by (rule mod_add_cong) simp
    then show "(ls ! k + 2) mod p = ss ! k mod p" by (simp add: add.commute)
  qed (rule len)
  have cs: "al_page_size c = al_page_size a" "al_debug_mode c = al_debug_mode a" by (simp_all add: c_def)
  have cdef: "(if length ss > length (al_free_pages a) then pag_merge_and_sort_free a else a) = c"
    by (simp add: c_def pag_prepare_def)
  assume t: "total_new p rs \<le> length (pag_get_all_free_pages a)"
  have "total_new p rs \<le> length ss"
    using len unfolding rs_def
  proof (induction ss arbitrary: ls)
    case (Cons s ss)
    then obtain l ls' where "ls = l # ls'" by (metis length_Suc_conv)
    then show ?case using Cons.IH [of ls'] Cons.prems by (simp add: total_new_def new_pages_decode [OF p(2)])
  qed (simp add: total_new_def)
  then have fits: "total_new p rs \<le> length (al_free_pages c)"
    unfolding c_def using t by (intro pag_prepare_enough [OF core])
  have out: "launch (alloc_decode_kernel (lane_other dev) (behind dev) ss ls (al_free_pages c)
        (next_power_of_2 (length ss)) p) (length ss) (map (uninit dev) [0..<length ss])
      = extend_slots p rs (al_free_pages c)"
    unfolding rs_def
    by (rule launch_decode_kernel [OF p(1) len _ next_power_of_2_ge]) (use fits in \<open>simp_all add: rs_def\<close>)
  have "batch_ok c ?ps ss ls" "pag_inv c" using b i by (simp_all add: c_def batch_ok_def)
  then have "distinct (extend_slots p rs (al_free_pages c))"
    using batch_extend_slots(1) [of c ?ps ss ls] fits cs by (simp add: p_def rs_def)
  then show "pag_alloc_decode dev ss ls a = Inr (Some (extend_slots p rs (al_free_pages c)),
             c\<lparr>al_free_pages := drop (total_new p rs) (al_free_pages c)\<rparr>)"
    unfolding pag_alloc_decode_def Let_def cdef p_def [symmetric] gn out
    using fits dbg by (simp add: length_unique_distinct)
qed

section \<open>Freeing a segment of a request's row\<close>

text \<open>
  A row segment: the slots of one page are contiguous in it, and no two of its page-sized pieces
  share a page.
\<close>

definition page_row :: "nat \<Rightarrow> int list \<Rightarrow> bool" where
  "page_row ps xs \<longleftrightarrow>
     list_all (\<lambda>i. xs ! i div int ps = xs ! (i div ps * ps) div int ps) [0..<length xs] \<and>
     distinct (map (\<lambda>x. x div int ps) (stride ps xs))"

lemma set_stride_pages:
  assumes ps: "0 < ps" and r: "page_row ps xs"
  shows "set (map (\<lambda>x. x div int ps) (stride ps xs)) = (\<lambda>x. x div int ps) ` set xs"
proof -
  let ?n = "(length xs + ps - 1) div ps"
  have lt: "i < ?n \<longleftrightarrow> i * ps < length xs" for i
  proof -
    have "i < ?n \<longleftrightarrow> Suc i * ps \<le> length xs + ps - 1"
      using ps by (simp add: Suc_le_eq [symmetric] less_eq_div_iff_mult_less_eq)
    then show ?thesis using ps by auto
  qed
  have row: "xs ! i div int ps = xs ! (i div ps * ps) div int ps" if "i < length xs" for i
    using r that by (simp add: page_row_def list_all_iff)
  have "(\<lambda>x. x div int ps) ` set xs \<subseteq> (\<lambda>x. x div int ps) ` set (stride ps xs)"
  proof (intro subsetI, elim imageE)
    fix y x assume y: "y = x div int ps" and "x \<in> set xs"
    then obtain i where i: "i < length xs" "x = xs ! i" by (metis in_set_conv_nth)
    have "i div ps < ?n" using i(1) lt [of "i div ps"] div_times_less_eq_dividend [of i ps] by linarith
    then have "xs ! (i div ps * ps) \<in> set (stride ps xs)" by (simp add: stride_def)
    then show "y \<in> (\<lambda>x. x div int ps) ` set (stride ps xs)" using y i row [OF i(1)] by auto
  qed
  moreover have "set (stride ps xs) \<subseteq> set xs"
  proof
    fix x assume "x \<in> set (stride ps xs)"
    then obtain i where i: "i < ?n" "x = xs ! (i * ps)" unfolding stride_def by auto
    show "x \<in> set xs" unfolding i(2) by (rule nth_mem) (use i(1) lt in blast)
  qed
  ultimately have "(\<lambda>x. x div int ps) ` set (stride ps xs) = (\<lambda>x. x div int ps) ` set xs" by blast
  then show ?thesis by (simp only: set_map)
qed

lemma row_pages_unique:
  assumes "0 < ps" and "page_row ps xs"
  shows "sort (map (\<lambda>x. x div int ps) (stride ps xs)) = unique (map (\<lambda>x. x div int ps) xs)"
  using assms set_stride_pages [OF assms]
  by (intro sorted_distinct_set_unique) (simp_all add: page_row_def unique_def)


section \<open>Capacity\<close>

lemma int_div_le_iff: "0 < p \<Longrightarrow> x div p \<le> N \<longleftrightarrow> x < p * (N + 1)" for p :: int
proof
  assume p: "0 < p"
  show "x < p * (N + 1)" if "x div p \<le> N"
  proof (rule ccontr)
    assume "\<not> x < p * (N + 1)"
    then have "p * (N + 1) div p \<le> x div p" using p by (intro zdiv_mono1) simp_all
    then show False using that p by simp
  qed
  show "x div p \<le> N" if "x < p * (N + 1)"
    using int_div_lessI [OF p, of x "N + 1"] that by (simp add: mult.commute)
qed

lemma set_map_int_upt: "set (map int [1..<n + 1]) = {1..int n}"
  by (simp only: set_map set_upt image_int_atLeastLessThan) auto

lemma pag_available_card:
  "pag_inv a \<Longrightarrow> pag_available_size a = length (pag_get_all_free_pages a) * al_page_size a"
  by (simp add: pag_available_size_def pag_get_all_free_pages_def pag_inv_def pag_core_def)

lemma pag_prepare_mset: "mset (pag_get_all_free_pages (pag_prepare n a)) = mset (pag_get_all_free_pages a)"
  by (simp add: pag_prepare_def pag_merge_and_sort_free_def pag_get_all_free_pages_def)

lemma pag_prepare_all_length: "length (pag_get_all_free_pages (pag_prepare n a)) = length (pag_get_all_free_pages a)"
  by (rule mset_eq_length [OF pag_prepare_mset])

text \<open>A concrete allocator for the witnesses: four pages of four slots.\<close>

definition demo_paged :: paged_alloc where
  "demo_paged = pag_clear \<lparr>al_size = 16, al_page_size = 4, al_need_sort = True,
     al_free_pages = [], al_free_group = None, al_num_pages = 4, al_debug_mode = False,
     al_staged_pages = [], al_num_staged_pages = 0, al_free_page_ids_group = []\<rparr>"

definition demo_gpu :: gpu where
  "demo_gpu = \<lparr>lane_other = 0, behind = (\<lambda>_. 0), uninit = (\<lambda>_. 0)\<rparr>"

text \<open>
  Property C4: a page-aligned allocation succeeds exactly when that many slots are available. On
  success it returns that many different free slots and the available size shrinks by that
  amount; otherwise nothing is taken.
\<close>

theorem paged_alloc_exact:
  assumes i: "pag_inv a" and n: "n mod al_page_size a = 0"
  shows "if n \<le> pag_available_size a
         then \<exists>xs a'. pag_alloc n a = Inr (Some xs, a') \<and> length xs = n \<and> distinct xs \<and>
                set xs \<subseteq> pag_avail a \<and> pag_avail a' = pag_avail a - set xs \<and>
                pag_available_size a' = pag_available_size a - n \<and> pag_inv a'
         else \<exists>a'. pag_alloc n a = Inr (None, a') \<and> pag_avail a' = pag_avail a \<and> pag_inv a'"
proof -
  let ?ps = "al_page_size a" and ?k = "n div al_page_size a"
  let ?b = "pag_prepare ?k a"
  have ps: "0 < ?ps" and core: "pag_core a (concat (al_free_page_ids_group a))"
    using i by (simp_all add: pag_inv_def pag_core_def)
  have nk: "n = ?k * ?ps" using n by auto
  have av: "n \<le> pag_available_size a \<longleftrightarrow> ?k \<le> length (pag_get_all_free_pages a)"
    using ps nk pag_available_card [OF i] by (metis mult_le_cancel2)
  have ib: "pag_inv ?b" using i by simp
  show ?thesis
  proof (cases "n \<le> pag_available_size a")
    case True
    then have k: "?k \<le> length (al_free_pages ?b)"
      using av by (intro pag_prepare_enough [OF core]) simp_all
    define a' where "a' = ?b\<lparr>al_free_pages := drop ?k (al_free_pages ?b)\<rparr>"
    define xs where "xs = page_slots ?ps (take ?k (al_free_pages ?b))"
    have r: "pag_alloc n a = Inr (Some xs, a')" using k n by (simp add: pag_alloc_unfold Let_def xs_def a'_def)
    have l: "length xs = n" using k nk by (simp add: xs_def)
    have ia': "pag_inv a'" unfolding a'_def by (rule pag_take(1) [OF ib])
    have "length (pag_get_all_free_pages a') = length (pag_get_all_free_pages a) - ?k"
      using k pag_prepare_all_length [of ?k a] by (simp add: a'_def pag_get_all_free_pages_def)
    then have "pag_available_size a' = pag_available_size a - n"
      using pag_available_card [OF ia'] pag_available_card [OF i] nk
      by (simp add: a'_def diff_mult_distrib)
    then show ?thesis using True r l pagp.alloc_some [OF i r] by auto
  next
    case False
    then have "\<not> ?k \<le> length (al_free_pages ?b)"
      using av pag_prepare_length [of ?k a] by linarith
    then have r: "pag_alloc n a = Inr (None, ?b)" using n by (simp add: pag_alloc_unfold Let_def)
    then show ?thesis using False pagp.alloc_none [OF i r] by auto
  qed
qed

theorem paged_alloc_exact_witness:
  "pag_inv demo_paged \<and> pag_alloc 8 demo_paged = Inr (Some [4, 5, 6, 7, 8, 9, 10, 11], demo_paged\<lparr>al_free_pages := [3, 4]\<rparr>) \<and>
   pag_available_size (demo_paged\<lparr>al_free_pages := [3, 4]\<rparr>) = 8"
proof -
  have i: "pag_inv demo_paged" by code_simp
  have n: "8 mod al_page_size demo_paged = 0" "8 \<le> pag_available_size demo_paged" by code_simp+
  have "pag_alloc 8 demo_paged = Inr (Some [4, 5, 6, 7, 8, 9, 10, 11], demo_paged\<lparr>al_free_pages := [3, 4]\<rparr>)"
    by code_simp
  moreover have "pag_available_size demo_paged = 16" by code_simp
  ultimately show ?thesis using paged_alloc_exact [OF i n(1)] n(2) i by auto
qed

text \<open>
  Property C5: whatever sequence of allocations, page-wise frees and free groups a client issues
  on a fresh paged allocator, every slot of the pool (slot numbers from the first page on; page 0 is
  the padding page) is at the end in exactly one place: free, pending in the open free group, or
  held by the client. In particular no slot is ever handed out twice and none is lost.
\<close>

theorem paged_pool_conserves_slots:
  assumes new: "PagedTokenToKVPoolAllocator sz ps ns dbg = Inr a"
    and run: "rfold (pool_step pag_alloc pag_free pag_free_group_begin pag_free_group_end
                (\<lambda>a. page_closed (al_page_size a))) ops (a, []) = Inr (a', owned)"
  shows "partitioned {int ps..<int ps * (int (sz div ps) + 1)} (pag_avail a') (pag_pending a') owned \<and> pag_inv a'"
proof -
  have ps: "0 < ps" and a: "al_page_size a = ps" "al_num_pages a = sz div ps" "al_free_group a = None"
    "al_free_page_ids_group a = []" "al_num_staged_pages a = 0" "al_staged_pages a = []"
    "al_free_pages a = map int [1..<sz div ps + 1]"
    using new by (auto simp: PagedTokenToKVPoolAllocator_def pag_clear_def split: if_splits)
  have inv: "pag_inv a" using ps a by (simp add: pag_inv_def pag_core_def pag_get_all_free_pages_def page_closed_def distinct_map)
  have "set (al_free_pages a) = {1..int (al_num_pages a)}"
    unfolding a by (rule set_map_int_upt)
  then have "pag_avail a = pag_universe a" "pag_pending a = {}"
    using a by (simp_all add: pag_avail_def pag_universe_def pag_get_all_free_pages_def pag_pending_def slots_of_def)
  then have "pagp.accounted (a, [])" using inv by (simp add: pagp.accounted_def partitioned_def)
  then have "pagp.accounted (a', owned)" and u: "pag_universe a' = pag_universe a"
    using pagp.accounted_run [OF run] by simp_all
  moreover have "pag_universe a = {int ps..<int ps * (int (sz div ps) + 1)}"
  proof -
    have p: "0 < int ps" using ps by simp
    have "1 \<le> x div int ps \<longleftrightarrow> int ps \<le> x" for x using int_div_le_iff [OF p, of x 0] by auto
    then show ?thesis using a int_div_le_iff [OF p] by (auto simp: pag_universe_def slots_of_def)
  qed
  ultimately show ?thesis by (simp add: pagp.accounted_def)
qed


theorem paged_pool_conserves_slots_witness:
  "\<exists>a'. partitioned {4..<20} (pag_avail a') (pag_pending a') [4, 5, 6, 7]"
proof -
  have n: "PagedTokenToKVPoolAllocator 16 4 True False = Inr demo_paged" by code_simp
  have r: "rfold (pool_step pag_alloc pag_free pag_free_group_begin pag_free_group_end
             (\<lambda>a. page_closed (al_page_size a)))
       [OpAlloc 8, OpGroupBegin, OpFree [8, 9, 10, 11], OpGroupEnd] (demo_paged, [])
     = Inr (demo_paged\<lparr>al_free_pages := [3, 4], al_staged_pages := [[2]], al_num_staged_pages := 1\<rparr>, [4, 5, 6, 7])"
    by code_simp
  show ?thesis using paged_pool_conserves_slots [OF n r] by auto
qed

text \<open>The same conservation of slots for the token allocator, whose slots are 1 to its size.\<close>

theorem token_pool_conserves_slots:
  assumes run: "rfold (pool_step (\<lambda>n a. Inr (tok_alloc n a)) (\<lambda>xs a. Inr (tok_free xs a)) tok_free_group_begin
                  (\<lambda>a. Inr (tok_free_group_end a)) (\<lambda>a xs. True)) ops (TokenToKVPoolAllocator sz ns, []) = Inr (a', owned)"
  shows "partitioned {1..int sz} (tok_avail a') (tok_pending a') owned \<and> tok_inv a'"
proof -
  let ?a = "TokenToKVPoolAllocator sz ns"
  have "tok_inv ?a" "tok_pending ?a = {}" "tok_universe ?a = {1..int sz}"
    by (simp_all add: TokenToKVPoolAllocator_def tok_clear_def tok_inv_def tok_pending_def tok_universe_def distinct_map)
  moreover have "tok_avail ?a = {1..int sz}"
    using set_map_int_upt [of sz] by (simp add: TokenToKVPoolAllocator_def tok_clear_def tok_avail_def)
  ultimately show ?thesis
    using tokp.accounted_run [OF run] by (simp add: tokp.accounted_def partitioned_def)
qed

theorem token_pool_conserves_slots_witness:
  "\<exists>a'. partitioned {1..4} (tok_avail a') (tok_pending a') [2, 3] \<and> tok_free_group_end a' = a'"
proof -
  have r: "rfold (pool_step (\<lambda>n a. Inr (tok_alloc n a)) (\<lambda>xs a. Inr (tok_free xs a)) tok_free_group_begin
      (\<lambda>a. Inr (tok_free_group_end a)) (\<lambda>a xs. True)) [OpAlloc 3, OpFree [1], OpAlloc 9] (TokenToKVPoolAllocator 4 True, [])
    = Inr (\<lparr>al_size = 4, al_page_size = 1, al_need_sort = True, al_free_pages = [1, 4], al_free_group = None,
            al_release_pages = []\<rparr>, [2, 3])"
    by code_simp
  show ?thesis using token_pool_conserves_slots [OF r] by (auto simp: tok_free_group_end_def)
qed

text \<open>
  Property C6: if enough pages are free, whether or not they are staged, \<open>alloc_extend\<close> returns one
  slot per new token, all different. The slot of a request's position lies at that position's
  offset in its page, on the request's own partly filled page or on one of the pages taken from
  the free list, and exactly the needed number of pages is taken.
\<close>

theorem paged_alloc_extend_serves_batch:
  fixes a :: paged_alloc and ps ss ls :: "int list"
  assumes i: "pag_inv a" and b: "batch_ok a ps ss ls" and n: "int n = tokens_before ps ss (length ps)"
    and fits: "total_new (int (al_page_size a)) (zip ps (zip ss ls)) \<le> length (pag_get_all_free_pages a)"
  shows "\<exists>out a' taken. pag_alloc_extend dev ps ss ls n None a = Inr (Some out, a') \<and>
     length out = n \<and> distinct out \<and> pag_inv a' \<and>
     (\<forall>k < length ps. \<forall>j < nat (ss ! k - ps ! k).
        out ! nat (tokens_before ps ss k + int j) mod int (al_page_size a) = (ps ! k + int j) mod int (al_page_size a)) \<and>
     distinct taken \<and> int (length taken) = pages_before (int (al_page_size a)) ps ss (length ps) \<and>
     set taken \<subseteq> set (pag_get_all_free_pages a) \<and>
     set (pag_get_all_free_pages a') = set (pag_get_all_free_pages a) - set taken \<and>
     (\<lambda>x. x div int (al_page_size a)) ` set out \<subseteq>
        set (concat (map (old_pages (int (al_page_size a))) (zip ps (zip ss ls)))) \<union> set taken"
proof -
  define p where "p = int (al_page_size a)"
  define rs where "rs = zip ps (zip ss ls)"
  define c where "c = pag_prepare (n div al_page_size a + length ps + 1) a"
  define out where "out = extend_slots p rs (al_free_pages c)"
  define taken where "taken = take (total_new p rs) (al_free_pages c)"
  have p: "0 < p" and len: "length ss = length ps" "length ls = length ps"
    using i b by (simp_all add: p_def pag_inv_def pag_core_def batch_ok_def)
  note le = batch_ok_le [OF b]
  have c: "pag_inv c" "batch_ok c ps ss ls" "al_page_size c = al_page_size a"
    "set (pag_get_all_free_pages c) = set (pag_get_all_free_pages a)"
    using i b by (simp_all add: c_def batch_ok_def)
  have r: "pag_alloc_extend dev ps ss ls n None a = Inr (Some out, c\<lparr>al_free_pages := drop (total_new p rs) (al_free_pages c)\<rparr>)"
    using pag_alloc_extend_eq(1) [OF i b n] fits unfolding p_def rs_def c_def out_def by blast
  have al: "list_all (loc_aligned p) rs" using b by (simp add: batch_ok_def Let_def p_def rs_def)
  have tn: "int (total_new p rs) = pages_before p ps ss (length ps)"
    unfolding rs_def by (rule extend_slots_totals(2) [OF p len le])
  have fc: "total_new p rs \<le> length (al_free_pages c)"
    using pag_extend_fits [OF i b n fits] unfolding p_def rs_def c_def .
  note e = batch_extend_slots [OF c(1,2), unfolded c(3), folded p_def rs_def, OF fc, folded out_def]
  note t = pag_take [OF c(1), of "total_new p rs", folded taken_def]
  have "int (length out) = tokens_before ps ss (length ps)"
    unfolding out_def rs_def by (rule extend_slots_totals(1) [OF p len le])
  moreover have "(\<lambda>x. x div p) ` set out \<subseteq> set (concat (map (old_pages p) rs)) \<union> set taken"
    using extend_slots_pages [OF p al fc] unfolding out_def taken_def by blast
  ultimately show ?thesis
    using r e t tn n fc c(4) unfolding p_def [symmetric] rs_def [symmetric]
    by (intro exI [of _ out] exI [of _ "c\<lparr>al_free_pages := drop (total_new p rs) (al_free_pages c)\<rparr>"] exI [of _ taken])
      (simp add: taken_def)
qed

theorem paged_alloc_extend_serves_batch_witness:
  "\<exists>out a'. pag_alloc_extend demo_gpu [0, 6] [5, 9] [-1, 13] 8 None (demo_paged\<lparr>al_free_pages := [1, 2, 4]\<rparr>) = Inr (Some out, a') \<and>
     out = [4, 5, 6, 7, 8, 14, 15, 16] \<and> distinct out"
proof -
  let ?a = "demo_paged\<lparr>al_free_pages := [1, 2, 4]\<rparr>"
  have h: "pag_inv ?a" "batch_ok ?a [0, 6] [5, 9] [-1, 13]" "int 8 = tokens_before [0, 6] [5, 9] (length [0 :: int, 6])"
    "total_new (int (al_page_size ?a)) (zip [0, 6] (zip [5, 9] [-1, 13])) \<le> length (pag_get_all_free_pages ?a)"
    by (code_simp, code_simp, simp add: tokens_before_def numeral_2_eq_2, code_simp)
  have "extend_slots (int (al_page_size ?a)) (zip [0, 6] (zip [5, 9] [-1, 13]))
     (al_free_pages (pag_prepare (8 div al_page_size ?a + length [0 :: int, 6] + 1) ?a)) = [4, 5, 6, 7, 8, 14, 15, 16]"
    by code_simp
  then show ?thesis
    using paged_alloc_extend_serves_batch [OF h, of demo_gpu] pag_alloc_extend_eq(1) [OF h, of demo_gpu] by auto
qed

text \<open>
  Property C7: for a row segment that starts on a page boundary and whose pages are not free yet,
  the strided \<open>free_segment\<close> releases exactly the pages that the deduplicating \<open>free\<close> releases.
\<close>

theorem paged_free_segment_equals_free:
  assumes i: "pag_inv a" and g: "al_free_group a = None" and r: "page_row (al_page_size a) xs"
    and s: "start mod al_page_size a = 0"
    and fresh: "(\<lambda>x. x div int (al_page_size a)) ` set xs \<inter> set (pag_get_all_free_pages a) = {}"
  shows "\<exists>a1 a2. pag_free xs a = Inr a1 \<and> pag_free_segment xs start a = Inr a2 \<and>
     mset (pag_get_all_free_pages a1) = mset (pag_get_all_free_pages a2) \<and>
     pag_available_size a1 = pag_available_size a2"
proof (cases "xs = []")
  case False
  let ?ps = "al_page_size a"
  let ?U = "unique (map (\<lambda>x. x div int ?ps) xs)" and ?R = "map (\<lambda>x. x div int ?ps) (stride ?ps xs)"
  have ps: "0 < ?ps" using i by (simp add: pag_inv_def pag_core_def)
  have UR: "sort ?R = ?U" by (rule row_pages_unique [OF ps r])
  then have m: "mset ?R = mset ?U" by (metis mset_sort)
  have core: "pag_core a (P @ [])" if "mset P = mset ?U" for P
  proof -
    have "distinct P" "set P = (\<lambda>x. x div int ?ps) ` set xs"
      using that mset_eq_imp_distinct_iff [OF that] mset_eq_setD [OF that] by simp_all
    then show ?thesis using i g fresh by (auto simp: pag_inv_def pag_core_def)
  qed
  have ok: "pag_check (pag_release_page_ids P a) = Inr (pag_release_page_ids P a)" if "mset P = mset ?U" for P
    using pag_release(1) [OF core [OF that]]
    by (simp add: pag_check_def pag_debug_check_no_duplicate_pages_def Let_def length_unique_distinct pag_core_def)
  have f: "pag_free xs a = Inr (pag_release_page_ids ?U a)"
    using False g ok [OF refl] by (simp add: pag_free_def)
  have "?R \<noteq> []" using m False by (metis mset_zero_iff unique_eq_Nil map_is_Nil_conv)
  then have fs: "pag_free_segment xs start a = Inr (pag_release_page_ids ?R a)"
    using False g s ok [OF m] UR by (simp add: pag_free_segment_def pag_free_page_ids_def Let_def)
  have "mset (pag_get_all_free_pages (pag_release_page_ids ?U a)) = mset (pag_get_all_free_pages (pag_release_page_ids ?R a))"
    using m by (simp add: pag_release_page_ids_def pag_get_all_free_pages_def)
  moreover have "length ?U = length ?R" by (rule mset_eq_length [OF m [symmetric]])
  then have "pag_available_size (pag_release_page_ids ?U a) = pag_available_size (pag_release_page_ids ?R a)"
    by (simp add: pag_release_page_ids_def pag_available_size_def)
  ultimately show ?thesis using f fs by blast
qed (simp add: pag_free_def pag_free_segment_def)

theorem paged_free_segment_equals_free_witness:
  "\<exists>a1 a2. pag_free [12, 13, 14, 15, 4, 5] (demo_paged\<lparr>al_free_pages := [2, 4]\<rparr>) = Inr a1 \<and>
     pag_free_segment [12, 13, 14, 15, 4, 5] 8 (demo_paged\<lparr>al_free_pages := [2, 4]\<rparr>) = Inr a2 \<and>
     mset (pag_get_all_free_pages a1) = mset (pag_get_all_free_pages a2) \<and> al_staged_pages a1 = [[1, 3]]"
proof -
  let ?a = "demo_paged\<lparr>al_free_pages := [2, 4]\<rparr>" and ?x = "[12, 13, 14, 15, 4, 5]"
  have h: "pag_inv ?a" "al_free_group ?a = None" "page_row (al_page_size ?a) ?x" "8 mod al_page_size ?a = 0"
    "(\<lambda>x. x div int (al_page_size ?a)) ` set ?x \<inter> set (pag_get_all_free_pages ?a) = {}"
    by code_simp+
  have "pag_free ?x ?a = Inr (?a\<lparr>al_staged_pages := [[1, 3]], al_num_staged_pages := 2\<rparr>)" by code_simp
  then show ?thesis using paged_free_segment_equals_free [OF h] by auto
qed

end
