(* ===== verification/Radix_Slots.thy ===== *)
theory Radix_Slots
  imports Radix_Split KV_Pool
begin

text \<open>
  The slots of the tree and of the allocator behind it: the values of the nodes are whole pages,
  no slot is in two nodes, and none is free at the same time. Splitting a node keeps this.
\<close>

section \<open>The allocator behind the cache\<close>

fun ka_page_size :: "kv_alloc \<Rightarrow> nat" where
  "ka_page_size (TokenA a) = al_page_size a"
| "ka_page_size (PagedA a) = al_page_size a"

fun ka_inv :: "kv_alloc \<Rightarrow> bool" where
  "ka_inv (TokenA a) = tok_inv a"
| "ka_inv (PagedA a) = pag_inv a"

text \<open>Slots that are free or pending in an open free group, and all slots of the pool.\<close>

fun ka_free_set :: "kv_alloc \<Rightarrow> int set" where
  "ka_free_set (TokenA a) = tok_avail a \<union> tok_pending a"
| "ka_free_set (PagedA a) = pag_avail a \<union> pag_pending a"

fun ka_universe :: "kv_alloc \<Rightarrow> int set" where
  "ka_universe (TokenA a) = tok_universe a"
| "ka_universe (PagedA a) = pag_universe a"

text \<open>A sequence of slots made of whole, different pages.\<close>

definition blocked :: "nat \<Rightarrow> int list \<Rightarrow> bool" where
  "blocked ps v \<longleftrightarrow> (\<exists>pages. v = page_slots ps pages \<and> distinct pages)"

lemma page_slots_append: "page_slots ps (a @ b) = page_slots ps a @ page_slots ps b"
  by (simp add: page_slots_def)

lemma page_slots_Nil [simp]: "page_slots ps [] = []"
  by (simp add: page_slots_def)

lemma page_slots_take: "take (k * ps) (page_slots ps pages) = page_slots ps (take k pages)"
  and page_slots_drop: "drop (k * ps) (page_slots ps pages) = page_slots ps (drop k pages)"
proof -
  have e: "page_slots ps pages = page_slots ps (take k pages) @ page_slots ps (drop k pages)"
    by (metis append_take_drop_id page_slots_append)
  have "take (k * ps) (page_slots ps pages) = page_slots ps (take k pages) \<and>
     drop (k * ps) (page_slots ps pages) = page_slots ps (drop k pages)"
  proof (cases "k \<le> length pages")
    case True
    then have "k * ps = length (page_slots ps (take k pages))" by (simp add: min_def)
    then show ?thesis unfolding e by (simp only: take_append drop_append take_all drop_all order_refl diff_self_eq_0 take_0 drop_0 append_Nil append_Nil2)
  qed simp
  then show "take (k * ps) (page_slots ps pages) = page_slots ps (take k pages)"
    "drop (k * ps) (page_slots ps pages) = page_slots ps (drop k pages)" by simp_all
qed

lemma blocked_take_drop: "blocked ps v \<Longrightarrow> ps dvd k \<Longrightarrow> blocked ps (take k v) \<and> blocked ps (drop k v)"
  by (auto simp: blocked_def page_slots_take page_slots_drop mult.commute [of ps] elim!: dvdE intro: distinct_take distinct_drop)

lemma blocked_distinct: "blocked ps v \<Longrightarrow> distinct v"
  by (auto simp: blocked_def distinct_page_slots)

lemma blocked_one [simp]: "blocked (Suc 0) v \<longleftrightarrow> distinct v"
proof -
  have "page_slots (Suc 0) v = v" by (induction v) (simp_all add: page_slots_def)
  then show ?thesis by (metis blocked_def blocked_distinct)
qed

lemma page_slots_nth: "i < length pages \<Longrightarrow> j < ps \<Longrightarrow> page_slots ps pages ! (i * ps + j) = pages ! i * int ps + int j"
proof (induction pages arbitrary: i)
  case (Cons p pages)
  have e: "page_slots ps (p # pages) = map (\<lambda>k. p * int ps + int k) [0..<ps] @ page_slots ps pages" by (simp add: page_slots_def)
  show ?case
  proof (cases i)
    case (Suc i')
    have "page_slots ps (p # pages) ! (i * ps + j) = page_slots ps pages ! (i' * ps + j)"
      by (simp add: e nth_append Suc)
    then show ?thesis using Cons.IH [of i'] Cons.prems Suc by simp
  qed (use Cons.prems in \<open>simp add: e nth_append\<close>)
qed simp

lemma stride_page_slots: "0 < ps \<Longrightarrow> stride ps (page_slots ps pages) = map (\<lambda>p. p * int ps) pages"
proof -
  assume ps: "0 < ps"
  have "(length (page_slots ps pages) + ps - 1) div ps = length pages"
  proof -
    have "(ps - 1 + length pages * ps) div ps = length pages" by (subst div_mult_self1) (use ps in auto)
    moreover have "length (page_slots ps pages) + ps - 1 = ps - 1 + length pages * ps" using ps by simp
    ultimately show ?thesis by (simp only:)
  qed
  then show ?thesis
    using page_slots_nth [of _ pages 0 ps] ps by (intro nth_equalityI) (simp_all add: stride_def)
qed

lemma pages_of_slots:
  assumes ps: "0 < ps"
  shows "map (\<lambda>x. x div int ps) (stride ps (page_slots ps pages)) = pages"
    "distinct pages \<Longrightarrow> sort pages = unique (map (\<lambda>x. x div int ps) (page_slots ps pages))"
proof -
  show "map (\<lambda>x. x div int ps) (stride ps (page_slots ps pages)) = pages"
    unfolding stride_page_slots [OF ps] using ps by (simp add: comp_def)
  assume d: "distinct pages"
  have "(\<lambda>x. x div int ps) ` slots_of ps (set pages) = set pages"
  proof (intro set_eqI iffI)
    fix p assume "p \<in> set pages"
    then show "p \<in> (\<lambda>x. x div int ps) ` slots_of ps (set pages)"
      using ps by (intro image_eqI [of _ _ "p * int ps"]) (simp_all add: slots_of_def)
  qed (auto simp: slots_of_def)
  then show "sort pages = unique (map (\<lambda>x. x div int ps) (page_slots ps pages))"
    using d ps by (intro sorted_distinct_set_unique) (simp_all add: unique_def)
qed

lemma pag_free_segment_ok:
  assumes i: "pag_inv a" and d: "distinct pages" and v: "v = page_slots (al_page_size a) pages"
    and dis: "set v \<inter> (pag_avail a \<union> pag_pending a) = {}"
  shows "\<exists>a'. pag_free_segment v 0 a = Inr a' \<and> pag_inv a' \<and> al_page_size a' = al_page_size a \<and>
     pag_avail a' \<union> pag_pending a' = pag_avail a \<union> pag_pending a \<union> set v \<and> pag_universe a' = pag_universe a"
proof -
  let ?ps = "al_page_size a" and ?ids = "concat (al_free_page_ids_group a)"
  have ps: "0 < ?ps" using i by (simp add: pag_inv_def pag_core_def)
  have sv: "set v = slots_of ?ps (set pages)" using ps by (simp add: v)
  have rep: "p * int ?ps \<in> slots_of ?ps P \<longleftrightarrow> p \<in> P" for p P using ps by (simp add: slots_of_def)
  have in_v: "p * int ?ps \<in> set v" if "p \<in> set pages" for p using that sv rep by simp
  have fresh: "set pages \<inter> set (pag_get_all_free_pages a) = {}" "set pages \<inter> set ?ids = {}"
    "set pages \<inter> (\<lambda>x. x div int ?ps) ` set (group_slots (al_free_group a)) = {}"
  proof -
    show "set pages \<inter> set (pag_get_all_free_pages a) = {}" "set pages \<inter> set ?ids = {}"
      using dis in_v rep unfolding pag_avail_def pag_pending_def by blast+
    have "x div int ?ps \<in> set pages \<Longrightarrow> x \<in> set v" for x by (simp add: sv slots_of_def)
    then show "set pages \<inter> (\<lambda>x. x div int ?ps) ` set (group_slots (al_free_group a)) = {}"
      using dis unfolding pag_pending_def by blast
  qed
  have seg: "pag_free_segment v 0 a = pag_free_page_ids pages a"
  proof (cases "pages = []")
    case False
    then have "length v \<noteq> 0" using ps by (simp add: v)
    then show ?thesis
      using pages_of_slots [OF ps, of pages] d by (simp add: pag_free_segment_def Let_def v rbind_Inr)
  qed (simp add: pag_free_segment_def pag_free_page_ids_def v)
  show ?thesis
  proof (cases "pages = []")
    case True
    then show ?thesis using i unfolding seg by (simp add: pag_free_page_ids_def v)
  next
    case False
    show ?thesis
    proof (cases "al_free_group a")
      case None
      then have ids: "al_free_page_ids_group a = []" using i by (simp add: pag_inv_def)
      have c: "pag_core a (pages @ [])" using i ids d fresh(1) by (auto simp: pag_inv_def pag_core_def)
      note r = pag_release [OF c]
      have "pag_check (pag_release_page_ids pages a) = Inr (pag_release_page_ids pages a)"
        using r(1) by (simp add: pag_check_def pag_debug_check_no_duplicate_pages_def Let_def length_unique_distinct pag_core_def)
      then have "pag_free_segment v 0 a = Inr (pag_release_page_ids pages a)"
        unfolding seg using False None by (simp add: pag_free_page_ids_def)
      then show ?thesis
        using r None ids sv
        by (simp add: pag_inv_def pag_avail_def pag_pending_def pag_universe_def page_closed_def slots_of_Un Un_commute)
          (simp add: slots_of_def)
    next
      case (Some g)
      define a' where "a' = a\<lparr>al_free_page_ids_group := al_free_page_ids_group a @ [pages]\<rparr>"
      have "pag_free_segment v 0 a = Inr a'" unfolding seg using False Some by (simp add: pag_free_page_ids_def a'_def)
      moreover have "pag_inv a'"
      proof -
        have "distinct (pag_get_all_free_pages a @ ?ids @ pages)"
          using i fresh(1,2) d unfolding pag_inv_def pag_core_def by (simp add: Int_commute del: set_concat) blast
        moreover have "(\<lambda>x. x div int ?ps) ` set (group_slots (al_free_group a)) \<inter> set (pag_get_all_free_pages a @ ?ids @ pages) = {}"
          using i fresh(3) unfolding pag_inv_def set_append by blast
        ultimately show ?thesis using i Some unfolding a'_def pag_inv_def pag_core_def by (simp del: set_concat)
      qed
      ultimately show ?thesis
        using sv by (intro exI [of _ a']) (simp add: a'_def pag_avail_def pag_pending_def pag_universe_def slots_of_Un Un_ac)
    qed
  qed
qed

lemma ka_free_segment_ok:
  assumes i: "ka_inv a" and v: "blocked (ka_page_size a) v" and dis: "set v \<inter> ka_free_set a = {}"
  shows "\<exists>a'. ka_free_segment v 0 a = Inr a' \<and> ka_inv a' \<and> ka_page_size a' = ka_page_size a \<and>
     ka_free_set a' = ka_free_set a \<union> set v \<and> ka_universe a' = ka_universe a"
proof (cases a)
  case (TokenA b)
  have b: "tok_inv b" "al_page_size b = 1" "set v \<inter> (tok_avail b \<union> tok_pending b) = {}" using assms TokenA by (auto simp: tok_inv_def)
  have "tok_inv (tok_free v b) \<and> tok_avail (tok_free v b) \<union> tok_pending (tok_free v b) =
      tok_avail b \<union> tok_pending b \<union> set v \<and> tok_universe (tok_free v b) = tok_universe b"
    by (rule tok_free_keeps [OF b(1) blocked_distinct [OF v] b(3)])
  moreover have "tok_free_segment v 0 b = Inr (tok_free v b)" by (simp add: tok_free_segment_def rbind_Inr)
  ultimately show ?thesis using TokenA b(2) by (auto simp: rbind_Inr tok_inv_def)
next
  case (PagedA b)
  obtain pages where "v = page_slots (al_page_size b) pages" "distinct pages" using v PagedA by (auto simp: blocked_def)
  from pag_free_segment_ok [OF _ this(2,1)] show ?thesis using assms PagedA by (auto simp: rbind_Inr)
qed

section \<open>The slots held by the tree\<close>

definition node_slots :: "store \<Rightarrow> nat \<Rightarrow> int set" where
  "node_slots st i = set (the (n_value (node_at st i)))"

definition tree_slots :: "store \<Rightarrow> nat \<Rightarrow> nat set \<Rightarrow> int set" where
  "tree_slots st r L = (\<Union>i\<in>L - {r}. node_slots st i)"

definition slots_ok :: "nat set \<Rightarrow> cache \<Rightarrow> bool" where
  "slots_ok L s \<longleftrightarrow> ka_inv (rc_alloc s) \<and> ka_page_size (rc_alloc s) = rc_page_size s \<and>
     (\<forall>i\<in>L - {rc_root s}. blocked (rc_page_size s) (the (n_value (nd s i)))) \<and>
     (\<forall>i\<in>L - {rc_root s}. \<forall>j\<in>L - {rc_root s}. i \<noteq> j \<longrightarrow> node_slots (rc_store s) i \<inter> node_slots (rc_store s) j = {}) \<and>
     tree_slots (rc_store s) (rc_root s) L \<inter> ka_free_set (rc_alloc s) = {} \<and>
     tree_slots (rc_store s) (rc_root s) L \<subseteq> ka_universe (rc_alloc s)"

lemma slots_okD:
  assumes "slots_ok L s"
  shows "ka_inv (rc_alloc s)" "ka_page_size (rc_alloc s) = rc_page_size s"
    "i \<in> L \<Longrightarrow> i \<noteq> rc_root s \<Longrightarrow> blocked (rc_page_size s) (the (n_value (nd s i)))"
    "i \<in> L \<Longrightarrow> i \<noteq> rc_root s \<Longrightarrow> j \<in> L \<Longrightarrow> j \<noteq> rc_root s \<Longrightarrow> i \<noteq> j \<Longrightarrow> node_slots (rc_store s) i \<inter> node_slots (rc_store s) j = {}"
    "tree_slots (rc_store s) (rc_root s) L \<inter> ka_free_set (rc_alloc s) = {}"
    "tree_slots (rc_store s) (rc_root s) L \<subseteq> ka_universe (rc_alloc s)"
  using assms unfolding slots_ok_def by blast+

lemma tree_slots_remove:
  assumes "x \<in> L" "x \<noteq> r"
  shows "tree_slots st r L = node_slots st x \<union> tree_slots st r (L - {x})"
  using assms by (auto simp: tree_slots_def)

lemma slots_ok_shape:
  assumes "same_shape (rc_store s) (rc_store s')" "rc_root s' = rc_root s" "rc_page_size s' = rc_page_size s" "rc_alloc s' = rc_alloc s"
  shows "slots_ok L s' = slots_ok L s" "node_slots (rc_store s') = node_slots (rc_store s)"
    "tree_slots (rc_store s') = tree_slots (rc_store s)"
proof -
  have v: "n_value (nd s' i) = n_value (nd s i)" for i using assms(1) by (simp add: same_shape_def)
  show n: "node_slots (rc_store s') = node_slots (rc_store s)" by (simp add: fun_eq_iff node_slots_def v)
  show t: "tree_slots (rc_store s') = tree_slots (rc_store s)" by (simp add: fun_eq_iff tree_slots_def n)
  show "slots_ok L s' = slots_ok L s" by (simp add: slots_ok_def v n t assms)
qed

section \<open>Slots under splitting\<close>

lemma split_slots:
  assumes X: "split_ctx ps eagle st st' r n c p k L"
  shows "tree_slots st' r (insert n L) = tree_slots st r L"
    "(\<forall>i\<in>L - {r}. blocked ps (the (n_value (node_at st i)))) \<Longrightarrow> \<forall>i\<in>insert n L - {r}. blocked ps (the (n_value (node_at st' i)))"
    "(\<forall>i\<in>L - {r}. distinct (the (n_value (node_at st i)))) \<Longrightarrow>
     (\<forall>i\<in>L - {r}. \<forall>j\<in>L - {r}. i \<noteq> j \<longrightarrow> node_slots st i \<inter> node_slots st j = {}) \<Longrightarrow>
     \<forall>i\<in>insert n L - {r}. \<forall>j\<in>insert n L - {r}. i \<noteq> j \<longrightarrow> node_slots st' i \<inter> node_slots st' j = {}"
proof -
  note x = split_ctxD [OF X] and f = split_fresh [OF X]
  have v: "the (n_value (node_at st' n)) = take k (the (n_value (node_at st c)))"
    "the (n_value (node_at st' c)) = drop k (the (n_value (node_at st c)))"
    using split_parts(3,4) [OF X] by auto
  have vo: "n_value (node_at st' i) = n_value (node_at st i)" if "i \<in> L" "i \<noteq> c" for i
  proof -
    have "i \<noteq> n" using that(1) f(1) by auto
    then show ?thesis by (rule split_keyval(2) [OF X _ that(2)])
  qed
  have un: "node_slots st' n \<union> node_slots st' c = node_slots st c"
    unfolding node_slots_def v by (metis append_take_drop_id set_append)
  have old: "node_slots st' i = node_slots st i" if "i \<in> L" "i \<noteq> c" for i using vo [OF that] by (simp add: node_slots_def)
  show "tree_slots st' r (insert n L) = tree_slots st r L"
  proof -
    have L: "insert n L - {r} = insert n (insert c (L - {c} - {r}))" "L - {r} = insert c (L - {c} - {r})" using x(4) f by auto
    have "(\<Union>i\<in>L - {c} - {r}. node_slots st' i) = (\<Union>i\<in>L - {c} - {r}. node_slots st i)" using old by auto
    then show ?thesis unfolding tree_slots_def L using un by auto
  qed
  show "\<forall>i\<in>insert n L - {r}. blocked ps (the (n_value (node_at st' i)))"
    if b: "\<forall>i\<in>L - {r}. blocked ps (the (n_value (node_at st i)))"
  proof
    fix i assume i: "i \<in> insert n L - {r}"
    have "blocked ps (the (n_value (node_at st c)))" using b x(4) f(5) by blast
    from blocked_take_drop [OF this x(9)] show "blocked ps (the (n_value (node_at st' i)))"
      using v vo b i by (cases "i = n"; cases "i = c") auto
  qed
  assume d: "\<forall>i\<in>L - {r}. distinct (the (n_value (node_at st i)))"
    and dis: "\<forall>i\<in>L - {r}. \<forall>j\<in>L - {r}. i \<noteq> j \<longrightarrow> node_slots st i \<inter> node_slots st j = {}"
  have "distinct (the (n_value (node_at st c)))" using d x(4) f(5) by blast
  then have nc: "node_slots st' n \<inter> node_slots st' c = {}"
    unfolding node_slots_def v by (metis append_take_drop_id distinct_append)
  have sub: "node_slots st' i \<subseteq> node_slots st (if i = n then c else i)" if "i \<in> insert n L" for i
    using that un old by (cases "i = n"; cases "i = c") auto
  show "\<forall>i\<in>insert n L - {r}. \<forall>j\<in>insert n L - {r}. i \<noteq> j \<longrightarrow> node_slots st' i \<inter> node_slots st' j = {}"
  proof (intro ballI impI)
    fix i j assume h: "i \<in> insert n L - {r}" "j \<in> insert n L - {r}" "i \<noteq> j"
    let ?i = "if i = n then c else i" and ?j = "if j = n then c else j"
    show "node_slots st' i \<inter> node_slots st' j = {}"
    proof (cases "?i = ?j")
      case True
      then have "(i = n \<and> j = c) \<or> (i = c \<and> j = n)" using h(3) by (auto split: if_splits)
      then show ?thesis using nc by auto
    next
      case False
      have "?i \<in> L - {r}" "?j \<in> L - {r}" using h x(4) f(5) by auto
      then have "node_slots st ?i \<inter> node_slots st ?j = {}" using dis False by blast
      then show ?thesis using sub [of i] sub [of j] h by blast
    qed
  qed
qed

lemma split_slots_ok:
  assumes so: "slots_ok L s" and X: "split_ctx (rc_page_size s) (rc_eagle s) (rc_store s) st' (rc_root s) n c p k L"
    and s': "rc_store s' = st'" "rc_root s' = rc_root s" "rc_page_size s' = rc_page_size s" "rc_alloc s' = rc_alloc s"
  shows "slots_ok (insert n L) s'"
proof -
  have b: "\<forall>i\<in>L - {rc_root s}. blocked (rc_page_size s) (the (n_value (nd s i)))"
    and d: "\<forall>i\<in>L - {rc_root s}. \<forall>j\<in>L - {rc_root s}. i \<noteq> j \<longrightarrow> node_slots (rc_store s) i \<inter> node_slots (rc_store s) j = {}"
    using so by (simp_all add: slots_ok_def)
  have "\<forall>i\<in>L - {rc_root s}. distinct (the (n_value (nd s i)))" using b blocked_distinct by blast
  from split_slots(3) [OF X this d] split_slots(2) [OF X b] show ?thesis
    using so unfolding slots_ok_def s' split_slots(1) [OF X] by blast
qed

end
