(* ===== verification/Radix_Walk.thy ===== *)
theory Radix_Walk
  imports Radix_Slots
begin

text \<open>
  Walking down the tree: positions of nodes, one step of the loops of \<open>match_prefix_helper\<close> and
  \<open>insert_helper\<close>, and the two loops. Both end at a node that spells the longest cached page-aligned
  prefix of the key, splitting a node where the key leaves it, without changing what is cached.
\<close>

section \<open>Positions in the tree\<close>

definition at_node :: "store \<Rightarrow> nat \<Rightarrow> nat \<Rightarrow> tunit list \<Rightarrow> int list \<Rightarrow> bool" where
  "at_node st i j w v \<longleftrightarrow>
     (\<exists>is. chain (edge st) i is \<and> last (i # is) = j \<and> path_key st is = w \<and> path_val st is = v)"

lemma at_node_refl: "at_node st i i [] []"
  unfolding at_node_def by (rule exI [of _ "[]"]) simp

lemma at_node_edge: "edge st i c \<Longrightarrow> at_node st i c (tk (n_key (node_at st c))) (the (n_value (node_at st c)))"
  unfolding at_node_def by (rule exI [of _ "[c]"]) simp

lemma at_node_trans:
  assumes "at_node st i c w v" "at_node st c j w' v'"
  shows "at_node st i j (w @ w') (v @ v')"
proof -
  obtain "is" where i: "chain (edge st) i is" "last (i # is) = c" "path_key st is = w" "path_val st is = v"
    using assms(1) unfolding at_node_def by blast
  obtain js where j: "chain (edge st) c js" "last (c # js) = j" "path_key st js = w'" "path_val st js = v'"
    using assms(2) unfolding at_node_def by blast
  have "chain (edge st) i (is @ js)" unfolding chain_append i(2) using i(1) j(1) by blast
  moreover have "last (i # is @ js) = j" using i(2) j(2) by (cases js) auto
  ultimately show ?thesis unfolding at_node_def using i(3,4) j(3,4) by (intro exI [of _ "is @ js"]) simp
qed

lemma at_node_cached: "at_node st i j w v \<Longrightarrow> tree_ok ps eagle st r L \<Longrightarrow> i \<in> L \<Longrightarrow> ps dvd length w \<Longrightarrow> cached ps st i w v"
  unfolding at_node_def cached_def
  using length_path tree_ok_chain by (metis order_refl prefix_order.refl take_all)

lemma split_at_node:
  assumes X: "split_ctx ps eagle st st' r n c p k L" and q: "q \<in> L"
  shows "at_node st q j w v \<Longrightarrow> at_node st' q j w v"
proof -
  note x = split_ctxD [OF X]
  assume "at_node st q j w v"
  then obtain "is" where i: "chain (edge st) q is" "last (q # is) = j" "path_key st is = w" "path_val st is = v"
    unfolding at_node_def by blast
  have s: "set is \<subseteq> L" using tree_ok_chain [OF x(1) q i(1)] by blast
  have "last (q # ins n c is) = j" unfolding last_ins by (rule i(2))
  then show ?thesis
    unfolding at_node_def
    using split_chain(1) [OF X q i(1)] split_paths [OF X s] i(3,4) by blast
qed

text \<open>The first page decides the child: what is cached below a child is cached behind its key.\<close>

lemma cached_via_child:
  assumes t: "tree_ok ps eagle st r L" and i: "i \<in> L" and e: "edge st i c"
    and f: "take ps w = take ps (tk (n_key (node_at st c)))" and w: "w \<noteq> []" "cached ps st i w v"
  obtains js where "chain (edge st) c js" "prefix w (tk (n_key (node_at st c)) @ path_key st js)"
    "v = take (length w) (the (n_value (node_at st c)) @ path_val st js)" "ps dvd length w"
proof -
  obtain "is" where d: "ps dvd length w" and j: "chain (edge st) i is" "prefix w (path_key st is)"
    "v = take (length w) (path_val st is)" using w(2) unfolding cached_def by blast
  obtain a js where js: "is = a # js" using w(1) j(2) by (cases "is") auto
  have "take ps w = take ps (tk (n_key (node_at st a)))"
    using first_page [OF t i, of a js w] j(1,2) d w(1) js by simp
  then have "a = c" using siblings_differ [OF t i, of a c] j(1) js e f by simp
  then show ?thesis using that [of js] j d js by simp
qed

lemma cached_child:
  assumes t: "tree_ok ps eagle st r L" and i: "i \<in> L" and e: "edge st i c"
  shows "cached ps st i (tk (n_key (node_at st c)) @ w) v \<longleftrightarrow>
    (\<exists>v'. cached ps st c w v' \<and> v = the (n_value (node_at st c)) @ v')"
proof -
  let ?k = "tk (n_key (node_at st c))" and ?v = "the (n_value (node_at st c))"
  have c: "c \<in> L" "c \<noteq> r" using tree_ok_edge [OF t i e] by blast+
  have lv: "length ?v = length ?k" and dk: "ps dvd length ?k" and k0: "?k \<noteq> []" "ps \<le> length ?k"
    using tree_okD(9) [OF t c] by (auto simp: node_ok_def intro: dvd_imp_le)
  show ?thesis
  proof
    assume h: "cached ps st i (?k @ w) v"
    then obtain js where js: "chain (edge st) c js" "prefix (?k @ w) (?k @ path_key st js)"
      "v = take (length (?k @ w)) (?v @ path_val st js)" "ps dvd length (?k @ w)"
      using cached_via_child [OF t i e _ _ h] k0 by auto
    have "ps dvd length w" using js(4) dk by (simp add: dvd_add_right_iff)
    then have "cached ps st c w (take (length w) (path_val st js))"
      unfolding cached_def using js(1,2) by auto
    moreover have "v = ?v @ take (length w) (path_val st js)" using js(3) lv by simp
    ultimately show "\<exists>v'. cached ps st c w v' \<and> v = ?v @ v'" by blast
  next
    assume "\<exists>v'. cached ps st c w v' \<and> v = ?v @ v'"
    then obtain js where "ps dvd length w" "chain (edge st) c js" "prefix w (path_key st js)"
      "v = ?v @ take (length w) (path_val st js)" unfolding cached_def by blast
    then show "cached ps st i (?k @ w) v"
      unfolding cached_def using e lv dk by (intro conjI exI [of _ "c # js"]) simp_all
  qed
qed

section \<open>One step down the tree\<close>

lemma prefix_take_min:
  assumes "prefix u (a @ b)"
  shows "take (min (length u) (length a)) u = take (min (length u) (length a)) a"
proof -
  obtain z where "a @ b = u @ z" using assms by (rule prefixE)
  then have "take (min (length u) (length a)) (a @ b) = take (min (length u) (length a)) (u @ z)" by (rule arg_cong)
  then show ?thesis by simp
qed

definition key_ok :: "cache \<Rightarrow> radix_key \<Rightarrow> bool" where
  "key_ok s key \<longleftrightarrow> salt_ok key \<and> is_bigram key = rc_eagle s \<and> rc_page_size s dvd rk_len key"

lemma step_miss:
  assumes w: "cache_wf L H s" and i: "i \<in> L" and k: "key_ok s key" and ck: "child_key key (rc_page_size s) = Inr ck"
    and miss: "map_of (n_children (nd s i)) ck = None"
    and c: "cached (rc_page_size s) (rc_store s) i u v" "prefix u (tk key)"
  shows "u = []"
proof (rule ccontr)
  assume u: "u \<noteq> []"
  note t = wfD(1) [OF w]
  have ps: "0 < rc_page_size s" by (rule tree_okD(1) [OF t])
  obtain "is" where d: "rc_page_size s dvd length u" and j: "chain (edge (rc_store s)) i is" "prefix u (path_key (rc_store s) is)"
    using c(1) unfolding cached_def by blast
  then obtain a js where js: "is = a # js" using u by (cases "is") auto
  have e: "edge (rc_store s) i a" using j(1) js by simp
  have f: "take (rc_page_size s) u = take (rc_page_size s) (tk (n_key (nd s a)))"
    using first_page [OF t i, of a js u] j d u js by simp
  have lu: "rc_page_size s \<le> length u" using d u by (simp add: dvd_imp_le)
  then have "take (rc_page_size s) (tk key) = take (rc_page_size s) (tk (n_key (nd s a)))"
    using f c(2) by (auto elim!: prefixE)
  moreover have "rc_page_size s \<le> rk_len key" using lu prefix_length_le [OF c(2)] by simp
  moreover have "rc_page_size s \<le> rk_len (n_key (nd s a))"
    using tree_okD(9) [OF t] tree_ok_edge [OF t i e] by (auto simp: node_ok_def intro: dvd_imp_le)
  ultimately have "child_key (n_key (nd s a)) (rc_page_size s) = Inr ck"
    using child_key_inj [OF ps, of key "n_key (nd s a)"] ck by simp
  then have "map_of (n_children (nd s i)) ck = Some a"
    using map_of_child [OF tree_okD(8) [OF t i]] e by blast
  then show False using miss by simp
qed

lemma step_hit:
  assumes w: "cache_wf L H s" and i: "i \<in> L" and k: "key_ok s key" "0 < rk_len key"
    and ck: "child_key key (rc_page_size s) = Inr ck" and hit: "map_of (n_children (nd s i)) ck = Some c"
  defines "m \<equiv> page_floor (rc_page_size s) (lcp (tk (n_key (nd s c))) (tk key))"
  shows "edge (rc_store s) i c" "c \<in> L" "c \<noteq> rc_root s" "rk_match (n_key (nd s c)) key (rc_page_size s) = Inr m"
    "0 < m" "m \<le> rk_len (n_key (nd s c))" "m \<le> rk_len key" "rc_page_size s dvd m"
    "take m (tk key) = take m (tk (n_key (nd s c)))"
    "m < rk_len (n_key (nd s c)) \<Longrightarrow> cached (rc_page_size s) (rc_store s) i u v \<Longrightarrow> prefix u (tk key) \<Longrightarrow> length u \<le> m"
proof -
  let ?ps = "rc_page_size s" and ?st = "rc_store s" and ?c = "n_key (nd s c)"
  note t = wfD(1) [OF w]
  have ps: "0 < ?ps" by (rule tree_okD(1) [OF t])
  show e: "edge ?st i c" using hit map_of_child [OF tree_okD(8) [OF t i]] by blast
  show c: "c \<in> L" "c \<noteq> rc_root s" using tree_ok_edge [OF t i e] by blast+
  have n: "node_ok ?ps (rc_eagle s) (nd s c)" by (rule tree_okD(9) [OF t c])
  have l: "?ps \<le> rk_len ?c" "?ps \<le> rk_len key"
    using n k by (auto simp: node_ok_def key_ok_def intro: dvd_imp_le)
  have "child_key ?c ?ps = child_key key ?ps" using hit ck map_of_child [OF tree_okD(8) [OF t i]] by auto
  then have f: "take ?ps (tk ?c) = take ?ps (tk key)" using child_key_inj [OF ps l] by blast
  have "hd (tk ?c) = hd (tk key)" using f ps l by (metis hd_take less_le_not_le)
  then have ns: "namespace ?c = namespace key"
    using l ps by (cases "units ?c"; cases "units key") (auto simp: tk_def simp flip: length_units)
  show rm: "rk_match ?c key ?ps = Inr m"
    using rk_match_eq [OF ns _ ps] n k lcp_tk [OF ns] by (simp add: m_def node_ok_def key_ok_def)
  have "?ps \<le> lcp (tk ?c) (tk key)" using f l by (intro lcp_geI) simp_all
  then have "?ps \<le> m" unfolding m_def by (intro page_floor_geI) simp_all
  then show "0 < m" using ps by simp
  have ml: "m \<le> lcp (tk ?c) (tk key)" by (simp add: m_def)
  show "m \<le> rk_len ?c" "m \<le> rk_len key"
    using ml lcp_le1 [of "tk ?c" "tk key"] lcp_le2 [of "tk ?c" "tk key"] by simp_all
  show "?ps dvd m" by (simp add: m_def)
  show "take m (tk key) = take m (tk ?c)" using lcp_take_eq [OF ml] by simp
  show "length u \<le> m" if lt: "m < rk_len ?c" and h: "cached ?ps ?st i u v" and p: "prefix u (tk key)"
  proof (cases "u = []")
    case False
    have d: "?ps dvd length u" using h by (simp add: cached_def)
    then have pu: "?ps \<le> length u" using False by (simp add: dvd_imp_le)
    then have "take ?ps u = take ?ps (tk ?c)" using f p by (auto elim!: prefixE)
    then obtain js where js: "prefix u (tk ?c @ path_key ?st js)"
      using cached_via_child [OF t i e _ False h] by blast
    let ?q = "min (length u) (rk_len ?c)"
    have "?ps dvd ?q" using d n by (auto simp: min_def node_ok_def)
    moreover have "take ?q (tk ?c) = take ?q (tk key)"
    proof -
      have "take ?q (tk ?c) = take ?q u" using prefix_take_min [OF js] by simp
      also have "\<dots> = take ?q (tk key)" using p by (auto elim!: prefixE)
      finally show ?thesis .
    qed
    then have "?q \<le> lcp (tk ?c) (tk key)" using prefix_length_le [OF p] by (intro lcp_geI) simp_all
    ultimately have "?q \<le> m" unfolding m_def by (intro page_floor_geI)
    then show ?thesis using lt by simp
  qed simp
qed


section \<open>Growing a tree without changing what it stands for\<close>

definition same_frame :: "cache \<Rightarrow> cache \<Rightarrow> bool" where
  "same_frame s s' \<longleftrightarrow> rc_root s' = rc_root s \<and> rc_page_size s' = rc_page_size s \<and> rc_eagle s' = rc_eagle s \<and>
     rc_disable s' = rc_disable s \<and> rc_strategy s' = rc_strategy s \<and> rc_hasher s' = rc_hasher s \<and> rc_clock s' = rc_clock s"

definition grows :: "nat set \<Rightarrow> cache \<Rightarrow> nat set \<Rightarrow> cache \<Rightarrow> bool" where
  "grows L s L' s' \<longleftrightarrow> L \<subseteq> L' \<and> same_frame s s' \<and> rc_alloc s' = rc_alloc s \<and> rc_events s' = rc_events s \<and>
     rc_evictable s' = rc_evictable s \<and> rc_protected s' = rc_protected s \<and> rc_counter s \<le> rc_counter s' \<and>
     (\<forall>q\<in>L. \<forall>u v. cached (rc_page_size s) (rc_store s') q u v = cached (rc_page_size s) (rc_store s) q u v) \<and>
     (\<forall>q\<in>L. \<forall>j u v. at_node (rc_store s) q j u v \<longrightarrow> at_node (rc_store s') q j u v) \<and>
     (slots_ok L s \<longrightarrow> slots_ok L' s') \<and> tree_slots (rc_store s') (rc_root s) L' = tree_slots (rc_store s) (rc_root s) L"

lemma growsD:
  assumes "grows L s L' s'"
  shows "L \<subseteq> L'" "same_frame s s'" "rc_page_size s' = rc_page_size s" "rc_root s' = rc_root s" "rc_eagle s' = rc_eagle s"
    "q \<in> L \<Longrightarrow> cached (rc_page_size s) (rc_store s') q u v = cached (rc_page_size s) (rc_store s) q u v"
    "q \<in> L \<Longrightarrow> at_node (rc_store s) q j u v \<Longrightarrow> at_node (rc_store s') q j u v" "rc_alloc s' = rc_alloc s"
    "rc_events s' = rc_events s" "rc_evictable s' = rc_evictable s" "rc_protected s' = rc_protected s"
    "rc_counter s \<le> rc_counter s'" "slots_ok L s \<Longrightarrow> slots_ok L' s'"
    "tree_slots (rc_store s') (rc_root s) L' = tree_slots (rc_store s) (rc_root s) L"
  using assms unfolding grows_def same_frame_def by blast+

lemma grows_trans:
  assumes a: "grows L s L' s'" and b: "grows L' s' L'' s''"
  shows "grows L s L'' s''"
proof -
  have sub: "\<And>q. q \<in> L \<Longrightarrow> q \<in> L'" using growsD(1) [OF a] by blast
  have fr: "same_frame s s''" using growsD(2) [OF a] growsD(2) [OF b] by (simp add: same_frame_def)
  show ?thesis
    unfolding grows_def
    using sub fr growsD(1,8-14) [OF a] growsD(1,8-14) [OF b] growsD(6,7) [OF a] growsD(6,7) [OF b] growsD(3,4) [OF a]
    by auto
qed

lemma grows_same_state:
  assumes "same_state s s'" "same_frame s s'" "rc_alloc s' = rc_alloc s" "rc_events s' = rc_events s"
  shows "grows L s L s'"
proof -
  have sh: "same_shape (rc_store s) (rc_store s')" using assms(1) by (simp add: same_state_def)
  have "at_node (rc_store s') = at_node (rc_store s)" by (simp add: fun_eq_iff at_node_def same_shape_simps [OF sh])
  moreover have "slots_ok L s' = slots_ok L s" "tree_slots (rc_store s') = tree_slots (rc_store s)"
    using slots_ok_shape [OF sh] assms(2,3) by (simp_all add: same_frame_def)
  ultimately show ?thesis
    using assms by (simp add: grows_def same_state_def same_shape_simps [OF sh])
qed

lemma same_state_set_node:
  assumes "\<And>n. n_children (f n) = n_children n \<and> n_parent (f n) = n_parent n \<and> n_key (f n) = n_key n \<and>
     n_value (f n) = n_value n \<and> n_lock_ref (f n) = n_lock_ref n"
  shows "same_state s (set_node i f s)"
  using same_shape_upd [OF assms] by (simp add: same_state_def set_node_def)

lemma set_node_same:
  assumes f: "\<And>n. n_children (f n) = n_children n \<and> n_parent (f n) = n_parent n \<and> n_key (f n) = n_key n \<and>
     n_value (f n) = n_value n \<and> n_lock_ref (f n) = n_lock_ref n"
  shows "cache_wf L H (set_node i f s) = cache_wf L H s" "grows L s L (set_node i f s)"
    "n_key (nd (set_node i f s) j) = n_key (nd s j)" "n_value (nd (set_node i f s) j) = n_value (nd s j)"
    "n_children (nd (set_node i f s) j) = n_children (nd s j)" "rc_page_size (set_node i f s) = rc_page_size s"
    "edge (rc_store (set_node i f s)) = edge (rc_store s)"
proof -
  show "cache_wf L H (set_node i f s) = cache_wf L H s" by (rule wf_same_state [OF same_state_set_node [OF f]])
  show "grows L s L (set_node i f s)"
    by (rule grows_same_state [OF same_state_set_node [OF f]]) (simp_all add: set_node_def same_frame_def)
  have sh: "same_shape (rc_store s) (rc_store (set_node i f s))"
    using same_state_set_node [where f = f and i = i and s = s, OF f] by (simp add: same_state_def)
  show "n_key (nd (set_node i f s) j) = n_key (nd s j)" "n_value (nd (set_node i f s) j) = n_value (nd s j)"
    "n_children (nd (set_node i f s) j) = n_children (nd s j)"
    using sh by (simp_all add: same_shape_def)
  show "edge (rc_store (set_node i f s)) = edge (rc_store s)" by (rule same_shape_simps(1) [OF sh])
qed (simp add: set_node_def)

lemma split_grows:
  assumes w: "cache_wf L H s" and c: "c \<in> L" "c \<noteq> rc_root s"
    and k: "0 < k" "k < rk_len (n_key (nd s c))" "rc_page_size s dvd k" and e: "edge (rc_store s) i c" "i \<in> L"
  obtains s' where "split_node (n_key (nd s c)) c k s = Inr (rc_counter s, s')"
    "cache_wf (insert (rc_counter s) L) H s'" "grows L s (insert (rc_counter s) L) s'"
    "at_node (rc_store s') i (rc_counter s) (take k (tk (n_key (nd s c)))) (take k (the (n_value (nd s c))))"
    "n_value (nd s' (rc_counter s)) = Some (take k (the (n_value (nd s c))))"
proof -
  let ?n = "rc_counter s"
  obtain st' p where sp: "split_node (n_key (nd s c)) c k s =
      Inr (?n, s\<lparr>rc_store := st', rc_counter := ?n + 1, rc_ticks := rc_ticks s + 2\<rparr>)"
    and X: "split_ctx (rc_page_size s) (rc_eagle s) (rc_store s) st' (rc_root s) ?n c p k L"
    using split_node_eq [OF w c k] by blast
  let ?s' = "s\<lparr>rc_store := st', rc_counter := ?n + 1, rc_ticks := rc_ticks s + 2\<rparr>"
  have ip: "i = p"
    using tree_ok_edge(3) [OF wfD(1) [OF w] e(2,1)] tree_ok_edge(3) [OF wfD(1) [OF w] split_ctxD(5,6) [OF X]] by simp
  have "edge st' p ?n"
    using split_edges [OF X] split_ctxD(5) [OF X] by (auto simp: fun_eq_iff ledge_def split_edge_def)
  then have a: "at_node st' i ?n (take k (tk (n_key (nd s c)))) (take k (the (n_value (nd s c))))"
    using at_node_edge [of st' p ?n] split_parts(1,3) [OF X] ip by simp
  have g: "grows L s (insert ?n L) ?s'"
    using split_cached [OF X] split_at_node [OF X] split_slots_ok [OF _ X, of ?s'] split_slots(1) [OF X]
    by (auto simp: grows_def same_frame_def)
  show ?thesis
    by (rule that [of ?s']) (use sp split_wf [OF w X] g a split_new(2) [OF X] in auto)
qed

section \<open>Walking down to the longest cached prefix\<close>

text \<open>
  From node \<open>i\<close> the walk ends at \<open>j\<close> having spelled a page-aligned prefix of \<open>w\<close> whose slots are
  \<open>v\<close>; no longer aligned prefix of \<open>w\<close> was cached below \<open>i\<close> before.
\<close>

definition found :: "nat \<Rightarrow> store \<Rightarrow> store \<Rightarrow> nat \<Rightarrow> nat \<Rightarrow> tunit list \<Rightarrow> int list \<Rightarrow> bool" where
  "found ps st st' i j w v \<longleftrightarrow> length v \<le> length w \<and> ps dvd length v \<and>
     at_node st' i j (take (length v) w) v \<and>
     (\<forall>u u'. cached ps st i u u' \<longrightarrow> prefix u w \<longrightarrow> length u \<le> length v)"

lemma found_stop:
  "(\<And>u u'. cached ps st i u u' \<Longrightarrow> prefix u w \<Longrightarrow> u = []) \<Longrightarrow> found ps st st' i i w []"
  using at_node_refl by (fastforce simp: found_def)

lemma found_step:
  assumes w: "cache_wf L H s" and i: "i \<in> L" and e: "edge (rc_store s) i c"
    and tk: "take (rk_len (n_key (nd s c))) x = tk (n_key (nd s c))" and le: "rk_len (n_key (nd s c)) \<le> length x"
    and g: "grows L s L' s'"
    and f: "found (rc_page_size s) (rc_store s) (rc_store s') c j (drop (rk_len (n_key (nd s c))) x) v"
  shows "found (rc_page_size s) (rc_store s) (rc_store s') i j x (the (n_value (nd s c)) @ v)"
proof -
  let ?ps = "rc_page_size s" and ?k = "tk (n_key (nd s c))" and ?v = "the (n_value (nd s c))"
  note t = wfD(1) [OF w]
  have c: "c \<in> L" "c \<noteq> rc_root s" using tree_ok_edge [OF t i e] by blast+
  have n: "node_ok ?ps (rc_eagle s) (nd s c)" by (rule tree_okD(9) [OF t c])
  have lv: "length ?v = length ?k" and dk: "?ps dvd length ?k" using n by (auto simp: node_ok_def)
  have x: "x = ?k @ drop (length ?k) x" using tk by (metis append_take_drop_id length_tk)
  have a: "at_node (rc_store s') i c ?k ?v" by (rule growsD(7) [OF g i at_node_edge [OF e]])
  have "at_node (rc_store s') c j (take (length v) (drop (length ?k) x)) v" using f by (simp add: found_def)
  from at_node_trans [OF a this]
  have at: "at_node (rc_store s') i j (take (length (?v @ v)) x) (?v @ v)"
    using lv tk by (simp add: take_add)
  have mx: "length u \<le> length (?v @ v)" if h: "cached ?ps (rc_store s) i u u'" "prefix u x" for u u'
  proof (cases "length u \<le> length ?k")
    case False
    then have "prefix ?k u" using h(2) x by (metis append_eq_append_conv_if linorder_le_cases prefixI prefix_length_prefix)
    then obtain u2 where u2: "u = ?k @ u2" by (elim prefixE)
    obtain v' where "cached ?ps (rc_store s) c u2 v'"
      using h(1) u2 cached_child [OF t i e] by blast
    moreover have "prefix u2 (drop (length ?k) x)" using h(2) u2 by (subst (asm) x) simp
    ultimately have "length u2 \<le> length v" using f by (auto simp: found_def)
    then show ?thesis using u2 lv by simp
  qed (use lv in simp)
  show ?thesis
    unfolding found_def using at mx f dk lv le by (auto simp: found_def)
qed

text \<open>A child with the same first page: either the key leaves it inside, and it is split, or it spells it all.\<close>

lemma walk_hit:
  assumes w: "cache_wf L H s" and i: "i \<in> L" and k: "key_ok s key" "0 < rk_len key"
    and ck: "child_key key (rc_page_size s) = Inr ck" and hit: "map_of (n_children (nd s i)) ck = Some c"
  obtains (split) m s' where "rk_match (n_key (nd s c)) key (rc_page_size s) = Inr m" "m < rk_len (n_key (nd s c))"
      "split_node (n_key (nd s c)) c m s = Inr (rc_counter s, s')"
      "cache_wf (insert (rc_counter s) L) H s'" "grows L s (insert (rc_counter s) L) s'"
      "n_value (nd s' (rc_counter s)) = Some (take m (the (n_value (nd s c))))"
      "found (rc_page_size s) (rc_store s) (rc_store s') i (rc_counter s) (tk key) (take m (the (n_value (nd s c))))"
      "length (take m (the (n_value (nd s c)))) = m" "0 < m" "m \<le> rk_len key" "rc_page_size s dvd m"
    | (full) m v where "rk_match (n_key (nd s c)) key (rc_page_size s) = Inr m" "m = rk_len (n_key (nd s c))"
      "n_value (nd s c) = Some v" "length v = m" "0 < m" "m \<le> rk_len key" "take m (tk key) = tk (n_key (nd s c))"
      "edge (rc_store s) i c" "c \<in> L" "rc_page_size s dvd m"
proof -
  define m where "m = page_floor (rc_page_size s) (lcp (tk (n_key (nd s c))) (tk key))"
  note h = step_hit [OF w i k ck hit, folded m_def]
  obtain v where v: "n_value (nd s c) = Some v" "length v = rk_len (n_key (nd s c))"
    using tree_okD(9) [OF wfD(1) [OF w] h(2,3)] by (auto simp: node_ok_def)
  show ?thesis
  proof (cases "m < rk_len (n_key (nd s c))")
    case True
    obtain s' where s': "split_node (n_key (nd s c)) c m s = Inr (rc_counter s, s')"
      "cache_wf (insert (rc_counter s) L) H s'" "grows L s (insert (rc_counter s) L) s'"
      "at_node (rc_store s') i (rc_counter s) (take m (tk (n_key (nd s c)))) (take m (the (n_value (nd s c))))"
      "n_value (nd s' (rc_counter s)) = Some (take m (the (n_value (nd s c))))"
      by (rule split_grows [OF w h(2,3,5) True h(8,1) i])
    have "found (rc_page_size s) (rc_store s) (rc_store s') i (rc_counter s) (tk key) (take m (the (n_value (nd s c))))"
      unfolding found_def using s'(4) h(6-9) h(10) [OF True] v by auto
    then show ?thesis using split [OF h(4) True s'(1-3,5)] h(5,7,8) v True by simp
  next
    case False
    then have "m = rk_len (n_key (nd s c))" using h(6) by simp
    then show ?thesis using full [OF h(4) _ v(1)] v(2) h by simp
  qed
qed

lemma key_ok_drop:
  assumes "key_ok s key" "rc_page_size s dvd m" "m \<le> rk_len key"
  shows "key_ok s (rk_drop m key)" "tk (rk_drop m key) = drop m (tk key)"
  using assms by (auto simp: key_ok_def dvd_diff_nat)

lemma next_child_key:
  assumes "cache_wf L H s" "key_ok s key"
  obtains ck' where "(if rk_len key > 0 then child_key key (rc_page_size s) else Inr ck) = Inr ck'"
    "0 < rk_len key \<Longrightarrow> child_key key (rc_page_size s) = Inr ck'"
proof (cases "rk_len key > 0")
  case True
  then have "rc_page_size s \<le> rk_len key" using assms(2) by (auto simp: key_ok_def intro: dvd_imp_le)
  then show ?thesis using that child_key_eq [OF tree_okD(1) [OF wfD(1) [OF assms(1)]]] True by simp
qed (use that in simp)

lemma grows_refl: "grows L s L s"
  by (rule grows_same_state) (simp_all add: same_state_def same_frame_def)

lemma found_grows:
  assumes "grows L s L s1" "i \<in> L" "found (rc_page_size s1) (rc_store s1) st i j x y"
  shows "found (rc_page_size s) (rc_store s) st i j x y"
  using assms(3) growsD(3) [OF assms(1)] growsD(6) [OF assms(1,2)] by (simp add: found_def)

lemma found_miss:
  assumes "cache_wf L H s" "i \<in> L" "key_ok s key" "0 < rk_len key \<Longrightarrow> child_key key (rc_page_size s) = Inr ck"
    and "rk_len key = 0 \<or> map_of (n_children (nd s i)) ck = None"
  shows "found (rc_page_size s) (rc_store s) (rc_store s) i i (tk key) []"
proof (rule found_stop)
  fix u u' assume h: "cached (rc_page_size s) (rc_store s) i u u'" "prefix u (tk key)"
  show "u = []"
  proof (cases "rk_len key = 0")
    case True
    then have "tk key = []" by simp
    then show ?thesis using h(2) prefix_Nil by metis
  next
    case False
    then show ?thesis using step_miss [OF assms(1-3) _ _ h] assms(4,5) by auto
  qed
qed

lemma match_loop_hit:
  assumes "rk_len key \<noteq> 0" "map_of (n_children (nd s i)) ck = Some c"
    and "s1 = set_node c (\<lambda>n. n\<lparr>n_last_access := t\<rparr>) s"
    and "rk_match (n_key (nd s1 c)) key (rc_page_size s1) = Inr m"
  shows "match_loop (Suc fuel) t i key ck vals s =
     (if m < rk_len (n_key (nd s1 c))
      then rbind (split_node (n_key (nd s1 c)) c m s1) (\<lambda>(new_node, s).
             rbind (value_of (nd s new_node)) (\<lambda>v. Inr (vals @ [v], new_node, s)))
      else rbind (value_of (nd s1 c)) (\<lambda>v.
             rbind (if rk_len (rk_drop m key) > 0 then child_key (rk_drop m key) (rc_page_size s1) else Inr ck) (\<lambda>ck.
               match_loop fuel t c (rk_drop m key) ck (vals @ [v]) s1)))"
  using assms(1,2,4) by (simp add: match_loop.simps [of "Suc fuel"] assms(3) [symmetric] Let_def rbind_Inr)

lemma touch_child:
  assumes "cache_wf L H s" "i \<in> L" "key_ok s key" "child_key key (rc_page_size s) = Inr ck"
    "map_of (n_children (nd s i)) ck = Some c" "s1 = set_node c (\<lambda>n. n\<lparr>n_last_access := t\<rparr>) s"
  shows "cache_wf L H s1" "grows L s L s1" "key_ok s1 key" "child_key key (rc_page_size s1) = Inr ck"
    "map_of (n_children (nd s1 i)) ck = Some c"
proof -
  have s1: "cache_wf L H s1 = cache_wf L H s" "grows L s L s1" "\<And>j. n_children (nd s1 j) = n_children (nd s j)"
    "rc_page_size s1 = rc_page_size s"
    unfolding assms(6) by (rule set_node_same; simp)+
  then show "cache_wf L H s1" "grows L s L s1" "key_ok s1 key" "child_key key (rc_page_size s1) = Inr ck"
    "map_of (n_children (nd s1 i)) ck = Some c"
    using assms growsD(5) [OF s1(2)] by (simp_all add: key_ok_def)
qed

lemma match_loop_correct:
  assumes "cache_wf L H s" "i \<in> L" "key_ok s key" "rk_len key \<le> fuel"
    and "0 < rk_len key \<Longrightarrow> child_key key (rc_page_size s) = Inr ck"
  shows "\<exists>vs j s' L'. match_loop fuel t i key ck vals s = Inr (vals @ vs, j, s') \<and> cache_wf L' H s' \<and> grows L s L' s' \<and> j \<in> L' \<and>
     found (rc_page_size s) (rc_store s) (rc_store s') i j (tk key) (concat vs)"
  using assms
proof (induction fuel arbitrary: L i key ck vals s)
  case 0
  have "found (rc_page_size s) (rc_store s) (rc_store s) i i (tk key) []" using found_miss [OF 0(1-3,5)] 0(4) by simp
  then show ?case using 0(1,2,4) grows_refl
    by (intro exI [of _ "[]"] exI [of _ i] exI [of _ s] exI [of _ L]) (simp add: match_loop.simps)
next
  case (Suc fuel)
  note w = Suc.prems(1) and i = Suc.prems(2) and k = Suc.prems(3)
  show ?case
  proof (cases "rk_len key = 0 \<or> map_of (n_children (nd s i)) ck = None")
    case True
    then show ?thesis using found_miss [OF w i k Suc.prems(5) True] grows_refl w i
      by (intro exI [of _ "[]"] exI [of _ i] exI [of _ s] exI [of _ L]) (auto simp: match_loop.simps)
  next
    case False
    then obtain c where pos: "rk_len key \<noteq> 0" "0 < rk_len key" and c: "map_of (n_children (nd s i)) ck = Some c" by auto
    define s1 where "s1 = set_node c (\<lambda>n. n\<lparr>n_last_access := t\<rparr>) s"
    note s1 = touch_child [OF w i k Suc.prems(5) [OF pos(2)] c s1_def]
    note unf = match_loop_hit [OF pos(1) c s1_def]
    show ?thesis
    proof (cases rule: walk_hit [OF s1(1) i s1(3) pos(2) s1(4,5), case_names split full])
      case (split m s')
      have "match_loop (Suc fuel) t i key ck vals s = Inr (vals @ [take m (the (n_value (nd s1 c)))], rc_counter s1, s')"
        unfolding unf [OF split(1)] using split(2,3,6) by (simp add: rbind_Inr value_of_def)
      then show ?thesis
        using split(4) grows_trans [OF s1(2) split(5)] found_grows [OF s1(2) i split(7)]
        by (intro exI [of _ "[take m (the (n_value (nd s1 c)))]"] exI [of _ "rc_counter s1"] exI [of _ s']
            exI [of _ "insert (rc_counter s1) L"]) simp
    next
      case (full m v)
      note k' = key_ok_drop [OF s1(3) full(10,6)]
      obtain ck' where ck': "(if rk_len (rk_drop m key) > 0 then child_key (rk_drop m key) (rc_page_size s1) else Inr ck) = Inr ck'"
        "0 < rk_len (rk_drop m key) \<Longrightarrow> child_key (rk_drop m key) (rc_page_size s1) = Inr ck'"
        using next_child_key [OF s1(1) k'(1)] by blast
      have "rk_len (rk_drop m key) \<le> fuel" using Suc.prems(4) full(5,6) by simp
      then obtain vs j s' L' where r: "match_loop fuel t c (rk_drop m key) ck' (vals @ [v]) s1 = Inr ((vals @ [v]) @ vs, j, s')"
        "cache_wf L' H s'" "grows L s1 L' s'" "j \<in> L'"
        "found (rc_page_size s1) (rc_store s1) (rc_store s') c j (tk (rk_drop m key)) (concat vs)"
        using Suc.IH [OF s1(1) full(9) k'(1) _ ck'(2), of "vals @ [v]"] by blast
      have "found (rc_page_size s1) (rc_store s1) (rc_store s') i j (tk key) (the (n_value (nd s1 c)) @ concat vs)"
        by (rule found_step [OF s1(1) i full(8) _ _ r(3)]) (use full(2,6,7) k'(2) r(5) in auto)
      then have "found (rc_page_size s) (rc_store s) (rc_store s') i j (tk key) (concat (v # vs))"
        using found_grows [OF s1(2) i] full(3) by simp
      moreover have "match_loop (Suc fuel) t i key ck vals s = Inr (vals @ (v # vs), j, s')"
        unfolding unf [OF full(1)] using full(2,3) ck'(1) r(1) by (simp add: rbind_Inr value_of_def)
      ultimately show ?thesis using r(2,4) grows_trans [OF s1(2) r(3)] by blast
    qed
  qed
qed

lemma found_split_step:
  assumes w: "cache_wf L H s" "cache_wf L1 H s1" and i: "i \<in> L" and g: "grows L s L1 s1" "grows L1 s1 L2 s2" and n: "n \<in> L1"
    and f: "found (rc_page_size s) (rc_store s) (rc_store s1) i n x v"
    and f': "found (rc_page_size s1) (rc_store s1) (rc_store s2) n j (drop (length v) x) v'"
  shows "found (rc_page_size s) (rc_store s) (rc_store s2) i j x (v @ v')"
proof -
  have i1: "i \<in> L1" using growsD(1) [OF g(1)] i by blast
  have a: "at_node (rc_store s2) i n (take (length v) x) v"
    by (rule growsD(7) [OF g(2) i1]) (use f in \<open>simp add: found_def\<close>)
  have "at_node (rc_store s2) n j (take (length v') (drop (length v) x)) v'" using f' by (simp add: found_def)
  from at_node_trans [OF a this] have "at_node (rc_store s2) i j (take (length (v @ v')) x) (v @ v')"
    by (simp add: take_add)
  then show ?thesis
    using f f' growsD(3) [OF g(1)] unfolding found_def by (auto intro: le_trans)
qed

lemma bump_node:
  assumes "cache_wf L H s" "s1 = inc_hit_count n chunked (set_node n (\<lambda>x. x\<lparr>n_priority := max (n_priority x) pr\<rparr>) s)"
  shows "cache_wf L H s1" "grows L s L s1" "rc_page_size s1 = rc_page_size s"
proof -
  define s0 where "s0 = set_node n (\<lambda>x. x\<lparr>n_priority := max (n_priority x) pr\<rparr>) s"
  have s0: "cache_wf L H s0 = cache_wf L H s" "grows L s L s0" unfolding s0_def by (rule set_node_same; simp)+
  have s1: "cache_wf L H s1 = cache_wf L H s0" "grows L s0 L s1"
  proof -
    have a: "cache_wf L H (set_node n (\<lambda>x. x\<lparr>n_hit_count := n_hit_count x + 1\<rparr>) s0) = cache_wf L H s0"
      "grows L s0 L (set_node n (\<lambda>x. x\<lparr>n_hit_count := n_hit_count x + 1\<rparr>) s0)"
      by (rule set_node_same; simp)+
    show "cache_wf L H s1 = cache_wf L H s0" "grows L s0 L s1"
      using a grows_refl unfolding assms(2) s0_def [symmetric] by (simp_all add: inc_hit_count_def)
  qed
  show "cache_wf L H s1" using assms(1) s0(1) s1(1) by simp
  show "grows L s L s1" by (rule grows_trans [OF s0(2) s1(2)])
  then show "rc_page_size s1 = rc_page_size s" by (rule growsD(3))
qed

lemma key_ok_grows: "grows L s L' s' \<Longrightarrow> key_ok s' key = key_ok s key"
  using growsD(3,5) by (simp add: key_ok_def)

lemma found_bump:
  assumes "grows L1 s1 L1 s2" "i \<in> L1" "found ps st (rc_store s1) i n x v"
  shows "found ps st (rc_store s2) i n x v"
  using assms(3) growsD(7) [OF assms(1,2)] by (auto simp: found_def)

lemma insert_loop_hit:
  assumes "rk_len key \<noteq> 0" "map_of (n_children (nd s i)) ck = Some c"
    and "s1 = set_node c (\<lambda>n. n\<lparr>n_last_access := t\<rparr>) s"
    and "rk_match (n_key (nd s1 c)) key (rc_page_size s1) = Inr m"
    and "(if m < rk_len (n_key (nd s1 c)) then split_node (n_key (nd s1 c)) c m s1 else Inr (c, s1)) = Inr (nxt, s2)"
    and "s3 = inc_hit_count nxt chunked (set_node nxt (\<lambda>n. n\<lparr>n_priority := max (n_priority n) pr\<rparr>) s2)"
  shows "insert_loop (Suc fuel) t pr chunked i key vals ck tot s =
     rbind (if rk_len (rk_drop m key) > 0 then child_key (rk_drop m key) (rc_page_size s3) else Inr ck) (\<lambda>ck.
       insert_loop fuel t pr chunked nxt (rk_drop m key) (drop m vals) ck (tot + m) s3)"
  using assms(1,2,4,5)
  by (simp add: insert_loop.simps [of "Suc fuel"] assms(3) [symmetric] assms(6) [symmetric] Let_def rbind_Inr)

lemma walk_down:
  assumes w: "cache_wf L H s" and i: "i \<in> L" and k: "key_ok s key" "0 < rk_len key"
    and ck: "child_key key (rc_page_size s) = Inr ck" and hit: "map_of (n_children (nd s i)) ck = Some c"
  obtains m nxt v L' s' where "rk_match (n_key (nd s c)) key (rc_page_size s) = Inr m"
      "(if m < rk_len (n_key (nd s c)) then split_node (n_key (nd s c)) c m s else Inr (c, s)) = Inr (nxt, s')"
      "cache_wf L' H s'" "grows L s L' s'" "nxt \<in> L'" "length v = m" "0 < m" "m \<le> rk_len key" "rc_page_size s dvd m"
      "\<And>L'' s'' j v'. grows L' s' L'' s'' \<Longrightarrow>
         found (rc_page_size s) (rc_store s') (rc_store s'') nxt j (drop m (tk key)) v' \<Longrightarrow>
         found (rc_page_size s) (rc_store s) (rc_store s'') i j (tk key) (v @ v')"
proof (cases rule: walk_hit [OF w i k ck hit, case_names split full])
  case (split m s')
  have ps: "rc_page_size s' = rc_page_size s" by (rule growsD(3) [OF split(5)])
  show ?thesis
  proof (rule that [OF split(1) _ split(4,5) _ split(8-11)])
    fix L'' s'' j v'
    assume g: "grows (insert (rc_counter s) L) s' L'' s''"
      and f: "found (rc_page_size s) (rc_store s') (rc_store s'') (rc_counter s) j (drop m (tk key)) v'"
    show "found (rc_page_size s) (rc_store s) (rc_store s'') i j (tk key) (take m (the (n_value (nd s c))) @ v')"
      by (rule found_split_step [OF w split(4) i split(5) g _ split(7)]) (use f ps split(8) in simp_all)
  qed (use split(2,3) in simp_all)
next
  case (full m v)
  show ?thesis
  proof (rule that [OF full(1) _ w grows_refl full(9,4-6,10)])
    fix L'' s'' j v'
    assume g: "grows L s L'' s''" and f: "found (rc_page_size s) (rc_store s) (rc_store s'') c j (drop m (tk key)) v'"
    have "found (rc_page_size s) (rc_store s) (rc_store s'') i j (tk key) (the (n_value (nd s c)) @ v')"
      by (rule found_step [OF w i full(8) _ _ g]) (use full(2,6,7) f in auto)
    then show "found (rc_page_size s) (rc_store s) (rc_store s'') i j (tk key) (v @ v')" using full(3) by simp
  qed (use full(2) in simp)
qed

lemma insert_loop_correct:
  assumes "cache_wf L H s" "i \<in> L" "key_ok s key" "rk_len key \<le> fuel"
    and "0 < rk_len key \<longrightarrow> child_key key (rc_page_size s) = Inr ck"
  shows "\<exists>v j key' ck' s' L'. insert_loop fuel t pr chunked i key vals ck tot s =
        Inr (tot + length v, j, key', drop (length v) vals, ck', s') \<and> cache_wf L' H s' \<and> grows L s L' s' \<and> j \<in> L' \<and>
     found (rc_page_size s) (rc_store s) (rc_store s') i j (tk key) v \<and>
     key_ok s' key' \<and> tk key' = drop (length v) (tk key) \<and>
     (0 < rk_len key' \<longrightarrow> child_key key' (rc_page_size s') = Inr ck' \<and> map_of (n_children (nd s' j)) ck' = None)"
  using assms
proof (induction fuel arbitrary: L i key ck vals tot s)
  case 0
  have "found (rc_page_size s) (rc_store s) (rc_store s) i i (tk key) []" using found_miss [OF 0(1-3) 0(5) [rule_format]] 0(4) by simp
  then show ?case using 0(1-4) grows_refl
    by (intro exI [of _ "[]"] exI [of _ i] exI [of _ key] exI [of _ ck] exI [of _ s] exI [of _ L]) (simp add: insert_loop.simps)
next
  case (Suc fuel)
  note w = Suc.prems(1) and i = Suc.prems(2) and k = Suc.prems(3)
  show ?case
  proof (cases "rk_len key = 0 \<or> map_of (n_children (nd s i)) ck = None")
    case True
    then show ?thesis using found_miss [OF w i k Suc.prems(5) [rule_format] True] grows_refl w i k Suc.prems(5)
      by (intro exI [of _ "[]"] exI [of _ i] exI [of _ key] exI [of _ ck] exI [of _ s] exI [of _ L])
        (auto simp: insert_loop.simps)
  next
    case False
    then obtain c where pos: "rk_len key \<noteq> 0" "0 < rk_len key" and c: "map_of (n_children (nd s i)) ck = Some c" by auto
    define s1 where "s1 = set_node c (\<lambda>n. n\<lparr>n_last_access := t\<rparr>) s"
    note s1 = touch_child [OF w i k Suc.prems(5) [rule_format, OF pos(2)] c s1_def]
    obtain m nxt v L2 s2 where d: "rk_match (n_key (nd s1 c)) key (rc_page_size s1) = Inr m"
      "(if m < rk_len (n_key (nd s1 c)) then split_node (n_key (nd s1 c)) c m s1 else Inr (c, s1)) = Inr (nxt, s2)"
      "cache_wf L2 H s2" "grows L s1 L2 s2" "nxt \<in> L2" "length v = m" "0 < m" "m \<le> rk_len key" "rc_page_size s1 dvd m"
      and fnd: "\<And>L'' s'' j v'. grows L2 s2 L'' s'' \<Longrightarrow>
         found (rc_page_size s1) (rc_store s2) (rc_store s'') nxt j (drop m (tk key)) v' \<Longrightarrow>
         found (rc_page_size s1) (rc_store s1) (rc_store s'') i j (tk key) (v @ v')"
      by (rule walk_down [OF s1(1) i s1(3) pos(2) s1(4,5)]) (assumption | blast)+
    define s3 where "s3 = inc_hit_count nxt chunked (set_node nxt (\<lambda>n. n\<lparr>n_priority := max (n_priority n) pr\<rparr>) s2)"
    note s3 = bump_node [OF d(3) s3_def]
    have g3: "grows L s L2 s3" by (rule grows_trans [OF grows_trans [OF s1(2) d(4)] s3(2)])
    have k': "key_ok s3 (rk_drop m key)" "tk (rk_drop m key) = drop m (tk key)"
      using key_ok_drop [OF s1(3) d(9,8)] key_ok_grows [OF d(4)] key_ok_grows [OF s3(2)] by simp_all
    obtain ck' where ck': "(if rk_len (rk_drop m key) > 0 then child_key (rk_drop m key) (rc_page_size s3) else Inr ck) = Inr ck'"
      "0 < rk_len (rk_drop m key) \<longrightarrow> child_key (rk_drop m key) (rc_page_size s3) = Inr ck'"
      using next_child_key [OF s3(1) k'(1)] by blast
    have le: "rk_len (rk_drop m key) \<le> fuel" using Suc.prems(4) d(7,8) by simp
    obtain v' j key' ck2 s' L' where r: "insert_loop fuel t pr chunked nxt (rk_drop m key) (drop m vals) ck' (tot + m) s3 =
        Inr (tot + m + length v', j, key', drop (length v') (drop m vals), ck2, s')" "cache_wf L' H s'" "grows L2 s3 L' s'" "j \<in> L'"
      "found (rc_page_size s3) (rc_store s3) (rc_store s') nxt j (tk (rk_drop m key)) v'"
      "key_ok s' key'" "tk key' = drop (length v') (tk (rk_drop m key))"
      "0 < rk_len key' \<longrightarrow> child_key key' (rc_page_size s') = Inr ck2 \<and> map_of (n_children (nd s' j)) ck2 = None"
      using Suc.IH [OF s3(1) d(5) k'(1) le ck'(2), of "drop m vals" "tot + m"] by (elim exE conjE) (rule that)
    have "found (rc_page_size s2) (rc_store s2) (rc_store s') nxt j (drop m (tk key)) v'"
      using found_grows [OF s3(2) d(5) r(5)] k'(2) by simp
    then have "found (rc_page_size s) (rc_store s) (rc_store s') i j (tk key) (v @ v')"
      using found_grows [OF s1(2) i fnd [OF grows_trans [OF s3(2) r(3)]]] growsD(3) [OF d(4)] by simp
    moreover have "insert_loop (Suc fuel) t pr chunked i key vals ck tot s =
        Inr (tot + length (v @ v'), j, key', drop (length (v @ v')) vals, ck2, s')"
      unfolding insert_loop_hit [OF pos(1) c s1_def d(1,2) s3_def] using ck'(1) r(1) d(6)
      by (simp add: rbind_Inr add.assoc add.commute)
    moreover have "tk key' = drop (length (v @ v')) (tk key)" using r(7) k'(2) d(6) by (simp add: add.commute)
    ultimately show ?thesis
      using r(2,4,6,8) grows_trans [OF g3 r(3)]
      by (intro exI [of _ "v @ v'"] exI [of _ j] exI [of _ key'] exI [of _ ck2] exI [of _ s'] exI [of _ L'] conjI)
  qed
qed

end
