(* ===== verification/Radix_Leaf.thy ===== *)
theory Radix_Leaf
  imports Radix_Walk
begin

text \<open>
  Adding a leaf: the tree stands for the old map and the prefixes of the new path, locks of other
  nodes are untouched, the new node is evictable. Also the effect of \<open>update_leaf_status\<close>.
\<close>

section \<open>Adding a leaf\<close>

definition leaf_store :: "nat \<Rightarrow> store \<Rightarrow> store \<Rightarrow> nat \<Rightarrow> nat \<Rightarrow> radix_key \<Rightarrow> int list \<Rightarrow> bool" where
  "leaf_store ps st st' n i key vals \<longleftrightarrow>
     dom st' = insert n (dom st) \<and> (\<forall>j. j \<noteq> n \<longrightarrow> j \<noteq> i \<longrightarrow> st' j = st j) \<and>
     n_key (node_at st' n) = key \<and> n_value (node_at st' n) = Some vals \<and> n_lock_ref (node_at st' n) = 0 \<and>
     n_parent (node_at st' n) = Some i \<and> n_children (node_at st' n) = [] \<and>
     n_key (node_at st' i) = n_key (node_at st i) \<and> n_value (node_at st' i) = n_value (node_at st i) \<and>
     n_lock_ref (node_at st' i) = n_lock_ref (node_at st i) \<and> n_parent (node_at st' i) = n_parent (node_at st i) \<and>
     (\<exists>ck. n_children (node_at st' i) = AList.update ck n (n_children (node_at st i)) \<and>
        child_key key ps = Inr ck \<and> map_of (n_children (node_at st i)) ck = None)"

definition leaf_ctx :: "nat \<Rightarrow> bool \<Rightarrow> store \<Rightarrow> store \<Rightarrow> nat \<Rightarrow> nat \<Rightarrow> nat \<Rightarrow> radix_key \<Rightarrow> int list \<Rightarrow> nat set \<Rightarrow> bool" where
  "leaf_ctx ps eagle st st' r n i key vals L \<longleftrightarrow>
     tree_ok ps eagle st r L \<and> leaf_store ps st st' n i key vals \<and> n \<notin> dom st \<and> i \<in> L \<and>
     0 < rk_len key \<and> ps dvd rk_len key \<and> salt_ok key \<and> is_bigram key = eagle \<and> length vals = rk_len key"

lemma leaf_ctxD:
  assumes "leaf_ctx ps eagle st st' r n i key vals L"
  shows "tree_ok ps eagle st r L" "leaf_store ps st st' n i key vals" "n \<notin> dom st" "i \<in> L"
    "0 < rk_len key" "ps dvd rk_len key" "salt_ok key" "is_bigram key = eagle" "length vals = rk_len key"
  using assms unfolding leaf_ctx_def by blast+

lemma leaf_fresh:
  assumes X: "leaf_ctx ps eagle st st' r n i key vals L"
  shows "n \<notin> L" "n \<noteq> i" "n \<noteq> r"
proof -
  note x = leaf_ctxD [OF X]
  show "n \<notin> L" using x(3) tree_okD(4) [OF x(1)] by blast
  then show "n \<noteq> i" "n \<noteq> r" using x(4) tree_okD(3) [OF x(1)] by blast+
qed

lemma leaf_new:
  assumes X: "leaf_ctx ps eagle st st' r n i key vals L"
  shows "n_key (node_at st' n) = key" "n_value (node_at st' n) = Some vals" "n_lock_ref (node_at st' n) = 0"
    "n_parent (node_at st' n) = Some i" "n_children (node_at st' n) = []" "dom st' = insert n (dom st)"
  using leaf_ctxD(2) [OF X] unfolding leaf_store_def by blast+

lemma leaf_old:
  assumes X: "leaf_ctx ps eagle st st' r n i key vals L" and j: "j \<noteq> n"
  shows "n_key (node_at st' j) = n_key (node_at st j)" "n_value (node_at st' j) = n_value (node_at st j)"
    "n_lock_ref (node_at st' j) = n_lock_ref (node_at st j)" "n_parent (node_at st' j) = n_parent (node_at st j)"
    "j \<noteq> i \<Longrightarrow> n_children (node_at st' j) = n_children (node_at st j)"
  using leaf_ctxD(2) [OF X] j unfolding leaf_store_def by (cases "j = i"; simp)+

lemma leaf_children_i:
  assumes X: "leaf_ctx ps eagle st st' r n i key vals L"
  obtains ck where "n_children (node_at st' i) = AList.update ck n (n_children (node_at st i))"
    "child_key key ps = Inr ck" "map_of (n_children (node_at st i)) ck = None"
  using leaf_ctxD(2) [OF X] unfolding leaf_store_def by blast

lemma leaf_kids_i:
  assumes X: "leaf_ctx ps eagle st st' r n i key vals L"
  shows "set (n_children (node_at st' i)) = insert (projr (child_key key ps), n) (set (n_children (node_at st i)))"
    "distinct (map fst (n_children (node_at st' i)))"
proof -
  obtain ck where ck: "n_children (node_at st' i) = AList.update ck n (n_children (node_at st i))"
    "child_key key ps = Inr ck" "map_of (n_children (node_at st i)) ck = None" by (rule leaf_children_i [OF X])
  have d: "distinct (map fst (n_children (node_at st i)))"
    using tree_okD(8) [OF leaf_ctxD(1,4) [OF X]] by (simp add: children_ok_def)
  show d': "distinct (map fst (n_children (node_at st' i)))" unfolding ck(1) by (rule distinct_update [OF d])
  have "(a, b) \<in> set (n_children (node_at st' i)) \<longleftrightarrow> (a, b) = (ck, n) \<or> (a, b) \<in> set (n_children (node_at st i))" for a b
    using ck(3) by (simp only: map_of_eq_Some_iff [OF d', symmetric] map_of_eq_Some_iff [OF d, symmetric])
      (auto simp: ck(1) update_conv)
  then show "set (n_children (node_at st' i)) = insert (projr (child_key key ps), n) (set (n_children (node_at st i)))"
    unfolding ck(2) by auto
qed

lemma leaf_edge:
  assumes X: "leaf_ctx ps eagle st st' r n i key vals L"
  shows "a \<in> insert n L \<Longrightarrow> edge st' a b \<longleftrightarrow> (a \<in> L \<and> edge st a b) \<or> (a = i \<and> b = n)"
proof -
  assume a: "a \<in> insert n L"
  consider "a = n" | "a = i" | "a \<noteq> n" "a \<noteq> i" by blast
  then show ?thesis
  proof cases
    case 1
    then show ?thesis using leaf_new(5) [OF X] leaf_fresh [OF X] by (simp add: edge_def)
  next
    case 2
    then show ?thesis using leaf_kids_i(1) [OF X] leaf_ctxD(4) [OF X] by (auto simp: edge_def)
  next
    case 3
    then show ?thesis using leaf_old(5) [OF X 3] a by (simp add: edge_def)
  qed
qed

lemma leaf_children_ok:
  assumes X: "leaf_ctx ps eagle st st' r n i key vals L" and a: "a \<in> insert n L"
  shows "children_ok ps st' r (insert n L) a"
proof -
  note x = leaf_ctxD [OF X] and f = leaf_fresh [OF X]
  have old: "b \<in> insert n L \<and> b \<noteq> r \<and> n_parent (node_at st' b) = Some a \<and> child_key (n_key (node_at st' b)) ps = Inr ck"
    if "a \<in> L" "(ck, b) \<in> set (n_children (node_at st a))" for a b ck
  proof -
    have "b \<in> L \<and> b \<noteq> r \<and> n_parent (node_at st b) = Some a \<and> child_key (n_key (node_at st b)) ps = Inr ck"
      using tree_okD(8) [OF x(1) that(1)] that(2) by (auto simp: children_ok_def)
    moreover have "b \<noteq> n" using calculation f(1) by auto
    ultimately show ?thesis using leaf_old [OF X] by simp
  qed
  consider "a = n" | "a = i" | "a \<noteq> n" "a \<noteq> i" "a \<in> L" using a by blast
  then show ?thesis
  proof cases
    case 1
    then show ?thesis using leaf_new(5) [OF X] by (simp add: children_ok_def)
  next
    case 2
    obtain ck where ck: "child_key key ps = Inr ck" by (rule leaf_children_i [OF X])
    show ?thesis
      unfolding 2 children_ok_def leaf_kids_i(1) [OF X] ck sum.sel
      using leaf_kids_i(2) [OF X] old [OF x(4)] f leaf_new [OF X] ck by auto
  next
    case 3
    then show ?thesis
      using old [OF 3(3)] tree_okD(8) [OF x(1) 3(3)] leaf_old(5) [OF X 3(1,2)] by (auto simp: children_ok_def)
  qed
qed

lemma leaf_chain:
  assumes X: "leaf_ctx ps eagle st st' r n i key vals L" and q: "q \<in> L"
  shows "chain (edge st') q js \<longleftrightarrow> chain (edge st) q js \<or> (\<exists>is. js = is @ [n] \<and> chain (edge st) q is \<and> last (q # is) = i)"
  using q
proof (induction js arbitrary: q)
  case (Cons j js)
  note x = leaf_ctxD [OF X] and f = leaf_fresh [OF X]
  have e: "edge st' q j \<longleftrightarrow> edge st q j \<or> (q = i \<and> j = n)" using leaf_edge [OF X, of q j] Cons.prems by blast
  have nn: "chain (edge st') n js \<longleftrightarrow> js = []"
    using leaf_edge [OF X, of n] f by (cases js) auto
  show ?case
  proof (cases "j = n")
    case True
    have "\<not> edge st q n" using tree_ok_edge(1) [OF x(1) Cons.prems] f(1) by blast
    then show ?thesis using True e nn Cons.prems
      by (cases js rule: rev_cases) (auto simp: Cons_eq_append_conv)
  next
    case False
    show ?thesis
    proof (cases "edge st q j")
      case ej: True
      have ih: "chain (edge st') j js \<longleftrightarrow> chain (edge st) j js \<or> (\<exists>is. js = is @ [n] \<and> chain (edge st) j is \<and> last (j # is) = i)"
        by (rule Cons.IH [OF tree_ok_edge(1) [OF x(1) Cons.prems ej]])
      have "(\<exists>is. js = is @ [n] \<and> chain (edge st) j is \<and> last (j # is) = i) \<longleftrightarrow>
          (\<exists>is. j # js = is @ [n] \<and> chain (edge st) q is \<and> last (q # is) = i)"
      proof
        assume "\<exists>is. js = is @ [n] \<and> chain (edge st) j is \<and> last (j # is) = i"
        then obtain "is" where "js = is @ [n]" "chain (edge st) j is" "last (j # is) = i" by blast
        then show "\<exists>is. j # js = is @ [n] \<and> chain (edge st) q is \<and> last (q # is) = i"
          using ej by (intro exI [of _ "j # is"]) simp
      next
        assume "\<exists>is. j # js = is @ [n] \<and> chain (edge st) q is \<and> last (q # is) = i"
        then obtain "is" where "is": "j # js = is @ [n]" "chain (edge st) q is" "last (q # is) = i" by blast
        then obtain ks where "is = j # ks" using False by (cases "is") auto
        then show "\<exists>is. js = is @ [n] \<and> chain (edge st) j is \<and> last (j # is) = i" using "is" by auto
      qed
      then show ?thesis using ih ej e by simp
    next
      case ne: False
      then have "\<not> (\<exists>is. j # js = is @ [n] \<and> chain (edge st) q is \<and> last (q # is) = i)"
        using False by (auto simp: Cons_eq_append_conv)
      then show ?thesis using e ne False by simp
    qed
  qed
qed auto

lemma leaf_paths:
  assumes X: "leaf_ctx ps eagle st st' r n i key vals L" and j: "set is \<subseteq> L"
  shows "path_key st' is = path_key st is" "path_val st' is = path_val st is"
proof -
  have "n_key (node_at st' a) = n_key (node_at st a) \<and> n_value (node_at st' a) = n_value (node_at st a)" if "a \<in> set is" for a
    using that j leaf_fresh(1) [OF X] leaf_old [OF X, of a] by blast
  then show "path_key st' is = path_key st is" "path_val st' is = path_val st is"
    by (simp_all add: path_key_def path_val_def cong: map_cong)
qed

lemma leaf_tree_ok:
  assumes X: "leaf_ctx ps eagle st st' r n i key vals L"
  shows "tree_ok ps eagle st' r (insert n L)"
proof -
  note x = leaf_ctxD [OF X] and f = leaf_fresh [OF X]
  have rL: "r \<in> L" by (rule tree_okD(3) [OF x(1)])
  have r: "n_parent (node_at st' r) = None" "rk_len (n_key (node_at st' r)) = 0" "n_value (node_at st' r) = Some []"
    using leaf_old [OF X, of r] f tree_okD(5-7) [OF x(1)] by auto
  have reach: "\<exists>is. chain (edge st') r is \<and> last (r # is) = j" if j: "j \<in> insert n L" for j
  proof (cases "j = n")
    case True
    obtain js where "chain (edge st) r js" "last (r # js) = i" using tree_okD(10) [OF x(1,4)] by blast
    then show ?thesis unfolding leaf_chain [OF X rL] using True by (intro exI [of _ "js @ [n]"]) simp
  next
    case False
    then show ?thesis using tree_okD(10) [OF x(1), of j] j unfolding leaf_chain [OF X rL] by blast
  qed
  have nodes: "node_ok ps eagle (node_at st' j)" if "j \<in> insert n L - {r}" for j
  proof (cases "j = n")
    case True
    then show ?thesis using leaf_new [OF X] x(5-9) by (simp add: node_ok_def)
  next
    case False
    then show ?thesis using that tree_okD(9) [OF x(1), of j] leaf_old [OF X False] by (simp add: node_ok_def)
  qed
  show ?thesis
    unfolding tree_ok_def
  proof (intro conjI ballI)
    show "insert n L \<subseteq> dom st'" using leaf_new(6) [OF X] x(1) by (auto simp: tree_ok_def)
  qed (use r reach nodes tree_okD(1-3) [OF x(1)] leaf_children_ok [OF X] in auto)
qed

lemma leaf_at_node:
  assumes X: "leaf_ctx ps eagle st st' r n i key vals L" and q: "q \<in> L"
  shows "at_node st q j w v \<Longrightarrow> at_node st' q j w v"
    and "at_node st q i w v \<Longrightarrow> at_node st' q n (w @ tk key) (v @ vals)"
proof -
  note x = leaf_ctxD [OF X]
  show old: "at_node st' q j w v" if a: "at_node st q j w v" for j w v
  proof -
    obtain "is" where "is": "chain (edge st) q is" "last (q # is) = j" "path_key st is = w" "path_val st is = v"
      using a unfolding at_node_def by blast
    have "set is \<subseteq> L" using tree_ok_chain [OF x(1) q "is"(1)] by blast
    then show ?thesis
      unfolding at_node_def leaf_chain [OF X q] using "is" leaf_paths [OF X] by blast
  qed
  assume "at_node st q i w v"
  then have a: "at_node st' q i w v" by (rule old)
  have "edge st' i n" using leaf_edge [OF X] x(4) by blast
  from at_node_trans [OF a at_node_edge [OF this]] show "at_node st' q n (w @ tk key) (v @ vals)"
    using leaf_new [OF X] by simp
qed

lemma leaf_cached:
  assumes X: "leaf_ctx ps eagle st st' r n i key vals L" and q: "q \<in> L"
  shows "cached ps st' q u v \<longleftrightarrow> cached ps st q u v \<or>
    (\<exists>w1 v1. at_node st q i w1 v1 \<and> ps dvd length u \<and> prefix u (w1 @ tk key) \<and> v = take (length u) (v1 @ vals))"
proof -
  note x = leaf_ctxD [OF X]
  have sub: "set is \<subseteq> L" if "chain (edge st) q is" for "is"
    using tree_ok_chain [OF x(1) q that] by blast
  have new: "path_key st' (is @ [n]) = path_key st is @ tk key" "path_val st' (is @ [n]) = path_val st is @ vals"
    if "chain (edge st) q is" for "is"
    using leaf_paths [OF X sub [OF that]] leaf_new [OF X] by simp_all
  show ?thesis
  proof
    assume "cached ps st' q u v"
    then obtain js where u: "ps dvd length u" and js: "chain (edge st') q js" "prefix u (path_key st' js)"
      "v = take (length u) (path_val st' js)" unfolding cached_def by blast
    from js(1) show "cached ps st q u v \<or>
      (\<exists>w1 v1. at_node st q i w1 v1 \<and> ps dvd length u \<and> prefix u (w1 @ tk key) \<and> v = take (length u) (v1 @ vals))"
      unfolding leaf_chain [OF X q]
    proof
      assume c: "chain (edge st) q js"
      then show ?thesis using u js(2,3) leaf_paths [OF X sub [OF c]] unfolding cached_def by auto
    next
      assume "\<exists>is. js = is @ [n] \<and> chain (edge st) q is \<and> last (q # is) = i"
      then obtain "is" where "is": "js = is @ [n]" "chain (edge st) q is" "last (q # is) = i" by blast
      then have "at_node st q i (path_key st is) (path_val st is)" unfolding at_node_def by blast
      then show ?thesis using u js(2,3) new [OF "is"(2)] "is"(1) by metis
    qed
  next
    assume "cached ps st q u v \<or>
      (\<exists>w1 v1. at_node st q i w1 v1 \<and> ps dvd length u \<and> prefix u (w1 @ tk key) \<and> v = take (length u) (v1 @ vals))"
    then show "cached ps st' q u v"
    proof
      assume "cached ps st q u v"
      then obtain "is" where "is": "ps dvd length u" "chain (edge st) q is" "prefix u (path_key st is)"
        "v = take (length u) (path_val st is)" unfolding cached_def by blast
      then show ?thesis
        unfolding cached_def leaf_chain [OF X q] using leaf_paths [OF X sub [OF "is"(2)]]
        by (intro conjI exI [of _ "is"]) simp_all
    next
      assume "\<exists>w1 v1. at_node st q i w1 v1 \<and> ps dvd length u \<and> prefix u (w1 @ tk key) \<and> v = take (length u) (v1 @ vals)"
      then obtain w1 v1 where h: "at_node st q i w1 v1" "ps dvd length u" "prefix u (w1 @ tk key)" "v = take (length u) (v1 @ vals)"
        by blast
      obtain js where "chain (edge st') q js" "path_key st' js = w1 @ tk key" "path_val st' js = v1 @ vals"
        using leaf_at_node(2) [OF X q h(1)] unfolding at_node_def by blast
      then show ?thesis unfolding cached_def using h(2-4) by (intro conjI exI [of _ js]) simp_all
    qed
  qed
qed

lemma leaf_below:
  assumes X: "leaf_ctx ps eagle st st' r n i key vals L" and h: "h \<in> L"
  shows "q \<in> L \<Longrightarrow> below st' q h = below st q h" "\<not> below st' n h"
proof -
  note x = leaf_ctxD [OF X] and f = leaf_fresh [OF X]
  have hn: "h \<noteq> n" using f(1) h by auto
  show "below st' q h = below st q h" if q: "q \<in> L"
  proof -
    have "(chain (edge st') q is \<and> last (q # is) = h) = (chain (edge st) q is \<and> last (q # is) = h)" for "is"
      unfolding leaf_chain [OF X q] using hn by auto
    then show ?thesis unfolding below_def by simp
  qed
  have "\<not> edge st' n a" for a using leaf_edge [OF X, of n] f by blast
  then have "chain (edge st') n is \<Longrightarrow> is = []" for "is" by (cases "is") auto
  then show "\<not> below st' n h" unfolding below_def using hn by fastforce
qed

lemma leaf_locks_ok:
  assumes X: "leaf_ctx ps eagle st st' r n i key vals L" and h: "locks_ok st r L H"
  shows "locks_ok st' r (insert n L) H"
proof -
  note f = leaf_fresh [OF X]
  have H: "set H \<subseteq> L" using h by (simp add: locks_ok_def)
  have new: "filter (below st' n) H = []" using H leaf_below(2) [OF X] by (auto simp: filter_empty_conv)
  have "n_lock_ref (node_at st' j) = int (length (filter (below st' j) H))" if j: "j \<in> L - {r}" for j
  proof -
    have "filter (below st' j) H = filter (below st j) H"
      using j H leaf_below(1) [OF X] by (intro filter_cong) auto
    moreover have "j \<noteq> n" using j f(1) by auto
    ultimately show ?thesis using h j leaf_old(3) [OF X, of j] unfolding locks_ok_def by simp
  qed
  then show ?thesis using h new leaf_new(3) [OF X] leaf_old(3) [OF X, of r] f(3) H unfolding locks_ok_def by auto
qed

lemma leaf_parts:
  assumes X: "leaf_ctx ps eagle st st' r n i key vals L"
  shows "unlocked st' r (insert n L) = insert n (unlocked st r L)" "locked st' r (insert n L) = locked st r L"
    "leaf_set st' r (insert n L) = insert n (leaf_set st r L - {i})"
proof -
  note x = leaf_ctxD [OF X] and f = leaf_fresh [OF X]
  have l: "n_lock_ref (node_at st' j) = n_lock_ref (node_at st j)" if "j \<in> L" for j
    using that f(1) leaf_old(3) [OF X, of j] by (cases "j = n") auto
  show u: "unlocked st' r (insert n L) = insert n (unlocked st r L)"
    using l leaf_new(3) [OF X] f by (auto simp: unlocked_def)
  show "locked st' r (insert n L) = locked st r L"
    using l leaf_new(3) [OF X] f by (auto simp: locked_def)
  have k: "n_children (node_at st' j) = [] \<longleftrightarrow> j \<noteq> i \<and> n_children (node_at st j) = []" if "j \<in> L" for j
  proof -
    have "n_children (node_at st' i) \<noteq> []" using leaf_kids_i(1) [OF X] by auto
    moreover have "j \<noteq> n" using that f(1) by auto
    ultimately show ?thesis using leaf_old(5) [OF X, of j] by (cases "j = i") simp_all
  qed
  have "unlocked st r L \<subseteq> L" by (auto simp: unlocked_def)
  then show "leaf_set st' r (insert n L) = insert n (leaf_set st r L - {i})"
    using k leaf_new(5) [OF X] f(1,2) unfolding leaf_set_def u by blast
qed

lemma leaf_tokens:
  assumes X: "leaf_ctx ps eagle st st' r n i key vals L" and A: "A \<subseteq> L"
  shows "tokens st' A = tokens st A" "tokens st' (insert n A) = tokens st A + int (rk_len key)"
proof -
  have fin: "finite A" "n \<notin> A" using A leaf_fresh(1) [OF X] tree_okD(2) [OF leaf_ctxD(1) [OF X]] by (auto intro: finite_subset)
  have "n_key (node_at st' j) = n_key (node_at st j)" if "j \<in> A" for j
    using that fin(2) leaf_old(1) [OF X, of j] by (cases "j = n") auto
  then show a: "tokens st' A = tokens st A" by (simp add: tokens_def)
  show "tokens st' (insert n A) = tokens st A + int (rk_len key)"
    using fin a leaf_new(1) [OF X] by (simp add: tokens_def)
qed

lemma leaf_node_slots:
  assumes X: "leaf_ctx ps eagle st st' r n i key vals L"
  shows "node_slots st' n = set vals" "j \<in> L \<Longrightarrow> n_value (node_at st' j) = n_value (node_at st j)"
    "j \<in> L \<Longrightarrow> node_slots st' j = node_slots st j"
proof -
  show "node_slots st' n = set vals" by (simp add: node_slots_def leaf_new [OF X])
  show v: "n_value (node_at st' j) = n_value (node_at st j)" if "j \<in> L"
  proof -
    have "j \<noteq> n" using that leaf_fresh(1) [OF X] by auto
    then show ?thesis by (rule leaf_old(2) [OF X])
  qed
  then show "j \<in> L \<Longrightarrow> node_slots st' j = node_slots st j" by (simp add: node_slots_def)
qed

lemma leaf_tree_slots:
  assumes X: "leaf_ctx ps eagle st st' r n i key vals L"
  shows "tree_slots st' r (insert n L) = tree_slots st r L \<union> set vals"
proof -
  have "insert n L - {r} = insert n (L - {r})" using leaf_fresh(3) [OF X] by auto
  moreover have "(\<Union>j\<in>L - {r}. node_slots st' j) = (\<Union>j\<in>L - {r}. node_slots st j)" using leaf_node_slots(3) [OF X] by auto
  ultimately show ?thesis unfolding tree_slots_def using leaf_node_slots(1) [OF X] by auto
qed

lemma leaf_slots_ok:
  assumes so: "slots_ok L s" and X: "leaf_ctx (rc_page_size s) (rc_eagle s) (rc_store s) (rc_store s') (rc_root s) n i key vals L"
    and s': "rc_root s' = rc_root s" "rc_page_size s' = rc_page_size s" "rc_alloc s' = rc_alloc s"
    and b: "blocked (rc_page_size s) vals" "set vals \<subseteq> ka_universe (rc_alloc s)"
    and fr: "set vals \<inter> (tree_slots (rc_store s) (rc_root s) L \<union> ka_free_set (rc_alloc s)) = {}"
  shows "slots_ok (insert n L) s'"
proof -
  note ns = leaf_node_slots [OF X]
  have L: "insert n L - {rc_root s} = insert n (L - {rc_root s})" using leaf_fresh(3) [OF X] by auto
  have new: "node_slots (rc_store s) j \<inter> set vals = {}" if "j \<in> L - {rc_root s}" for j
    using that fr unfolding tree_slots_def by blast
  show ?thesis
    unfolding slots_ok_def s' leaf_tree_slots [OF X] L
  proof (intro conjI)
    show "\<forall>i\<in>insert n (L - {rc_root s}). blocked (rc_page_size s) (the (n_value (nd s' i)))"
      using b(1) leaf_new(2) [OF X] slots_okD(3) [OF so] ns(2) by auto
    show "\<forall>i\<in>insert n (L - {rc_root s}). \<forall>j\<in>insert n (L - {rc_root s}). i \<noteq> j \<longrightarrow>
        node_slots (rc_store s') i \<inter> node_slots (rc_store s') j = {}"
      using ns(1,3) new slots_okD(4) [OF so] by (auto simp: Int_commute)
  qed (use so b fr in \<open>auto simp: slots_ok_def\<close>)
qed

section \<open>Leaf status\<close>

lemma lock_nonneg: "locks_ok st r L H \<Longrightarrow> i \<in> L \<Longrightarrow> 0 \<le> n_lock_ref (node_at st i)"
  by (cases "i = r") (auto simp: locks_ok_def)

lemma update_leaf_status_eq:
  assumes t: "tree_ok ps eagle (rc_store s) (rc_root s) L" and i: "i \<in> L"
    and l: "n_lock_ref (nd s (rc_root s)) > 0" "0 \<le> n_lock_ref (nd s i)"
  shows "update_leaf_status i s = s\<lparr>rc_leaves := (if i \<in> leaf_set (rc_store s) (rc_root s) L
     then insert i (rc_leaves s) else rc_leaves s - {i})\<rparr>"
proof -
  have val: "n_value (nd s j) \<noteq> None" if "j \<in> L" for j
    using that tree_okD(7) [OF t] tree_okD(9) [OF t, of j] by (cases "j = rc_root s") (auto simp: node_ok_def)
  have kids: "list_ex (\<lambda>(_, c). \<not> evicted (nd s c)) (n_children (nd s i)) \<longleftrightarrow> n_children (nd s i) \<noteq> []"
    using tree_okD(8) [OF t i] val
    by (cases "n_children (nd s i)") (auto simp: children_ok_def evicted_def list_ex_iff)
  show ?thesis
    using kids val [OF i] l i
    by (auto simp: update_leaf_status_def Let_def evicted_def leaf_set_def unlocked_def)
qed

lemma leaf_wf:
  assumes w: "cache_wf L H s"
    and X: "leaf_ctx (rc_page_size s) (rc_eagle s) (rc_store s) (rc_store s4) (rc_root s) (rc_counter s) i key vals L"
    and s4: "same_frame s s4" "rc_counter s4 = rc_counter s + 1" "rc_leaves s4 = rc_leaves s"
      "rc_evictable s4 = rc_evictable s + int (rk_len key)" "rc_protected s4 = rc_protected s"
  shows "cache_wf (insert (rc_counter s) L) H (update_leaf_status (rc_counter s) (update_leaf_status i s4))"
    "\<exists>A. update_leaf_status (rc_counter s) (update_leaf_status i s4) = s4\<lparr>rc_leaves := A\<rparr>"
proof -
  let ?n = "rc_counter s" and ?L = "insert (rc_counter s) L"
  have r: "rc_root s4 = rc_root s" "rc_page_size s4 = rc_page_size s" "rc_eagle s4 = rc_eagle s"
    using s4(1) by (simp_all add: same_frame_def)
  note x = leaf_ctxD [OF X] and f = leaf_fresh [OF X]
  have t: "tree_ok (rc_page_size s4) (rc_eagle s4) (rc_store s4) (rc_root s4) ?L" using leaf_tree_ok [OF X] r by simp
  have lk: "locks_ok (rc_store s4) (rc_root s4) ?L H" using leaf_locks_ok [OF X wfD(3) [OF w]] r by simp
  have l: "n_lock_ref (nd s4 (rc_root s4)) > 0" using lk by (simp add: locks_ok_def)
  have ls: "leaf_set (rc_store s4) (rc_root s4) ?L = insert ?n (leaf_set (rc_store s) (rc_root s) L - {i})"
    using leaf_parts(3) [OF X] r by simp
  have u1: "update_leaf_status i s4 = s4\<lparr>rc_leaves := rc_leaves s4 - {i}\<rparr>"
    using update_leaf_status_eq [OF t _ l lock_nonneg [OF lk]] x(4) ls f(2) by auto
  have u2: "update_leaf_status ?n (s4\<lparr>rc_leaves := A\<rparr>) = s4\<lparr>rc_leaves := insert ?n A\<rparr>" for A
    using update_leaf_status_eq [of "rc_page_size s4" "rc_eagle s4" "s4\<lparr>rc_leaves := A\<rparr>" ?L ?n] t l lock_nonneg [OF lk, of ?n] ls
    by simp
  have eq: "update_leaf_status ?n (update_leaf_status i s4) = s4\<lparr>rc_leaves := insert ?n (rc_leaves s - {i})\<rparr>"
    by (simp add: u1 u2 s4(3))
  then show "\<exists>A. update_leaf_status ?n (update_leaf_status i s4) = s4\<lparr>rc_leaves := A\<rparr>" by blast
  have sub: "unlocked (rc_store s) (rc_root s) L \<subseteq> L" "locked (rc_store s) (rc_root s) L \<subseteq> L"
    by (auto simp: unlocked_def locked_def)
  have dm: "j < Suc ?n" if "j \<in> dom (rc_store s4)" for j
    using that leaf_new(6) [OF X] wfD(2) [OF w, of j] by (auto simp: less_Suc_eq)
  show "cache_wf ?L H (update_leaf_status ?n (update_leaf_status i s4))"
    unfolding eq cache_wf_def
    using t lk ls dm wfD(4-6) [OF w] s4 r leaf_parts(1,2) [OF X] leaf_tokens [OF X sub(1)] leaf_tokens(1) [OF X sub(2)]
    by simp
qed

lemma add_leaf_eq:
  assumes w: "cache_wf L H s" and i: "i \<in> L" and k: "key_ok s key" "0 < rk_len key" "length vals = rk_len key"
    and ck: "child_key key (rc_page_size s) = Inr ck" "map_of (n_children (nd s i)) ck = None"
  obtains s1 where "add_leaf pr chunked i key vals ck s =
      rbind (record_store (rc_hasher s) (rc_counter s + 1) GPU None (rc_counter s) (rc_events s, rc_store s1))
        (\<lambda>(r, st). Inr (rc_counter s, s1\<lparr>rc_events := r, rc_store := st\<rparr>))"
    "cache_wf (insert (rc_counter s) L) H s1"
    "leaf_ctx (rc_page_size s) (rc_eagle s) (rc_store s) (rc_store s1) (rc_root s) (rc_counter s) i key vals L"
    "same_frame s s1" "rc_alloc s1 = rc_alloc s" "rc_events s1 = rc_events s" "rc_counter s1 = rc_counter s + 1"
    "rc_evictable s1 = rc_evictable s + int (rk_len key)" "rc_protected s1 = rc_protected s"
proof -
  let ?n = "rc_counter s"
  define s1 where "s1 = snd (new_tree_node pr s)"
  define s2 where "s2 = inc_hit_count ?n chunked (set_node ?n (\<lambda>n. n\<lparr>n_parent := Some i, n_key := key, n_value := Some vals\<rparr>) s1)"
  define s3 where "s3 = set_node i (\<lambda>n. n\<lparr>n_children := AList.update ck ?n (n_children n)\<rparr>) s2"
  define s4 where "s4 = s3\<lparr>rc_evictable := rc_evictable s3 + int (rk_len key)\<rparr>"
  define s5 where "s5 = update_leaf_status ?n (update_leaf_status i s4)"
  have s4: "same_frame s s4" "rc_counter s4 = ?n + 1" "rc_leaves s4 = rc_leaves s" "rc_alloc s4 = rc_alloc s"
    "rc_events s4 = rc_events s" "rc_hasher s4 = rc_hasher s"
    "rc_evictable s4 = rc_evictable s + int (rk_len key)" "rc_protected s4 = rc_protected s"
    by (simp_all add: s4_def s3_def s2_def s1_def set_node_def new_tree_node_def inc_hit_count_def Let_def same_frame_def)
  have dn: "?n \<notin> dom (rc_store s)" by (rule wf_fresh [OF w])
  have di: "i \<in> dom (rc_store s)" using tree_okD(4) [OF wfD(1) [OF w] i] by blast
  have ne: "?n \<noteq> i" using dn di by auto
  have "leaf_store (rc_page_size s) (rc_store s) (rc_store s4) ?n i key vals"
    using dn di ne ck
    by (auto simp: leaf_store_def s4_def s3_def s2_def s1_def set_node_def new_tree_node_def inc_hit_count_def Let_def
        upd_apply TreeNode_def dom_def)
  then have X: "leaf_ctx (rc_page_size s) (rc_eagle s) (rc_store s) (rc_store s4) (rc_root s) ?n i key vals L"
    unfolding leaf_ctx_def using wfD(1) [OF w] dn i k by (simp add: key_ok_def)
  obtain A where A: "s5 = s4\<lparr>rc_leaves := A\<rparr>" using leaf_wf(2) [OF w X s4(1-3,7,8)] s5_def by blast
  have n: "new_tree_node pr s = (?n, s1)" by (simp add: s1_def new_tree_node_def Let_def)
  have "add_leaf pr chunked i key vals ck s =
      rbind (record_store (rc_hasher s5) (rc_counter s5) GPU None ?n (rc_events s5, rc_store s5))
        (\<lambda>(r, st). Inr (?n, s5\<lparr>rc_events := r, rc_store := st\<rparr>))"
    unfolding add_leaf_def n Let_def prod.case by (simp only: s2_def [symmetric] s3_def [symmetric] s4_def [symmetric] s5_def [symmetric])
  then show ?thesis
    using that [of s5] leaf_wf(1) [OF w X s4(1-3,7,8)] X s4 A by (simp add: s5_def same_frame_def)
qed

end
