(* ===== verification/Radix_Insert.thy ===== *)
theory Radix_Insert
  imports Radix_Leaf
begin

text \<open>
  \<open>match_prefix\<close> and \<open>insert_key\<close> as a whole: matching finds the longest cached page-aligned prefix of
  the key, inserting adds exactly the missing suffix.
\<close>

section \<open>Keys of requests\<close>

text \<open>The units a key is looked up and stored under: its bigram view in eagle mode, cut to whole pages.\<close>

definition query :: "cache \<Rightarrow> radix_key \<Rightarrow> tunit list" where
  "query s key = (let k = (if rc_eagle s \<and> \<not> is_bigram key then key\<lparr>is_bigram := True\<rparr> else key)
     in take (page_floor (rc_page_size s) (rk_len k)) (tk k))"

definition mode_ok :: "cache \<Rightarrow> radix_key \<Rightarrow> bool" where
  "mode_ok s key \<longleftrightarrow> salt_ok key \<and> (is_bigram key \<longrightarrow> rc_eagle s)"

lemma aligned_view:
  assumes ps: "0 < rc_page_size s" and m: "mode_ok s key" and v: "maybe_to_bigram_view key (rc_eagle s) v = (k, v')"
  obtains k' where "page_aligned k (rc_page_size s) = Inr k'" "key_ok s k'" "tk k' = query s key"
proof -
  let ?ps = "rc_page_size s"
  have k: "k = (if rc_eagle s \<and> \<not> is_bigram key then key\<lparr>is_bigram := True\<rparr> else key)"
    using v by (auto simp: maybe_to_bigram_view_def Let_def split: if_splits)
  have sk: "salt_ok k" "is_bigram k = rc_eagle s" using m k by (auto simp: mode_ok_def salt_ok_def)
  have q: "query s key = take (page_floor ?ps (rk_len k)) (tk k)" by (simp add: query_def k Let_def)
  show ?thesis
  proof (cases "?ps = 1")
    case True
    then show ?thesis using that [of k] sk q by (simp add: page_aligned_def key_ok_def)
  next
    case False
    let ?k = "rk_take (page_floor ?ps (rk_len k)) k"
    show ?thesis
      using that [of ?k] False ps sk q by (simp add: page_aligned_def key_ok_def page_floor_def min_def)
  qed
qed

lemma at_node_unique:
  assumes "tree_ok ps eagle st r L" "at_node st r j w v" "at_node st r j w' v'"
  shows "w' = w \<and> v' = v"
  using assms(2,3) tree_ok_path_unique [OF assms(1)] unfolding at_node_def by metis

lemma cached_unique:
  assumes "tree_ok ps eagle st r L" "q \<in> L" "cached ps st q u v" "cached ps st q u v'"
  shows "v' = v"
  using assms(3,4) cached_fun [OF assms(1,2)] unfolding cached_def by metis

section \<open>Matching\<close>

lemma touch_root:
  assumes "cache_wf L H s" "monotonic s = (t, s0)"
    and f: "\<And>n. n_children (f n) = n_children n \<and> n_parent (f n) = n_parent n \<and> n_key (f n) = n_key n \<and>
     n_value (f n) = n_value n \<and> n_lock_ref (f n) = n_lock_ref n"
  shows "cache_wf L H (set_node i f s0)" "grows L s L (set_node i f s0)"
proof -
  have g: "grows L s L s0" and w: "cache_wf L H s0 = cache_wf L H s"
    using assms(2) by (auto simp: monotonic_def same_state_def same_frame_def intro!: grows_same_state wf_same_state)
  have "cache_wf L H (set_node i f s0) = cache_wf L H s0" "grows L s0 L (set_node i f s0)"
    by (rule set_node_same; use f in simp)+
  then show "cache_wf L H (set_node i f s0)" "grows L s L (set_node i f s0)"
    using assms(1) w grows_trans [OF g] by simp_all
qed

lemma match_prefix_correct:
  assumes w: "cache_wf L H s" and m: "mode_ok s key" and en: "\<not> rc_disable s"
  shows "\<exists>r s' L'. match_prefix key s = Inr (r, s') \<and> cache_wf L' H s' \<and> grows L s L' s' \<and> mr_node r \<in> L' \<and>
     found (rc_page_size s) (rc_store s) (rc_store s') (rc_root s) (mr_node r) (query s key) (mr_indices r)"
proof -
  note t = wfD(1) [OF w]
  have ps: "0 < rc_page_size s" and rL: "rc_root s \<in> L" using tree_okD(1,3) [OF t] by blast+
  obtain k where v: "maybe_to_bigram_view key (rc_eagle s) (None :: int list option) = (k, None)"
    by (cases "rc_eagle s \<and> \<not> is_bigram key") (simp_all add: maybe_to_bigram_view_def Let_def)
  obtain k' where k': "page_aligned k (rc_page_size s) = Inr k'" "key_ok s k'" "tk k' = query s key"
    by (rule aligned_view [OF ps m v])
  have len: "rk_len k' = length (query s key)" using k'(3) by (metis length_tk)
  have lk: "rk_len k = 0 \<Longrightarrow> query s key = []"
    using v by (auto simp: query_def maybe_to_bigram_view_def Let_def page_floor_def split: if_splits)
  show ?thesis
  proof (cases "rk_len k' = 0")
    case True
    then have q: "query s key = []" using len by simp
    have "match_prefix key s = Inr (\<lparr>mr_indices = [], mr_node = rc_root s\<rparr>, s)"
      using True k'(1) v by (simp add: match_prefix_def Let_def rbind_Inr)
    moreover have "found (rc_page_size s) (rc_store s) (rc_store s) (rc_root s) (rc_root s) (query s key) []"
      unfolding q by (rule found_stop) simp
    ultimately show ?thesis using w rL grows_refl by (intro exI [of _ "\<lparr>mr_indices = [], mr_node = rc_root s\<rparr>"]) auto
  next
    case False
    then have k0: "rk_len k \<noteq> 0" using lk len by auto
    obtain at s0 where mo: "monotonic s = (at, s0)" by fastforce
    define s1 where "s1 = set_node (rc_root s) (\<lambda>n. n\<lparr>n_last_access := at\<rparr>) s0"
    have s1: "cache_wf L H s1" "grows L s L s1"
      unfolding s1_def by (rule touch_root [OF w mo]; simp)+
    have k1: "key_ok s1 k'" using k'(2) key_ok_grows [OF s1(2)] by simp
    have psk: "rc_page_size s \<le> rk_len k'" using k'(2) False by (auto simp: key_ok_def intro: dvd_imp_le)
    obtain ck where ck: "child_key k' (rc_page_size s1) = Inr ck"
      using child_key_eq [OF ps psk] growsD(3) [OF s1(2)] by simp
    obtain vs j s' L' where r: "match_loop (rk_len k') at (rc_root s) k' ck [] s1 = Inr ([] @ vs, j, s')" "cache_wf L' H s'"
      "grows L s1 L' s'" "j \<in> L'"
      "found (rc_page_size s1) (rc_store s1) (rc_store s') (rc_root s) j (tk k') (concat vs)"
      using match_loop_correct [OF s1(1) rL k1 order_refl ck, of at "[]"] by blast
    have "match_prefix key s = Inr (\<lparr>mr_indices = concat vs, mr_node = j\<rparr>, s')"
      using False k0 en k'(1) v r(1) ck
      by (simp add: match_prefix_def match_prefix_helper_def Let_def rbind_Inr mo s1_def [symmetric])
    then show ?thesis
      using r(2,4) grows_trans [OF s1(2) r(3)] found_grows [OF s1(2) rL r(5)] k'(3)
      by (intro exI [of _ "\<lparr>mr_indices = concat vs, mr_node = j\<rparr>"]) auto
  qed
qed

section \<open>Inserting\<close>

text \<open>
  The effect of inserting the page-aligned units \<open>w\<close> with slots \<open>x\<close> below the root: \<open>m\<close> of them were
  cached already and keep their slots, the rest is now cached under the slots of \<open>x\<close>, and nothing
  else changes.
\<close>

definition fresh_slots :: "nat set \<Rightarrow> cache \<Rightarrow> int list \<Rightarrow> bool" where
  "fresh_slots L s x \<longleftrightarrow> blocked (rc_page_size s) x \<and> set x \<subseteq> ka_universe (rc_alloc s) \<and>
     set x \<inter> (tree_slots (rc_store s) (rc_root s) L \<union> ka_free_set (rc_alloc s)) = {}"

definition inserted :: "nat set \<Rightarrow> nat list \<Rightarrow> cache \<Rightarrow> tunit list \<Rightarrow> int list \<Rightarrow> nat \<Rightarrow> nat \<Rightarrow> cache \<Rightarrow> bool" where
  "inserted L H s w x m j s' \<longleftrightarrow>
     (\<exists>L'. cache_wf L' H s' \<and> L \<subseteq> L' \<and> j \<in> L' \<and> (slots_ok L s \<longrightarrow> fresh_slots L s (drop m x) \<longrightarrow> slots_ok L' s') \<and>
        tree_slots (rc_store s') (rc_root s) L' = tree_slots (rc_store s) (rc_root s) L \<union> set (drop m x)) \<and> same_frame s s' \<and> rc_alloc s' = rc_alloc s \<and>
     rc_protected s' = rc_protected s \<and> rc_evictable s' = rc_evictable s + int (length w - m) \<and>
     (\<exists>v. length v = m \<and> m \<le> length w \<and> rc_page_size s dvd m \<and> cached (rc_page_size s) (rc_store s) (rc_root s) (take m w) v \<and>
        (\<forall>u u'. cached (rc_page_size s) (rc_store s) (rc_root s) u u' \<longrightarrow> prefix u w \<longrightarrow> length u \<le> m) \<and>
        at_node (rc_store s') (rc_root s) j w (v @ drop m x) \<and>
        (\<forall>u u'. cached (rc_page_size s) (rc_store s') (rc_root s) u u' \<longleftrightarrow>
           cached (rc_page_size s) (rc_store s) (rc_root s) u u' \<or>
           (rc_page_size s dvd length u \<and> prefix u w \<and> u' = take (length u) (v @ drop m x))))"

lemma found_cached:
  assumes "cache_wf L' H s'" "grows L s L' s'" "rc_root s \<in> L"
    "found (rc_page_size s) (rc_store s) (rc_store s') (rc_root s) j w v"
  shows "cached (rc_page_size s) (rc_store s) (rc_root s) (take (length v) w) v"
proof -
  have a: "at_node (rc_store s') (rc_root s) j (take (length v) w) v" "rc_page_size s dvd length (take (length v) w)"
    using assms(4) by (auto simp: found_def min_def)
  have "cached (rc_page_size s) (rc_store s') (rc_root s) (take (length v) w) v"
    using at_node_cached [OF a(1) _ _ a(2)] wfD(1) [OF assms(1)] growsD(1,3) [OF assms(2)] assms(3) by auto
  then show ?thesis using growsD(6) [OF assms(2,3)] by simp
qed

lemma inserted_all:
  assumes w: "cache_wf L H s" and w': "cache_wf L' H s'" and g: "grows L s L' s'" and j: "j \<in> L'"
    and f: "found (rc_page_size s) (rc_store s) (rc_store s') (rc_root s) j x v" "length v = length x"
    and y: "length y = length x"
  shows "inserted L H s x y (length x) j s'"
proof -
  let ?ps = "rc_page_size s" and ?r = "rc_root s"
  have rL: "?r \<in> L" by (rule tree_okD(3) [OF wfD(1) [OF w]])
  have c: "cached ?ps (rc_store s) ?r x v" using found_cached [OF w' g rL f(1)] f(2) by simp
  have "cached ?ps (rc_store s') ?r u u' \<longleftrightarrow> cached ?ps (rc_store s) ?r u u' \<or> (?ps dvd length u \<and> prefix u x \<and> u' = take (length u) v)"
    for u u' using growsD(6) [OF g rL] cached_prefix [OF c] by blast
  moreover have "v @ drop (length x) y = v" using y by simp
  ultimately show ?thesis
    unfolding inserted_def using w' j growsD(1,2,8,10,11,13,14) [OF g] c f y
    by (intro conjI exI [of _ v] exI [of _ L']) (simp_all add: found_def)
qed

lemma inserted_leaf:
  assumes w: "cache_wf L H s" and w2: "cache_wf L2 H s2" and g: "grows L s L2 s2"
    and f: "found (rc_page_size s) (rc_store s) (rc_store s2) (rc_root s) j x v"
    and X: "leaf_ctx (rc_page_size s2) (rc_eagle s2) (rc_store s2) (rc_store s3) (rc_root s2) n j key (drop (length v) y) L2"
    and k: "tk key = drop (length v) x" and w3: "cache_wf (insert n L2) H s3"
    and s3: "same_frame s2 s3" "rc_alloc s3 = rc_alloc s2" "rc_evictable s3 = rc_evictable s2 + int (rk_len key)"
      "rc_protected s3 = rc_protected s2"
  shows "inserted L H s x y (length v) n s3"
proof -
  let ?ps = "rc_page_size s" and ?r = "rc_root s"
  have rL: "?r \<in> L" "?r \<in> L2" using tree_okD(3) [OF wfD(1) [OF w]] growsD(1) [OF g] by auto
  have p: "rc_page_size s2 = ?ps" "rc_root s2 = ?r" using growsD(3,4) [OF g] by simp_all
  note X' = X [unfolded p]
  have c: "cached ?ps (rc_store s) ?r (take (length v) x) v" by (rule found_cached [OF w2 g rL(1) f])
  have a: "at_node (rc_store s2) ?r j (take (length v) x) v" using f by (simp add: found_def)
  have t2: "tree_ok ?ps (rc_eagle s2) (rc_store s2) ?r L2" using wfD(1) [OF w2] p by simp
  have x: "take (length v) x @ tk key = x" using k by simp
  have at: "at_node (rc_store s3) ?r n x (v @ drop (length v) y)"
    using leaf_at_node(2) [OF X' rL(2) a] x by simp
  have "cached ?ps (rc_store s3) ?r u u' \<longleftrightarrow>
      cached ?ps (rc_store s) ?r u u' \<or> (?ps dvd length u \<and> prefix u x \<and> u' = take (length u) (v @ drop (length v) y))" for u u'
    unfolding leaf_cached [OF X' rL(2)] growsD(6) [OF g rL(1)]
    using at_node_unique [OF t2 a] a x by metis
  moreover have "rk_len key = length x - length v" using k by (metis length_drop length_tk)
  moreover have "same_frame s s3" using growsD(2) [OF g] s3(1) by (simp add: same_frame_def)
  moreover have "fresh_slots L2 s2 x = fresh_slots L s x" for x
    using growsD(3,4,8,14) [OF g] by (simp add: fresh_slots_def)
  moreover have "slots_ok L2 s2 \<Longrightarrow> fresh_slots L2 s2 (drop (length v) y) \<Longrightarrow> slots_ok (insert n L2) s3"
    using leaf_slots_ok(1) [OF _ X] s3(1,2) by (simp add: fresh_slots_def same_frame_def)
  moreover have "tree_slots (rc_store s3) ?r (insert n L2) = tree_slots (rc_store s) ?r L \<union> set (drop (length v) y)"
    using leaf_tree_slots [OF X] growsD(14) [OF g] p(2) by simp
  ultimately show ?thesis
    unfolding inserted_def
    using w3 growsD(1,8,10,11,13) [OF g] s3 c f at
    by (intro conjI exI [of _ v] exI [of _ "insert n L2"]) (auto simp: found_def)
qed

lemma inserted_same_state:
  assumes i: "inserted L H s w x m j s1" and st: "same_tree (rc_store s1) st"
  shows "inserted L H s w x m j (s1\<lparr>rc_events := r, rc_store := st\<rparr>)"
proof -
  note sh = same_tree_same_shape [OF st]
  have "same_state s1 (s1\<lparr>rc_events := r, rc_store := st\<rparr>)" using sh by (simp add: same_state_def)
  from wf_same_state [OF this] have "cache_wf L' H (s1\<lparr>rc_events := r, rc_store := st\<rparr>) = cache_wf L' H s1" for L' by simp
  moreover have "slots_ok L' (s1\<lparr>rc_events := r, rc_store := st\<rparr>) = slots_ok L' s1" "tree_slots st = tree_slots (rc_store s1)" for L'
    using slots_ok_shape [of s1 "s1\<lparr>rc_events := r, rc_store := st\<rparr>"] sh by simp_all
  ultimately show ?thesis
    using i by (simp add: inserted_def same_frame_def at_node_def same_shape_simps [OF sh])
qed

text \<open>What an insertion can end in: a result, or what the event recorder makes of the new state.\<close>

definition insert_outcome :: "nat set \<Rightarrow> nat list \<Rightarrow> cache \<Rightarrow> radix_key \<Rightarrow> int list \<Rightarrow> (nat \<times> nat \<times> cache) result \<Rightarrow> bool" where
  "insert_outcome L H s key vals R \<longleftrightarrow>
    (\<exists>m j s'. R = Inr (m, j, s') \<and> inserted L H s (tk key) vals m j s' \<and> rc_events s' = rc_events s) \<or>
    (\<exists>m j s' n. inserted L H s (tk key) vals m j s' \<and>
       R = rbind (record_store (rc_hasher s') n GPU None j (rc_events s, rc_store s'))
             (\<lambda>(r, st). Inr (m, j, s'\<lparr>rc_events := r, rc_store := st\<rparr>)))"

lemma insert_outcomeD:
  assumes "insert_outcome L H s key vals R"
  shows "R = Inr (m, j, s') \<Longrightarrow> inserted L H s (tk key) vals m j s'"
    and "\<not> ev_enabled (rc_events s) \<Longrightarrow> \<exists>m j s'. R = Inr (m, j, s') \<and> rc_events s' = rc_events s"
proof -
  show "inserted L H s (tk key) vals m j s'" if R: "R = Inr (m, j, s')"
    using assms unfolding insert_outcome_def
  proof
    assume "\<exists>m j s' n. inserted L H s (tk key) vals m j s' \<and>
       R = rbind (record_store (rc_hasher s') n GPU None j (rc_events s, rc_store s'))
             (\<lambda>(r, st). Inr (m, j, s'\<lparr>rc_events := r, rc_store := st\<rparr>))"
    then obtain m' j' s2 n where h: "inserted L H s (tk key) vals m' j' s2"
       "R = rbind (record_store (rc_hasher s2) n GPU None j' (rc_events s, rc_store s2))
             (\<lambda>(r, st). Inr (m', j', s2\<lparr>rc_events := r, rc_store := st\<rparr>))" by blast
    then obtain r st where "record_store (rc_hasher s2) n GPU None j' (rc_events s, rc_store s2) = Inr (r, st)"
      "m' = m" "j' = j" "s' = s2\<lparr>rc_events := r, rc_store := st\<rparr>"
      using trans [OF h(2) [symmetric] R] by (auto simp: rbind_eq_Inr)
    then show ?thesis using inserted_same_state [OF h(1) record_store_same] by blast
  qed (use R in auto)
  show "\<exists>m j s'. R = Inr (m, j, s') \<and> rc_events s' = rc_events s" if "\<not> ev_enabled (rc_events s)"
    using assms that by (auto simp: insert_outcome_def record_store_def rbind_Inr)
qed

lemma insert_finish:
  assumes w: "cache_wf L H s" "cache_wf L2 H s2" and g: "grows L s L2 s2" and i: "i \<in> L2"
    and f: "found (rc_page_size s) (rc_store s) (rc_store s2) (rc_root s) i (tk key) v"
    and k: "key_ok s2 key'" "tk key' = drop (length v) (tk key)" and l: "length vals = rk_len key"
    and c: "0 < rk_len key' \<longrightarrow> child_key key' (rc_page_size s2) = Inr ck \<and> map_of (n_children (nd s2 i)) ck = None"
  shows "insert_outcome L H s key vals (if rk_len key' = 0 then Inr (length v, i, s2)
     else rbind (add_leaf pr chunked i key' (drop (length v) vals) ck s2) (\<lambda>(new_node, s). Inr (length v, new_node, s)))"
proof -
  have lk: "rk_len key' = rk_len key - length v" using arg_cong [OF k(2), of length] by simp
  have le: "length v \<le> rk_len key" using f by (simp add: found_def)
  show ?thesis
  proof (cases "rk_len key' = 0")
    case True
    then have "length v = length (tk key)" using lk le by simp
    then show ?thesis using True inserted_all [OF w g i f] l growsD(9) [OF g] unfolding insert_outcome_def by auto
  next
    case False
    then have c': "child_key key' (rc_page_size s2) = Inr ck" "map_of (n_children (nd s2 i)) ck = None" "0 < rk_len key'"
      using c by simp_all
    have lv: "length (drop (length v) vals) = rk_len key'" using lk l by simp
    obtain s3 where s3: "add_leaf pr chunked i key' (drop (length v) vals) ck s2 =
        rbind (record_store (rc_hasher s2) (rc_counter s2 + 1) GPU None (rc_counter s2) (rc_events s2, rc_store s3))
          (\<lambda>(r, st). Inr (rc_counter s2, s3\<lparr>rc_events := r, rc_store := st\<rparr>))"
      "cache_wf (insert (rc_counter s2) L2) H s3"
      "leaf_ctx (rc_page_size s2) (rc_eagle s2) (rc_store s2) (rc_store s3) (rc_root s2) (rc_counter s2) i key' (drop (length v) vals) L2"
      "same_frame s2 s3" "rc_alloc s3 = rc_alloc s2" "rc_events s3 = rc_events s2" "rc_counter s3 = rc_counter s2 + 1"
      "rc_evictable s3 = rc_evictable s2 + int (rk_len key')" "rc_protected s3 = rc_protected s2"
      by (rule add_leaf_eq [OF w(2) i k(1) c'(3) lv c'(1,2)])
    have "inserted L H s (tk key) vals (length v) (rc_counter s2) s3"
      by (rule inserted_leaf [OF w g f s3(3) k(2) s3(2,4,5,8,9)])
    moreover have "rbind (add_leaf pr chunked i key' (drop (length v) vals) ck s2) (\<lambda>(new_node, s). Inr (length v, new_node, s)) =
        rbind (record_store (rc_hasher s3) (rc_counter s2 + 1) GPU None (rc_counter s2) (rc_events s, rc_store s3))
          (\<lambda>(r, st). Inr (length v, rc_counter s2, s3\<lparr>rc_events := r, rc_store := st\<rparr>))"
      using s3(1,4) growsD(9) [OF g] by (simp add: same_frame_def) (simp add: rbind_def split: sum.splits prod.splits)
    ultimately show ?thesis using False unfolding insert_outcome_def by metis
  qed
qed

lemma insert_helper_outcome:
  assumes w: "cache_wf L H s" and k: "key_ok s key" and l: "length vals = rk_len key"
  shows "insert_outcome L H s key vals (insert_helper (rc_root s) key vals prio chunked s)"
proof -
  note t = wfD(1) [OF w]
  have ps: "0 < rc_page_size s" and rL: "rc_root s \<in> L" using tree_okD(1,3) [OF t] by blast+
  obtain at s0 where mo: "monotonic s = (at, s0)" by fastforce
  define pr where "pr = (case prio of None \<Rightarrow> 0 | Some p \<Rightarrow> p)"
  define s1 where "s1 = set_node (rc_root s) (\<lambda>n. n\<lparr>n_last_access := at, n_priority := max (n_priority n) pr\<rparr>) s0"
  have s1: "cache_wf L H s1" "grows L s L s1" unfolding s1_def by (rule touch_root [OF w mo]; simp)+
  have unf: "insert_helper (rc_root s) key vals prio chunked s =
     (if rk_len key = 0 then Inr (0, rc_root s, s1)
      else rbind (child_key key (rc_page_size s1)) (\<lambda>ck.
           rbind (insert_loop (rk_len key) at pr chunked (rc_root s) key vals ck 0 s1)
             (\<lambda>(prefix_total, i, key, vals, ck, s).
               if rk_len key = 0 then Inr (prefix_total, i, s)
               else rbind (add_leaf pr chunked i key vals ck s) (\<lambda>(new_node, s). Inr (prefix_total, new_node, s)))))"
    by (simp add: insert_helper_def mo pr_def [symmetric] s1_def [symmetric] Let_def)
  show ?thesis
  proof (cases "rk_len key = 0")
    case True
    then have tk: "tk key = []" by simp
    have "found (rc_page_size s) (rc_store s) (rc_store s1) (rc_root s) (rc_root s) (tk key) []"
      unfolding tk by (rule found_stop) simp
    then have "inserted L H s (tk key) vals (length (tk key)) (rc_root s) s1"
      by (rule inserted_all [OF w s1 rL]) (use True l in simp_all)
    then show ?thesis using True unf growsD(9) [OF s1(2)] unfolding insert_outcome_def by auto
  next
    case False
    then have psk: "rc_page_size s \<le> rk_len key" using k by (auto simp: key_ok_def intro: dvd_imp_le)
    obtain ck where ck: "child_key key (rc_page_size s1) = Inr ck"
      using child_key_eq [OF ps psk] growsD(3) [OF s1(2)] by simp
    then have ckp: "0 < rk_len key \<longrightarrow> child_key key (rc_page_size s1) = Inr ck" by simp
    have k1: "key_ok s1 key" using k key_ok_grows [OF s1(2)] by simp
    obtain v i key' ck' s2 L2 where r: "insert_loop (rk_len key) at pr chunked (rc_root s) key vals ck 0 s1 =
        Inr (0 + length v, i, key', drop (length v) vals, ck', s2)" "cache_wf L2 H s2" "grows L s1 L2 s2" "i \<in> L2"
      "found (rc_page_size s1) (rc_store s1) (rc_store s2) (rc_root s) i (tk key) v"
      "key_ok s2 key'" "tk key' = drop (length v) (tk key)"
      "0 < rk_len key' \<longrightarrow> child_key key' (rc_page_size s2) = Inr ck' \<and> map_of (n_children (nd s2 i)) ck' = None"
      using insert_loop_correct [OF s1(1) rL k1 order_refl ckp, of at pr chunked vals 0] by (elim exE conjE) (rule that)
    have "insert_helper (rc_root s) key vals prio chunked s = (if rk_len key' = 0 then Inr (length v, i, s2)
       else rbind (add_leaf pr chunked i key' (drop (length v) vals) ck' s2) (\<lambda>(new_node, s). Inr (length v, new_node, s)))"
      unfolding unf using False ck r(1) by (simp add: rbind_Inr)
    then show ?thesis
      using insert_finish [OF w r(2) grows_trans [OF s1(2) r(3)] r(4) found_grows [OF s1(2) rL r(5)] r(6,7) l r(8)] by simp
  qed
qed

lemma insert_key_correct:
  assumes w: "cache_wf L H s" and m: "mode_ok s key" and en: "\<not> rc_disable s" and l: "length (query s key) \<le> length vals"
  shows "insert_key key (Some vals) prio chunked s = Inr ((n, j), s') \<Longrightarrow>
      \<exists>i. j = Some i \<and> inserted L H s (query s key) (take (length (query s key)) vals) n i s'"
    and "\<not> ev_enabled (rc_events s) \<Longrightarrow> \<exists>n j s'. insert_key key (Some vals) prio chunked s = Inr ((n, j), s') \<and> rc_events s' = rc_events s"
proof -
  have ps: "0 < rc_page_size s" using tree_okD(1) [OF wfD(1) [OF w]] .
  obtain k v where v: "maybe_to_bigram_view key (rc_eagle s) (Some vals) = (k, Some v)"
    by (cases "rc_eagle s \<and> \<not> is_bigram key") (simp_all add: maybe_to_bigram_view_def Let_def)
  obtain k' where k': "page_aligned k (rc_page_size s) = Inr k'" "key_ok s k'" "tk k' = query s key"
    by (rule aligned_view [OF ps m v])
  have len: "rk_len k' = length (query s key)" using k'(3) by (metis length_tk)
  have lk: "rk_len k' \<le> rk_len k"
    using k'(1) by (auto simp: page_aligned_def split: if_splits)
  have tv: "take (rk_len k') v = take (length (query s key)) vals"
    using v lk by (auto simp: len [symmetric] maybe_to_bigram_view_def Let_def min_def split: if_splits)
  let ?R = "insert_helper (rc_root s) k' (take (length (query s key)) vals) prio chunked s"
  have eq: "insert_key key (Some vals) prio chunked s = rbind ?R (\<lambda>(prefix_len, last_node, s). Inr ((prefix_len, Some last_node), s))"
    using en v k'(1) tv unfolding insert_key_def by (simp add: rbind_Inr Let_def)
  have o: "insert_outcome L H s k' (take (length (query s key)) vals) ?R"
    by (rule insert_helper_outcome [OF w k'(2)]) (use l len in simp)
  show "insert_key key (Some vals) prio chunked s = Inr ((n, j), s') \<Longrightarrow>
      \<exists>i. j = Some i \<and> inserted L H s (query s key) (take (length (query s key)) vals) n i s'"
    using insert_outcomeD(1) [OF o] unfolding eq k'(3) by (auto simp: rbind_eq_Inr)
  show "\<not> ev_enabled (rc_events s) \<Longrightarrow> \<exists>n j s'. insert_key key (Some vals) prio chunked s = Inr ((n, j), s') \<and> rc_events s' = rc_events s"
    using insert_outcomeD(2) [OF o] unfolding eq by (auto simp: rbind_Inr)
qed

end
