(* ===== verification/Radix_Lock.thy ===== *)
theory Radix_Lock
  imports Radix_Insert
begin

text \<open>
  \<open>inc_lock_ref\<close> and \<open>dec_lock_ref\<close>: the loops up to the root change the counts of exactly the nodes
  on the path, move their tokens between the evictable and the protected size, and never run out
  of fuel because a path has no repeated node.
\<close>

section \<open>Paths up to the root\<close>

lemma tree_ok_distinct:
  assumes t: "tree_ok ps eagle st r L" and c: "chain (edge st) r is"
  shows "distinct is"
proof (rule ccontr)
  assume "\<not> distinct is"
  then obtain a b d x where d: "is = a @ [x] @ b @ [x] @ d" using not_distinct_decomp by blast
  have x: "chain (edge st) r (a @ [x])" "chain (edge st) x (b @ [x])"
    using c unfolding d by (auto simp: chain_append)
  have "x \<in> L" using tree_ok_chain [OF t tree_okD(3) [OF t] x(1)] by auto
  from tree_ok_no_cycle [OF t this x(2)] show False by simp
qed

lemma tree_ok_depth:
  assumes w: "cache_wf L H s" and c: "chain (edge (rc_store s)) (rc_root s) is"
  shows "length is \<le> rc_counter s"
proof -
  note t = wfD(1) [OF w]
  have "set is \<subseteq> {..<rc_counter s}"
  proof
    fix x assume "x \<in> set is"
    then have "x \<in> L" using tree_ok_chain [OF t tree_okD(3) [OF t] c] by blast
    then show "x \<in> {..<rc_counter s}" using tree_okD(4) [OF t] wfD(2) [OF w] by blast
  qed
  then have "card (set is) \<le> rc_counter s" using card_mono [of "{..<rc_counter s}" "set is"] by simp
  then show ?thesis using distinct_card [OF tree_ok_distinct [OF t c]] by simp
qed

lemma below_path:
  assumes t: "tree_ok ps eagle st r L" and c: "chain (edge st) r is" "last (r # is) = i" and j: "j \<in> L"
  shows "below st j i \<longleftrightarrow> j = r \<or> j \<in> set is"
proof
  assume "below st j i"
  then obtain js where js: "chain (edge st) j js" "last (j # js) = i" by (auto simp: below_def)
  obtain ks where ks: "chain (edge st) r ks" "last (r # ks) = j" using tree_okD(10) [OF t j] by blast
  have "chain (edge st) r (ks @ js)" unfolding chain_append ks(2) using ks(1) js(1) by blast
  moreover have "last (r # ks @ js) = last (r # is)" unfolding c(2) using ks(2) js(2) by (cases js) auto
  ultimately have "ks @ js = is" by (rule tree_ok_path_unique [OF t _ c(1)])
  then show "j = r \<or> j \<in> set is" using ks(2) by (cases ks rule: rev_cases) auto
next
  assume "j = r \<or> j \<in> set is"
  then show "below st j i"
  proof
    assume "j \<in> set is"
    then obtain a b where d: "is = (a @ [j]) @ b" by (auto dest: split_list)
    then have "chain (edge st) j b" "last (j # b) = i" using c by (auto simp: chain_append)
    then show ?thesis unfolding below_def by blast
  next
    assume "j = r"
    then show ?thesis unfolding below_def using c by blast
  qed
qed

section \<open>Changing the lock counts of a set of nodes\<close>

definition lock_add :: "int \<Rightarrow> nat set \<Rightarrow> store \<Rightarrow> store" where
  "lock_add d A st = (\<lambda>j. if j \<in> A then map_option (\<lambda>n. n\<lparr>n_lock_ref := n_lock_ref n + d\<rparr>) (st j) else st j)"

lemma lock_add_empty [simp]: "lock_add d {} st = st"
  by (simp add: lock_add_def)

lemma lock_add_fields:
  assumes "A \<subseteq> dom st"
  shows "dom (lock_add d A st) = dom st"
    "n_children (node_at (lock_add d A st) j) = n_children (node_at st j)"
    "n_parent (node_at (lock_add d A st) j) = n_parent (node_at st j)"
    "n_key (node_at (lock_add d A st) j) = n_key (node_at st j)"
    "n_value (node_at (lock_add d A st) j) = n_value (node_at st j)"
    "n_lock_ref (node_at (lock_add d A st) j) = n_lock_ref (node_at st j) + (if j \<in> A then d else 0)"
proof -
  show "dom (lock_add d A st) = dom st" by (auto simp: lock_add_def dom_def)
  have "j \<in> A \<Longrightarrow> \<exists>n. st j = Some n" using assms by blast
  then show "n_children (node_at (lock_add d A st) j) = n_children (node_at st j)"
    "n_parent (node_at (lock_add d A st) j) = n_parent (node_at st j)"
    "n_key (node_at (lock_add d A st) j) = n_key (node_at st j)"
    "n_value (node_at (lock_add d A st) j) = n_value (node_at st j)"
    "n_lock_ref (node_at (lock_add d A st) j) = n_lock_ref (node_at st j) + (if j \<in> A then d else 0)"
    by (auto simp: lock_add_def)
qed

lemma lock_add_tree:
  assumes "A \<subseteq> dom st"
  shows "edge (lock_add d A st) = edge st" "path_key (lock_add d A st) = path_key st" "path_val (lock_add d A st) = path_val st"
    "tree_ok ps eagle (lock_add d A st) r L = tree_ok ps eagle st r L" "below (lock_add d A st) = below st"
    "cached ps (lock_add d A st) = cached ps st" "at_node (lock_add d A st) = at_node st"
    "tokens (lock_add d A st) B = tokens st B"
proof -
  note f = lock_add_fields [where d = d, OF assms]
  show e: "edge (lock_add d A st) = edge st" by (simp add: fun_eq_iff edge_def f)
  show p: "path_key (lock_add d A st) = path_key st" "path_val (lock_add d A st) = path_val st"
    by (simp_all add: fun_eq_iff path_key_def path_val_def f)
  show "tree_ok ps eagle (lock_add d A st) r L = tree_ok ps eagle st r L"
    by (simp add: tree_ok_def children_ok_def node_ok_def e f)
  show "below (lock_add d A st) = below st" by (simp add: fun_eq_iff below_def e)
  show "cached ps (lock_add d A st) = cached ps st" "at_node (lock_add d A st) = at_node st"
    by (simp_all add: fun_eq_iff cached_def at_node_def e p)
  show "tokens (lock_add d A st) B = tokens st B" by (simp add: tokens_def f)
qed

lemma lock_add_upd:
  "upd i (\<lambda>n. n\<lparr>n_lock_ref := n_lock_ref n + d\<rparr>) st = lock_add d {i} st"
  by (simp add: fun_eq_iff lock_add_def upd_apply)

lemma lock_add_insert: "i \<notin> A \<Longrightarrow> lock_add d A (lock_add d {i} st) = lock_add d (insert i A) st"
  by (auto simp: fun_eq_iff lock_add_def)

text \<open>The last node of a path from the root, as the loops that walk up see it.\<close>

lemma path_end:
  assumes t: "tree_ok ps eagle st r L" and c: "chain (edge st) r (js @ [i])"
  shows "i \<noteq> r" "i \<in> L" "i \<notin> set js" "chain (edge st) r js" "n_parent (node_at st i) = Some (last (r # js))" "{i} \<subseteq> dom st"
proof -
  have rL: "r \<in> L" by (rule tree_okD(3) [OF t])
  show "i \<noteq> r" "i \<in> L" using tree_ok_chain [OF t rL c] by auto
  then show "{i} \<subseteq> dom st" using tree_okD(4) [OF t] by auto
  show "i \<notin> set js" using tree_ok_distinct [OF t c] by simp
  have c': "chain (edge st) r js" "edge st (last (r # js)) i" using c by (auto simp: chain_append)
  then show "chain (edge st) r js" by blast
  show "n_parent (node_at st i) = Some (last (r # js))" by (rule tree_ok_edge(3) [OF t tree_ok_last [OF t rL c'(1)] c'(2)])
qed

lemma tokens_snoc:
  assumes "i \<notin> set js"
  shows "tokens st {j \<in> set (js @ [i]). P j} = (if P i then int (rk_len (n_key (node_at st i))) else 0) + tokens st {j \<in> set js. P j}"
proof -
  have "{j \<in> set (js @ [i]). P j} = (if P i then {i} else {}) \<union> {j \<in> set js. P j}" by auto
  then show ?thesis using assms by (simp add: tokens_def)
qed

lemma inc_lock_loop_eq:
  assumes "tree_ok ps eagle (rc_store s) (rc_root s) L" "chain (edge (rc_store s)) (rc_root s) is" "last (rc_root s # is) = i"
    and "length is \<le> fuel" "\<And>j. j \<in> set is \<Longrightarrow> 0 \<le> n_lock_ref (nd s j)"
  defines "X \<equiv> tokens (rc_store s) {j \<in> set is. n_lock_ref (nd s j) = 0}"
  shows "inc_lock_loop fuel i d s = Inr (d - X,
       s\<lparr>rc_store := lock_add 1 (set is) (rc_store s), rc_evictable := rc_evictable s - X,
         rc_protected := rc_protected s + X, rc_leaves := rc_leaves s - set is\<rparr>)"
  using assms(1-5) unfolding X_def
proof (induction "is" arbitrary: i fuel d s rule: rev_induct)
  case Nil
  then show ?case by (simp add: inc_lock_loop.simps tokens_def)
next
  case (snoc x js)
  have x: "x = i" using snoc.prems(3) by simp
  note t = snoc.prems(1) and pe = path_end [OF snoc.prems(1,2) [unfolded x]]
  obtain fuel' where fuel: "fuel = Suc fuel'" "length js \<le> fuel'" using snoc.prems(4) by (cases fuel) auto
  let ?len = "if n_lock_ref (nd s i) = 0 then int (rk_len (n_key (nd s i))) else 0"
  define s1 where "s1 = s\<lparr>rc_evictable := rc_evictable s - ?len, rc_protected := rc_protected s + ?len,
     rc_store := lock_add 1 {i} (rc_store s), rc_leaves := rc_leaves s - {i}\<rparr>"
  have step: "inc_lock_loop fuel i d s = inc_lock_loop fuel' (last (rc_root s # js)) (d - ?len) s1"
    using pe(1,5,6) snoc.prems(5) [of i] x
    by (simp add: fuel(1) inc_lock_loop.simps [of "Suc fuel'"] s1_def set_node_def lock_add_upd update_leaf_status_def Let_def
        lock_add_fields)
  note tr = lock_add_tree [where d = 1, OF pe(6)] and f = lock_add_fields [where d = 1, OF pe(6)]
  have lk: "n_lock_ref (nd s1 j) = n_lock_ref (nd s j)" if "j \<in> set js" for j using that pe(3) by (auto simp: s1_def f)
  have set: "{j \<in> set js. n_lock_ref (nd s1 j) = 0} = {j \<in> set js. n_lock_ref (nd s j) = 0}" using lk by auto
  have "inc_lock_loop fuel' (last (rc_root s # js)) (d - ?len) s1 =
     Inr (d - ?len - tokens (rc_store s1) {j \<in> set js. n_lock_ref (nd s1 j) = 0},
       s1\<lparr>rc_store := lock_add 1 (set js) (rc_store s1),
         rc_evictable := rc_evictable s1 - tokens (rc_store s1) {j \<in> set js. n_lock_ref (nd s1 j) = 0},
         rc_protected := rc_protected s1 + tokens (rc_store s1) {j \<in> set js. n_lock_ref (nd s1 j) = 0},
         rc_leaves := rc_leaves s1 - set js\<rparr>)"
    using t pe(4) fuel(2) snoc.prems(5) lk by (intro snoc.IH) (simp_all add: s1_def tr)
  moreover have "rc_leaves s - {i} - set js = rc_leaves s - insert i (set js)" by blast
  ultimately show ?case
    unfolding step x tokens_snoc [OF pe(3)] set using pe(3) by (simp add: s1_def tr lock_add_insert algebra_simps)
qed

lemma dec_lock_loop_eq:
  assumes "tree_ok ps eagle (rc_store s) (rc_root s) L" "chain (edge (rc_store s)) (rc_root s) is" "last (rc_root s # is) = i"
    and "length is \<le> fuel" "\<And>j. j \<in> set is \<Longrightarrow> 1 \<le> n_lock_ref (nd s j)"
  defines "X \<equiv> tokens (rc_store s) {j \<in> set is. n_lock_ref (nd s j) = 1}"
  shows "dec_lock_loop fuel i d s = Inr (d + X,
       s\<lparr>rc_store := lock_add (- 1) (set is) (rc_store s), rc_evictable := rc_evictable s + X,
         rc_protected := rc_protected s - X,
         rc_leaves := (rc_leaves s - set is) \<union> {j \<in> set is. n_lock_ref (nd s j) = 1 \<and> n_children (nd s j) = []}\<rparr>)"
  using assms(1-5) unfolding X_def
proof (induction "is" arbitrary: i fuel d s rule: rev_induct)
  case Nil
  then show ?case by (simp add: dec_lock_loop.simps tokens_def)
next
  case (snoc x js)
  have x: "x = i" using snoc.prems(3) by simp
  note t = snoc.prems(1) and pe = path_end [OF snoc.prems(1,2) [unfolded x]]
  obtain fuel' where fuel: "fuel = Suc fuel'" "length js \<le> fuel'" using snoc.prems(4) by (cases fuel) auto
  let ?len = "if n_lock_ref (nd s i) = 1 then int (rk_len (n_key (nd s i))) else 0"
  note tr = lock_add_tree [where d = "- 1", OF pe(6)] and f = lock_add_fields [where d = "- 1", OF pe(6)]
  define s0 where "s0 = s\<lparr>rc_evictable := rc_evictable s + ?len, rc_protected := rc_protected s - ?len,
     rc_store := lock_add (- 1) {i} (rc_store s)\<rparr>"
  define s1 where "s1 = update_leaf_status i s0"
  have ne: "\<not> evicted (nd s0 j)" if "j \<in> L" for j
    using that tree_okD(7) [OF t] tree_okD(9) [OF t, of j] by (cases "j = rc_root s") (auto simp: s0_def f node_ok_def evicted_def)
  have kids: "list_ex (\<lambda>(_, c). \<not> evicted (nd s0 c)) (n_children (nd s0 i)) \<longleftrightarrow> n_children (nd s0 i) \<noteq> []"
    using tree_okD(8) [OF t pe(2)] ne by (cases "n_children (nd s i)") (auto simp: children_ok_def s0_def f)
  have s1: "s1 = s0\<lparr>rc_leaves := (rc_leaves s - {i}) \<union> (if n_lock_ref (nd s i) = 1 \<and> n_children (nd s i) = [] then {i} else {})\<rparr>"
    using ne [OF pe(2)] kids snoc.prems(5) [of i] x unfolding s1_def update_leaf_status_def by (auto simp: s0_def f Let_def)
  have step: "dec_lock_loop fuel i d s = dec_lock_loop fuel' (last (rc_root s # js)) (d + ?len) s1"
    using pe(1,5)
    by (simp add: fuel(1) dec_lock_loop.simps [of "Suc fuel'"] s1_def s0_def set_node_def lock_add_upd [of i "- 1", simplified] Let_def)
  have st: "rc_store s1 = lock_add (- 1) {i} (rc_store s)" "rc_root s1 = rc_root s" by (simp_all add: s1 s0_def)
  have lk: "n_lock_ref (nd s1 j) = n_lock_ref (nd s j)" if "j \<in> set js" for j using that pe(3) by (auto simp: st f)
  have set: "{j \<in> set js. n_lock_ref (nd s1 j) = 1} = {j \<in> set js. n_lock_ref (nd s j) = 1}"
    "{j \<in> set js. n_lock_ref (nd s1 j) = 1 \<and> n_children (nd s1 j) = []} = {j \<in> set js. n_lock_ref (nd s j) = 1 \<and> n_children (nd s j) = []}"
    using pe(3) by (auto simp: st f)
  have "dec_lock_loop fuel' (last (rc_root s # js)) (d + ?len) s1 =
     Inr (d + ?len + tokens (rc_store s1) {j \<in> set js. n_lock_ref (nd s1 j) = 1},
       s1\<lparr>rc_store := lock_add (- 1) (set js) (rc_store s1),
         rc_evictable := rc_evictable s1 + tokens (rc_store s1) {j \<in> set js. n_lock_ref (nd s1 j) = 1},
         rc_protected := rc_protected s1 - tokens (rc_store s1) {j \<in> set js. n_lock_ref (nd s1 j) = 1},
         rc_leaves := (rc_leaves s1 - set js) \<union> {j \<in> set js. n_lock_ref (nd s1 j) = 1 \<and> n_children (nd s1 j) = []}\<rparr>)"
    using t pe(4) fuel(2) snoc.prems(5) lk by (intro snoc.IH) (simp_all add: st tr)
  moreover have "(rc_leaves s - {i}) \<union> (if n_lock_ref (nd s i) = 1 \<and> n_children (nd s i) = [] then {i} else {}) - set js \<union>
      {j \<in> set js. n_lock_ref (nd s j) = 1 \<and> n_children (nd s j) = []} =
      (rc_leaves s - set (js @ [i])) \<union> {j \<in> set (js @ [i]). n_lock_ref (nd s j) = 1 \<and> n_children (nd s j) = []}"
    using pe(3) by auto
  ultimately show ?case
    unfolding step x tokens_snoc [OF pe(3)] set using pe(3) by (simp add: s1 s0_def tr lock_add_insert algebra_simps)
qed

section \<open>Taking and releasing a lock\<close>

text \<open>What locking leaves alone.\<close>

definition relocked :: "cache \<Rightarrow> cache \<Rightarrow> bool" where
  "relocked s s' \<longleftrightarrow> same_frame s s' \<and> rc_alloc s' = rc_alloc s \<and> rc_events s' = rc_events s \<and> rc_counter s' = rc_counter s \<and>
     cached (rc_page_size s) (rc_store s') = cached (rc_page_size s) (rc_store s) \<and>
     at_node (rc_store s') = at_node (rc_store s) \<and> (\<forall>j. n_value (nd s' j) = n_value (nd s j)) \<and>
     rc_evictable s' + rc_protected s' = rc_evictable s + rc_protected s"

lemma path_to:
  assumes w: "cache_wf L H s" and i: "i \<in> L"
  obtains "is" where "chain (edge (rc_store s)) (rc_root s) is" "last (rc_root s # is) = i" "length is \<le> rc_counter s"
    "set is \<subseteq> L - {rc_root s}" "set is \<subseteq> dom (rc_store s)" "\<forall>j\<in>L. below (rc_store s) j i \<longleftrightarrow> j = rc_root s \<or> j \<in> set is"
proof -
  note t = wfD(1) [OF w]
  obtain "is" where c: "chain (edge (rc_store s)) (rc_root s) is" "last (rc_root s # is) = i"
    using tree_okD(10) [OF t i] by blast
  have s: "set is \<subseteq> L - {rc_root s}" by (rule tree_ok_chain [OF t tree_okD(3) [OF t] c(1)])
  then have "set is \<subseteq> dom (rc_store s)" using tree_okD(4) [OF t] by blast
  then show ?thesis using that [OF c tree_ok_depth [OF w c(1)] s] below_path [OF t c] by blast
qed

lemma tokens_union: "finite A \<Longrightarrow> finite B \<Longrightarrow> A \<inter> B = {} \<Longrightarrow> tokens st (A \<union> B) = tokens st A + tokens st B"
  by (simp add: tokens_def sum.union_disjoint)

lemma inc_lock_parts:
  assumes "A \<subseteq> L - {r}" "A \<subseteq> dom st" "\<And>j. j \<in> A \<Longrightarrow> 0 \<le> n_lock_ref (node_at st j)"
  shows "unlocked (lock_add 1 A st) r L = unlocked st r L - A" "locked (lock_add 1 A st) r L = locked st r L \<union> A"
    "leaf_set (lock_add 1 A st) r L = leaf_set st r L - A"
proof -
  note f = lock_add_fields [where d = 1, OF assms(2)]
  show u: "unlocked (lock_add 1 A st) r L = unlocked st r L - A" "locked (lock_add 1 A st) r L = locked st r L \<union> A"
    using assms(1,3) by (force simp: unlocked_def locked_def f)+
  show "leaf_set (lock_add 1 A st) r L = leaf_set st r L - A" by (auto simp: leaf_set_def u(1) f)
qed

lemma inc_lock_ref_correct:
  assumes w: "cache_wf L H s" and i: "i \<in> L" and en: "\<not> rc_disable s"
  shows "\<exists>X s'. inc_lock_ref i s = Inr (- X, s') \<and> 0 \<le> X \<and> rc_evictable s' = rc_evictable s - X \<and>
     cache_wf L (i # H) s' \<and> relocked s s'"
proof -
  note t = wfD(1) [OF w] and lk = wfD(3) [OF w]
  obtain "is" where p: "chain (edge (rc_store s)) (rc_root s) is" "last (rc_root s # is) = i" "length is \<le> rc_counter s"
    "set is \<subseteq> L - {rc_root s}" "set is \<subseteq> dom (rc_store s)" "\<forall>j\<in>L. below (rc_store s) j i \<longleftrightarrow> j = rc_root s \<or> j \<in> set is"
    by (rule path_to [OF w i])
  let ?A = "set is" and ?st = "rc_store s" and ?r = "rc_root s"
  let ?Z = "{j \<in> ?A. n_lock_ref (nd s j) = 0}"
  let ?X = "tokens ?st ?Z" and ?st' = "lock_add 1 ?A ?st"
  have nn: "0 \<le> n_lock_ref (nd s j)" if "j \<in> ?A" for j using that p(4) lock_nonneg [OF lk] by blast
  define s' where "s' = s\<lparr>rc_store := ?st', rc_evictable := rc_evictable s - ?X, rc_protected := rc_protected s + ?X,
     rc_leaves := rc_leaves s - ?A\<rparr>"
  have eq: "inc_lock_ref i s = Inr (- ?X, s')"
    using inc_lock_loop_eq [OF t p(1-3) nn, of 0] en by (simp add: inc_lock_ref_def s'_def)
  note f = lock_add_fields [where d = 1, OF p(5)] and tr = lock_add_tree [where d = 1, OF p(5)]
    and pt = inc_lock_parts [OF p(4,5) nn]
  have fin: "finite L" by (rule tree_okD(2) [OF t])
  have "tokens ?st (unlocked ?st ?r L) = tokens ?st (unlocked ?st ?r L - ?A) + ?X"
  proof -
    have "unlocked ?st ?r L = (unlocked ?st ?r L - ?A) \<union> ?Z" using p(4) by (auto simp: unlocked_def)
    moreover have "finite (unlocked ?st ?r L - ?A)" "(unlocked ?st ?r L - ?A) \<inter> ?Z = {}" using fin by (auto simp: unlocked_def)
    ultimately show ?thesis using tokens_union [of "unlocked ?st ?r L - ?A" ?Z] by simp
  qed
  moreover have "tokens ?st (locked ?st ?r L \<union> ?A) = tokens ?st (locked ?st ?r L) + ?X"
  proof -
    have "locked ?st ?r L \<union> ?A = locked ?st ?r L \<union> ?Z" "locked ?st ?r L \<inter> ?Z = {}" using p(4) by (auto simp: locked_def)
    moreover have "finite (locked ?st ?r L)" using fin by (simp add: locked_def)
    ultimately show ?thesis using tokens_union [of "locked ?st ?r L" ?Z] by simp
  qed
  moreover have "locks_ok ?st' ?r L (i # H)"
    using lk i p(4,6) by (auto simp: locks_ok_def f tr)
  ultimately have "cache_wf L (i # H) s'"
    using w pt by (simp add: cache_wf_def s'_def tr f)
  moreover have "relocked s s'" by (simp add: relocked_def s'_def same_frame_def tr f)
  moreover have "0 \<le> ?X" by (simp add: tokens_def sum_nonneg)
  ultimately show ?thesis using eq by (intro exI [of _ ?X] exI [of _ s']) (simp add: s'_def)
qed


lemma dec_lock_parts:
  assumes "A \<subseteq> L - {r}" "A \<subseteq> dom st" "\<And>j. j \<in> A \<Longrightarrow> 1 \<le> n_lock_ref (node_at st j)"
  defines "Z \<equiv> {j \<in> A. n_lock_ref (node_at st j) = 1}"
  shows "unlocked (lock_add (- 1) A st) r L = unlocked st r L \<union> Z" "unlocked st r L \<inter> Z = {}"
    "locked (lock_add (- 1) A st) r L = locked st r L - Z" "Z \<subseteq> locked st r L"
    "leaf_set (lock_add (- 1) A st) r L = (leaf_set st r L - A) \<union> {j \<in> A. n_lock_ref (node_at st j) = 1 \<and> n_children (node_at st j) = []}"
proof -
  note f = lock_add_fields [where d = "- 1", OF assms(2)]
  show u: "unlocked (lock_add (- 1) A st) r L = unlocked st r L \<union> Z" "unlocked st r L \<inter> Z = {}"
    using assms(1,3) by (force simp: unlocked_def Z_def f)+
  show "locked (lock_add (- 1) A st) r L = locked st r L - Z" "Z \<subseteq> locked st r L"
    using assms(1,3) by (force simp: locked_def Z_def f)+
  have "leaf_set st r L \<inter> A = {}" using assms(3) by (force simp: leaf_set_def unlocked_def)
  then show "leaf_set (lock_add (- 1) A st) r L = (leaf_set st r L - A) \<union> {j \<in> A. n_lock_ref (node_at st j) = 1 \<and> n_children (node_at st j) = []}"
    by (auto simp: leaf_set_def u(1) f Z_def)
qed

lemma filter_remove1_length:
  "x \<in> set H \<Longrightarrow> int (length (filter P (remove1 x H))) = int (length (filter P H)) - (if P x then 1 else 0)"
  by (induction H) auto

lemma dec_lock_ref_correct:
  assumes w: "cache_wf L H s" and i: "i \<in> set H" and en: "\<not> rc_disable s"
  shows "\<exists>X s'. dec_lock_ref i s = Inr (X, s') \<and> 0 \<le> X \<and> rc_evictable s' = rc_evictable s + X \<and>
     cache_wf L (remove1 i H) s' \<and> relocked s s'"
proof -
  note t = wfD(1) [OF w] and lk = wfD(3) [OF w]
  have iL: "i \<in> L" using i lk by (auto simp: locks_ok_def)
  obtain "is" where p: "chain (edge (rc_store s)) (rc_root s) is" "last (rc_root s # is) = i" "length is \<le> rc_counter s"
    "set is \<subseteq> L - {rc_root s}" "set is \<subseteq> dom (rc_store s)" "\<forall>j\<in>L. below (rc_store s) j i \<longleftrightarrow> j = rc_root s \<or> j \<in> set is"
    by (rule path_to [OF w iL])
  let ?A = "set is" and ?st = "rc_store s" and ?r = "rc_root s"
  let ?Z = "{j \<in> ?A. n_lock_ref (nd s j) = 1}"
  let ?X = "tokens ?st ?Z" and ?st' = "lock_add (- 1) ?A ?st"
  have ge: "1 \<le> n_lock_ref (nd s j)" if j: "j \<in> ?A" for j
  proof -
    have "below ?st j i" using j p(4,6) by blast
    then have "filter (below ?st j) H \<noteq> []" using i by (auto simp: filter_empty_conv)
    moreover have "n_lock_ref (nd s j) = int (length (filter (below ?st j) H))"
      using lk j p(4) by (auto simp: locks_ok_def)
    ultimately show ?thesis by (cases "filter (below ?st j) H") auto
  qed
  define s' where "s' = s\<lparr>rc_store := ?st', rc_evictable := rc_evictable s + ?X, rc_protected := rc_protected s - ?X,
     rc_leaves := (rc_leaves s - ?A) \<union> {j \<in> ?A. n_lock_ref (nd s j) = 1 \<and> n_children (nd s j) = []}\<rparr>"
  have eq: "dec_lock_ref i s = Inr (?X, s')"
    using dec_lock_loop_eq [OF t p(1-3) ge, of 0] en by (simp add: dec_lock_ref_def s'_def)
  note f = lock_add_fields [where d = "- 1", OF p(5)] and tr = lock_add_tree [where d = "- 1", OF p(5)]
    and pt = dec_lock_parts [OF p(4,5) ge]
  have fin: "finite (unlocked ?st ?r L)" "finite (locked ?st ?r L)"
    using tree_okD(2) [OF t] by (simp_all add: unlocked_def locked_def)
  have "tokens ?st (unlocked ?st ?r L \<union> ?Z) = tokens ?st (unlocked ?st ?r L) + ?X"
    using tokens_union [OF fin(1) _ pt(2)] by simp
  moreover have "tokens ?st (locked ?st ?r L - ?Z) = tokens ?st (locked ?st ?r L) - ?X"
    using fin(2) pt(4) by (simp add: tokens_def sum_diff)
  moreover have "locks_ok ?st' ?r L (remove1 i H)"
    using lk p(4,6) set_remove1_subset [of i H] by (auto simp: locks_ok_def f tr filter_remove1_length [OF i])
  ultimately have "cache_wf L (remove1 i H) s'"
    using w pt by (simp add: cache_wf_def s'_def tr f)
  moreover have "relocked s s'" by (simp add: relocked_def s'_def same_frame_def tr f)
  moreover have "0 \<le> ?X" by (simp add: tokens_def sum_nonneg)
  ultimately show ?thesis using eq by (intro exI [of _ ?X] exI [of _ s']) (simp add: s'_def)
qed

lemma lock_add_inverse: "lock_add (- d) A (lock_add d A st) = st"
  by (auto simp: fun_eq_iff lock_add_def option.map_comp o_def option.map_ident)

text \<open>Releasing a lock just taken restores the state exactly.\<close>

lemma inc_dec_lock_ref:
  assumes w: "cache_wf L H s" and i: "i \<in> L" and en: "\<not> rc_disable s"
  shows "\<exists>X s'. inc_lock_ref i s = Inr (- X, s') \<and> dec_lock_ref i s' = Inr (X, s)"
proof -
  note t = wfD(1) [OF w] and lk = wfD(3) [OF w]
  obtain "is" where p: "chain (edge (rc_store s)) (rc_root s) is" "last (rc_root s # is) = i" "length is \<le> rc_counter s"
    "set is \<subseteq> L - {rc_root s}" "set is \<subseteq> dom (rc_store s)" "\<forall>j\<in>L. below (rc_store s) j i \<longleftrightarrow> j = rc_root s \<or> j \<in> set is"
    by (rule path_to [OF w i])
  let ?A = "set is" and ?st = "rc_store s"
  let ?X = "tokens ?st {j \<in> ?A. n_lock_ref (nd s j) = 0}"
  have nn: "0 \<le> n_lock_ref (nd s j)" if "j \<in> ?A" for j using that p(4) lock_nonneg [OF lk] by blast
  define s' where "s' = s\<lparr>rc_store := lock_add 1 ?A ?st, rc_evictable := rc_evictable s - ?X, rc_protected := rc_protected s + ?X,
     rc_leaves := rc_leaves s - ?A\<rparr>"
  have inc: "inc_lock_ref i s = Inr (- ?X, s')"
    using inc_lock_loop_eq [OF t p(1-3) nn, of 0] en by (simp add: inc_lock_ref_def s'_def)
  note f = lock_add_fields [where d = 1, OF p(5)] and tr = lock_add_tree [where d = 1, OF p(5)]
  have Z: "{j \<in> ?A. n_lock_ref (nd s' j) = 1} = {j \<in> ?A. n_lock_ref (nd s j) = 0}"
    "(rc_leaves s - ?A) \<union> {j \<in> ?A. n_lock_ref (nd s' j) = 1 \<and> n_children (nd s' j) = []} = rc_leaves s"
    using wfD(4) [OF w] p(4) by (auto simp: s'_def f leaf_set_def unlocked_def)
  have "dec_lock_loop (rc_counter s') i 0 s' = Inr (0 + tokens (rc_store s') {j \<in> ?A. n_lock_ref (nd s' j) = 1},
       s'\<lparr>rc_store := lock_add (- 1) ?A (rc_store s'), rc_evictable := rc_evictable s' + tokens (rc_store s') {j \<in> ?A. n_lock_ref (nd s' j) = 1},
         rc_protected := rc_protected s' - tokens (rc_store s') {j \<in> ?A. n_lock_ref (nd s' j) = 1},
         rc_leaves := (rc_leaves s' - ?A) \<union> {j \<in> ?A. n_lock_ref (nd s' j) = 1 \<and> n_children (nd s' j) = []}\<rparr>)"
    using t p(1-3) nn by (intro dec_lock_loop_eq) (simp_all add: s'_def tr f)
  then have "dec_lock_ref i s' = Inr (?X, s)"
    using en Z unfolding dec_lock_ref_def by (simp add: s'_def tr lock_add_inverse)
  then show ?thesis using inc by blast
qed

end
