(* ===== verification/Radix_Prune.thy ===== *)
theory Radix_Prune
  imports Radix_Lock
begin

text \<open>Removing a childless node: the surviving nodes keep their places, and locks, leaves and sizes follow.\<close>

section \<open>Removing a leaf\<close>

definition prune_ctx :: "nat \<Rightarrow> bool \<Rightarrow> store \<Rightarrow> store \<Rightarrow> nat \<Rightarrow> nat \<Rightarrow> nat \<Rightarrow> nat set \<Rightarrow> bool" where
  "prune_ctx ps eagle st st' r x p L \<longleftrightarrow>
     tree_ok ps eagle st r L \<and> x \<in> L \<and> x \<noteq> r \<and> n_children (node_at st x) = [] \<and> p \<in> L \<and> edge st p x \<and>
     (\<exists>ck. child_key (n_key (node_at st x)) ps = Inr ck \<and>
        st' = upd p (\<lambda>n. n\<lparr>n_children := AList.delete ck (n_children n)\<rparr>) st)"

lemma prune_ctxD:
  assumes "prune_ctx ps eagle st st' r x p L"
  shows "tree_ok ps eagle st r L" "x \<in> L" "x \<noteq> r" "n_children (node_at st x) = []" "p \<in> L" "edge st p x"
    "x \<noteq> p" "n_parent (node_at st x) = Some p"
proof -
  show x: "tree_ok ps eagle st r L" "x \<in> L" "x \<noteq> r" "n_children (node_at st x) = []" "p \<in> L" "edge st p x"
    using assms unfolding prune_ctx_def by blast+
  show "x \<noteq> p" by (rule tree_ok_edge_neq [OF x(1,5,6)])
  show "n_parent (node_at st x) = Some p" by (rule tree_ok_edge(3) [OF x(1,5,6)])
qed

lemma prune_fields:
  assumes X: "prune_ctx ps eagle st st' r x p L"
  shows "dom st' = dom st" "n_key (node_at st' j) = n_key (node_at st j)" "n_value (node_at st' j) = n_value (node_at st j)"
    "n_lock_ref (node_at st' j) = n_lock_ref (node_at st j)" "n_parent (node_at st' j) = n_parent (node_at st j)"
    "j \<noteq> p \<Longrightarrow> n_children (node_at st' j) = n_children (node_at st j)"
    "set (n_children (node_at st' p)) = {c \<in> set (n_children (node_at st p)). snd c \<noteq> x}"
    "distinct (map fst (n_children (node_at st' p)))"
proof -
  note x = prune_ctxD [OF X]
  obtain ck where ck: "child_key (n_key (node_at st x)) ps = Inr ck"
    and st': "st' = upd p (\<lambda>n. n\<lparr>n_children := AList.delete ck (n_children n)\<rparr>) st"
    using X unfolding prune_ctx_def by blast
  obtain np where np: "st p = Some np" using tree_okD(4) [OF x(1,5)] by blast
  show "dom st' = dom st" by (simp add: st' dom_upd)
  show "n_key (node_at st' j) = n_key (node_at st j)" "n_value (node_at st' j) = n_value (node_at st j)"
    "n_lock_ref (node_at st' j) = n_lock_ref (node_at st j)" "n_parent (node_at st' j) = n_parent (node_at st j)"
    "j \<noteq> p \<Longrightarrow> n_children (node_at st' j) = n_children (node_at st j)"
    using np by (auto simp: st' upd_apply)
  have kids: "n_children (node_at st' p) = AList.delete ck (n_children (node_at st p))" using np by (simp add: st')
  have ok: "children_ok ps st r L p" by (rule tree_okD(8) [OF x(1,5)])
  have key: "(a, b) \<in> set (n_children (node_at st p)) \<Longrightarrow> a = ck \<longleftrightarrow> b = x" for a b
  proof -
    assume h: "(a, b) \<in> set (n_children (node_at st p))"
    have "map_of (n_children (node_at st p)) ck = Some x" using map_of_child [OF ok] x(6) ck by blast
    moreover have "map_of (n_children (node_at st p)) a = Some b" using h ok by (simp add: children_ok_def)
    moreover have "child_key (n_key (node_at st b)) ps = Inr a" using h ok by (auto simp: children_ok_def)
    ultimately show ?thesis using ck by auto
  qed
  show "set (n_children (node_at st' p)) = {c \<in> set (n_children (node_at st p)). snd c \<noteq> x}"
    unfolding kids AList.delete_eq set_filter using key by fastforce
  show "distinct (map fst (n_children (node_at st' p)))"
    unfolding kids using ok by (simp add: children_ok_def distinct_delete)
qed

lemma prune_edge:
  assumes X: "prune_ctx ps eagle st st' r x p L" and a: "a \<in> L"
  shows "edge st' a b \<longleftrightarrow> edge st a b \<and> b \<noteq> x"
proof (cases "a = p")
  case True
  then show ?thesis using prune_fields(7) [OF X] by (auto simp: edge_def)
next
  case False
  note x = prune_ctxD [OF X]
  have "edge st a b \<Longrightarrow> b \<noteq> x" using False tree_ok_edge(3) [OF x(1) a] x(8) by auto
  then show ?thesis using prune_fields(6) [OF X False] by (auto simp: edge_def)
qed

lemma prune_chain:
  assumes X: "prune_ctx ps eagle st st' r x p L"
  shows "q \<in> L \<Longrightarrow> chain (edge st') q is \<longleftrightarrow> chain (edge st) q is \<and> x \<notin> set is"
proof (induction "is" arbitrary: q)
  case (Cons j "is")
  have "edge st q j \<Longrightarrow> j \<in> L" using tree_ok_edge(1) [OF prune_ctxD(1) [OF X] Cons.prems] .
  then show ?case using Cons prune_edge [OF X Cons.prems] by auto
qed simp

lemma chain_avoids_leaf:
  assumes X: "prune_ctx ps eagle st st' r x p L" and q: "q \<in> L" and c: "chain (edge st) q is" and l: "last (q # is) \<noteq> x"
  shows "x \<notin> set is"
proof
  assume "x \<in> set is"
  then obtain a b where d: "is = (a @ [x]) @ b" by (auto dest: split_list)
  then have "chain (edge st) x b" using c by (simp add: chain_append)
  then have "b = []" using prune_ctxD(4) [OF X] by (cases b) (auto simp: edge_def)
  then show False using l d by simp
qed

lemma prune_paths:
  assumes X: "prune_ctx ps eagle st st' r x p L"
  shows "path_key st' = path_key st" "path_val st' = path_val st"
  using prune_fields [OF X] by (simp_all add: fun_eq_iff path_key_def path_val_def)

lemma prune_tree_ok:
  assumes X: "prune_ctx ps eagle st st' r x p L"
  shows "tree_ok ps eagle st' r (L - {x})"
proof -
  note x = prune_ctxD [OF X] and f = prune_fields [OF X]
  have kids: "children_ok ps st' r (L - {x}) a" if a: "a \<in> L - {x}" for a
  proof -
    have ok: "children_ok ps st r L a" using tree_okD(8) [OF x(1)] a by blast
    have ok': "(ck, b) \<in> set (n_children (node_at st a)) \<Longrightarrow>
        b \<in> L \<and> b \<noteq> r \<and> n_parent (node_at st b) = Some a \<and> child_key (n_key (node_at st b)) ps = Inr ck" for ck b
      using ok by (auto simp: children_ok_def)
    have d: "distinct (map fst (n_children (node_at st' a)))" using ok f(8) f(6) [of a] by (cases "a = p") (simp_all add: children_ok_def)
    have sub: "(ck, b) \<in> set (n_children (node_at st' a)) \<Longrightarrow> (ck, b) \<in> set (n_children (node_at st a)) \<and> b \<noteq> x" for ck b
    proof -
      assume h: "(ck, b) \<in> set (n_children (node_at st' a))"
      then have "edge st' a b" by (force simp: edge_def)
      then have "b \<noteq> x" using prune_edge [OF X] a by blast
      then show ?thesis using h f(6,7) by (cases "a = p") auto
    qed
    show ?thesis
      unfolding children_ok_def f(2,5)
    proof (intro conjI ballI)
      fix c assume h: "c \<in> set (n_children (node_at st' a))"
      obtain ck b where c: "c = (ck, b)" by fastforce
      note s = sub [OF h [unfolded c]]
      show "case c of (ck, b) \<Rightarrow> b \<in> L - {x} \<and> b \<noteq> r \<and> n_parent (node_at st b) = Some a \<and> child_key (n_key (node_at st b)) ps = Inr ck"
        using ok' [OF conjunct1 [OF s]] conjunct2 [OF s] by (simp add: c)
    qed (rule d)
  qed
  have reach: "\<exists>is. chain (edge st') r is \<and> last (r # is) = i" if i: "i \<in> L - {x}" for i
  proof -
    obtain "is" where c: "chain (edge st) r is" "last (r # is) = i" using tree_okD(10) [OF x(1)] i by blast
    moreover have "x \<notin> set is" using chain_avoids_leaf [OF X tree_okD(3) [OF x(1)] c(1)] c(2) i by blast
    ultimately show ?thesis using prune_chain [OF X tree_okD(3) [OF x(1)]] by blast
  qed
  show ?thesis
    unfolding tree_ok_def
    using x(1,3) kids reach by (auto simp: tree_ok_def f node_ok_def)
qed

lemma prune_cached: "prune_ctx ps eagle st st' r x p L \<Longrightarrow> q \<in> L \<Longrightarrow> cached ps st' q u v \<Longrightarrow> cached ps st q u v"
  unfolding cached_def using prune_chain prune_paths by metis

lemma prune_at_node:
  assumes X: "prune_ctx ps eagle st st' r x p L" and q: "q \<in> L" and j: "j \<noteq> x"
  shows "at_node st' q j u v \<longleftrightarrow> at_node st q j u v"
  unfolding at_node_def prune_paths [OF X] prune_chain [OF X q]
  using chain_avoids_leaf [OF X q] j by blast

lemma prune_locks_ok:
  assumes X: "prune_ctx ps eagle st st' r x p L" and h: "locks_ok st r L H" and u: "n_lock_ref (node_at st x) = 0"
  shows "locks_ok st' r (L - {x}) H"
proof -
  note x = prune_ctxD [OF X] and f = prune_fields [OF X]
  have "filter (below st x) H = []" using h u x(2,3) by (simp add: locks_ok_def)
  moreover have "below st x x" unfolding below_def by (rule exI [of _ "[]"]) simp
  ultimately have xH: "x \<notin> set H" by (auto simp: filter_empty_conv)
  have "below st' i a \<longleftrightarrow> below st i a" if "i \<in> L" "a \<in> set H" for i a
  proof -
    have "a \<noteq> x" using that(2) xH by blast
    then show ?thesis unfolding below_def prune_chain [OF X that(1)] using chain_avoids_leaf [OF X that(1)] by blast
  qed
  then have "filter (below st' i) H = filter (below st i) H" if "i \<in> L" for i using that by (intro filter_cong) auto
  then show ?thesis using h xH x(3) by (auto simp: locks_ok_def f)
qed

lemma prune_parts:
  assumes X: "prune_ctx ps eagle st st' r x p L" and u: "n_lock_ref (node_at st x) = 0"
  shows "unlocked st' r (L - {x}) = unlocked st r L - {x}" "locked st' r (L - {x}) = locked st r L" "tokens st' A = tokens st A"
    "leaf_set st' r (L - {x}) = (leaf_set st r L - {x}) \<union> (if p \<in> unlocked st r L \<and> n_children (node_at st' p) = [] then {p} else {})"
proof -
  note x = prune_ctxD [OF X] and f = prune_fields [OF X]
  show un: "unlocked st' r (L - {x}) = unlocked st r L - {x}" by (auto simp: unlocked_def f)
  show "locked st' r (L - {x}) = locked st r L" using u by (auto simp: locked_def f)
  show "tokens st' A = tokens st A" by (simp add: tokens_def f)
  have "n_children (node_at st p) \<noteq> []" using x(6) by (auto simp: edge_def)
  then show "leaf_set st' r (L - {x}) = (leaf_set st r L - {x}) \<union> (if p \<in> unlocked st r L \<and> n_children (node_at st' p) = [] then {p} else {})"
    using x(7) f(6) unfolding leaf_set_def un by (auto split: if_splits) (metis f(6))+
qed

end
