(* ===== verification/Radix_Evict.thy ===== *)
theory Radix_Evict
  imports Radix_Prune
begin

text \<open>
  Eviction against the allocator: the slots of the tree are whole pages, no slot is in two nodes or
  free at the same time, and \<open>evict\<close> hands the slots of the nodes it removes to the allocator and
  nothing else. It ends with enough tokens evicted or with nothing left to evict.
\<close>

section \<open>Deleting a leaf\<close>

lemma delete_leaf_correct:
  assumes w: "cache_wf L H s" and x: "x \<in> rc_leaves s"
  obtains s' p where "delete_leaf x s = Inr s'" "cache_wf (L - {x}) H s'"
    "prune_ctx (rc_page_size s) (rc_eagle s) (rc_store s) (rc_store s') (rc_root s) x p L"
    "same_frame s s'" "rc_alloc s' = rc_alloc s" "rc_events s' = rc_events s" "rc_counter s' = rc_counter s"
    "rc_protected s' = rc_protected s" "rc_evictable s' = rc_evictable s - int (rk_len (n_key (nd s x)))"
proof -
  note t = wfD(1) [OF w] and lk = wfD(3) [OF w]
  let ?ps = "rc_page_size s" and ?r = "rc_root s" and ?st = "rc_store s"
  have xl: "x \<in> leaf_set ?st ?r L" using x wfD(4) [OF w] by simp
  then have xL: "x \<in> L" "x \<noteq> ?r" "n_lock_ref (nd s x) = 0" "n_children (nd s x) = []" by (auto simp: leaf_set_def unlocked_def)
  obtain p where p: "p \<in> L" "edge ?st p x" "n_parent (nd s x) = Some p" by (rule tree_ok_parent [OF t xL(1,2)])
  have "?ps \<le> rk_len (n_key (nd s x))" using tree_okD(9) [OF t xL(1,2)] by (auto simp: node_ok_def intro: dvd_imp_le)
  then obtain ck where ck: "child_key (n_key (nd s x)) ?ps = Inr ck" using child_key_eq [OF tree_okD(1) [OF t]] by blast
  have m: "map_of (n_children (nd s p)) ck = Some x" using map_of_child [OF tree_okD(8) [OF t p(1)]] p(2) ck by blast
  define st' where "st' = upd p (\<lambda>n. n\<lparr>n_children := AList.delete ck (n_children n)\<rparr>) ?st"
  have X: "prune_ctx ?ps (rc_eagle s) ?st st' ?r x p L" unfolding prune_ctx_def using t xL p ck st'_def by blast
  note pt = prune_parts [OF X xL(3)] and f = prune_fields [OF X] and xp = prune_ctxD(7) [OF X]
  define s1 where "s1 = s\<lparr>rc_store := st', rc_evictable := rc_evictable s - int (rk_len (n_key (nd s x))), rc_leaves := rc_leaves s - {x}\<rparr>"
  have d: "delete_leaf x s = Inr (update_leaf_status p s1)"
    using m by (simp add: delete_leaf_def Let_def ck p(3) rbind_Inr set_node_def s1_def st'_def)
  have t1: "tree_ok (rc_page_size s1) (rc_eagle s1) (rc_store s1) (rc_root s1) (L - {x})"
    using prune_tree_ok [OF X] by (simp add: s1_def)
  have lk1: "locks_ok st' ?r (L - {x}) H" by (rule prune_locks_ok [OF X lk xL(3)])
  have pl: "p \<in> L - {x}" using p(1) xp by simp
  have ls: "(if p \<in> leaf_set st' ?r (L - {x}) then insert p (rc_leaves s - {x}) else rc_leaves s - {x} - {p}) = leaf_set st' ?r (L - {x})"
  proof -
    have "p \<notin> leaf_set ?st ?r L" using p(2) by (auto simp: leaf_set_def edge_def)
    then show ?thesis unfolding pt(4) wfD(4) [OF w] by auto
  qed
  have "update_leaf_status p s1 =
      s1\<lparr>rc_leaves := (if p \<in> leaf_set st' ?r (L - {x}) then insert p (rc_leaves s - {x}) else rc_leaves s - {x} - {p})\<rparr>"
    using update_leaf_status_eq [OF t1 pl] lk1 lock_nonneg [OF lk1 pl] by (simp add: s1_def locks_ok_def)
  then have u: "update_leaf_status p s1 = s1\<lparr>rc_leaves := leaf_set st' ?r (L - {x})\<rparr>" unfolding ls .
  have ev: "tokens ?st (unlocked ?st ?r L - {x}) = rc_evictable s - int (rk_len (n_key (nd s x)))"
  proof -
    have "finite (unlocked ?st ?r L)" "x \<in> unlocked ?st ?r L" using xL tree_okD(2) [OF t] by (auto simp: unlocked_def)
    then show ?thesis using wfD(5) [OF w] by (simp add: tokens_def sum_diff1)
  qed
  have "cache_wf (L - {x}) H (update_leaf_status p s1)"
    unfolding u cache_wf_def using t1 lk1 pt ev wfD(2,6) [OF w] f(1) by (simp add: s1_def)
  then show ?thesis using that [OF d] X unfolding u by (simp add: s1_def same_frame_def)
qed

section \<open>Evicting\<close>

definition evicted_to :: "nat set \<Rightarrow> nat list \<Rightarrow> cache \<Rightarrow> nat set \<Rightarrow> cache \<Rightarrow> int \<Rightarrow> bool" where
  "evicted_to L H s L' s' k \<longleftrightarrow> L' \<subseteq> L \<and> cache_wf L' H s' \<and> slots_ok L' s' \<and> same_frame s s' \<and> rc_counter s' = rc_counter s \<and>
     rc_protected s' = rc_protected s \<and> rc_evictable s' = rc_evictable s - k \<and> 0 \<le> k \<and>
     ka_universe (rc_alloc s') = ka_universe (rc_alloc s) \<and>
     ka_free_set (rc_alloc s') \<union> tree_slots (rc_store s') (rc_root s) L' = ka_free_set (rc_alloc s) \<union> tree_slots (rc_store s) (rc_root s) L \<and>
     tree_slots (rc_store s') (rc_root s) L' \<subseteq> tree_slots (rc_store s) (rc_root s) L \<and>
     (\<forall>u v. cached (rc_page_size s) (rc_store s') (rc_root s) u v \<longrightarrow> cached (rc_page_size s) (rc_store s) (rc_root s) u v) \<and>
     (\<forall>j\<in>L'. at_node (rc_store s') (rc_root s) j = at_node (rc_store s) (rc_root s) j)"

lemma evicted_refl: "cache_wf L H s \<Longrightarrow> slots_ok L s \<Longrightarrow> evicted_to L H s L s 0"
  by (simp add: evicted_to_def same_frame_def)

lemma evicted_trans:
  assumes a: "evicted_to L H s L1 s1 k" and b: "evicted_to L1 H s1 L2 s2 k'"
  shows "evicted_to L H s L2 s2 (k + k')"
proof -
  have f: "rc_root s1 = rc_root s" "rc_page_size s1 = rc_page_size s" "same_frame s s1"
    using a by (simp_all add: evicted_to_def same_frame_def)
  have "same_frame s s2" using f(3) b by (simp add: evicted_to_def same_frame_def)
  then show ?thesis using a b unfolding evicted_to_def f by auto
qed

lemma evict_one:
  assumes w: "cache_wf L H s" and so: "slots_ok L s" and x: "x \<in> rc_leaves s"
  obtains v alc s' p where "value_of (nd s x) = Inr v" "ka_free_segment v 0 (rc_alloc s) = Inr alc"
    "delete_leaf x (s\<lparr>rc_alloc := alc\<rparr>) = Inr s'" "evicted_to L H s (L - {x}) s' (int (length v))" "rc_events s' = rc_events s"
    "n_parent (nd s' x) = Some p" "x \<in> L" "rc_leaves s' = rc_leaves s - {x} \<union> (if n_children (nd s' p) = [] \<and> n_lock_ref (nd s' p) = 0 then {p} else {})"
    "p \<notin> rc_leaves s"
proof -
  have xl: "x \<in> leaf_set (rc_store s) (rc_root s) L" using x wfD(4) [OF w] by simp
  then have xL: "x \<in> L" "x \<noteq> rc_root s" "n_lock_ref (nd s x) = 0" by (auto simp: leaf_set_def unlocked_def)
  obtain v where v: "n_value (nd s x) = Some v" "length v = rk_len (n_key (nd s x))"
    using tree_okD(9) [OF wfD(1) [OF w] xL(1,2)] by (auto simp: node_ok_def)
  have ns: "node_slots (rc_store s) x = set v" by (simp add: node_slots_def v(1))
  have sub: "set v \<subseteq> tree_slots (rc_store s) (rc_root s) L" using tree_slots_remove [OF xL(1,2)] ns by blast
  then have "set v \<inter> ka_free_set (rc_alloc s) = {}" using slots_okD(5) [OF so] by blast
  moreover have "blocked (ka_page_size (rc_alloc s)) v" using slots_okD(2,3) [OF so] xL v(1) by force
  ultimately obtain alc where alc: "ka_free_segment v 0 (rc_alloc s) = Inr alc" "ka_inv alc"
    "ka_page_size alc = ka_page_size (rc_alloc s)" "ka_free_set alc = ka_free_set (rc_alloc s) \<union> set v" "ka_universe alc = ka_universe (rc_alloc s)"
    using ka_free_segment_ok [OF slots_okD(1) [OF so]] by blast
  have w1: "cache_wf L H (s\<lparr>rc_alloc := alc\<rparr>)"
    using w wf_same_state [of s "s\<lparr>rc_alloc := alc\<rparr>"] by (simp add: same_state_def)
  obtain s' p where d: "delete_leaf x (s\<lparr>rc_alloc := alc\<rparr>) = Inr s'" "cache_wf (L - {x}) H s'"
    and X: "prune_ctx (rc_page_size s) (rc_eagle s) (rc_store s) (rc_store s') (rc_root s) x p L"
    and fr: "same_frame (s\<lparr>rc_alloc := alc\<rparr>) s'" "rc_alloc s' = alc" "rc_events s' = rc_events s" "rc_counter s' = rc_counter s"
    "rc_protected s' = rc_protected s" "rc_evictable s' = rc_evictable s - int (rk_len (n_key (nd s x)))"
    using delete_leaf_correct [OF w1] x by auto
  note f = prune_fields [OF X] and pc = prune_ctxD [OF X] and pt = prune_parts [OF X xL(3)]
  have fr': "same_frame s s'" "rc_root s' = rc_root s" "rc_page_size s' = rc_page_size s" using fr(1) by (simp_all add: same_frame_def)
  have nsl: "node_slots (rc_store s') = node_slots (rc_store s)" by (simp add: fun_eq_iff node_slots_def f)
  then have ts: "tree_slots (rc_store s') = tree_slots (rc_store s)" by (simp add: fun_eq_iff tree_slots_def)
  note rem = tree_slots_remove [OF xL(1,2), of "rc_store s", unfolded ns]
  have disx: "set v \<inter> tree_slots (rc_store s) (rc_root s) (L - {x}) = {}"
    using slots_okD(4) [OF so xL(1,2)] unfolding tree_slots_def ns by blast
  have "slots_ok (L - {x}) s'"
    unfolding slots_ok_def fr' nsl ts f(3) fr(2)
    using so alc(2-5) rem disx by (auto simp: slots_ok_def)
  moreover have "at_node (rc_store s') (rc_root s) j = at_node (rc_store s) (rc_root s) j" if "j \<in> L - {x}" for j
    using prune_at_node [OF X tree_okD(3) [OF pc(1)]] that by (simp add: fun_eq_iff)
  ultimately have ev: "evicted_to L H s (L - {x}) s' (int (length v))"
    unfolding evicted_to_def
    using d(2) fr fr' v(2) alc rem ts prune_cached [OF X tree_okD(3) [OF pc(1)]] by auto
  have rt: "n_lock_ref (nd s (rc_root s)) = 1" using wfD(3) [OF w] by (simp add: locks_ok_def)
  have lv: "rc_leaves s' = rc_leaves s - {x} \<union> (if n_children (nd s' p) = [] \<and> n_lock_ref (nd s' p) = 0 then {p} else {})"
    using wfD(4) [OF d(2)] wfD(4) [OF w] fr'(2) pt(4) pc(5) rt by (auto simp: unlocked_def f)
  have "p \<notin> rc_leaves s" using wfD(4) [OF w] pc(6) by (auto simp: leaf_set_def edge_def)
  then show ?thesis using that [OF _ alc(1) d(1) ev fr(3) _ xL(1) lv] v(1) pc(8) by (simp add: value_of_def f)
qed

definition prio_total :: "eviction_strategy \<Rightarrow> bool" where
  "prio_total st = (case st of TLRUStrategy _ _ \<Rightarrow> False | _ \<Rightarrow> True)"

lemma prio_total_Inr: "prio_total st \<Longrightarrow> \<exists>p. get_priority st n = Inr p"
  by (cases st) (simp_all add: prio_total_def Let_def)

lemma evicted_same_tree:
  assumes e: "evicted_to L H s L' s1 k" and st: "same_tree (rc_store s1) st"
  shows "evicted_to L H s L' (s1\<lparr>rc_events := r, rc_store := st\<rparr>) k"
proof -
  note sh = same_tree_same_shape [OF st]
  have ss: "same_state s1 (s1\<lparr>rc_events := r, rc_store := st\<rparr>)" using sh by (simp add: same_state_def)
  have so: "slots_ok L' (s1\<lparr>rc_events := r, rc_store := st\<rparr>) = slots_ok L' s1" "tree_slots st = tree_slots (rc_store s1)"
    using slots_ok_shape [of s1 "s1\<lparr>rc_events := r, rc_store := st\<rparr>"] sh by simp_all
  have "at_node st = at_node (rc_store s1)" by (simp add: fun_eq_iff at_node_def same_shape_simps [OF sh])
  then show ?thesis
    using e wf_same_state [OF ss] by (simp add: evicted_to_def same_frame_def so same_shape_simps [OF sh])
qed

definition evict_good :: "nat set \<Rightarrow> nat list \<Rightarrow> cache \<Rightarrow> int \<Rightarrow> int \<Rightarrow> (int \<times> cache) result \<Rightarrow> bool" where
  "evict_good L H s n num R \<longleftrightarrow>
     (\<forall>k s'. R = Inr (k, s') \<longrightarrow> (\<exists>L'. evicted_to L H s L' s' (k - num) \<and> (n \<le> k \<or> rc_leaves s' = {}))) \<and>
     (\<not> ev_enabled (rc_events s) \<longrightarrow> (\<exists>k s'. R = Inr (k, s')))"

lemma evict_good_stop:
  "cache_wf L H s \<Longrightarrow> slots_ok L s \<Longrightarrow> n \<le> num \<or> rc_leaves s = {} \<Longrightarrow> evict_good L H s n num (Inr (num, s))"
  using evicted_refl by (fastforce simp: evict_good_def)

lemma evict_good_step:
  assumes e: "evicted_to L H s L1 s1 k" and ev: "rc_events s1 = rc_events s"
    and R: "\<And>r st. record_remove h fl m x (rc_events s1, rc_store s1) = Inr (r, st) \<Longrightarrow>
      evict_good L1 H (s1\<lparr>rc_events := r, rc_store := st\<rparr>) n (num + k) (f (r, st))"
  shows "evict_good L H s n num (rbind (record_remove h fl m x (rc_events s1, rc_store s1)) f)"
proof (cases "record_remove h fl m x (rc_events s1, rc_store s1)")
  case (Inl er)
  then have "ev_enabled (rc_events s)" using ev by (auto simp: record_remove_def split: if_splits)
  then show ?thesis using Inl by (simp add: evict_good_def rbind_def)
next
  case (Inr rs)
  obtain r st where rs: "rs = (r, st)" by fastforce
  let ?s1 = "s1\<lparr>rc_events := r, rc_store := st\<rparr>"
  have e1: "evicted_to L H s L1 ?s1 k" by (rule evicted_same_tree [OF e record_remove_same [OF Inr [unfolded rs]]])
  have g: "evict_good L1 H ?s1 n (num + k) (f (r, st))" by (rule R [OF Inr [unfolded rs]])
  have ne: "ev_enabled r = ev_enabled (rc_events s)"
    using Inr ev rs by (auto simp: record_remove_def rbind_eq_Inr enqueue_def Let_def split: if_splits option.splits)
  show ?thesis
    unfolding evict_good_def Inr rbind_Inr rs
  proof (intro conjI allI impI)
    fix k' s' assume "f (r, st) = Inr (k', s')"
    then obtain L' where L': "evicted_to L1 H ?s1 L' s' (k' - (num + k))" "n \<le> k' \<or> rc_leaves s' = {}"
      using g unfolding evict_good_def by blast
    show "\<exists>L'. evicted_to L H s L' s' (k' - num) \<and> (n \<le> k' \<or> rc_leaves s' = {})"
      using evicted_trans [OF e1 L'(1)] L'(2) by (auto simp: algebra_simps)
  next
    assume "\<not> ev_enabled (rc_events s)"
    then show "\<exists>k s'. f (r, st) = Inr (k, s')" using g ne unfolding evict_good_def by simp
  qed
qed

lemma evict_loop_correct:
  assumes "cache_wf L H s" "slots_ok L s" "distinct (map snd heap)" "snd ` set heap = rc_leaves s" "prio_total (rc_strategy s)"
    and "card (L - {rc_root s}) \<le> fuel"
  shows "evict_good L H s n num (evict_loop fuel n num heap s)"
  using assms
proof (induction fuel arbitrary: L s num heap)
  case 0
  have "finite L" by (rule tree_okD(2) [OF wfD(1) [OF 0(1)]])
  then have "L - {rc_root s} = {}" using 0(6) by simp
  then have "rc_leaves s = {}" using wfD(4) [OF 0(1)] by (auto simp: leaf_set_def unlocked_def)
  then have "evict_loop 0 n num heap s = Inr (num, s)" using 0(4) by (simp add: evict_loop.simps)
  then show ?case using evict_good_stop [OF 0(1,2)] \<open>rc_leaves s = {}\<close> by simp
next
  case (Suc fuel)
  note w = Suc.prems(1) and so = Suc.prems(2)
  show ?case
  proof (cases "\<not> num < n \<or> heap = []")
    case True
    then have "evict_loop (Suc fuel) n num heap s = Inr (num, s)" by (auto simp: evict_loop.simps)
    then show ?thesis using evict_good_stop [OF w so] True Suc.prems(4) by auto
  next
    case False
    then obtain e es where h: "heap = e # es" "num < n" by (cases heap) auto
    obtain pr x rest where pop: "heappop (rc_store s) e es = ((pr, x), rest)" by (metis surj_pair)
    have hs: "insert (pr, x) (set rest) = set heap" using heappop_set [OF pop] h(1) by simp
    have hd: "distinct (x # map snd rest)" using heappop_distinct [OF pop] Suc.prems(3) h(1) by simp
    have x: "x \<in> rc_leaves s" using hs Suc.prems(4) by force
    have rest: "snd ` set rest = rc_leaves s - {x}"
    proof -
      have "insert x (snd ` set rest) = rc_leaves s" using hs Suc.prems(4) by (metis image_insert snd_conv)
      moreover have "x \<notin> snd ` set rest" using hd by auto
      ultimately show ?thesis by auto
    qed
    obtain v alc s' p where o: "value_of (nd s x) = Inr v" "ka_free_segment v 0 (rc_alloc s) = Inr alc"
      "delete_leaf x (s\<lparr>rc_alloc := alc\<rparr>) = Inr s'" "evicted_to L H s (L - {x}) s' (int (length v))" "rc_events s' = rc_events s"
      "n_parent (nd s' x) = Some p" "x \<in> L" "rc_leaves s' = rc_leaves s - {x} \<union> (if n_children (nd s' p) = [] \<and> n_lock_ref (nd s' p) = 0 then {p} else {})"
      "p \<notin> rc_leaves s" by (rule evict_one [OF w so x])
    have fr: "rc_strategy s' = rc_strategy s" "rc_root s' = rc_root s" using o(4) by (simp_all add: evicted_to_def same_frame_def)
    obtain np where np: "get_priority (rc_strategy s') (nd s' p) = Inr np" using prio_total_Inr Suc.prems(5) fr(1) by metis
    define heap' where "heap' = (if n_children (nd s' p) = [] \<and> n_lock_ref (nd s' p) = 0 then rest @ [(np, p)] else rest)"
    have heap': "distinct (map snd heap')" "snd ` set heap' = rc_leaves s'"
      using hd rest o(8,9) by (auto simp: heap'_def)
    have unf: "evict_loop (Suc fuel) n num heap s =
        rbind (record_remove (rc_hasher s') (rc_counter s') GPU x (rc_events s', rc_store s'))
          (\<lambda>(r, st). evict_loop fuel n (num + int (length v)) heap' (s'\<lparr>rc_events := r, rc_store := st\<rparr>))"
      using h(2) by (simp add: h(1) evict_loop.simps [of "Suc fuel"] pop o(1-3,6) np rbind_Inr heap'_def Let_def)
    have "finite (L - {rc_root s})" using tree_okD(2) [OF wfD(1) [OF w]] by simp
    moreover have "x \<noteq> rc_root s" using x wfD(4) [OF w] by (auto simp: leaf_set_def unlocked_def)
    moreover have "L - {x} - {rc_root s} = L - {rc_root s} - {x}" by blast
    ultimately have cd: "card (L - {x} - {rc_root s'}) \<le> fuel" using o(7) Suc.prems(6) fr(2) by (simp add: card_Diff_singleton)
    show ?thesis
      unfolding unf
    proof (rule evict_good_step [OF o(4,5)])
      fix r st assume "record_remove (rc_hasher s') (rc_counter s') GPU x (rc_events s', rc_store s') = Inr (r, st)"
      then have e1: "evicted_to L H s (L - {x}) (s'\<lparr>rc_events := r, rc_store := st\<rparr>) (int (length v))"
        by (rule evicted_same_tree [OF o(4) record_remove_same])
      then show "evict_good (L - {x}) H (s'\<lparr>rc_events := r, rc_store := st\<rparr>) n (num + int (length v))
          (case (r, st) of (r, st) \<Rightarrow> evict_loop fuel n (num + int (length v)) heap' (s'\<lparr>rc_events := r, rc_store := st\<rparr>))"
        unfolding prod.case by (intro Suc.IH) (use heap' cd Suc.prems(5) fr in \<open>simp_all add: evicted_to_def\<close>)
    qed
  qed
qed

text \<open>If no unlocked leaf is left, no unlocked node is left.\<close>

lemma no_leaves_no_unlocked:
  assumes w: "cache_wf L H s" and e: "rc_leaves s = {}"
  shows "unlocked (rc_store s) (rc_root s) L = {}"
proof (rule ccontr)
  note t = wfD(1) [OF w]
  let ?U = "unlocked (rc_store s) (rc_root s) L" and ?d = "\<lambda>i. length (SOME is. chain (edge (rc_store s)) (rc_root s) is \<and> last (rc_root s # is) = i)"
  assume ne: "?U \<noteq> {}"
  have fin: "finite ?U" using tree_okD(2) [OF t] by (simp add: unlocked_def)
  have "Max (?d ` ?U) \<in> ?d ` ?U" using ne fin by (intro Max_in) simp_all
  then obtain i where m: "i \<in> ?U" "?d i = Max (?d ` ?U)" by (metis (no_types, lifting) imageE)
  have i: "i \<in> ?U" "\<And>j. j \<in> ?U \<Longrightarrow> ?d j \<le> ?d i" using m fin by simp_all
  have iL: "i \<in> L" "i \<noteq> rc_root s" "n_lock_ref (nd s i) = 0" using i(1) by (auto simp: unlocked_def)
  have "n_children (nd s i) \<noteq> []" using i(1) e wfD(4) [OF w] by (auto simp: leaf_set_def)
  then obtain c where c: "edge (rc_store s) i c" by (cases "n_children (nd s i)") (auto simp: edge_def)
  have cL: "c \<in> L" "c \<noteq> rc_root s" using tree_ok_edge [OF t iL(1) c] by blast+
  obtain "is" where p: "chain (edge (rc_store s)) (rc_root s) is" "last (rc_root s # is) = i" using tree_okD(10) [OF t iL(1)] by blast
  have pc: "chain (edge (rc_store s)) (rc_root s) (is @ [c])" "last (rc_root s # is @ [c]) = c" using p c by (simp_all add: chain_append)
  have di: "?d i = length is" using p tree_ok_path_unique [OF t] by (metis (mono_tags, lifting) someI_ex)
  have dc: "?d c = length (is @ [c])" using pc tree_ok_path_unique [OF t] by (metis (mono_tags, lifting) someI_ex)
  have "below (rc_store s) c h \<Longrightarrow> below (rc_store s) i h" for h
  proof -
    assume "below (rc_store s) c h"
    then obtain js where "chain (edge (rc_store s)) c js" "last (c # js) = h" by (auto simp: below_def)
    then show ?thesis unfolding below_def using c by (intro exI [of _ "c # js"]) simp
  qed
  moreover have "filter (below (rc_store s) i) H = []" using wfD(3) [OF w] iL by (simp add: locks_ok_def)
  ultimately have "filter (below (rc_store s) c) H = []" by (auto simp: filter_empty_conv)
  then have "c \<in> ?U" using wfD(3) [OF w] cL by (auto simp: unlocked_def locks_ok_def)
  then show False using i(2) [of c] di dc by simp
qed

lemma evict_correct:
  assumes w: "cache_wf L H s" and so: "slots_ok L s" and p: "prio_total (rc_strategy s)" and en: "\<not> rc_disable s"
  shows "evict n s = Inr (k, s') \<Longrightarrow> \<exists>L'. evicted_to L H s L' s' k \<and> (n \<le> k \<or> rc_evictable s' = 0)"
    and "\<not> ev_enabled (rc_events s) \<Longrightarrow> \<exists>k s'. evict n s = Inr (k, s')"
proof -
  note t = wfD(1) [OF w]
  have fin: "finite (rc_leaves s)" using wfD(4) [OF w] tree_okD(2) [OF t] by (simp add: leaf_set_def unlocked_def)
  obtain heap where heap: "rmap (\<lambda>i. rbind (get_priority (rc_strategy s) (nd s i)) (\<lambda>p. Inr (p, i))) (sorted_list_of_set (rc_leaves s)) = Inr heap"
    "map snd heap = sorted_list_of_set (rc_leaves s)"
  proof -
    have "\<exists>heap. rmap (\<lambda>i. rbind (get_priority (rc_strategy s) (nd s i)) (\<lambda>p. Inr (p, i))) xs = Inr heap \<and> map snd heap = xs" for xs
    proof (induction xs)
      case (Cons a xs)
      then show ?case using prio_total_Inr [OF p, of "nd s a"] by (auto simp: rbind_Inr)
    qed simp
    then show ?thesis using that by blast
  qed
  have eq: "evict n s = evict_loop (rc_counter s) n 0 heap s" using en by (simp add: evict_def heap(1) rbind_Inr)
  have "L - {rc_root s} \<subseteq> {..<rc_counter s}" using tree_okD(4) [OF t] wfD(2) [OF w] by blast
  then have "card (L - {rc_root s}) \<le> rc_counter s" using card_mono [of "{..<rc_counter s}"] by fastforce
  moreover have "snd ` set heap = rc_leaves s" using arg_cong [OF heap(2), of set] fin by simp
  ultimately have g: "evict_good L H s n 0 (evict n s)"
    unfolding eq using heap(2) by (intro evict_loop_correct [OF w so _ _ p]) simp_all
  show "\<exists>L'. evicted_to L H s L' s' k \<and> (n \<le> k \<or> rc_evictable s' = 0)" if r: "evict n s = Inr (k, s')"
  proof -
    obtain L' where L': "evicted_to L H s L' s' k" "n \<le> k \<or> rc_leaves s' = {}" using g r unfolding evict_good_def by auto
    then have w': "cache_wf L' H s'" by (simp add: evicted_to_def)
    have "rc_leaves s' = {} \<Longrightarrow> rc_evictable s' = 0"
      using no_leaves_no_unlocked [OF w'] wfD(5) [OF w'] by (simp add: tokens_def)
    then show ?thesis using L' by blast
  qed
  show "\<not> ev_enabled (rc_events s) \<Longrightarrow> \<exists>k s'. evict n s = Inr (k, s')" using g unfolding evict_good_def by blast
qed

end
