(* ===== verification/Radix_Spec.thy ===== *)
theory Radix_Spec
  imports Radix_Evict
begin

text \<open>
  The radix cache as its clients see it. \<open>cache_run\<close> relates every state a client can reach (creating
  a cache, matching, inserting, locking, releasing, evicting, and allocations and frees that other
  users of the pool make) to the list of locks held. The properties are stated of these states.
\<close>

section \<open>Live nodes\<close>

definition live :: "cache \<Rightarrow> nat set" where
  "live s = {i. below (rc_store s) (rc_root s) i}"

lemma wf_live: "cache_wf L H s \<Longrightarrow> live s = L"
proof -
  assume w: "cache_wf L H s"
  note t = wfD(1) [OF w]
  have "i \<in> L \<Longrightarrow> below (rc_store s) (rc_root s) i" for i using tree_okD(10) [OF t] unfolding below_def by blast
  moreover have "below (rc_store s) (rc_root s) i \<Longrightarrow> i \<in> L" for i
    using tree_ok_last [OF t tree_okD(3) [OF t]] unfolding below_def by blast
  ultimately show ?thesis by (auto simp: live_def)
qed

text \<open>The slots the tree holds, and the page-aligned sequences it stands for with their slots.\<close>

definition held_slots :: "cache \<Rightarrow> int set" where
  "held_slots s = tree_slots (rc_store s) (rc_root s) (live s)"

definition holds :: "cache \<Rightarrow> tunit list \<Rightarrow> int list \<Rightarrow> bool" where
  "holds s u v \<longleftrightarrow> cached (rc_page_size s) (rc_store s) (rc_root s) u v"

definition new_slots :: "cache \<Rightarrow> int list \<Rightarrow> bool" where
  "new_slots s x \<longleftrightarrow> blocked (rc_page_size s) x \<and> set x \<subseteq> ka_universe (rc_alloc s) \<and>
     set x \<inter> (held_slots s \<union> ka_free_set (rc_alloc s)) = {}"

section \<open>Runs\<close>

inductive cache_run :: "nat list \<Rightarrow> cache \<Rightarrow> bool" where
  run_new: "RadixCache False ps eagle policy config events h clk alc = Inr s \<Longrightarrow> 0 < ps \<Longrightarrow> ka_inv alc \<Longrightarrow>
     ka_page_size alc = ps \<Longrightarrow> cache_run [] s"
| run_match: "cache_run H s \<Longrightarrow> mode_ok s key \<Longrightarrow> match_prefix key s = Inr (r, s') \<Longrightarrow> cache_run H s'"
| run_insert: "cache_run H s \<Longrightarrow> mode_ok s key \<Longrightarrow> length (query s key) \<le> length vals \<Longrightarrow>
     insert_key key (Some vals) prio chunked s = Inr ((m, j), s') \<Longrightarrow>
     new_slots s (drop m (take (length (query s key)) vals)) \<Longrightarrow> cache_run H s'"
| run_lock: "cache_run H s \<Longrightarrow> i \<in> live s \<Longrightarrow> inc_lock_ref i s = Inr (d, s') \<Longrightarrow> cache_run (i # H) s'"
| run_unlock: "cache_run H s \<Longrightarrow> i \<in> set H \<Longrightarrow> dec_lock_ref i s = Inr (d, s') \<Longrightarrow> cache_run (remove1 i H) s'"
| run_evict: "cache_run H s \<Longrightarrow> prio_total (rc_strategy s) \<Longrightarrow> evict n s = Inr (k, s') \<Longrightarrow> cache_run H s'"
| run_pool: "cache_run H s \<Longrightarrow> ka_inv alc \<Longrightarrow> ka_page_size alc = rc_page_size s \<Longrightarrow>
     ka_universe alc = ka_universe (rc_alloc s) \<Longrightarrow> ka_free_set alc \<inter> held_slots s = {} \<Longrightarrow>
     cache_run H (s\<lparr>rc_alloc := alc\<rparr>)"

inductive_cases cache_runE: "cache_run H s"

definition run_ok :: "nat list \<Rightarrow> cache \<Rightarrow> bool" where
  "run_ok H s \<longleftrightarrow> cache_wf (live s) H s \<and> slots_ok (live s) s \<and> \<not> rc_disable s"

lemma run_okI: "cache_wf L H s \<Longrightarrow> slots_ok L s \<Longrightarrow> \<not> rc_disable s \<Longrightarrow> run_ok H s"
  using wf_live unfolding run_ok_def by blast

lemma run_okD:
  assumes "run_ok H s"
  shows "cache_wf (live s) H s" "slots_ok (live s) s" "\<not> rc_disable s" "0 < rc_page_size s" "rc_root s \<in> live s"
  using assms tree_okD(1,3) [OF wfD(1)] unfolding run_ok_def by blast+

lemma new_slots_fresh: "new_slots s x = fresh_slots (live s) s x"
  by (simp add: new_slots_def fresh_slots_def held_slots_def)

lemma run_ok_new:
  assumes c: "RadixCache False ps eagle policy config events h clk alc = Inr s" and ps: "0 < ps" and a: "ka_inv alc" "ka_page_size alc = ps"
  shows "run_ok [] s"
proof -
  have s: "rc_root s = 0" "rc_counter s = 1" "rc_evictable s = 0" "rc_protected s = 0" "rc_leaves s = {}" "rc_disable s = False"
    "rc_page_size s = ps" "rc_alloc s = alc"
    using c by (auto simp: RadixCache_def rbind_eq_Inr reset_def new_tree_node_def set_node_def Let_def)
  have st: "dom (rc_store s) = {0}" "n_children (nd s 0) = []" "n_parent (nd s 0) = None" "n_value (nd s 0) = Some []"
    "n_lock_ref (nd s 0) = 1" "rk_len (n_key (nd s 0)) = 0"
    using c by (auto simp: RadixCache_def rbind_eq_Inr reset_def new_tree_node_def set_node_def Let_def TreeNode_def upd_apply
        dom_upd rk_len_def raw_len_def RadixKey_def split: if_splits)
  have "tree_ok ps (rc_eagle s) (rc_store s) 0 {0}"
    unfolding tree_ok_def using ps st by (auto simp: children_ok_def intro: exI [of _ "[]"])
  then have "cache_wf {0} [] s"
    unfolding cache_wf_def using s st by (simp add: locks_ok_def leaf_set_def unlocked_def locked_def tokens_def)
  moreover have "slots_ok {0} s" using s a by (simp add: slots_ok_def tree_slots_def)
  ultimately show ?thesis using s(6) by (intro run_okI) simp_all
qed

lemma run_ok_grows:
  assumes "run_ok H s" "cache_wf L' H s'" "grows (live s) s L' s'"
  shows "run_ok H s'"
proof (rule run_okI [OF assms(2)])
  show "slots_ok L' s'" using growsD(13) [OF assms(3)] run_okD(2) [OF assms(1)] by blast
  show "\<not> rc_disable s'" using growsD(2) [OF assms(3)] run_okD(3) [OF assms(1)] by (simp add: same_frame_def)
qed

lemma run_ok_relocked:
  assumes r: "run_ok H s" and w: "cache_wf (live s) H' s'" and l: "relocked s s'"
  shows "run_ok H' s'"
proof (rule run_okI [OF w])
  have v: "n_value (nd s' j) = n_value (nd s j)" for j using l by (simp add: relocked_def)
  have n: "node_slots (rc_store s') = node_slots (rc_store s)" by (simp add: fun_eq_iff node_slots_def v)
  have "tree_slots (rc_store s') = tree_slots (rc_store s)" by (simp add: fun_eq_iff tree_slots_def n)
  then have "slots_ok (live s) s' = slots_ok (live s) s" using l by (simp add: slots_ok_def n v relocked_def same_frame_def)
  then show "slots_ok (live s) s'" using run_okD(2) [OF r] by simp
  show "\<not> rc_disable s'" using l run_okD(3) [OF r] by (simp add: relocked_def same_frame_def)
qed

theorem run_invariant: "cache_run H s \<Longrightarrow> run_ok H s"
proof (induction rule: cache_run.induct)
  case (run_match H s key r s')
  then show ?case using match_prefix_correct [OF run_okD(1) [OF run_match.IH] _ run_okD(3) [OF run_match.IH]] run_ok_grows by fastforce
next
  case (run_insert H s key vals prio chunked m j s')
  note ok = run_okD [OF run_insert.IH]
  obtain i where i: "inserted (live s) H s (query s key) (take (length (query s key)) vals) m i s'"
    using insert_key_correct(1) [OF ok(1) run_insert.hyps(2) ok(3) run_insert.hyps(3,4)] by blast
  then obtain L' where "cache_wf L' H s'" "slots_ok L' s'"
    using ok(2) run_insert.hyps(5) unfolding inserted_def new_slots_fresh by blast
  moreover have "\<not> rc_disable s'" using i ok(3) by (simp add: inserted_def same_frame_def)
  ultimately show ?case by (rule run_okI)
next
  case (run_lock H s i d s')
  note ok = run_okD [OF run_lock.IH]
  show ?case
    using inc_lock_ref_correct [OF ok(1) run_lock.hyps(2) ok(3)] run_lock.hyps(3) run_ok_relocked [OF run_lock.IH] by auto
next
  case (run_unlock H s i d s')
  note ok = run_okD [OF run_unlock.IH]
  show ?case
    using dec_lock_ref_correct [OF ok(1) run_unlock.hyps(2) ok(3)] run_unlock.hyps(3) run_ok_relocked [OF run_unlock.IH] by auto
next
  case (run_evict H s n k s')
  note ok = run_okD [OF run_evict.IH]
  obtain L' where "evicted_to (live s) H s L' s' k" using evict_correct(1) [OF ok(1,2) run_evict.hyps(2) ok(3) run_evict.hyps(3)] by blast
  then show ?case using ok(3) by (intro run_okI [of L']) (auto simp: evicted_to_def same_frame_def)
next
  case (run_pool H s alc)
  note ok = run_okD [OF run_pool.IH]
  have "cache_wf (live s) H (s\<lparr>rc_alloc := alc\<rparr>)"
    using ok(1) wf_same_state [of s "s\<lparr>rc_alloc := alc\<rparr>"] by (simp add: same_state_def)
  moreover have "slots_ok (live s) (s\<lparr>rc_alloc := alc\<rparr>)"
    using ok(2) run_pool.hyps by (simp add: slots_ok_def held_slots_def Int_commute)
  ultimately show ?case using ok(3) by (intro run_okI) simp_all
qed (rule run_ok_new)

end
