(* ===== verification/Radix_Props.thy ===== *)
theory Radix_Props
  imports Radix_Spec
begin

text \<open>
  The contract of a prefix cache and the radix cache as an implementation of it. The abstract state is
  a partial map from page-aligned unit sequences to slot sequences, closed under page-aligned
  prefixes; a lookup returns the slots of the longest mapped prefix, an insertion maps the missing
  prefixes and keeps the slots of those already mapped.
\<close>

section \<open>The contract\<close>

type_synonym ('u, 'v) contents = "'u list \<Rightarrow> 'v list option"

definition hits :: "('u, 'v) contents \<Rightarrow> 'u list \<Rightarrow> nat set" where
  "hits M w = {n. n \<le> length w \<and> M (take n w) \<noteq> None}"

definition spec_match :: "('u, 'v) contents \<Rightarrow> 'u list \<Rightarrow> nat" where
  "spec_match M w = Max (hits M w)"

definition spec_slots :: "('u, 'v) contents \<Rightarrow> 'u list \<Rightarrow> 'v list" where
  "spec_slots M w = the (M (take (spec_match M w) w))"

definition spec_insert :: "nat \<Rightarrow> 'u list \<Rightarrow> 'v list \<Rightarrow> ('u, 'v) contents \<Rightarrow> ('u, 'v) contents" where
  "spec_insert ps w x M u =
     (if M u = None \<and> ps dvd length u \<and> prefix u w
      then Some (take (length u) (spec_slots M w @ drop (spec_match M w) x)) else M u)"

definition contents_ok :: "nat \<Rightarrow> ('u, 'v) contents \<Rightarrow> bool" where
  "contents_ok ps M \<longleftrightarrow> M [] = Some [] \<and>
     (\<forall>u v. M u = Some v \<longrightarrow> length v = length u \<and> ps dvd length u \<and>
        (\<forall>u'. prefix u' u \<longrightarrow> ps dvd length u' \<longrightarrow> M u' = Some (take (length u') v)))"

lemma hits_finite: "finite (hits M w)"
  by (rule finite_subset [of _ "{..length w}"]) (auto simp: hits_def)

lemma spec_matchD:
  assumes "contents_ok ps M"
  shows "spec_match M w \<le> length w" "M (take (spec_match M w) w) = Some (spec_slots M w)"
    "length (spec_slots M w) = spec_match M w" "n \<le> length w \<Longrightarrow> M (take n w) \<noteq> None \<Longrightarrow> n \<le> spec_match M w"
proof -
  have "0 \<in> hits M w" using assms by (simp add: hits_def contents_ok_def)
  then have m: "spec_match M w \<in> hits M w" unfolding spec_match_def by (intro Max_in hits_finite) blast
  then show l: "spec_match M w \<le> length w" and s: "M (take (spec_match M w) w) = Some (spec_slots M w)"
    by (auto simp: hits_def spec_slots_def)
  then show "length (spec_slots M w) = spec_match M w" using assms unfolding contents_ok_def by fastforce
  show "n \<le> length w \<Longrightarrow> M (take n w) \<noteq> None \<Longrightarrow> n \<le> spec_match M w"
    unfolding spec_match_def by (rule Max_ge [OF hits_finite]) (simp add: hits_def)
qed

lemma spec_match_eq:
  assumes "contents_ok ps M" "n \<le> length w" "M (take n w) = Some v"
    "\<And>u v. M u = Some v \<Longrightarrow> prefix u w \<Longrightarrow> length u \<le> n"
  shows "spec_match M w = n" "spec_slots M w = v"
proof -
  have "spec_match M w \<le> n"
    using assms(4) [OF spec_matchD(2) [OF assms(1)] take_is_prefix] spec_matchD(1) [OF assms(1), of w] by simp
  moreover have "n \<le> spec_match M w" using spec_matchD(4) [OF assms(1,2)] assms(3) by simp
  ultimately show "spec_match M w = n" by simp
  then show "spec_slots M w = v" using assms(3) by (simp add: spec_slots_def)
qed

lemma spec_insert_full:
  assumes ok: "contents_ok ps M" "contents_ok ps (spec_insert ps w x M)" and d: "ps dvd length w" and l: "length x = length w"
  shows "spec_match (spec_insert ps w x M) w = length w"
    "spec_slots (spec_insert ps w x M) w = spec_slots M w @ drop (spec_match M w) x"
proof -
  have "spec_insert ps w x M w = Some (spec_slots M w @ drop (spec_match M w) x)"
  proof (cases "M w")
    case None
    then show ?thesis using d l spec_matchD(1,3) [OF ok(1), of w] by (simp add: spec_insert_def)
  next
    case (Some v)
    then have "spec_match M w = length w" "spec_slots M w = v"
      by (intro spec_match_eq [OF ok(1), of "length w" w v]; simp add: prefix_length_le)+
    then show ?thesis using Some l by (simp add: spec_insert_def)
  qed
  from this show "spec_match (spec_insert ps w x M) w = length w"
    "spec_slots (spec_insert ps w x M) w = spec_slots M w @ drop (spec_match M w) x"
    by (intro spec_match_eq [OF ok(2), of "length w"]; simp add: prefix_length_le)+
qed

text \<open>
  The interface a scheduler uses: \<open>lookup k s r s'\<close> and \<open>add k x s m s'\<close> relate the state before a
  call to its result and the state after it, \<open>view\<close> gives the page-aligned units of a key.
\<close>

locale prefix_cache =
  fixes inv :: "'s \<Rightarrow> bool" and page :: "'s \<Rightarrow> nat" and view :: "'s \<Rightarrow> 'k \<Rightarrow> 'u list"
    and contents :: "'s \<Rightarrow> ('u, 'v) contents"
    and lookup :: "'k \<Rightarrow> 's \<Rightarrow> 'v list \<Rightarrow> 's \<Rightarrow> bool" and add :: "'k \<Rightarrow> 'v list \<Rightarrow> 's \<Rightarrow> nat \<Rightarrow> 's \<Rightarrow> bool"
  assumes contents_ok: "inv s \<Longrightarrow> contents_ok (page s) (contents s)"
    and view_page: "inv s \<Longrightarrow> page s dvd length (view s k)"
    and lookup: "inv s \<Longrightarrow> lookup k s r s' \<Longrightarrow>
      inv s' \<and> page s' = page s \<and> view s' = view s \<and> contents s' = contents s \<and> r = spec_slots (contents s) (view s k)"
    and add: "inv s \<Longrightarrow> length x = length (view s k) \<Longrightarrow> add k x s m s' \<Longrightarrow>
      inv s' \<and> page s' = page s \<and> view s' = view s \<and> m = spec_match (contents s) (view s k) \<and>
      contents s' = spec_insert (page s) (view s k) x (contents s)"
begin

lemma add_then_lookup:
  assumes "inv s" "length x = length (view s k)" "add k x s m s1" "lookup k s1 r s2"
  shows "r = spec_slots (contents s) (view s k) @ drop m x" "length r = length (view s k)"
proof -
  have a: "inv s1" "page s1 = page s" "view s1 = view s" "m = spec_match (contents s) (view s k)"
    "contents s1 = spec_insert (page s) (view s k) x (contents s)"
    using add [OF assms(1-3)] by blast+
  have r: "r = spec_slots (contents s1) (view s k)" using lookup [OF a(1) assms(4)] a(3) by simp
  then show eq: "r = spec_slots (contents s) (view s k) @ drop m x"
    using spec_insert_full(2) [OF contents_ok [OF assms(1)] _ view_page [OF assms(1)] assms(2)] contents_ok [OF a(1)] a by simp
  show "length r = length (view s k)"
    using spec_matchD(1,3) [OF contents_ok [OF assms(1)], of "view s k"] assms(2) a(4) unfolding eq by simp
qed

lemma lookup_stable:
  assumes "inv s" "lookup k s r s1" "lookup k s1 r' s2"
  shows "r' = r \<and> contents s2 = contents s"
  using lookup [OF assms(1,2)] lookup [of s1 k r' s2] assms(3) by simp

lemma add_again:
  assumes "inv s" "length x = length (view s k)" "add k x s m s1" "length y = length (view s k)" "add k y s1 m' s2"
  shows "m' = length (view s k) \<and> contents s2 = contents s1"
proof -
  have a: "inv s1" "page s1 = page s" "view s1 = view s" "contents s1 = spec_insert (page s) (view s k) x (contents s)"
    using add [OF assms(1-3)] by blast+
  have m: "spec_match (contents s1) (view s k) = length (view s k)"
    using spec_insert_full(1) [OF contents_ok [OF assms(1)] _ view_page [OF assms(1)] assms(2)] contents_ok [OF a(1)] a by simp
  have b: "m' = spec_match (contents s1) (view s k)" "contents s2 = spec_insert (page s) (view s k) y (contents s1)"
    using add [OF a(1) _ assms(5)] assms(4) a by auto
  have w: "contents s1 (view s k) \<noteq> None"
    using spec_matchD(2) [OF contents_ok [OF a(1)], of "view s k"] m by simp
  have "contents s1 u \<noteq> None" if "page s dvd length u" "prefix u (view s k)" for u
    using w contents_ok [OF a(1)] that unfolding contents_ok_def a(2) by blast
  then have "contents s2 = contents s1" unfolding b(2) by (intro ext) (auto simp: spec_insert_def)
  then show ?thesis using b(1) m by simp
qed

end

section \<open>The radix cache\<close>

definition radix_contents :: "cache \<Rightarrow> (tunit, int) contents" where
  "radix_contents s u = (if \<exists>v. holds s u v then Some (THE v. holds s u v) else None)"

lemma radix_contents_iff:
  assumes "run_ok H s"
  shows "radix_contents s u = Some v \<longleftrightarrow> holds s u v"
proof -
  have un: "holds s u v \<Longrightarrow> holds s u v' \<Longrightarrow> v' = v" for v v'
    using cached_unique [OF wfD(1) [OF run_okD(1) [OF assms]] run_okD(5) [OF assms]] unfolding holds_def by blast
  then have "holds s u v \<Longrightarrow> (THE v. holds s u v) = v" for v by (intro the_equality) blast+
  then show ?thesis unfolding radix_contents_def by auto
qed

lemma cached_length: "tree_ok ps eagle st r L \<Longrightarrow> q \<in> L \<Longrightarrow> cached ps st q u v \<Longrightarrow> length v = length u"
  using length_path tree_ok_chain unfolding cached_def by (metis length_take min.absorb2 prefix_length_le)

lemma radix_contents_ok:
  assumes "run_ok H s"
  shows "contents_ok (rc_page_size s) (radix_contents s)"
proof -
  note c = radix_contents_iff [OF assms]
  have "holds s u v \<Longrightarrow> length v = length u" for u v
    using cached_length [OF wfD(1) [OF run_okD(1) [OF assms]] run_okD(5) [OF assms]] unfolding holds_def by blast
  moreover have "holds s u v \<Longrightarrow> rc_page_size s dvd length u" for u v by (simp add: holds_def cached_def)
  moreover have "holds s u v \<Longrightarrow> prefix u' u \<Longrightarrow> rc_page_size s dvd length u' \<Longrightarrow> holds s u' (take (length u') v)" for u u' v
    unfolding holds_def by (rule cached_prefix)
  moreover have "holds s [] []" by (simp add: holds_def)
  ultimately show ?thesis unfolding contents_ok_def c by blast
qed

text \<open>Requests with the keys of the cache's mode, on caches that do not publish events.\<close>

definition radix_inv :: "cache \<Rightarrow> bool" where
  "radix_inv s \<longleftrightarrow> (\<exists>H. run_ok H s)"

definition radix_lookup :: "radix_key \<Rightarrow> cache \<Rightarrow> int list \<Rightarrow> cache \<Rightarrow> bool" where
  "radix_lookup key s r s' \<longleftrightarrow> mode_ok s key \<and> (\<exists>n. match_prefix key s = Inr (\<lparr>mr_indices = r, mr_node = n\<rparr>, s'))"

definition radix_add :: "radix_key \<Rightarrow> int list \<Rightarrow> cache \<Rightarrow> nat \<Rightarrow> cache \<Rightarrow> bool" where
  "radix_add key x s m s' \<longleftrightarrow> mode_ok s key \<and> (\<exists>j prio chunked. insert_key key (Some x) prio chunked s = Inr ((m, j), s')) \<and>
     new_slots s (drop m x)"

lemma query_frame: "same_frame s s' \<Longrightarrow> query s' = query s"
  by (simp add: fun_eq_iff query_def same_frame_def)

lemma query_page: "0 < rc_page_size s \<Longrightarrow> rc_page_size s dvd length (query s key)"
  by (simp add: query_def Let_def min.absorb2)

lemma match_refines:
  assumes r: "run_ok H s" and m: "mode_ok s key"
  obtains n s' where "match_prefix key s = Inr (\<lparr>mr_indices = spec_slots (radix_contents s) (query s key), mr_node = n\<rparr>, s')"
    "run_ok H s'" "radix_contents s' = radix_contents s" "grows (live s) s (live s') s'" "n \<in> live s'"
    "at_node (rc_store s') (rc_root s) n (take (spec_match (radix_contents s) (query s key)) (query s key)) (spec_slots (radix_contents s) (query s key))"
proof -
  note ok = run_okD [OF r]
  obtain q s' L' where q: "match_prefix key s = Inr (q, s')" "cache_wf L' H s'" "grows (live s) s L' s'" "mr_node q \<in> L'"
    "found (rc_page_size s) (rc_store s) (rc_store s') (rc_root s) (mr_node q) (query s key) (mr_indices q)"
    using match_prefix_correct [OF ok(1) m ok(3)] by blast
  have r': "run_ok H s'" by (rule run_ok_grows [OF r q(2,3)])
  have L': "L' = live s'" using wf_live [OF q(2)] by simp
  have h: "holds s' u v = holds s u v" for u v
    using growsD(6) [OF q(3) ok(5)] growsD(3,4) [OF q(3)] by (simp add: holds_def)
  have "radix_contents s' = radix_contents s" by (intro ext) (simp only: radix_contents_def h)
  moreover have "holds s (take (length (mr_indices q)) (query s key)) (mr_indices q)"
    using found_cached [OF q(2,3) ok(5) q(5)] by (simp add: holds_def)
  then have "spec_match (radix_contents s) (query s key) = length (mr_indices q)" "spec_slots (radix_contents s) (query s key) = mr_indices q"
    using q(5) radix_contents_iff [OF r] by (intro spec_match_eq [OF radix_contents_ok [OF r], of "length (mr_indices q)" "query s key"];
      auto simp: found_def holds_def)+
  ultimately show ?thesis
    using that [of "mr_node q" s'] q(1,3,4,5) r' L' by (simp add: found_def)
qed

lemma insert_refines:
  assumes r: "run_ok H s" and m: "mode_ok s key" and l: "length (query s key) \<le> length x"
    and e: "insert_key key (Some x) prio chunked s = Inr ((n, j), s')"
    and f: "new_slots s (drop n (take (length (query s key)) x))"
  shows "run_ok H s'" "n = spec_match (radix_contents s) (query s key)" "same_frame s s'"
    "radix_contents s' = spec_insert (rc_page_size s) (query s key) (take (length (query s key)) x) (radix_contents s)"
    "held_slots s' = held_slots s \<union> set (drop n (take (length (query s key)) x))" "rc_alloc s' = rc_alloc s"
    "rc_evictable s' = rc_evictable s + int (length (query s key) - n)" "rc_protected s' = rc_protected s"
proof -
  note ok = run_okD [OF r]
  let ?w = "query s key" and ?x = "take (length (query s key)) x" and ?ps = "rc_page_size s"
  obtain i where i: "inserted (live s) H s ?w ?x n i s'" using insert_key_correct(1) [OF ok(1) m ok(3) l e] by blast
  then obtain L' where L: "cache_wf L' H s'" "slots_ok L' s'"
    and ts: "tree_slots (rc_store s') (rc_root s) L' = tree_slots (rc_store s) (rc_root s) (live s) \<union> set (drop n ?x)"
    using ok(2) f unfolding inserted_def new_slots_fresh by blast
  show sf: "same_frame s s'" and "rc_alloc s' = rc_alloc s" "rc_evictable s' = rc_evictable s + int (length ?w - n)"
    "rc_protected s' = rc_protected s" using i by (simp_all add: inserted_def)
  show r': "run_ok H s'" by (rule run_okI [OF L]) (use sf ok(3) in \<open>simp add: same_frame_def\<close>)
  show "held_slots s' = held_slots s \<union> set (drop n ?x)"
    using ts wf_live [OF L(1)] sf by (simp add: held_slots_def same_frame_def)
  obtain v where v: "length v = n" "n \<le> length ?w" "?ps dvd n" "holds s (take n ?w) v"
    "\<And>u u'. holds s u u' \<Longrightarrow> prefix u ?w \<Longrightarrow> length u \<le> n"
    "\<And>u u'. holds s' u u' \<longleftrightarrow> holds s u u' \<or> (?ps dvd length u \<and> prefix u ?w \<and> u' = take (length u) (v @ drop n ?x))"
    using i sf unfolding inserted_def holds_def same_frame_def by metis
  note c = radix_contents_iff [OF r] and c' = radix_contents_iff [OF r']
  have sm: "spec_match (radix_contents s) ?w = n" "spec_slots (radix_contents s) ?w = v"
    using v(2,4,5) c by (intro spec_match_eq [OF radix_contents_ok [OF r], of n ?w v]; simp)+
  then show "n = spec_match (radix_contents s) ?w" by simp
  have pre: "radix_contents s u \<noteq> None \<Longrightarrow> radix_contents s' u = radix_contents s u" for u
    using v(6) c c' by (metis not_None_eq)
  have new: "radix_contents s u = None \<Longrightarrow> radix_contents s' u =
      (if ?ps dvd length u \<and> prefix u ?w then Some (take (length u) (v @ drop n ?x)) else None)" for u
    using v(6) [of u] c [of u] c' [of u] by (cases "radix_contents s' u") auto
  show "radix_contents s' = spec_insert ?ps ?w ?x (radix_contents s)"
  proof
    fix u
    show "radix_contents s' u = spec_insert ?ps ?w ?x (radix_contents s) u"
      using pre [of u] new [of u] unfolding spec_insert_def sm by (cases "radix_contents s u") simp_all
  qed
qed

interpretation rcache: prefix_cache radix_inv rc_page_size query radix_contents radix_lookup radix_add
proof
  fix s :: cache and k :: radix_key and r x :: "int list" and m :: nat and s' :: cache
  assume "radix_inv s"
  then obtain H where H: "run_ok H s" unfolding radix_inv_def by blast
  show "contents_ok (rc_page_size s) (radix_contents s)" by (rule radix_contents_ok [OF H])
  show "rc_page_size s dvd length (query s k)" by (rule query_page [OF run_okD(4) [OF H]])
  show "radix_inv s' \<and> rc_page_size s' = rc_page_size s \<and> query s' = query s \<and> radix_contents s' = radix_contents s \<and>
      r = spec_slots (radix_contents s) (query s k)" if l: "radix_lookup k s r s'"
  proof -
    obtain n s1 where "match_prefix k s = Inr (\<lparr>mr_indices = spec_slots (radix_contents s) (query s k), mr_node = n\<rparr>, s1)"
      "run_ok H s1" "radix_contents s1 = radix_contents s" "grows (live s) s (live s1) s1"
      using match_refines [OF H] l unfolding radix_lookup_def by metis
    then show ?thesis using l growsD(3) query_frame [OF growsD(2)] unfolding radix_lookup_def radix_inv_def by auto
  qed
  show "radix_inv s' \<and> rc_page_size s' = rc_page_size s \<and> query s' = query s \<and> m = spec_match (radix_contents s) (query s k) \<and>
      radix_contents s' = spec_insert (rc_page_size s) (query s k) x (radix_contents s)"
    if lx: "length x = length (query s k)" and a: "radix_add k x s m s'"
  proof -
    obtain j prio chunked where e: "mode_ok s k" "insert_key k (Some x) prio chunked s = Inr ((m, j), s')" "new_slots s (drop m x)"
      using a unfolding radix_add_def by (elim conjE exE) (rule that)
    have l: "length (query s k) \<le> length x" and n: "new_slots s (drop m (take (length (query s k)) x))" using lx e(3) by simp_all
    note i = insert_refines(1-4) [OF H e(1) l e(2) n]
    have "query s' = query s" "rc_page_size s' = rc_page_size s" using query_frame [OF i(3)] i(3) by (simp_all add: same_frame_def)
    then show ?thesis using i(1,2,4) lx unfolding radix_inv_def by (metis take_all order_refl)
  qed
qed

end
