(* ===== verification/Radix_Size.thy ===== *)
theory Radix_Size
  imports Radix_Props
begin

text \<open>
  The traversal behind \<open>total_size\<close> visits every node of the tree exactly once, so that the two
  counters of the cache add up to the number of stored tokens.
\<close>

lemma children_distinct:
  assumes "tree_ok ps eagle st r L" "i \<in> L"
  shows "distinct (map snd (n_children (node_at st i)))" "set (map snd (n_children (node_at st i))) = {j. edge st i j}"
proof -
  have c: "children_ok ps st r L i" by (rule tree_okD(8) [OF assms])
  then have d: "distinct (map fst (n_children (node_at st i)))" by (simp add: children_ok_def)
  have k: "child_key (n_key (node_at st j)) ps = Inr ck" if "(ck, j) \<in> set (n_children (node_at st i))" for ck j
    using c that by (auto simp: children_ok_def)
  have "ck = ck'" if "(ck, j) \<in> set (n_children (node_at st i))" "(ck', j) \<in> set (n_children (node_at st i))" for ck ck' j
    using k [OF that(1)] k [OF that(2)] by simp
  then have "inj_on snd (set (n_children (node_at st i)))" by (auto simp: inj_on_def)
  then show "distinct (map snd (n_children (node_at st i)))"
    using d by (simp add: distinct_map)
  show "set (map snd (n_children (node_at st i))) = {j. edge st i j}" by (auto simp: edge_def)
qed

text \<open>\<open>V\<close> are the nodes already counted, \<open>stack\<close> the ones seen and not yet counted.\<close>

definition visiting :: "store \<Rightarrow> nat \<Rightarrow> nat set \<Rightarrow> nat set \<Rightarrow> nat list \<Rightarrow> bool" where
  "visiting st r L V stack \<longleftrightarrow> V \<subseteq> L \<and> set stack \<subseteq> L \<and> V \<inter> set stack = {} \<and> distinct stack \<and> r \<in> V \<union> set stack \<and>
     (\<forall>i\<in>V. \<forall>j. edge st i j \<longrightarrow> j \<in> V \<union> set stack) \<and> (\<forall>i\<in>V \<union> set stack. i \<noteq> r \<longrightarrow> the (n_parent (node_at st i)) \<in> V)"

lemma visiting_done:
  assumes t: "tree_ok ps eagle st r L" and v: "visiting st r L V []"
  shows "V = L"
proof
  show "V \<subseteq> L" using v by (simp add: visiting_def)
  show "L \<subseteq> V"
  proof
    fix i assume "i \<in> L"
    then obtain "is" where c: "chain (edge st) r is" "last (r # is) = i" using tree_okD(10) [OF t] by blast
    have cl: "\<And>a b. a \<in> V \<Longrightarrow> edge st a b \<Longrightarrow> b \<in> V" and r: "r \<in> V" using v by (auto simp: visiting_def)
    have "set is \<subseteq> V" by (rule chain_closed [OF _ r c(1)]) (use cl in blast)
    then show "i \<in> V" using c(2) r by (cases "is" rule: rev_cases) auto
  qed
qed

lemma visiting_step:
  assumes t: "tree_ok ps eagle st r L" and v: "visiting st r L V (xs @ [x])"
  shows "visiting st r L (insert x V) (xs @ map snd (n_children (node_at st x)))"
proof -
  have x: "x \<in> L" "x \<notin> V" "x \<notin> set xs" using v by (auto simp: visiting_def)
  note ch = children_distinct [OF t x(1)]
  have e: "j \<in> L" "j \<noteq> r" "n_parent (node_at st j) = Some x" if "edge st x j" for j using tree_ok_edge [OF t x(1) that] by blast+
  have new: "j \<notin> V \<union> set (xs @ [x])" if j: "edge st x j" for j
    using v e [OF j] x(2) unfolding visiting_def by (metis option.sel)
  show ?thesis
    unfolding visiting_def
  proof (intro conjI)
    show "insert x V \<inter> set (xs @ map snd (n_children (node_at st x))) = {}"
      using v new ch(2) x unfolding visiting_def by auto
    show "distinct (xs @ map snd (n_children (node_at st x)))"
      using v new ch unfolding visiting_def by auto
    show "\<forall>i\<in>insert x V \<union> set (xs @ map snd (n_children (node_at st x))). i \<noteq> r \<longrightarrow> the (n_parent (node_at st i)) \<in> insert x V"
      using v e(3) ch(2) unfolding visiting_def by auto
  qed (use v e ch(2) x in \<open>auto simp: visiting_def\<close>)
qed

definition slot_count :: "store \<Rightarrow> nat set \<Rightarrow> nat" where
  "slot_count st A = (\<Sum>i\<in>A. length (the (n_value (node_at st i))))"

lemma total_size_loop_correct:
  assumes t: "tree_ok (rc_page_size s) (rc_eagle s) (rc_store s) (rc_root s) L"
  shows "visiting (rc_store s) (rc_root s) L V stack \<Longrightarrow> card (L - V) \<le> fuel \<Longrightarrow>
    total_size_loop fuel stack (slot_count (rc_store s) V) s = Inr (slot_count (rc_store s) L)"
proof (induction fuel arbitrary: V stack)
  case 0
  then have "L - V = {}" using tree_okD(2) [OF t] by simp
  then have "stack = []" "V = L" using 0(1) by (cases stack; auto simp: visiting_def)+
  then show ?case by (simp add: total_size_loop.simps)
next
  case (Suc fuel)
  show ?case
  proof (cases stack rule: rev_cases)
    case Nil
    then have "V = L" using visiting_done [OF t, of V] Suc.prems(1) by blast
    then show ?thesis using Nil by (simp add: total_size_loop.simps)
  next
    case (snoc xs x)
    have x: "x \<in> L" "x \<notin> V" "V \<subseteq> L" using Suc.prems(1) snoc by (auto simp: visiting_def)
    have fin: "finite V" using x(3) tree_okD(2) [OF t] finite_subset by blast
    have val: "\<exists>v. n_value (nd s i) = Some v" if "i \<in> L" for i
      using tree_okD(7) [OF t] tree_okD(9) [OF t that] by (cases "i = rc_root s") (auto simp: node_ok_def)
    then obtain v where v: "n_value (nd s x) = Some v" using x(1) by blast
    have "c \<in> L" if "c \<in> snd ` set (n_children (nd s x))" for c using tree_ok_edge(1) [OF t x(1)] that by (simp add: edge_def)
    then have "\<not> evicted (nd s c)" if "c \<in> snd ` set (n_children (nd s x))" for c using val that by (fastforce simp: evicted_def)
    then have ch: "filter (\<lambda>c. \<not> evicted (nd s c)) (map snd (n_children (nd s x))) = map snd (n_children (nd s x))"
      by (intro filter_True) auto
    have "L - insert x V = (L - V) - {x}" by auto
    then have "card (L - insert x V) \<le> fuel" using Suc.prems(2) x tree_okD(2) [OF t] by simp
    note ih = Suc.IH [OF visiting_step [OF t Suc.prems(1) [unfolded snoc]] this]
    have "slot_count (rc_store s) (insert x V) = slot_count (rc_store s) V + length v"
      using fin x(2) v by (simp add: slot_count_def)
    then show ?thesis using ih v ch by (simp add: total_size_loop.simps [of "Suc fuel"] snoc value_of_def)
  qed
qed

lemma total_size_correct:
  assumes w: "cache_wf L H s"
  shows "total_size s = Inr (slot_count (rc_store s) L)"
    "rc_evictable s + rc_protected s = int (slot_count (rc_store s) L)"
proof -
  note t = wfD(1) [OF w] and fin = tree_okD(2) [OF wfD(1) [OF w]]
  have "L \<subseteq> {..<rc_counter s}" using wfD(2) [OF w] tree_okD(4) [OF t] by blast
  then have "card L \<le> rc_counter s" using card_mono [of "{..<rc_counter s}" L] by simp
  moreover have "visiting (rc_store s) (rc_root s) L {} [rc_root s]" using tree_okD(3) [OF t] by (simp add: visiting_def)
  ultimately show "total_size s = Inr (slot_count (rc_store s) L)"
    using total_size_loop_correct [OF t, of "{}" "[rc_root s]" "rc_counter s"] by (simp add: total_size_def slot_count_def)
  have len: "int (rk_len (n_key (nd s i))) = int (length (the (n_value (nd s i))))" if "i \<in> L" for i
    using tree_okD(6,7) [OF t] tree_okD(9) [OF t that] by (cases "i = rc_root s") (auto simp: node_ok_def)
  let ?u = "unlocked (rc_store s) (rc_root s) L" and ?l = "locked (rc_store s) (rc_root s) L"
  have "L = insert (rc_root s) (?u \<union> ?l)" "?u \<inter> ?l = {}" "rc_root s \<notin> ?u \<union> ?l"
    using tree_okD(3) [OF t] by (auto simp: unlocked_def locked_def)
  moreover have "finite ?u" "finite ?l" using fin by (simp_all add: unlocked_def locked_def)
  ultimately have "tokens (rc_store s) L = tokens (rc_store s) ?u + tokens (rc_store s) ?l + int (rk_len (n_key (nd s (rc_root s))))"
    unfolding tokens_def by (metis (no_types, lifting) add.commute finite_UnI sum.insert sum.union_disjoint)
  then show "rc_evictable s + rc_protected s = int (slot_count (rc_store s) L)"
    using wfD(5,6) [OF w] tree_okD(6) [OF t] len by (simp add: tokens_def slot_count_def)
qed

end
