(* ===== verification/Radix_Theorems.thy ===== *)
theory Radix_Theorems
  imports Radix_Size
begin

text \<open>
  The properties of the radix cache, stated of every state a client can reach, and their
  instances on a small cache: page size two, a pool of four pages, one sequence of four tokens.
\<close>

section \<open>An example cache\<close>

definition ex_hasher :: hasher where
  "ex_hasher = \<lparr>native_hash = (\<lambda>_ _ _. []), sha256_hex = (\<lambda>_. [])\<rparr>"

definition ex_pool :: kv_alloc where
  "ex_pool = PagedA \<lparr>al_size = 8, al_page_size = 2, al_need_sort = False, al_free_pages = [3, 4], al_free_group = None,
     al_num_pages = 4, al_debug_mode = False, al_staged_pages = [], al_num_staged_pages = 0, al_free_page_ids_group = []\<rparr>"

definition ex_root :: node where
  "ex_root = \<lparr>n_children = [], n_parent = None, n_key = RadixKey [] None False None None, n_value = Some [],
     n_lock_ref = 1, n_last_access = 0, n_creation = 1, n_hit_count = 0, n_host_ref = 0, n_host_value = Some [],
     n_hash = Some [], n_event_hash = None, n_tlru = None, n_priority = - 9223372036854775807\<rparr>"

definition ex_cache0 :: cache where
  "ex_cache0 = \<lparr>rc_store = [0 \<mapsto> ex_root], rc_counter = 1, rc_root = 0, rc_evictable = 0, rc_protected = 0,
     rc_leaves = {}, rc_disable = False, rc_page_size = 2, rc_eagle = False, rc_strategy = LRUStrategy,
     rc_events = KVCacheEventRecorder False 2, rc_hasher = ex_hasher, rc_clock = int, rc_ticks = 2, rc_alloc = ex_pool\<rparr>"

definition ex_key :: radix_key where
  "ex_key = RadixKey [11, 12, 13, 14, 15] None False None None"

definition ex_key4 :: radix_key where
  "ex_key4 = RadixKey [11, 12, 13, 14] None False None None"

definition ex_leaf :: node where
  "ex_leaf = \<lparr>n_children = [], n_parent = Some 0, n_key = ex_key4, n_value = Some [2, 3, 4, 5], n_lock_ref = 0,
     n_last_access = 3, n_creation = 4, n_hit_count = 1, n_host_ref = 0, n_host_value = None, n_hash = None,
     n_event_hash = None, n_tlru = None, n_priority = 0\<rparr>"

definition ex_cache1 :: cache where
  "ex_cache1 = ex_cache0\<lparr>rc_store := [1 \<mapsto> ex_leaf, 0 \<mapsto> ex_root\<lparr>n_children := [(PTuple [PInt 11, PInt 12], 1)],
     n_last_access := 2, n_priority := 0\<rparr>], rc_counter := 2, rc_evictable := 4, rc_leaves := {1}, rc_ticks := 5\<rparr>"

lemma ex_new: "RadixCache False 2 False ''lru'' [] False ex_hasher int ex_pool = Inr ex_cache0"
  by (simp add: ex_cache0_def ex_root_def RadixCache_def get_eviction_strategy_def kwargs_ok_def Let_def reset_def
      new_tree_node_def TreeNode_def set_node_def upd_def record_all_cleared_def KVCacheEventRecorder_def)

lemma ex_run0: "cache_run [] ex_cache0" "held_slots ex_cache0 = {}"
proof -
  have i: "ka_inv ex_pool" "ka_page_size ex_pool = 2" by code_simp+
  show "cache_run [] ex_cache0" by (rule run_new [OF ex_new _ i]) simp
  have c: "n_children (nd ex_cache0 (rc_root ex_cache0)) = []" by (simp add: ex_cache0_def ex_root_def)
  have "chain (edge (rc_store ex_cache0)) (rc_root ex_cache0) is \<Longrightarrow> is = []" for "is"
    using c by (cases "is") (simp_all add: edge_def)
  then have "live ex_cache0 = {rc_root ex_cache0}" by (fastforce simp: live_def below_def intro: exI [of _ "[]"])
  then show "held_slots ex_cache0 = {}" by (simp add: held_slots_def tree_slots_def)
qed

lemma ex_keys:
  "maybe_to_bigram_view ex_key False (v :: int list option) = (ex_key, v)" "page_aligned ex_key 2 = Inr ex_key4" "rk_len ex_key4 = 4"
  "rk_len ex_key = 5" "child_key ex_key4 2 = Inr (PTuple [PInt 11, PInt 12])"
  by (simp add: maybe_to_bigram_view_def) code_simp+

lemma ex_step: "insert_key ex_key (Some [2, 3, 4, 5]) None False ex_cache0 = Inr ((0, Some 1), ex_cache1)"
  unfolding insert_key_def
  by (simp add: ex_cache0_def ex_root_def ex_cache1_def ex_leaf_def ex_keys insert_helper_def monotonic_def set_node_def
      insert_loop.simps add_leaf_def new_tree_node_def TreeNode_def inc_hit_count_def update_leaf_status_def record_store_def
      KVCacheEventRecorder_def upd_def evicted_def Let_def cong: eval_cong)

lemma ex_mode: "mode_ok ex_cache0 ex_key" "mode_ok ex_cache1 ex_key"
  by (simp_all add: mode_ok_def ex_cache1_def ex_cache0_def ex_key_def)

lemma ex_query: "query ex_cache0 ex_key = map (Pair (None, None)) [Tok 11, Tok 12, Tok 13, Tok 14]"
  by code_simp

lemma ex_fresh: "new_slots ex_cache0 [2, 3, 4, 5]"
proof -
  have "blocked 2 [2, 3, 4, 5]" unfolding blocked_def by (rule exI [of _ "[1, 2]"]) code_simp
  moreover have "set [2, 3, 4, 5] \<subseteq> ka_universe ex_pool" "set [2, 3, 4, 5] \<inter> ka_free_set ex_pool = {}"
    by (simp_all add: ex_pool_def pag_universe_def pag_avail_def pag_pending_def slots_of_def group_slots_def pag_get_all_free_pages_def)
  ultimately show ?thesis using ex_run0(2) by (simp add: new_slots_def ex_cache0_def)
qed

lemma ex_run1: "cache_run [] ex_cache1"
proof -
  have l: "length (query ex_cache0 ex_key) = 4" unfolding ex_query by simp
  show ?thesis by (rule run_insert [OF ex_run0(1) ex_mode(1) _ ex_step]) (use l ex_fresh in simp_all)
qed

lemma ex_frame1: "rc_page_size ex_cache1 = 2" "rc_eagle ex_cache1 = False" "rc_disable ex_cache1 = False" "rc_root ex_cache1 = 0"
  "rc_strategy ex_cache1 = LRUStrategy" "rc_alloc ex_cache1 = ex_pool" "\<not> ev_enabled (rc_events ex_cache1)"
  by (simp_all add: ex_cache1_def ex_cache0_def KVCacheEventRecorder_def)

lemma ex_query1: "query ex_cache1 = query ex_cache0" "mode_ok ex_cache1 = mode_ok ex_cache0"
  by (simp_all add: fun_eq_iff query_def mode_ok_def ex_cache1_def ex_cache0_def)

lemma ex_live1: "1 \<in> live ex_cache1"
  by (auto simp: live_def below_def edge_def ex_cache1_def ex_cache0_def intro!: exI [of _ "[1]"])

section \<open>Matching and inserting\<close>

text \<open>
  Property C9: in every reachable state \<open>match_prefix\<close> returns, and what it returns are the slots of the longest
  page-aligned prefix of the key that is in the cache. Matching splits nodes and moves time stamps but
  leaves the cached sequences, the slots the tree owns, the allocator and both size counters as they were.
\<close>

theorem match_prefix_returns_longest_cached_prefix:
  assumes "cache_run H s" "mode_ok s key"
  shows "\<exists>n s'. match_prefix key s = Inr (\<lparr>mr_indices = spec_slots (radix_contents s) (query s key), mr_node = n\<rparr>, s') \<and>
     at_node (rc_store s') (rc_root s') n (take (spec_match (radix_contents s) (query s key)) (query s key))
       (spec_slots (radix_contents s) (query s key)) \<and>
     radix_contents s' = radix_contents s \<and> held_slots s' = held_slots s \<and> rc_alloc s' = rc_alloc s \<and>
     evictable_size s' = evictable_size s \<and> protected_size s' = protected_size s"
proof -
  note r = run_invariant [OF assms(1)]
  obtain n s' where "match_prefix key s = Inr (\<lparr>mr_indices = spec_slots (radix_contents s) (query s key), mr_node = n\<rparr>, s')"
    "radix_contents s' = radix_contents s" "grows (live s) s (live s') s'"
    "at_node (rc_store s') (rc_root s) n (take (spec_match (radix_contents s) (query s key)) (query s key)) (spec_slots (radix_contents s) (query s key))"
    by (rule match_refines [OF r assms(2)])
  then show ?thesis
    using growsD(4,8,10,11,14) [of "live s" s "live s'" s'] by (auto simp: held_slots_def evictable_size_def protected_size_def)
qed

theorem match_prefix_returns_longest_cached_prefix_witness:
  "\<exists>n s'. match_prefix ex_key ex_cache1 = Inr (\<lparr>mr_indices = spec_slots (radix_contents ex_cache1) (query ex_cache1 ex_key), mr_node = n\<rparr>, s') \<and>
     radix_contents s' = radix_contents ex_cache1"
  using match_prefix_returns_longest_cached_prefix [OF ex_run1 ex_mode(2)] by blast

text \<open>
  Property C10: \<open>insert\<close> of a key with fresh slots implements the insertion of the abstract prefix map. The
  returned length is that of the longest cached prefix; that prefix keeps the slots it had, the rest of the
  key gets the slots of the call, no other sequence changes, the tree owns the new slots in addition to the
  old ones, and the evictable size grows by the number of tokens added.
\<close>

theorem insert_implements_prefix_map:
  assumes "cache_run H s" "mode_ok s key" "length (query s key) \<le> length vals"
    "insert_key key (Some vals) prio chunked s = Inr ((n, j), s')"
    "new_slots s (drop n (take (length (query s key)) vals))"
  shows "n = spec_match (radix_contents s) (query s key) \<and>
     radix_contents s' = spec_insert (rc_page_size s) (query s key) (take (length (query s key)) vals) (radix_contents s) \<and>
     held_slots s' = held_slots s \<union> set (drop n (take (length (query s key)) vals)) \<and> rc_alloc s' = rc_alloc s \<and>
     evictable_size s' = evictable_size s + int (length (query s key) - n) \<and> protected_size s' = protected_size s \<and> cache_run H s'"
  using insert_refines(2,4-8) [OF run_invariant [OF assms(1)] assms(2-5)] run_insert [OF assms]
  unfolding evictable_size_def protected_size_def by blast

theorem insert_implements_prefix_map_witness:
  "radix_contents ex_cache1 = spec_insert 2 (query ex_cache0 ex_key) [2, 3, 4, 5] (radix_contents ex_cache0) \<and> held_slots ex_cache1 = {2, 3, 4, 5}"
proof -
  have l: "length (query ex_cache0 ex_key) = 4" unfolding ex_query by simp
  have p: "rc_page_size ex_cache0 = 2" by (simp add: ex_cache0_def)
  show ?thesis
    using insert_implements_prefix_map [OF ex_run0(1) ex_mode(1) _ ex_step] l ex_fresh ex_run0(2) p by simp
qed

text \<open>
  Property C11: what was inserted is found. A match of the same key right after an insertion returns a slot for
  every token of the page-aligned key: the old slots for the part cached before, the inserted slots for the rest.
\<close>

theorem insert_then_match_roundtrip:
  assumes "cache_run H s" "mode_ok s key" "length vals = length (query s key)"
    "insert_key key (Some vals) prio chunked s = Inr ((n, j), s1)" "new_slots s (drop n vals)"
  shows "\<exists>i s2. match_prefix key s1 = Inr (\<lparr>mr_indices = spec_slots (radix_contents s) (query s key) @ drop n vals, mr_node = i\<rparr>, s2) \<and>
     length (spec_slots (radix_contents s) (query s key) @ drop n vals) = length (query s key)"
proof -
  note r = run_invariant [OF assms(1)]
  have l: "length (query s key) \<le> length vals" and f: "new_slots s (drop n (take (length (query s key)) vals))" using assms by simp_all
  note i = insert_refines [OF r assms(2) l assms(4) f]
  have m: "mode_ok s1 key" using assms(2) i(3) by (simp add: mode_ok_def same_frame_def)
  obtain k s2 where k: "match_prefix key s1 = Inr (\<lparr>mr_indices = spec_slots (radix_contents s1) (query s1 key), mr_node = k\<rparr>, s2)"
    by (rule match_refines [OF i(1) m])
  have a: "radix_inv s" "radix_add key vals s n s1" "radix_lookup key s1 (spec_slots (radix_contents s1) (query s1 key)) s2"
    using r assms(2,4,5) m k by (auto simp: radix_inv_def radix_add_def radix_lookup_def)
  show ?thesis using rcache.add_then_lookup [OF a(1) assms(3) a(2,3)] k by auto
qed

theorem insert_then_match_roundtrip_witness:
  "\<exists>i s2. match_prefix ex_key ex_cache1 = Inr (\<lparr>mr_indices = [2, 3, 4, 5], mr_node = i\<rparr>, s2)"
proof -
  have l: "length (query ex_cache0 ex_key) = 4" unfolding ex_query by simp
  have "\<exists>i s2. match_prefix ex_key ex_cache1 = Inr (\<lparr>mr_indices = spec_slots (radix_contents ex_cache0) (query ex_cache0 ex_key) @ drop 0 [2, 3, 4, 5], mr_node = i\<rparr>, s2)
     \<and> length (spec_slots (radix_contents ex_cache0) (query ex_cache0 ex_key) @ drop 0 [2, 3, 4, 5 :: int]) = length (query ex_cache0 ex_key)"
    by (rule insert_then_match_roundtrip [OF ex_run0(1) ex_mode(1) _ ex_step]) (use l ex_fresh in simp_all)
  then show ?thesis using l by auto
qed

section \<open>Locks, sizes, ownership\<close>

text \<open>
  Property C15: in every reachable state the lock count of a node other than the root is the number of locks held
  on nodes in its subtree, so a node is protected exactly as long as some request holds it or a descendant;
  the set of evictable leaves is exactly the set of childless nodes without locks.
\<close>

theorem lock_ref_counts_holders:
  assumes "cache_run H s"
  shows "set H \<subseteq> live s \<and>
    (\<forall>i\<in>live s - {rc_root s}. n_lock_ref (nd s i) = int (length (filter (below (rc_store s) i) H))) \<and>
    rc_leaves s = {i \<in> live s - {rc_root s}. n_children (nd s i) = [] \<and> n_lock_ref (nd s i) = 0}"
  using wfD(3,4) [OF run_okD(1) [OF run_invariant [OF assms]]] by (auto simp: locks_ok_def leaf_set_def unlocked_def)

theorem lock_ref_counts_holders_witness: "n_lock_ref (nd ex_cache1 1) = 0 \<and> rc_leaves ex_cache1 \<noteq> {}"
proof -
  have "rc_leaves ex_cache1 = {1}" by (simp add: ex_cache1_def)
  then show ?thesis using lock_ref_counts_holders [OF ex_run1] by auto
qed

text \<open>
  Property C16: releasing a lock undoes taking it. From a reachable state, \<open>dec_lock_ref\<close> after \<open>inc_lock_ref\<close> on any
  node of the tree returns, gives back exactly the tokens that became protected, and restores the whole state.
\<close>

theorem lock_then_unlock_restores:
  assumes "cache_run H s" "i \<in> live s"
  shows "\<exists>x s'. inc_lock_ref i s = Inr (- x, s') \<and> dec_lock_ref i s' = Inr (x, s)"
  using inc_dec_lock_ref [OF run_okD(1) [OF run_invariant [OF assms(1)]] assms(2) run_okD(3) [OF run_invariant [OF assms(1)]]] .

theorem lock_then_unlock_restores_witness:
  "\<exists>x s'. inc_lock_ref 1 ex_cache1 = Inr (- x, s') \<and> dec_lock_ref 1 s' = Inr (x, ex_cache1)"
  by (rule lock_then_unlock_restores [OF ex_run1 ex_live1])

text \<open>
  Property C17: the size accounting is exact. In every reachable state the traversal of \<open>total_size\<close> ends and returns the
  sum of \<open>evictable_size\<close> and \<open>protected_size\<close>, and the protected size is the number of tokens in nodes that carry a lock.
\<close>

theorem size_counters_are_exact:
  assumes "cache_run H s"
  shows "\<exists>n. total_size s = Inr n \<and> evictable_size s + protected_size s = int n \<and>
     protected_size s = (\<Sum>i | i \<in> live s - {rc_root s} \<and> n_lock_ref (nd s i) \<noteq> 0. int (rk_len (n_key (nd s i))))"
  using total_size_correct [OF run_okD(1) [OF run_invariant [OF assms]]] wfD(6) [OF run_okD(1) [OF run_invariant [OF assms]]]
  by (auto simp: evictable_size_def protected_size_def tokens_def locked_def)

theorem size_counters_are_exact_witness: "total_size ex_cache1 = Inr 4"
proof -
  have "evictable_size ex_cache1 = 4" "protected_size ex_cache1 = 0"
    by (simp_all add: evictable_size_def protected_size_def ex_cache1_def ex_cache0_def)
  then show ?thesis using size_counters_are_exact [OF ex_run1] by auto
qed

text \<open>
  Property C12: no slot has two owners. In every reachable state the slots of different nodes are disjoint, every node
  holds whole pages, and no slot of the tree is free (or pending to become free) in the allocator.
\<close>

theorem tree_slots_have_one_owner:
  assumes "cache_run H s"
  shows "ka_inv (rc_alloc s) \<and> held_slots s \<inter> ka_free_set (rc_alloc s) = {} \<and> held_slots s \<subseteq> ka_universe (rc_alloc s) \<and>
    (\<forall>i\<in>live s - {rc_root s}. blocked (rc_page_size s) (the (n_value (nd s i)))) \<and>
    (\<forall>i\<in>live s - {rc_root s}. \<forall>j\<in>live s - {rc_root s}. i \<noteq> j \<longrightarrow>
       set (the (n_value (nd s i))) \<inter> set (the (n_value (nd s j))) = {})"
  using run_okD(2) [OF run_invariant [OF assms]] unfolding slots_ok_def held_slots_def node_slots_def by blast

theorem tree_slots_have_one_owner_witness: "held_slots ex_cache1 \<inter> ka_free_set ex_pool = {} \<and> ka_inv ex_pool"
  using tree_slots_have_one_owner [OF ex_run1] ex_frame1(6) by simp

section \<open>Evicting\<close>

text \<open>
  Property C13: eviction is safe. Whatever number of tokens it is asked for, a call that returns keeps every locked node
  at its place with its slots, invents no cached sequence, and gives to the allocator exactly the slots
  that it takes from the tree; the reported number is the decrease of the evictable size.
\<close>

theorem evict_is_safe:
  assumes "cache_run H s" "prio_total (rc_strategy s)" "evict n s = Inr (k, s')"
  shows "(\<forall>i\<in>set H. \<forall>u v. at_node (rc_store s) (rc_root s) i u v \<longrightarrow> at_node (rc_store s') (rc_root s') i u v) \<and>
    (\<forall>u v. radix_contents s' u = Some v \<longrightarrow> radix_contents s u = Some v) \<and>
    ka_free_set (rc_alloc s') = ka_free_set (rc_alloc s) \<union> (held_slots s - held_slots s') \<and> held_slots s' \<subseteq> held_slots s \<and>
    evictable_size s' = evictable_size s - k \<and> protected_size s' = protected_size s \<and> cache_run H s'"
proof -
  note r = run_invariant [OF assms(1)] and r' = run_invariant [OF run_evict [OF assms]]
  obtain L' where e: "evicted_to (live s) H s L' s' k"
    using evict_correct(1) [OF run_okD(1,2) [OF r] assms(2) run_okD(3) [OF r] assms(3)] by blast
  then have L': "L' = live s'" using wf_live unfolding evicted_to_def by blast
  have f: "rc_root s' = rc_root s" "rc_page_size s' = rc_page_size s" using e by (simp_all add: evicted_to_def same_frame_def)
  have H: "set H \<subseteq> live s'" using wfD(3) [OF run_okD(1) [OF r']] by (simp add: locks_ok_def)
  have fr: "ka_free_set (rc_alloc s') \<union> held_slots s' = ka_free_set (rc_alloc s) \<union> held_slots s" "held_slots s' \<subseteq> held_slots s"
    using e unfolding evicted_to_def L' held_slots_def f by blast+
  have "held_slots s' \<inter> ka_free_set (rc_alloc s') = {}" "held_slots s \<inter> ka_free_set (rc_alloc s) = {}"
    using slots_okD(5) [OF run_okD(2) [OF r']] slots_okD(5) [OF run_okD(2) [OF r]] unfolding held_slots_def by blast+
  then have "ka_free_set (rc_alloc s') = ka_free_set (rc_alloc s) \<union> (held_slots s - held_slots s')" using fr by blast
  moreover have "holds s' u v \<longrightarrow> holds s u v" for u v using e unfolding evicted_to_def holds_def f by blast
  moreover have "\<forall>i\<in>set H. \<forall>u v. at_node (rc_store s) (rc_root s) i u v \<longrightarrow> at_node (rc_store s') (rc_root s') i u v"
    using e H unfolding evicted_to_def L' f by auto
  ultimately show ?thesis
    using e fr(2) run_evict [OF assms] radix_contents_iff [OF r] radix_contents_iff [OF r']
    by (simp add: evicted_to_def evictable_size_def protected_size_def)
qed

lemma ex_evict: "\<exists>k s'. evict 1 ex_cache1 = Inr (k, s')"
  using evict_correct(2) [OF run_okD(1,2) [OF run_invariant [OF ex_run1]]] ex_frame1 by (simp add: prio_total_def)

theorem evict_is_safe_witness:
  "\<exists>k s'. evict 1 ex_cache1 = Inr (k, s') \<and> evictable_size s' = 4 - k \<and> ka_free_set (rc_alloc s') = ka_free_set ex_pool \<union> (held_slots ex_cache1 - held_slots s')"
proof -
  obtain k s' where e: "evict 1 ex_cache1 = Inr (k, s')" using ex_evict by blast
  have "evictable_size ex_cache1 = 4" by (simp add: evictable_size_def ex_cache1_def)
  then show ?thesis using evict_is_safe [OF ex_run1 _ e] e ex_frame1 by (simp add: prio_total_def)
qed

text \<open>
  Property C14: eviction makes progress. With events off, \<open>evict\<close> returns for every request, and it stops short of the
  requested number of tokens only when nothing evictable is left.
\<close>

theorem evict_makes_progress:
  assumes "cache_run H s" "prio_total (rc_strategy s)" "\<not> ev_enabled (rc_events s)"
  shows "\<exists>k s'. evict n s = Inr (k, s') \<and> 0 \<le> k \<and> (n \<le> k \<or> evictable_size s' = 0)"
proof -
  note ok = run_okD [OF run_invariant [OF assms(1)]]
  obtain k s' where e: "evict n s = Inr (k, s')" using evict_correct(2) [OF ok(1,2) assms(2) ok(3) assms(3)] by blast
  then show ?thesis using evict_correct(1) [OF ok(1,2) assms(2) ok(3) e] by (auto simp: evicted_to_def evictable_size_def)
qed

theorem evict_makes_progress_witness: "\<exists>k s'. evict 3 ex_cache1 = Inr (k, s') \<and> 0 \<le> k \<and> (3 \<le> k \<or> evictable_size s' = 0)"
  by (rule evict_makes_progress [OF ex_run1]) (use ex_frame1 in \<open>simp_all add: prio_total_def\<close>)



section \<open>Types\<close>

text \<open>
  Property C36: the nodes of every tree a client can reach are well typed. The root has no parent, an empty key and no
  slots. Every other node has a non-empty key of whole pages in the view of the cache, one slot for each token, and a live
  parent in whose children the first page of its key, with the namespace, looks it up.
\<close>

theorem reachable_nodes_well_typed:
  assumes run: "cache_run H s" and i: "i \<in> live s"
  shows "\<exists>n. rc_store s i = Some n \<and>
     (if i = rc_root s then n_parent n = None \<and> rk_len (n_key n) = 0 \<and> n_value n = Some []
      else 0 < rk_len (n_key n) \<and> rc_page_size s dvd rk_len (n_key n) \<and> is_bigram (n_key n) = rc_eagle s \<and>
        (\<exists>v. n_value n = Some v \<and> length v = rk_len (n_key n)) \<and>
        (\<exists>p pn ck. n_parent n = Some p \<and> p \<in> live s \<and> rc_store s p = Some pn \<and> child_key (n_key n) (rc_page_size s) = Inr ck \<and>
           map_of (n_children pn) ck = Some i))"
proof -
  note t = wfD(1) [OF run_okD(1) [OF run_invariant [OF run]]]
  obtain n where n: "rc_store s i = Some n" using tree_okD(4) [OF t i] by blast
  show ?thesis
  proof (cases "i = rc_root s")
    case True
    then show ?thesis using n tree_okD(5-7) [OF t] by simp
  next
    case False
    obtain p where p: "p \<in> live s" "edge (rc_store s) p i" "n_parent (nd s i) = Some p" by (rule tree_ok_parent [OF t i False])
    obtain pn where pn: "rc_store s p = Some pn" using tree_okD(4) [OF t p(1)] by blast
    obtain ck where ck: "(ck, i) \<in> set (n_children pn)" using p(2) pn by (auto simp: edge_def)
    then have "child_key (n_key n) (rc_page_size s) = Inr ck" "map_of (n_children pn) ck = Some i"
      using tree_okD(8) [OF t p(1)] n pn by (auto simp: children_ok_def)
    then show ?thesis using n p pn False tree_okD(9) [OF t i False] by (simp add: node_ok_def)
  qed
qed

theorem reachable_nodes_well_typed_witness:
  "\<exists>n. rc_store ex_cache1 1 = Some n \<and> 0 < rk_len (n_key n) \<and> 2 dvd rk_len (n_key n) \<and> n_parent n = Some 0"
  using reachable_nodes_well_typed [OF ex_run1 ex_live1] by (auto simp: ex_cache1_def ex_cache0_def ex_leaf_def)

end
