(* ===== verification/Token_Matcher.thy ===== *)
theory Token_Matcher
  imports KV_Prelude
begin

text \<open>
  The streaming pattern matcher \<^verbatim>\<open>TokenSequenceMatcher\<close> of \<^verbatim>\<open>utils/token_sequence_matcher.py\<close> and the
  counter of reasoning tokens that a request drives with it (\<^verbatim>\<open>Req.update_reasoning_tokens\<close> of
  \<^verbatim>\<open>managers/schedule_batch.py\<close>). The matcher is the automaton of Knuth, Morris and Pratt; the theory
  shows that its state is the length of the longest prefix of the pattern that ends the text read
  so far, and that the counter stops at the first occurrence of the pattern however the output is cut
  into steps. The inner \<^verbatim>\<open>while\<close> loop is bounded by the current state, which it decreases.
\<close>

section \<open>The matcher\<close>

record matcher =
  tm_pattern :: "int list"
  tm_prefix_lengths :: "nat list"

text \<open>\<^verbatim>\<open>while matched > 0 and token != pattern[matched]: matched = prefix_lengths[matched - 1]\<close>\<close>

fun fall_back :: "nat \<Rightarrow> int list \<Rightarrow> nat list \<Rightarrow> int \<Rightarrow> nat \<Rightarrow> nat result" where
  "fall_back fuel pat pl token matched =
     (if matched = 0 then Inr 0
      else if length pat \<le> matched then Inl IndexError
      else if token = pat ! matched then Inr matched
      else case fuel of 0 \<Rightarrow> Inl OutOfFuel
        | Suc fuel \<Rightarrow> if length pl \<le> matched - 1 then Inl IndexError
                      else fall_back fuel pat pl token (pl ! (matched - 1)))"

declare fall_back.simps [simp del]

definition match_step :: "int list \<Rightarrow> nat list \<Rightarrow> int \<Rightarrow> nat \<Rightarrow> nat result" where
  "match_step pat pl token matched =
     rbind (fall_back matched pat pl token matched) (\<lambda>matched.
       if length pat \<le> matched then Inl IndexError
       else if token = pat ! matched then Inr (matched + 1) else Inr matched)"

definition build_prefix_lengths :: "int list \<Rightarrow> nat list result" where
  "build_prefix_lengths pat =
     rbind (rfold (\<lambda>index (pl, matched). rbind (match_step pat pl (pat ! index) matched)
                     (\<lambda>matched. Inr (pl[index := matched], matched)))
              [1..<length pat] (replicate (length pat) 0, 0))
       (\<lambda>(pl, matched). Inr pl)"

definition TokenSequenceMatcher :: "int list \<Rightarrow> matcher result" where
  "TokenSequenceMatcher pat =
     (if pat = [] then Inl (ValueError ''pattern must contain at least one token'')
      else rbind (build_prefix_lengths pat) (\<lambda>pl. Inr \<lparr>tm_pattern = pat, tm_prefix_lengths = pl\<rparr>))"

definition tm_len :: "matcher \<Rightarrow> nat" where
  "tm_len t = length (tm_pattern t)"

definition advance :: "matcher \<Rightarrow> nat \<Rightarrow> int \<Rightarrow> nat result" where
  "advance t matched token = match_step (tm_pattern t) (tm_prefix_lengths t) token matched"

section \<open>The counter of reasoning tokens\<close>

record reasoning =
  is_reasoning_over :: bool
  reasoning_tokens :: nat
  think_end_matcher :: "matcher option"
  think_end_match_len :: nat

definition new_reasoning :: reasoning where
  "new_reasoning = \<lparr>is_reasoning_over = False, reasoning_tokens = 0, think_end_matcher = None, think_end_match_len = 0\<rparr>"

fun advance_loop :: "matcher \<Rightarrow> nat \<Rightarrow> int list \<Rightarrow> nat \<Rightarrow> (nat option \<times> nat) result" where
  "advance_loop t position [] matched = Inr (None, matched)"
| "advance_loop t position (token # tokens) matched =
     rbind (advance t matched token) (\<lambda>matched.
       if matched = tm_len t then Inr (Some position, matched)
       else advance_loop t (position + 1) tokens matched)"

definition update_reasoning_tokens :: "int list \<Rightarrow> int list \<Rightarrow> reasoning \<Rightarrow> reasoning result" where
  "update_reasoning_tokens token_id think_end_ids r =
     (if is_reasoning_over r then Inr r
      else rbind (case think_end_matcher r of None \<Rightarrow> TokenSequenceMatcher think_end_ids | Some t \<Rightarrow> Inr t) (\<lambda>t.
        let r = r\<lparr>think_end_matcher := Some t\<rparr> in
        rbind (advance_loop t 0 token_id (think_end_match_len r)) (\<lambda>(found, matched).
          case found of
            Some position \<Rightarrow> Inr (r\<lparr>reasoning_tokens := reasoning_tokens r + position + 1, is_reasoning_over := True\<rparr>)
          | None \<Rightarrow> Inr (r\<lparr>think_end_match_len := matched, reasoning_tokens := reasoning_tokens r + length token_id\<rparr>))))"

section \<open>Longest matches\<close>

text \<open>\<open>k\<close> is a match in the text read so far if the first \<open>k\<close> tokens of the pattern end the text.\<close>

definition match_at_end :: "int list \<Rightarrow> int list \<Rightarrow> nat \<Rightarrow> bool" where
  "match_at_end pat ts k \<longleftrightarrow> k \<le> length pat \<and> suffix (take k pat) ts"

definition longest_match :: "int list \<Rightarrow> int list \<Rightarrow> nat \<Rightarrow> bool" where
  "longest_match pat ts m \<longleftrightarrow> match_at_end pat ts m \<and> (\<forall>k. match_at_end pat ts k \<longrightarrow> k \<le> m)"

lemma longest_match_unique: "longest_match pat ts m \<Longrightarrow> longest_match pat ts n \<Longrightarrow> m = n"
  unfolding longest_match_def by (meson le_antisym)

lemma match_at_end_0 [simp]: "match_at_end pat ts 0"
  by (simp add: match_at_end_def)

lemma match_at_end_snoc:
  "match_at_end pat (ts @ [t]) (Suc k) \<longleftrightarrow> k < length pat \<and> pat ! k = t \<and> match_at_end pat ts k"
proof (cases "k < length pat")
  case True
  then have "take (Suc k) pat = take k pat @ [pat ! k]" by (rule take_Suc_conv_app_nth)
  then show ?thesis using True by (auto simp: match_at_end_def)
qed (simp add: match_at_end_def)

lemma match_at_end_nest:
  assumes "match_at_end pat ts m" "k \<le> m"
  shows "match_at_end pat ts k \<longleftrightarrow> suffix (take k pat) (take m pat)"
proof -
  have s: "suffix (take m pat) ts" "m \<le> length pat" using assms(1) by (auto simp: match_at_end_def)
  show ?thesis
    using assms(2) s suffix_length_suffix [of "take k pat" ts "take m pat"] suffix_order.trans [of "take k pat" "take m pat" ts]
    by (auto simp: match_at_end_def)
qed

text \<open>The table is right up to \<open>n\<close>: entry \<open>i\<close> is the longest match in the first \<open>i + 1\<close> tokens of the pattern without the first.\<close>

definition table_ok :: "int list \<Rightarrow> nat list \<Rightarrow> nat \<Rightarrow> bool" where
  "table_ok pat pl n \<longleftrightarrow> length pl = length pat \<and> n \<le> length pat \<and> (\<forall>i<n. longest_match pat (drop 1 (take (i + 1) pat)) (pl ! i))"

lemma table_border:
  assumes "table_ok pat pl n" "0 < m" "m \<le> n"
  shows "pl ! (m - 1) < m" "suffix (take (pl ! (m - 1)) pat) (take m pat)"
    "k < m \<Longrightarrow> suffix (take k pat) (take m pat) \<Longrightarrow> k \<le> pl ! (m - 1)"
proof -
  have l: "longest_match pat (drop 1 (take m pat)) (pl ! (m - 1))" and m: "m \<le> length pat"
    using assms unfolding table_ok_def by (auto dest: spec [of _ "m - 1"])
  have ne: "take m pat = hd pat # drop 1 (take m pat)" using assms(2) m by (cases pat; cases m) auto
  have "length (take (pl ! (m - 1)) pat) \<le> length (drop 1 (take m pat))"
    using l unfolding longest_match_def match_at_end_def by (intro suffix_length_le) blast
  then show "pl ! (m - 1) < m" using m assms(2) l by (auto simp: longest_match_def match_at_end_def)
  show "suffix (take (pl ! (m - 1)) pat) (take m pat)"
    using l unfolding longest_match_def match_at_end_def by (subst ne) (auto intro: suffix_ConsI)
  assume k: "k < m" "suffix (take k pat) (take m pat)"
  then have "suffix (take k pat) (hd pat # drop 1 (take m pat))" using ne by simp
  moreover have "take k pat \<noteq> hd pat # drop 1 (take m pat)" using ne k(1) m by (metis length_take min.absorb2 nat_less_le order.strict_trans2)
  ultimately have "suffix (take k pat) (drop 1 (take m pat))" by (simp add: suffix_Cons)
  then show "k \<le> pl ! (m - 1)" using l k(1) m unfolding longest_match_def match_at_end_def by auto
qed

text \<open>Falling back finds the longest match that the token extends.\<close>

lemma fall_back_correct:
  assumes t: "table_ok pat pl n" "m \<le> n" "m < length pat" "match_at_end pat ts m"
    "\<And>k. m < k \<Longrightarrow> k < length pat \<Longrightarrow> match_at_end pat ts k \<Longrightarrow> pat ! k \<noteq> tok" "m \<le> fuel"
  shows "\<exists>j. fall_back fuel pat pl tok m = Inr j \<and> j < length pat \<and> match_at_end pat ts j \<and> (j = 0 \<or> pat ! j = tok) \<and>
    (\<forall>k. j < k \<longrightarrow> k < length pat \<longrightarrow> match_at_end pat ts k \<longrightarrow> pat ! k \<noteq> tok)"
  using t(2-)
proof (induction fuel arbitrary: m)
  case 0
  then show ?case by (auto simp: fall_back.simps)
next
  case (Suc fuel)
  show ?case
  proof (cases "m = 0 \<or> tok = pat ! m")
    case True
    then show ?thesis using Suc.prems by (intro exI [of _ m]) (auto simp: fall_back.simps)
  next
    case False
    let ?j = "pl ! (m - 1)"
    note b = table_border [OF t(1) _ Suc.prems(1)]
    have j: "?j < m" "suffix (take ?j pat) (take m pat)" using b False by simp_all
    have lp: "m - 1 < length pl" using t(1) Suc.prems(2) by (simp add: table_ok_def)
    have "match_at_end pat ts ?j" using match_at_end_nest [OF Suc.prems(3), of ?j] j by simp
    moreover have "pat ! k \<noteq> tok" if k: "?j < k" "k < length pat" "match_at_end pat ts k" for k
    proof (cases k m rule: linorder_cases)
      case less
      then show ?thesis using b(3) [of k] match_at_end_nest [OF Suc.prems(3), of k] k False by simp
    qed (use k False Suc.prems(4) in auto)
    ultimately have "\<exists>j. fall_back fuel pat pl tok ?j = Inr j \<and> j < length pat \<and> match_at_end pat ts j \<and> (j = 0 \<or> pat ! j = tok) \<and>
        (\<forall>k. j < k \<longrightarrow> k < length pat \<longrightarrow> match_at_end pat ts k \<longrightarrow> pat ! k \<noteq> tok)"
      using Suc.prems j by (intro Suc.IH) simp_all
    then show ?thesis using False lp Suc.prems(2) by (subst fall_back.simps) auto
  qed
qed

lemma match_step_correct:
  assumes t: "table_ok pat pl n" "m \<le> n" "m < length pat" and l: "longest_match pat ts m"
  shows "\<exists>m'. match_step pat pl tok m = Inr m' \<and> longest_match pat (ts @ [tok]) m'"
proof -
  have lm: "match_at_end pat ts m" "\<And>k. m < k \<Longrightarrow> k < length pat \<Longrightarrow> match_at_end pat ts k \<Longrightarrow> pat ! k \<noteq> tok"
    using l by (auto simp: longest_match_def)
  obtain j where j: "fall_back m pat pl tok m = Inr j" "j < length pat" "match_at_end pat ts j" "j = 0 \<or> pat ! j = tok"
    "\<And>k. j < k \<Longrightarrow> k < length pat \<Longrightarrow> match_at_end pat ts k \<Longrightarrow> pat ! k \<noteq> tok"
    using fall_back_correct [OF t lm order_refl] by blast
  let ?m = "if tok = pat ! j then j + 1 else j"
  have "longest_match pat (ts @ [tok]) ?m"
    unfolding longest_match_def
  proof (intro conjI allI impI)
    show "match_at_end pat (ts @ [tok]) ?m"
      using j(2-4) match_at_end_snoc [of pat ts tok j] by auto
    fix k assume k: "match_at_end pat (ts @ [tok]) k"
    show "k \<le> ?m"
    proof (cases k)
      case (Suc i)
      then have i: "i < length pat" "pat ! i = tok" "match_at_end pat ts i" using k match_at_end_snoc by blast+
      then have "i \<le> j" using j(5) [of i] by (cases "j < i") auto
      then show ?thesis using Suc i(2) by (cases "i = j") auto
    qed simp
  qed
  then show ?thesis using j(1,2) by (intro exI [of _ ?m]) (simp add: match_step_def)
qed

lemma table_ok_update:
  assumes "table_ok pat pl n" "n < length pat" "longest_match pat (drop 1 (take (n + 1) pat)) m"
  shows "table_ok pat (pl[n := m]) (n + 1)"
  using assms by (auto simp: table_ok_def less_Suc_eq nth_list_update)

lemma longest_match_proper:
  assumes "longest_match pat (drop 1 (take n pat)) m" "0 < n" "n \<le> length pat"
  shows "m < n"
proof -
  have "suffix (take m pat) (drop 1 (take n pat))" "m \<le> length pat" using assms(1) by (auto simp: longest_match_def match_at_end_def)
  from suffix_length_le [OF this(1)] this(2) show ?thesis using assms(2,3) by simp
qed

lemma build_loop_correct:
  assumes "table_ok pat pl n" "0 < n" "longest_match pat (drop 1 (take n pat)) m" "n \<le> length pat"
  shows "\<exists>pl' m'. rfold (\<lambda>index (pl, matched). rbind (match_step pat pl (pat ! index) matched)
            (\<lambda>matched. Inr (pl[index := matched], matched))) [n..<length pat] (pl, m) = Inr (pl', m') \<and> table_ok pat pl' (length pat)"
  using assms
proof (induction "length pat - n" arbitrary: n pl m)
  case 0
  then show ?case by simp
next
  case (Suc d)
  then have n: "n < length pat" by simp
  have m: "m < n" by (rule longest_match_proper [OF Suc.prems(3,2,4)])
  obtain m' where m': "match_step pat pl (pat ! n) m = Inr m'" "longest_match pat (drop 1 (take n pat) @ [pat ! n]) m'"
    using match_step_correct [OF Suc.prems(1) _ _ Suc.prems(3), of "pat ! n"] m n by auto
  have "drop 1 (take (n + 1) pat) = drop 1 (take n pat) @ [pat ! n]"
    using n Suc.prems(2) by (simp add: take_Suc_conv_app_nth)
  then have lm: "longest_match pat (drop 1 (take (n + 1) pat)) m'" using m'(2) by simp
  have "\<exists>pl'' m''. rfold (\<lambda>index (pl, matched). rbind (match_step pat pl (pat ! index) matched)
            (\<lambda>matched. Inr (pl[index := matched], matched))) [n + 1..<length pat] (pl[n := m'], m') = Inr (pl'', m'') \<and> table_ok pat pl'' (length pat)"
    using Suc.hyps(2) n lm table_ok_update [OF Suc.prems(1) n lm] by (intro Suc.hyps(1)) simp_all
  then show ?case using m'(1) n by (simp add: upt_conv_Cons)
qed

lemma matcher_table:
  assumes "pat \<noteq> []"
  obtains pl where "TokenSequenceMatcher pat = Inr \<lparr>tm_pattern = pat, tm_prefix_lengths = pl\<rparr>" "table_ok pat pl (length pat)"
proof -
  have "longest_match pat (drop 1 (take 1 pat)) 0"
    using assms by (cases pat) (auto simp: longest_match_def match_at_end_def)
  moreover from this have "table_ok pat (replicate (length pat) 0) 1" using assms by (cases pat) (auto simp: table_ok_def)
  moreover have "1 \<le> length pat" using assms by (cases pat) auto
  ultimately obtain pl' m' where "rfold (\<lambda>index (pl, matched). rbind (match_step pat pl (pat ! index) matched)
            (\<lambda>matched. Inr (pl[index := matched], matched))) [1..<length pat] (replicate (length pat) 0, 0) = Inr (pl', m')"
    "table_ok pat pl' (length pat)"
    using build_loop_correct [of pat "replicate (length pat) 0" 1 0] by auto
  then show ?thesis using that assms by (simp add: TokenSequenceMatcher_def build_prefix_lengths_def)
qed

section \<open>Counting\<close>

text \<open>The pattern ends the first \<open>n\<close> tokens of the stream, and no shorter part of it.\<close>

definition first_end :: "int list \<Rightarrow> int list \<Rightarrow> nat \<Rightarrow> bool" where
  "first_end pat ts n \<longleftrightarrow> n \<le> length ts \<and> suffix pat (take n ts) \<and> (\<forall>i<n. \<not> suffix pat (take i ts))"

definition no_end :: "int list \<Rightarrow> int list \<Rightarrow> bool" where
  "no_end pat ts \<longleftrightarrow> (\<forall>i\<le>length ts. \<not> suffix pat (take i ts))"

lemma longest_match_full: "longest_match pat ts m \<Longrightarrow> m = length pat \<longleftrightarrow> suffix pat ts"
  by (auto simp: longest_match_def match_at_end_def dest!: spec [of _ "length pat"])

lemma no_end_snoc: "no_end pat (ts @ [t]) \<longleftrightarrow> no_end pat ts \<and> \<not> suffix pat (ts @ [t])"
proof -
  have "(\<forall>i\<le>Suc (length ts). P i) \<longleftrightarrow> (\<forall>i\<le>length ts. P i) \<and> P (Suc (length ts))" for P
    using le_Suc_eq by auto
  then show ?thesis by (simp add: no_end_def)
qed

lemma no_end_suffix: "no_end pat ts \<Longrightarrow> \<not> suffix pat ts"
  unfolding no_end_def by (metis order_refl take_all)

lemma advance_loop_correct:
  assumes t: "table_ok pat pl (length pat)"
  shows "longest_match pat ts m \<Longrightarrow> no_end pat ts \<Longrightarrow>
    \<exists>found m'. advance_loop \<lparr>tm_pattern = pat, tm_prefix_lengths = pl\<rparr> p new m = Inr (found, m') \<and>
      (case found of None \<Rightarrow> no_end pat (ts @ new) \<and> longest_match pat (ts @ new) m'
       | Some q \<Rightarrow> p \<le> q \<and> first_end pat (ts @ new) (length ts + (q - p) + 1))"
proof (induction new arbitrary: ts m p)
  case (Cons x new)
  have "m \<noteq> length pat" using longest_match_full [OF Cons.prems(1)] no_end_suffix [OF Cons.prems(2)] by blast
  then have m: "m < length pat" using Cons.prems(1) by (simp add: longest_match_def match_at_end_def)
  obtain m' where m': "match_step pat pl x m = Inr m'" "longest_match pat (ts @ [x]) m'"
    using match_step_correct [OF t _ m Cons.prems(1), of x] m by auto
  show ?case
  proof (cases "m' = length pat")
    case True
    then have "suffix pat (ts @ [x])" using longest_match_full [OF m'(2)] by simp
    then have "first_end pat (ts @ x # new) (length ts + 1)"
      using Cons.prems(2) by (simp add: first_end_def no_end_def less_Suc_eq_le)
    then show ?thesis using True m'(1) by (simp add: advance_def tm_len_def)
  next
    case False
    then have n: "no_end pat (ts @ [x])" using longest_match_full [OF m'(2)] Cons.prems(2) by (simp add: no_end_snoc)
    obtain found m'' where r: "advance_loop \<lparr>tm_pattern = pat, tm_prefix_lengths = pl\<rparr> (p + 1) new m' = Inr (found, m'')"
      "case found of None \<Rightarrow> no_end pat ((ts @ [x]) @ new) \<and> longest_match pat ((ts @ [x]) @ new) m''
       | Some q \<Rightarrow> p + 1 \<le> q \<and> first_end pat ((ts @ [x]) @ new) (length (ts @ [x]) + (q - (p + 1)) + 1)"
      using Cons.IH [OF m'(2) n, of "p + 1"] by blast
    moreover have "length ts + (q - p) + 1 = length (ts @ [x]) + (q - (p + 1)) + 1" if "p + 1 \<le> q" for q using that by simp
    ultimately show ?thesis using False m'(1) by (intro exI [of _ found] exI [of _ m'']) (auto simp: advance_def tm_len_def split: option.splits)
  qed
qed simp

text \<open>The state of the counter after the stream \<open>ts\<close>.\<close>

definition counted :: "int list \<Rightarrow> int list \<Rightarrow> reasoning \<Rightarrow> bool" where
  "counted pat ts r \<longleftrightarrow>
     (if is_reasoning_over r then first_end pat ts (reasoning_tokens r)
      else no_end pat ts \<and> reasoning_tokens r = length ts \<and> longest_match pat ts (think_end_match_len r) \<and>
        (case think_end_matcher r of None \<Rightarrow> True
         | Some t \<Rightarrow> tm_pattern t = pat \<and> table_ok pat (tm_prefix_lengths t) (length pat)))"

lemma first_end_append: "first_end pat ts n \<Longrightarrow> first_end pat (ts @ us) n"
  by (auto simp: first_end_def)

lemma update_counted:
  assumes "pat \<noteq> []" "counted pat ts r"
  shows "\<exists>r'. update_reasoning_tokens new pat r = Inr r' \<and> counted pat (ts @ new) r'"
proof (cases "is_reasoning_over r")
  case True
  then show ?thesis using assms(2) first_end_append by (auto simp: update_reasoning_tokens_def counted_def)
next
  case False
  then have c: "no_end pat ts" "reasoning_tokens r = length ts" "longest_match pat ts (think_end_match_len r)"
    using assms(2) by (auto simp: counted_def)
  obtain pl where pl: "(case think_end_matcher r of None \<Rightarrow> TokenSequenceMatcher pat | Some t \<Rightarrow> Inr t) = Inr \<lparr>tm_pattern = pat, tm_prefix_lengths = pl\<rparr>"
    "table_ok pat pl (length pat)"
  proof (cases "think_end_matcher r")
    case None
    then show ?thesis using matcher_table [OF assms(1)] that by auto
  next
    case (Some t)
    then have "t = \<lparr>tm_pattern = pat, tm_prefix_lengths = tm_prefix_lengths t\<rparr>" "table_ok pat (tm_prefix_lengths t) (length pat)"
      using assms(2) False by (auto simp: counted_def)
    then show ?thesis using that Some by auto
  qed
  obtain found m where a: "advance_loop \<lparr>tm_pattern = pat, tm_prefix_lengths = pl\<rparr> 0 new (think_end_match_len r) = Inr (found, m)"
    "case found of None \<Rightarrow> no_end pat (ts @ new) \<and> longest_match pat (ts @ new) m
     | Some q \<Rightarrow> 0 \<le> q \<and> first_end pat (ts @ new) (length ts + (q - 0) + 1)"
    using advance_loop_correct [OF pl(2) c(3,1), of 0 new] by blast
  show ?thesis
    using False pl a c(2) by (cases found) (simp_all add: update_reasoning_tokens_def counted_def)
qed

lemma counted_steps:
  assumes "pat \<noteq> []" "counted pat ts r"
  shows "\<exists>r'. rfold (\<lambda>new. update_reasoning_tokens new pat) steps r = Inr r' \<and> counted pat (ts @ concat steps) r'"
  using assms(2)
proof (induction steps arbitrary: ts r)
  case (Cons new steps)
  obtain r1 where r1: "update_reasoning_tokens new pat r = Inr r1" "counted pat (ts @ new) r1"
    using update_counted [OF assms(1) Cons.prems] by blast
  then show ?case using Cons.IH [OF r1(2)] by simp
qed simp

lemma counted_new: "pat \<noteq> [] \<Longrightarrow> counted pat [] new_reasoning"
  by (auto simp: counted_def new_reasoning_def no_end_def longest_match_def match_at_end_def)

text \<open>
  Property C19: however a request's output is cut into decoding steps, the counter of reasoning tokens never fails and
  is exact. If the end-of-thinking pattern occurs in the output, the counter is the number of tokens up to
  and including its first occurrence and stays there; if not, it is the number of tokens so far.
\<close>

theorem reasoning_tokens_exact:
  assumes "think_end_ids \<noteq> []"
  shows "\<exists>r. rfold (\<lambda>new. update_reasoning_tokens new think_end_ids) steps new_reasoning = Inr r \<and>
     (is_reasoning_over r \<longrightarrow> first_end think_end_ids (concat steps) (reasoning_tokens r)) \<and>
     (\<not> is_reasoning_over r \<longrightarrow> no_end think_end_ids (concat steps) \<and> reasoning_tokens r = length (concat steps))"
  using counted_steps [OF assms counted_new [OF assms], of steps] by (auto simp: counted_def split: if_splits)

theorem reasoning_tokens_exact_witness:
  "\<exists>r. rfold (\<lambda>new. update_reasoning_tokens new [7, 7, 8]) [[1, 7], [7, 7, 8], [5]] new_reasoning = Inr r \<and> is_reasoning_over r \<and> reasoning_tokens r = 5"
proof -
  have "rfold (\<lambda>new. update_reasoning_tokens new [7, 7, 8]) [[1, 7], [7, 7, 8], [5]] new_reasoning =
      Inr \<lparr>is_reasoning_over = True, reasoning_tokens = 5,
        think_end_matcher = Some \<lparr>tm_pattern = [7, 7, 8], tm_prefix_lengths = [0, 1, 0]\<rparr>, think_end_match_len = 1\<rparr>"
    by code_simp
  then show ?thesis using reasoning_tokens_exact [of "[7, 7, 8]" "[[1, 7], [7, 7, 8], [5]]"] by auto
qed

text \<open>
  Property C20: the constructor of the matcher returns for every non-empty pattern with the table of longest borders, and then
  \<open>advance\<close> takes the length of the longest match in any text to that of the text with one more token: the
  inner loop ends, and no index is out of range before the pattern is complete.
\<close>

theorem advance_tracks_longest_match:
  assumes "pattern \<noteq> []"
  shows "\<exists>t. TokenSequenceMatcher pattern = Inr t \<and>
     (\<forall>ts m token. longest_match pattern ts m \<longrightarrow> m < length pattern \<longrightarrow>
        (\<exists>m'. advance t m token = Inr m' \<and> longest_match pattern (ts @ [token]) m'))"
proof -
  obtain pl where "TokenSequenceMatcher pattern = Inr \<lparr>tm_pattern = pattern, tm_prefix_lengths = pl\<rparr>" "table_ok pattern pl (length pattern)"
    by (rule matcher_table [OF assms])
  then show ?thesis using match_step_correct [of pattern pl "length pattern"] by (auto simp: advance_def)
qed

theorem advance_tracks_longest_match_witness:
  "\<exists>t m'. TokenSequenceMatcher [7, 7, 8] = Inr t \<and> advance t 2 7 = Inr m' \<and> longest_match [7, 7, 8] [1, 7, 7, 7] m'"
proof -
  have e: "[1, 7, 7, 7] = [1, 7, 7] @ [7 :: int]" by simp
  have "\<not> match_at_end [7, 7, 8] [1, 7, 7 :: int] 3" by (simp add: match_at_end_def suffix_def Cons_eq_append_conv)
  then have "k \<le> 2" if "match_at_end [7, 7, 8] [1, 7, 7 :: int] k" for k
    using that by (cases "k = 3") (auto simp: match_at_end_def)
  moreover have "match_at_end [7, 7, 8] [1, 7, 7 :: int] 2" by (simp add: match_at_end_def suffix_def)
  ultimately have "longest_match [7, 7, 8] [1, 7, 7 :: int] 2" by (simp add: longest_match_def)
  then show ?thesis using advance_tracks_longest_match [of "[7, 7, 8]"] unfolding e by fastforce
qed

end
