(* ===== verification/Req_State.thy ===== *)
theory Req_State
  imports Token_Matcher KV_Allocator "HOL-Library.Multiset"
begin

text \<open>
  The part of a request (\<^verbatim>\<open>Req\<close>, \<^verbatim>\<open>ReqKvInfo\<close> of \<^verbatim>\<open>managers/schedule_batch.py\<close>) that concerns its tokens and
  its KV memory, and the table \<^verbatim>\<open>ReqToTokenPool\<close> of \<^verbatim>\<open>mem_cache/memory_pool.py\<close> that maps the positions of a
  request to slots. Lengths are natural numbers. The operations of the auxiliary cache a pool can carry
  are an argument (\<open>aux_ops\<close>).
\<close>

section \<open>KV record of a request\<close>

record kv_info =
  req_pool_idx :: "nat option"
  cache_protected_len :: nat
  kv_committed_len :: nat
  kv_allocated_len :: nat
  swa_evict_floor :: nat
  swa_evicted_seqlen :: nat
  has_retraction_backup :: bool
  mamba_pool_idx :: "int option"
  mamba_ping_pong_track_buffer :: "int list option"
  mamba_next_track_idx :: "nat option"
  mamba_last_track_idx :: "nat option"
  mamba_last_track_seqlen :: "nat option"
  mamba_cow_src_index :: "int option"
  mamba_needs_clear :: bool

definition ReqKvInfo :: kv_info where
  "ReqKvInfo = \<lparr>req_pool_idx = None, cache_protected_len = 0, kv_committed_len = 0, kv_allocated_len = 0, swa_evict_floor = 0,
     swa_evicted_seqlen = 0, has_retraction_backup = False, mamba_pool_idx = None, mamba_ping_pong_track_buffer = None,
     mamba_next_track_idx = None, mamba_last_track_idx = None, mamba_last_track_seqlen = None, mamba_cow_src_index = None,
     mamba_needs_clear = False\<rparr>"

definition swa_dead_lo :: "nat \<Rightarrow> kv_info \<Rightarrow> nat" where
  "swa_dead_lo ps kv =
     (let lo = max (cache_protected_len kv) (swa_evict_floor kv)
      in if ps > 1 \<and> lo > cache_protected_len kv then nat (ceil_align (int lo) (int ps)) else lo)"

definition holds_kv :: "kv_info \<Rightarrow> bool" where
  "holds_kv kv = (req_pool_idx kv \<noteq> None)"

definition holds_mamba :: "kv_info \<Rightarrow> bool" where
  "holds_mamba kv = (mamba_pool_idx kv \<noteq> None)"

definition is_kv_released :: "kv_info \<Rightarrow> bool" where
  "is_kv_released kv = (kv_allocated_len kv = 0 \<and> swa_evicted_seqlen kv = 0)"

definition mark_kv_released :: "kv_info \<Rightarrow> kv_info" where
  "mark_kv_released kv = kv\<lparr>kv_allocated_len := 0, swa_evicted_seqlen := 0\<rparr>"

section \<open>Requests\<close>

text \<open>
  \<open>r_fill_aliases_origin\<close> records that the array of fill ids is the same object as the array of input ids.
\<close>

record req =
  r_origin_input_ids :: "int list"
  r_output_ids :: "int list"
  r_full_untruncated_fill_ids :: "int list"
  r_fill_aliases_origin :: bool
  r_extend_range :: "(nat \<times> nat) option"
  r_extra_key :: "string option"
  r_cache_salt :: "string option"
  r_priority :: "int option"
  r_return_logprob :: bool
  r_logprob_start_len :: int
  r_prefix_indices :: "int list"
  r_last_node :: "nat option"
  r_host_hit_length :: nat
  r_storage_hit_length :: nat
  r_storage_hit_start :: "nat option"
  r_skip_radix_cache_insert :: bool
  r_reasoning :: reasoning
  r_kv :: kv_info

definition seqlen :: "'a req_scheme \<Rightarrow> nat" where
  "seqlen r = length (r_origin_input_ids r) + length (r_output_ids r)"

definition fulfilled_storage_hit_len :: "nat \<Rightarrow> 'a req_scheme \<Rightarrow> nat" where
  "fulfilled_storage_hit_len prefix_len r =
     (case r_storage_hit_start r of
        None \<Rightarrow> min prefix_len (r_storage_hit_length r)
      | Some start \<Rightarrow> nat (max 0 (int (min prefix_len (start + r_storage_hit_length r)) - int start)))"

definition detach_kv :: "'a req_scheme \<Rightarrow> kv_info \<times> 'a req_scheme" where
  "detach_kv r = (r_kv r, r\<lparr>r_kv := ReqKvInfo\<rparr>)"

definition owned_kv_len :: "bool \<Rightarrow> 'a req_scheme \<Rightarrow> nat" where
  "owned_kv_len strip_thinking_cache r =
     (if strip_thinking_cache \<and> reasoning_tokens (r_reasoning r) > 0
      then min (kv_committed_len (r_kv r)) (length (r_origin_input_ids r))
      else kv_committed_len (r_kv r))"

definition set_extend_range :: "nat \<Rightarrow> nat \<Rightarrow> 'a req_scheme \<Rightarrow> 'a req_scheme" where
  "set_extend_range start en r = r\<lparr>r_extend_range := Some (start, en)\<rparr>"

definition get_fill_ids :: "'a req_scheme \<Rightarrow> int list result" where
  "get_fill_ids r =
     (case r_extend_range r of None \<Rightarrow> Inl AttributeError
      | Some (start, en) \<Rightarrow> Inr (take en (r_full_untruncated_fill_ids r)))"

definition refresh_fill_ids :: "'a req_scheme \<Rightarrow> 'a req_scheme" where
  "refresh_fill_ids r =
     (let n_have_output = int (length (r_full_untruncated_fill_ids r)) - int (length (r_origin_input_ids r))
      in if \<not> r_fill_aliases_origin r \<and> 0 \<le> n_have_output \<and> n_have_output \<le> int (length (r_output_ids r))
         then r\<lparr>r_full_untruncated_fill_ids := r_full_untruncated_fill_ids r @ drop (nat n_have_output) (r_output_ids r)\<rparr>
         else r\<lparr>r_full_untruncated_fill_ids := r_origin_input_ids r @ r_output_ids r, r_fill_aliases_origin := False\<rparr>)"

definition compute_max_prefix_len :: "nat \<Rightarrow> 'a req_scheme \<Rightarrow> nat" where
  "compute_max_prefix_len input_len r =
     (let max_prefix_len = int input_len - 1;
          max_prefix_len = (if r_return_logprob r \<and> r_logprob_start_len r \<ge> 0 then min max_prefix_len (r_logprob_start_len r) else max_prefix_len)
      in nat (max max_prefix_len 0))"

definition split_cached_prefix_by_tier :: "int \<Rightarrow> int \<Rightarrow> int \<Rightarrow> int option \<Rightarrow> bool \<Rightarrow> int \<times> int \<times> int" where
  "split_cached_prefix_by_tier prefix_len host_hit_len storage_hit_len storage_hit_start host_hit_is_storage =
     (let host_hit_len = min prefix_len host_hit_len;
          host_start = prefix_len - host_hit_len;
          (host, storage) =
            (case storage_hit_start of
               None \<Rightarrow> if host_hit_is_storage then (0, host_hit_len)
                       else let storage = min host_hit_len storage_hit_len in (host_hit_len - storage, storage)
             | Some start \<Rightarrow>
                 let storage_end = start + storage_hit_len;
                     storage = max 0 (min prefix_len storage_end - max 0 start);
                     storage_in_host = max 0 (min prefix_len storage_end - max host_start start)
                 in (if host_hit_is_storage then 0 else host_hit_len - storage_in_host, storage))
      in (prefix_len - host - storage, host, storage))"

definition compute_extend_logprob_start_len :: "int \<Rightarrow> int \<Rightarrow> int \<Rightarrow> int \<Rightarrow> int" where
  "compute_extend_logprob_start_len logprob_start_len prefix_len extend_len full_untruncated_fill_len =
     (let resolved_start = (if logprob_start_len = -1 then full_untruncated_fill_len else max logprob_start_len prefix_len)
      in min (resolved_start - prefix_len) extend_len)"

definition compute_chunked_req_next_prompt_token :: "'a req_scheme option \<Rightarrow> int \<Rightarrow> int option result" where
  "compute_chunked_req_next_prompt_token chunked_req vocab_size =
     (case chunked_req of
        None \<Rightarrow> Inr None
      | Some r \<Rightarrow>
          (case r_extend_range r of
             None \<Rightarrow> Inl AttributeError
           | Some (start, fill_len) \<Rightarrow>
               if fill_len \<ge> length (r_origin_input_ids r) then Inr None
               else if r_origin_input_ids r ! fill_len < vocab_size then Inr (Some (r_origin_input_ids r ! fill_len))
               else Inr None))"

section \<open>The table from requests to slots\<close>

record 'a aux_ops =
  aux_free :: "nat \<Rightarrow> 'a \<Rightarrow> 'a"
  aux_clear :: "'a \<Rightarrow> 'a"
  aux_reset_allocator :: "'a \<Rightarrow> 'a"
  aux_dense_capacity :: "'a \<Rightarrow> nat"
  aux_alloc_to_lengths :: "nat list \<Rightarrow> nat list \<Rightarrow> 'a \<Rightarrow> 'a result"

text \<open>\<open>rt_on_alloc_rows\<close> is the log of the calls of the registered hook.\<close>

record 'a req_pool =
  rt_size :: nat
  rt_max_context_len :: nat
  rt_req_to_token :: "int list list"
  rt_free_slots :: "nat list"
  rt_generation :: "nat list"
  rt_aux_cache :: "'a option"
  rt_on_alloc_rows :: "nat list list option"

definition ReqToTokenPool :: "nat \<Rightarrow> nat \<Rightarrow> 'a req_pool" where
  "ReqToTokenPool sz max_context_len =
     \<lparr>rt_size = sz, rt_max_context_len = max_context_len,
      rt_req_to_token = replicate (sz + 1) (replicate max_context_len 0),
      rt_free_slots = [1..<sz + 1], rt_generation = replicate (sz + 1) 0, rt_aux_cache = None, rt_on_alloc_rows = None\<rparr>"

text \<open>
  \<^verbatim>\<open>write((row, slice(a, b)), values)\<close>: the slice is clipped to the row; a single value is broadcast, any
  other length must agree.
\<close>

definition rt_write :: "nat \<Rightarrow> nat \<Rightarrow> nat \<Rightarrow> int list \<Rightarrow> 'a req_pool \<Rightarrow> 'a req_pool result" where
  "rt_write row a b vals p =
     (if length (rt_req_to_token p) \<le> row then Inl IndexError
      else let xs = rt_req_to_token p ! row; n = length (slice xs a b) in
        if length vals = n then Inr (p\<lparr>rt_req_to_token := (rt_req_to_token p)[row := take a xs @ vals @ drop (a + n) xs]\<rparr>)
        else if length vals = 1 then Inr (p\<lparr>rt_req_to_token := (rt_req_to_token p)[row := take a xs @ replicate n (vals ! 0) @ drop (a + n) xs]\<rparr>)
        else Inl (RuntimeError ''shape mismatch''))"

definition rt_row :: "nat \<Rightarrow> 'a req_pool \<Rightarrow> int list result" where
  "rt_row row p = (if length (rt_req_to_token p) \<le> row then Inl IndexError else Inr (rt_req_to_token p ! row))"

definition rt_available_size :: "'a req_pool \<Rightarrow> nat" where
  "rt_available_size p = length (rt_free_slots p)"

definition rt_alloc_rows :: "nat \<Rightarrow> 'a req_pool \<Rightarrow> nat list option \<times> 'a req_pool" where
  "rt_alloc_rows need_size p =
     (let n = length (rt_free_slots p) in
      if need_size > n then (None, p)
      else if need_size = 0 then (Some [], p)
      else let select_index = drop (n - need_size) (rt_free_slots p);
               p = p\<lparr>rt_free_slots := take (n - need_size) (rt_free_slots p),
                     rt_generation := map (\<lambda>(i, g). if i \<in> set select_index then g + 1 else g) (enumerate 0 (rt_generation p))\<rparr>;
               p = p\<lparr>rt_on_alloc_rows := map_option (\<lambda>calls. calls @ [select_index]) (rt_on_alloc_rows p)\<rparr>
           in (Some select_index, p))"

text \<open>The loop of \<^verbatim>\<open>alloc\<close> that hands the selected rows to the requests without one, in order.\<close>

fun bind_rows :: "nat list \<Rightarrow> kv_info list \<Rightarrow> kv_info list" where
  "bind_rows rows [] = []"
| "bind_rows rows (kv # kvs) =
     (if holds_kv kv then kv # bind_rows rows kvs
      else kv\<lparr>req_pool_idx := Some (hd rows)\<rparr> # bind_rows (tl rows) kvs)"

definition rt_alloc :: "kv_info list \<Rightarrow> 'a req_pool \<Rightarrow> (nat list option \<times> kv_info list \<times> 'a req_pool) result" where
  "rt_alloc kvs p =
     (let reusing = filter holds_kv kvs in
      rbind (py_assert (list_all (\<lambda>kv. kv_allocated_len kv > 0) reusing) ''a reused row must carry allocated KV'') (\<lambda>_.
        case rt_alloc_rows (length kvs - length reusing) p of
          (None, p) \<Rightarrow> Inr (None, kvs, p)
        | (Some select_index, p) \<Rightarrow>
            let kvs = bind_rows select_index kvs in Inr (Some (map (\<lambda>kv. the (req_pool_idx kv)) kvs), kvs, p)))"

definition rt_free_rows :: "'a aux_ops \<Rightarrow> nat list \<Rightarrow> 'a req_pool \<Rightarrow> 'a req_pool" where
  "rt_free_rows ops indices p =
     (let p = p\<lparr>rt_aux_cache := map_option (fold (aux_free ops) indices) (rt_aux_cache p)\<rparr>
      in p\<lparr>rt_free_slots := rt_free_slots p @ indices\<rparr>)"

definition rt_free :: "'a aux_ops \<Rightarrow> kv_info \<Rightarrow> 'a req_pool \<Rightarrow> (kv_info \<times> 'a req_pool) result" where
  "rt_free ops kv p =
     (case req_pool_idx kv of
        None \<Rightarrow> Inl (AssertionError ''request must have req_pool_idx'')
      | Some row \<Rightarrow> Inr (kv\<lparr>req_pool_idx := None\<rparr>, rt_free_rows ops [row] p))"

definition rt_clear :: "'a aux_ops \<Rightarrow> 'a req_pool \<Rightarrow> 'a req_pool" where
  "rt_clear ops p = p\<lparr>rt_free_slots := [1..<rt_size p + 1], rt_generation := replicate (length (rt_generation p)) 0,
     rt_aux_cache := map_option (aux_clear ops) (rt_aux_cache p)\<rparr>"

definition attach_aux_cache :: "'a \<Rightarrow> 'a req_pool \<Rightarrow> 'a req_pool result" where
  "attach_aux_cache aux_cache p = rbind (py_assert (rt_aux_cache p = None) ''aux cache'') (\<lambda>_. Inr (p\<lparr>rt_aux_cache := Some aux_cache\<rparr>))"

definition register_on_alloc_rows :: "'a req_pool \<Rightarrow> 'a req_pool result" where
  "register_on_alloc_rows p = rbind (py_assert (rt_on_alloc_rows p = None) ''hook'') (\<lambda>_. Inr (p\<lparr>rt_on_alloc_rows := Some []\<rparr>))"

definition reset_aux_cache_allocator :: "'a aux_ops \<Rightarrow> 'a req_pool \<Rightarrow> 'a req_pool" where
  "reset_aux_cache_allocator ops p = p\<lparr>rt_aux_cache := map_option (aux_reset_allocator ops) (rt_aux_cache p)\<rparr>"

definition schedulable_token_capacity :: "'a aux_ops \<Rightarrow> nat \<Rightarrow> 'a req_pool \<Rightarrow> nat" where
  "schedulable_token_capacity ops physical_capacity p =
     (case rt_aux_cache p of None \<Rightarrow> physical_capacity | Some c \<Rightarrow> aux_dense_capacity ops c)"

definition alloc_aux_to_lengths :: "'a aux_ops \<Rightarrow> nat list \<Rightarrow> nat list \<Rightarrow> 'a req_pool \<Rightarrow> 'a req_pool result" where
  "alloc_aux_to_lengths ops req_pool_indices_cpu target_seq_lens_cpu p =
     (case rt_aux_cache p of
        None \<Rightarrow> Inr p
      | Some c \<Rightarrow> rbind (aux_alloc_to_lengths ops req_pool_indices_cpu target_seq_lens_cpu c) (\<lambda>c. Inr (p\<lparr>rt_aux_cache := Some c\<rparr>)))"

section \<open>Rows have one owner\<close>

text \<open>
  The states a pool reaches, with the rows its clients own: rows are taken by \<open>alloc_rows\<close> and given back by
  \<open>free_rows\<close>, and the table is written at will.
\<close>

inductive pool_run :: "'a aux_ops \<Rightarrow> nat \<Rightarrow> nat list \<Rightarrow> 'a req_pool \<Rightarrow> bool" for ops and sz where
  pool_new: "pool_run ops sz [] (ReqToTokenPool sz n)"
| pool_alloc: "pool_run ops sz own p \<Longrightarrow> rt_alloc_rows n p = (Some rows, p') \<Longrightarrow> pool_run ops sz (rows @ own) p'"
| pool_free: "pool_run ops sz own p \<Longrightarrow> mset rows \<subseteq># mset own \<Longrightarrow> mset own' = mset own - mset rows \<Longrightarrow> pool_run ops sz own' (rt_free_rows ops rows p)"
| pool_write: "pool_run ops sz own p \<Longrightarrow> rt_write row a b xs p = Inr p' \<Longrightarrow> pool_run ops sz own p'"
| pool_clear: "pool_run ops sz own p \<Longrightarrow> pool_run ops sz [] (rt_clear ops p)"

lemma alloc_rows_Some:
  "rt_alloc_rows n p = (Some rows, p') \<Longrightarrow> rt_free_slots p = rt_free_slots p' @ rows \<and> length rows = n \<and> rt_size p' = rt_size p"
  by (auto simp: rt_alloc_rows_def Let_def split: if_splits)

lemma pool_run_inv:
  "pool_run ops sz own p \<Longrightarrow> mset (rt_free_slots p @ own) = mset [1..<sz + 1] \<and> rt_size p = sz"
proof (induction rule: pool_run.induct)
  case (pool_alloc own p n rows p')
  then show ?case using alloc_rows_Some [OF pool_alloc.hyps(2)] by (simp add: ac_simps)
next
  case (pool_free own p rows own')
  then show ?case by (simp add: rt_free_rows_def Let_def del: mset_upt)
next
  case (pool_write own p row a b xs p')
  then show ?case by (auto simp: rt_write_def Let_def split: if_splits)
qed (simp_all add: ReqToTokenPool_def rt_clear_def)

text \<open>
  Property C21: in every state a request pool can reach, the free rows and the rows its clients own are together exactly the rows
  1 to the size of the pool, each once: no row has two owners, none is lost, and the padding row 0 is never handed out.
\<close>

theorem rows_have_one_owner:
  assumes "pool_run ops sz own p"
  shows "mset (rt_free_slots p @ own) = mset [1..<sz + 1] \<and> distinct (rt_free_slots p @ own) \<and> 0 \<notin> set own"
proof -
  have m: "mset (rt_free_slots p @ own) = mset [1..<sz + 1]" using pool_run_inv [OF assms] by blast
  from mset_eq_imp_distinct_iff [OF m] mset_eq_setD [OF m] show ?thesis using m by auto
qed

definition no_aux :: "nat aux_ops" where
  "no_aux = \<lparr>aux_free = (\<lambda>_ c. c), aux_clear = id, aux_reset_allocator = id, aux_dense_capacity = id, aux_alloc_to_lengths = (\<lambda>_ _ c. Inr c)\<rparr>"

theorem rows_have_one_owner_witness: "mset (rt_free_slots (snd (rt_alloc_rows 2 (ReqToTokenPool 3 4 :: nat req_pool))) @ [2, 3]) = mset [1..<4]"
proof -
  have r: "rt_alloc_rows 2 (ReqToTokenPool 3 4 :: nat req_pool) = (Some [2, 3], snd (rt_alloc_rows 2 (ReqToTokenPool 3 4)))"
    by (simp add: rt_alloc_rows_def ReqToTokenPool_def Let_def upt_rec)
  then show ?thesis using rows_have_one_owner [OF pool_alloc [OF pool_new [of no_aux 3 4] r]] by simp
qed

section \<open>Binding rows to requests\<close>

lemma bind_rows_idx:
  assumes "length rows = length (filter (\<lambda>kv. \<not> holds_kv kv) kvs)"
  shows "list_all holds_kv (bind_rows rows kvs)" "length (bind_rows rows kvs) = length kvs"
    "mset (map (\<lambda>kv. the (req_pool_idx kv)) (bind_rows rows kvs)) =
      mset (map (\<lambda>kv. the (req_pool_idx kv)) (filter holds_kv kvs)) + mset rows"
    "i < length kvs \<Longrightarrow> holds_kv (kvs ! i) \<Longrightarrow> bind_rows rows kvs ! i = kvs ! i"
  using assms
proof (induction kvs arbitrary: rows i)
  case (Cons kv kvs)
  {
    case 1
    then show ?case using Cons.IH(1) [of rows] Cons.IH(1) [of "tl rows"] by (cases rows) (auto simp: holds_kv_def)
  next
    case 2
    then show ?case using Cons.IH(2) [of rows] Cons.IH(2) [of "tl rows"] by (cases rows) (auto split: if_splits)
  next
    case 3
    then show ?case using Cons.IH(3) [of rows] Cons.IH(3) [of "tl rows"] by (cases rows) (auto simp: holds_kv_def)
  next
    case 4
    then show ?case using Cons.IH(4) [of _ rows] Cons.IH(4) [of _ "tl rows"] by (cases rows; cases i) (auto split: if_splits)
  }
qed simp_all

text \<open>
  \<open>alloc\<close> gives rows to a batch of requests. It fails only when a request that already has a row carries no
  allocated KV; with too few free rows it returns nothing and changes nothing; else every request ends
  with a row, requests that had one keep it, and the rows given out are the last free ones.
\<close>

theorem alloc_binds_rows:
  assumes "\<forall>kv\<in>set kvs. holds_kv kv \<longrightarrow> 0 < kv_allocated_len kv"
  shows "\<exists>res kvs' p'. rt_alloc kvs p = Inr (res, kvs', p') \<and>
     (if rt_available_size p < length (filter (\<lambda>kv. \<not> holds_kv kv) kvs) then res = None \<and> kvs' = kvs \<and> p' = p
      else \<exists>rows. rt_free_slots p = rt_free_slots p' @ rows \<and> res = Some (map (\<lambda>kv. the (req_pool_idx kv)) kvs') \<and>
        list_all holds_kv kvs' \<and> length kvs' = length kvs \<and> (\<forall>i<length kvs. holds_kv (kvs ! i) \<longrightarrow> kvs' ! i = kvs ! i) \<and>
        mset (the res) = mset (map (\<lambda>kv. the (req_pool_idx kv)) (filter holds_kv kvs)) + mset rows)"
proof -
  let ?n = "length (filter (\<lambda>kv. \<not> holds_kv kv) kvs)"
  have n: "length kvs - length (filter holds_kv kvs) = ?n" using sum_length_filter_compl [of holds_kv kvs] by simp
  have a: "list_all (\<lambda>kv. kv_allocated_len kv > 0) (filter holds_kv kvs)" using assms by (auto simp: list_all_iff)
  show ?thesis
  proof (cases "rt_available_size p < ?n")
    case True
    then show ?thesis using a n by (simp add: rt_alloc_def rt_alloc_rows_def rt_available_size_def)
  next
    case False
    then obtain rows p' where r: "rt_alloc_rows ?n p = (Some rows, p')"
      by (cases "?n = 0") (simp_all add: rt_alloc_rows_def rt_available_size_def Let_def)
    note s = alloc_rows_Some [OF r] and b = bind_rows_idx [of rows kvs]
    show ?thesis
      using False a n r s b by (intro exI [of _ "Some (map (\<lambda>kv. the (req_pool_idx kv)) (bind_rows rows kvs))"]
          exI [of _ "bind_rows rows kvs"] exI [of _ p']) (auto simp: rt_alloc_def Let_def intro!: exI [of _ rows])
  qed
qed

theorem alloc_binds_rows_witness:
  "\<exists>res kvs' p'. rt_alloc [ReqKvInfo, ReqKvInfo\<lparr>req_pool_idx := Some 1, kv_allocated_len := 3\<rparr>]
      ((ReqToTokenPool 3 4 :: nat req_pool)\<lparr>rt_free_slots := [2, 3]\<rparr>) = Inr (res, kvs', p') \<and> list_all holds_kv kvs'"
  using alloc_binds_rows [of "[ReqKvInfo, ReqKvInfo\<lparr>req_pool_idx := Some 1, kv_allocated_len := 3\<rparr>]"
      "(ReqToTokenPool 3 4 :: nat req_pool)\<lparr>rt_free_slots := [2, 3]\<rparr>"]
  by (auto simp: ReqKvInfo_def holds_kv_def rt_available_size_def)

section \<open>Fill ids and cached prefixes\<close>

text \<open>
  \<open>_refresh_fill_ids\<close> makes the fill ids equal to the input followed by the output. It may append only the
  new output tokens: this is enough whenever the fill ids that are there are a prefix of input and output (they are not
  longer than both), and in every other case it rebuilds them, without ever writing into the input ids.
\<close>

theorem refresh_fill_ids_exact:
  assumes "prefix (r_full_untruncated_fill_ids r) (r_origin_input_ids r @ r_output_ids r) \<or>
     length (r_full_untruncated_fill_ids r) < length (r_origin_input_ids r) \<or>
     seqlen r < length (r_full_untruncated_fill_ids r) \<or> r_fill_aliases_origin r"
  shows "r_full_untruncated_fill_ids (refresh_fill_ids r) = r_origin_input_ids r @ r_output_ids r \<and>
     \<not> r_fill_aliases_origin (refresh_fill_ids r) \<and> r_origin_input_ids (refresh_fill_ids r) = r_origin_input_ids r"
proof (cases "\<not> r_fill_aliases_origin r \<and> length (r_origin_input_ids r) \<le> length (r_full_untruncated_fill_ids r) \<and>
    length (r_full_untruncated_fill_ids r) \<le> seqlen r")
  case True
  then have "prefix (r_full_untruncated_fill_ids r) (r_origin_input_ids r @ r_output_ids r)" using assms by auto
  then obtain zs where z: "r_origin_input_ids r @ r_output_ids r = r_full_untruncated_fill_ids r @ zs" by (rule prefixE)
  from arg_cong [OF z, of "drop (length (r_full_untruncated_fill_ids r))"]
  have "drop (length (r_full_untruncated_fill_ids r) - length (r_origin_input_ids r)) (r_output_ids r) = zs" using True by simp
  moreover have "nat (int (length (r_full_untruncated_fill_ids r)) - int (length (r_origin_input_ids r))) =
      length (r_full_untruncated_fill_ids r) - length (r_origin_input_ids r)" by simp
  ultimately show ?thesis using True z by (simp add: refresh_fill_ids_def Let_def seqlen_def)
next
  case False
  then have "\<not> (\<not> r_fill_aliases_origin r \<and> 0 \<le> int (length (r_full_untruncated_fill_ids r)) - int (length (r_origin_input_ids r)) \<and>
      int (length (r_full_untruncated_fill_ids r)) - int (length (r_origin_input_ids r)) \<le> int (length (r_output_ids r)))"
    by (auto simp: seqlen_def)
  then show ?thesis by (auto simp: refresh_fill_ids_def Let_def)
qed

definition demo_req :: req where
  "demo_req = \<lparr>r_origin_input_ids = [5, 6], r_output_ids = [7, 8], r_full_untruncated_fill_ids = [5, 6, 7], r_fill_aliases_origin = False,
     r_extend_range = None, r_extra_key = None, r_cache_salt = None, r_priority = None, r_return_logprob = False, r_logprob_start_len = -1,
     r_prefix_indices = [], r_last_node = None, r_host_hit_length = 0, r_storage_hit_length = 0, r_storage_hit_start = None,
     r_skip_radix_cache_insert = False, r_reasoning = new_reasoning, r_kv = ReqKvInfo\<rparr>"

theorem refresh_fill_ids_exact_witness: "r_full_untruncated_fill_ids (refresh_fill_ids demo_req) = [5, 6, 7, 8]"
  using refresh_fill_ids_exact [of demo_req] by (simp add: demo_req_def)

text \<open>
  \<open>split_cached_prefix_by_tier\<close> divides the cached prefix into device, host and storage tokens: three
  non-negative numbers with the prefix length as their sum, for every combination of hit lengths and storage span.
\<close>

theorem cached_prefix_split_is_partition:
  assumes "0 \<le> prefix_len" "0 \<le> host_hit_len" "0 \<le> storage_hit_len"
    "split_cached_prefix_by_tier prefix_len host_hit_len storage_hit_len storage_hit_start host_hit_is_storage = (device, host, storage)"
  shows "device + host + storage = prefix_len \<and> 0 \<le> device \<and> 0 \<le> host \<and> 0 \<le> storage"
  using assms by (cases storage_hit_start; cases host_hit_is_storage)
    (auto simp: split_cached_prefix_by_tier_def Let_def min_def max_def split: if_splits)

theorem cached_prefix_split_is_partition_witness:
  "split_cached_prefix_by_tier 10 6 4 (Some 2) False = (2, 4, 4) \<and> (2 :: int) + 4 + 4 = 10 \<and> (0 :: int) \<le> 4"
proof -
  have "split_cached_prefix_by_tier 10 6 4 (Some 2) False = (2, 4, 4)" by code_simp
  then show ?thesis using cached_prefix_split_is_partition [of 10 6 4 "Some 2" False 2 4 4] by auto
qed

end
