(* ===== verification/KV_Row.thy ===== *)
theory KV_Row
  imports Radix_Theorems Req_State
begin

text \<open>
  What the code does with the KV row of a request outside the tree (\<^verbatim>\<open>mem_cache/common.py\<close>, \<^verbatim>\<open>base_prefix_cache.py\<close>,
  \<^verbatim>\<open>chunk_cache.py\<close>): freeing segments of a row, freeing slots that left a sliding window, eviction on demand, the
  chunk cache that keeps nothing, and the release of a finished request.
\<close>

section \<open>Segments of a row\<close>

definition kv_to_page_indices :: "int list \<Rightarrow> nat \<Rightarrow> int list" where
  "kv_to_page_indices kv_indices ps = map (\<lambda>x. x div int ps) (stride ps kv_indices)"

definition kv_to_page_num :: "nat \<Rightarrow> nat \<Rightarrow> nat" where
  "kv_to_page_num num_kv_indices ps = (num_kv_indices + ps - 1) div ps"

definition page_align_floor :: "nat \<Rightarrow> nat \<Rightarrow> nat" where
  "page_align_floor len ps = (len div ps) * ps"

text \<open>\<open>merged\<close> is built in reverse, its head is the last range.\<close>

fun coalesce_loop :: "(nat \<times> nat) list \<Rightarrow> (nat \<times> nat) list \<Rightarrow> (nat \<times> nat) list" where
  "coalesce_loop merged [] = rev merged"
| "coalesce_loop merged ((start, en) # ranges) =
     (case merged of
        (s, e) # rest \<Rightarrow> if start = e then coalesce_loop ((s, en) # rest) ranges else coalesce_loop ((start, en) # merged) ranges
      | [] \<Rightarrow> coalesce_loop [(start, en)] ranges)"

definition coalesce_ranges :: "(nat \<times> nat) list \<Rightarrow> (nat \<times> nat) list" where
  "coalesce_ranges ranges = coalesce_loop [] ranges"

text \<open>\<^verbatim>\<open>free_full_segments\<close> of the base allocator: a pool without a sliding-window peer frees the slots themselves.\<close>

fun ka_free :: "int list \<Rightarrow> kv_alloc \<Rightarrow> kv_alloc result" where
  "ka_free xs (TokenA a) = Inr (TokenA (tok_free xs a))"
| "ka_free xs (PagedA a) = rbind (pag_free xs a) (\<lambda>a. Inr (PagedA a))"

definition ka_free_full :: "int list \<Rightarrow> kv_alloc \<Rightarrow> kv_alloc result" where
  "ka_free_full xs a = ka_free xs a"

definition ka_free_full_segment :: "int list \<Rightarrow> nat \<Rightarrow> kv_alloc \<Rightarrow> kv_alloc result" where
  "ka_free_full_segment xs start_pos a =
     rbind (py_assert (start_pos mod ka_page_size a = 0) ''segment start is not page-aligned'') (\<lambda>_. ka_free_full xs a)"

definition ka_free_full_segments :: "(int list \<times> nat) list \<Rightarrow> kv_alloc \<Rightarrow> kv_alloc result" where
  "ka_free_full_segments segments a =
     rbind (page_disjoint (ka_page_size a) None segments) (\<lambda>segs.
       rfold (\<lambda>(xs, start_pos). ka_free_full_segment xs start_pos) segs a)"

text \<open>The loop that cuts every segment at the eviction floor.\<close>

fun split_at_floor :: "nat \<Rightarrow> (int list \<times> nat) list \<Rightarrow> (int list \<times> nat) list \<times> (int list \<times> nat) list" where
  "split_at_floor floor [] = ([], [])"
| "split_at_floor floor ((kv_indices, start_pos) # segments) =
     (let (dead, alive) = split_at_floor floor segments; n = length kv_indices; num_dead = min (floor - start_pos) n
      in if n = 0 then (dead, alive)
         else ((if num_dead > 0 then (take num_dead kv_indices, start_pos) # dead else dead),
               (if num_dead < n then (drop num_dead kv_indices, start_pos + num_dead) # alive else alive)))"

definition free_kv_row_segments :: "(int list \<times> nat) list \<Rightarrow> nat \<Rightarrow> kv_alloc \<Rightarrow> kv_alloc result" where
  "free_kv_row_segments segments swa_floor a =
     (let (swa_dead, swa_alive) = split_at_floor swa_floor segments in
      rbind (if swa_dead \<noteq> [] \<and> swa_alive \<noteq> []
             then py_assert (swa_floor mod ka_page_size a = 0) ''SWA eviction floor splits a page'' else Inr ()) (\<lambda>_.
      rbind (if swa_dead \<noteq> [] then ka_free_full_segments swa_dead a else Inr a) (\<lambda>a.
        if swa_alive \<noteq> [] then ka_free_segments swa_alive a else Inr a)))"

definition free_kv_row :: "kv_info \<Rightarrow> (nat \<times> nat) list \<Rightarrow> 'a req_pool \<Rightarrow> kv_alloc \<Rightarrow> kv_alloc result" where
  "free_kv_row kv ranges p a =
     (case req_pool_idx kv of
        None \<Rightarrow> Inl TypeError
      | Some i \<Rightarrow> rbind (rt_row i p) (\<lambda>row.
          free_kv_row_segments (map (\<lambda>(start, en). (slice row start en, start)) (coalesce_ranges ranges)) (swa_evicted_seqlen kv) a))"

section \<open>Slots outside a sliding window\<close>

text \<open>
  \<open>free_swa\<close> stands for \<^verbatim>\<open>free_swa_segment\<close> of the allocator, whose state is \<open>'s\<close>; only allocators with a
  sliding-window pool have it.
\<close>

definition free_swa_out_of_window_slots ::
  "(int list \<Rightarrow> nat \<Rightarrow> 's \<Rightarrow> 's result) \<Rightarrow> nat \<Rightarrow> nat \<Rightarrow> nat \<Rightarrow> 'a req_pool \<Rightarrow> bool \<Rightarrow> nat option \<Rightarrow> kv_info \<Rightarrow> 's \<Rightarrow> (kv_info \<times> 's) result" where
  "free_swa_out_of_window_slots free_swa pre_len sliding_window_size ps p is_chunk_cache retain_floor kv s =
     (case req_pool_idx kv of
        None \<Rightarrow> Inr (kv, s)
      | Some i \<Rightarrow>
          rbind (py_assert (cache_protected_len kv mod ps = 0) ''cache_protected_len must be page aligned'') (\<lambda>_.
            let kv = kv\<lparr>swa_evicted_seqlen := max (swa_evicted_seqlen kv) (swa_dead_lo ps kv)\<rparr>;
                evict_threshold = (if is_chunk_cache then int pre_len - int sliding_window_size
                                   else int pre_len - int (max sliding_window_size ps));
                evict_threshold = (case retain_floor of Some fl \<Rightarrow> if \<not> is_chunk_cache then min evict_threshold (int fl) else evict_threshold
                                   | None \<Rightarrow> evict_threshold);
                new_len = nat (max (int (swa_evicted_seqlen kv)) evict_threshold);
                new_len = (if ps > 1 then (new_len div ps) * ps else new_len)
            in if new_len > swa_evicted_seqlen kv
               then rbind (rt_row i p) (\<lambda>row.
                 rbind (free_swa (slice row (swa_evicted_seqlen kv) new_len) (swa_evicted_seqlen kv) s) (\<lambda>s.
                   Inr (kv\<lparr>swa_evicted_seqlen := new_len\<rparr>, s)))
               else Inr (kv, s)))"

section \<open>Eviction on demand\<close>

text \<open>
  \<open>shard_size\<close> is \<^verbatim>\<open>page_interleave_shard_size\<close> of the allocator: 1 for the token and the paged allocator. The loop is
  bounded by the number of evictable tokens.
\<close>

fun evict_until_loop :: "nat \<Rightarrow> nat \<Rightarrow> cache \<Rightarrow> cache result" where
  "evict_until_loop fuel num_tokens s =
     (let available_size = ka_available_size (rc_alloc s) in
      if available_size \<ge> num_tokens then Inr s
      else case fuel of 0 \<Rightarrow> Inl OutOfFuel
        | Suc fuel \<Rightarrow>
            let shortfall = num_tokens - available_size in
            rbind (evict (int (max shortfall (ka_page_size (rc_alloc s)))) s) (\<lambda>(num_tokens_evicted, s).
              if num_tokens_evicted = 0 then Inr s else evict_until_loop fuel num_tokens s))"

declare evict_until_loop.simps [simp del]

definition evict_until_allocatable :: "nat \<Rightarrow> nat \<Rightarrow> cache \<Rightarrow> cache result" where
  "evict_until_allocatable shard_size num_tokens s =
     (if shard_size \<le> 1 then Inr s else evict_until_loop (nat (rc_evictable s) + 1) num_tokens s)"

definition evict_to_free_tokens :: "nat \<Rightarrow> nat \<Rightarrow> cache \<Rightarrow> cache result" where
  "evict_to_free_tokens shard_size num_tokens s =
     (let shortfall = int num_tokens - int (ka_available_size (rc_alloc s)) in
      if shortfall > 0 then rbind (evict shortfall s) (\<lambda>(n, s). evict_until_allocatable shard_size num_tokens s) else Inr s)"

definition check_decode_capacity :: "nat \<Rightarrow> nat \<Rightarrow> cache \<Rightarrow> (bool \<times> cache) result" where
  "check_decode_capacity shard_size num_tokens s =
     rbind (evict_to_free_tokens shard_size num_tokens s) (\<lambda>s. Inr (ka_available_size (rc_alloc s) \<ge> num_tokens, s))"

section \<open>The chunk cache\<close>

record 'a chunk_cache =
  cc_page_size :: nat
  cc_alloc :: kv_alloc
  cc_pool :: "'a req_pool"

definition chunk_match_prefix :: "radix_key \<Rightarrow> int list \<times> nat option" where
  "chunk_match_prefix key = ([], None)"

definition chunk_insert :: "radix_key \<Rightarrow> nat" where
  "chunk_insert key = 0"

definition chunk_cache_finished_req :: "'b req_scheme \<Rightarrow> nat \<Rightarrow> 'a chunk_cache \<Rightarrow> 'a chunk_cache result" where
  "chunk_cache_finished_req r owned_len c =
     rbind (free_kv_row (r_kv r) [(cache_protected_len (r_kv r), owned_len)] (cc_pool c) (cc_alloc c)) (\<lambda>a. Inr (c\<lparr>cc_alloc := a\<rparr>))"

definition chunk_cache_unfinished_req :: "'b req_scheme \<Rightarrow> 'a chunk_cache \<Rightarrow> 'b req_scheme result" where
  "chunk_cache_unfinished_req r c =
     (case (req_pool_idx (r_kv r), r_extend_range r) of
        (Some i, Some (start, en)) \<Rightarrow> rbind (rt_row i (cc_pool c)) (\<lambda>row. Inr (r\<lparr>r_prefix_indices := take en row\<rparr>))
      | (_, None) \<Rightarrow> Inl AttributeError
      | (None, _) \<Rightarrow> Inl TypeError)"

definition chunk_evict :: "int \<Rightarrow> int" where
  "chunk_evict num_tokens = 0"

text \<open>\<^verbatim>\<open>PureSWAChunkCache.cache_finished_req\<close>: the range that window eviction freed is skipped.\<close>

definition pure_swa_cache_finished_req :: "'b req_scheme \<Rightarrow> nat \<Rightarrow> 'a chunk_cache \<Rightarrow> 'a chunk_cache result" where
  "pure_swa_cache_finished_req r owned_len c =
     (case req_pool_idx (r_kv r) of
        None \<Rightarrow> Inl TypeError
      | Some i \<Rightarrow> rbind (rt_row i (cc_pool c)) (\<lambda>row.
          let kv_indices = take owned_len row;
              protected_len = cache_protected_len (r_kv r);
              evict_floor = swa_evict_floor (r_kv r);
              evicted_seqlen = swa_evicted_seqlen (r_kv r)
          in if evicted_seqlen > evict_floor
             then let parts = (if evict_floor > protected_len then [slice kv_indices protected_len evict_floor] else []) @
                              (if evicted_seqlen < owned_len then [slice kv_indices (max evicted_seqlen protected_len) owned_len] else [])
                  in if parts \<noteq> [] then rbind (ka_free (concat parts) (cc_alloc c)) (\<lambda>a. Inr (c\<lparr>cc_alloc := a\<rparr>)) else Inr c
             else rbind (ka_free (drop protected_len kv_indices) (cc_alloc c)) (\<lambda>a. Inr (c\<lparr>cc_alloc := a\<rparr>))))"

end
