(* ===== verification/Req_Cache.thy ===== *)
theory Req_Cache
  imports KV_Row
begin

text \<open>
  The request side of the radix cache (\<^verbatim>\<open>RadixCache.cache_finished_req\<close>, \<^verbatim>\<open>cache_unfinished_req\<close>) and the release of a
  request's KV memory (\<^verbatim>\<open>release_kv_cache\<close> of \<^verbatim>\<open>common.py\<close>) over the cache and the request table together. The
  pool is the plain request table, so no recurrent state is attached to a request.
\<close>

section \<open>Model\<close>

record 'a radix_world =
  rw_cache :: cache
  rw_pool :: "'a req_pool"

definition req_priority :: "'b req_scheme \<Rightarrow> int" where
  "req_priority r = (case r_priority r of None \<Rightarrow> 0 | Some p \<Rightarrow> p)"

definition req_key :: "'b req_scheme \<Rightarrow> int list \<Rightarrow> cache \<Rightarrow> radix_key result" where
  "req_key r toks s = page_aligned (RadixKey toks (r_extra_key r) (rc_eagle s) None (r_cache_salt r)) (rc_page_size s)"

definition req_row :: "'b req_scheme \<Rightarrow> 'a radix_world \<Rightarrow> int list result" where
  "req_row r w = (case req_pool_idx (r_kv r) of None \<Rightarrow> Inl TypeError | Some i \<Rightarrow> rt_row i (rw_pool w))"

definition free_row_segment :: "int list \<Rightarrow> nat \<Rightarrow> cache \<Rightarrow> cache result" where
  "free_row_segment xs start_pos s = rbind (ka_free_segment xs start_pos (rc_alloc s)) (\<lambda>a. Inr (s\<lparr>rc_alloc := a\<rparr>))"

definition unlock_last_node :: "'b req_scheme \<Rightarrow> cache \<Rightarrow> cache result" where
  "unlock_last_node r s =
     (case r_last_node r of None \<Rightarrow> Inr s | Some i \<Rightarrow> rbind (dec_lock_ref i s) (\<lambda>(d, s). Inr s))"

definition cache_finished_req :: "'b req_scheme \<Rightarrow> bool \<Rightarrow> nat \<Rightarrow> 'a radix_world \<Rightarrow> 'a radix_world result" where
  "cache_finished_req r is_insert owned_len w =
     (let s = rw_cache w; protected = cache_protected_len (r_kv r) in
      if rc_disable s
      then rbind (req_row r w) (\<lambda>row. rbind (free_row_segment (slice row protected owned_len) protected s) (\<lambda>s. Inr (w\<lparr>rw_cache := s\<rparr>)))
      else if \<not> is_insert
      then rbind (req_row r w) (\<lambda>row.
             rbind (free_row_segment (slice row protected owned_len) protected s) (\<lambda>s.
             rbind (unlock_last_node r s) (\<lambda>s. Inr (w\<lparr>rw_cache := s\<rparr>))))
      else
        let toks = take owned_len (r_origin_input_ids r @ r_output_ids r) in
        rbind (req_row r w) (\<lambda>row.
          let kv_indices = take owned_len row in
          rbind (req_key r toks s) (\<lambda>radix_key.
            let key_len = rk_len radix_key; vals = take key_len kv_indices; priority = req_priority r in
            rbind (insert_key radix_key (Some vals) (Some priority) False s) (\<lambda>((prefix_len, _), s).
            rbind (req_key r (take (length (r_origin_input_ids r)) toks) s) (\<lambda>prompt_key.
            rbind (if 0 < rk_len prompt_key \<and> rk_len prompt_key < key_len
                   then rbind (insert_key prompt_key (Some (take (rk_len prompt_key) vals)) (Some (priority + 1)) True s) (\<lambda>(_, s). Inr s)
                   else Inr s) (\<lambda>s.
            rbind (ka_free_segments [(slice kv_indices protected prefix_len, protected), (drop key_len kv_indices, key_len)] (rc_alloc s)) (\<lambda>a.
            rbind (unlock_last_node r (s\<lparr>rc_alloc := a\<rparr>)) (\<lambda>s. Inr (w\<lparr>rw_cache := s\<rparr>)))))))))"

definition cache_unfinished_req :: "'b req_scheme \<Rightarrow> bool \<Rightarrow> 'a radix_world \<Rightarrow> ('b req_scheme \<times> 'a radix_world) result" where
  "cache_unfinished_req r chunked w =
     (let s = rw_cache w; protected = cache_protected_len (r_kv r) in
      if rc_disable s then Inr (r, w)
      else
        rbind (get_fill_ids r) (\<lambda>toks.
        rbind (req_row r w) (\<lambda>row.
          let kv_indices = take (length toks) row in
          rbind (req_key r toks s) (\<lambda>radix_key.
            let vals = take (rk_len radix_key) kv_indices in
            rbind (insert_key radix_key (Some vals) (Some (req_priority r)) chunked s) (\<lambda>((new_prefix_len, _), s).
            rbind (free_row_segment (slice kv_indices protected new_prefix_len) protected s) (\<lambda>s.
            rbind (match_prefix radix_key s) (\<lambda>(match_result, s).
              let new_indices = mr_indices match_result; new_last_node = mr_node match_result in
              rbind (py_assert (length new_indices = rk_len radix_key) ''len(new_indices) == len(radix_key)'') (\<lambda>_.
              rbind (rt_write (the (req_pool_idx (r_kv r))) protected (length new_indices) (drop protected new_indices) (rw_pool w)) (\<lambda>p.
                let r1 = r\<lparr>r_kv := (r_kv r)\<lparr>cache_protected_len := length new_indices\<rparr>\<rparr> in
                rbind (case r_last_node r of None \<Rightarrow> Inl AttributeError | Some i \<Rightarrow> dec_lock_ref i s) (\<lambda>(_, s).
                rbind (inc_lock_ref new_last_node s) (\<lambda>(_, s).
                  let row' = rt_req_to_token p ! the (req_pool_idx (r_kv r));
                      kv_indices = take (length toks) row';
                      prefix_indices = (if length new_indices < length kv_indices
                                        then new_indices @ drop (length new_indices) kv_indices else new_indices)
                  in Inr (r1\<lparr>r_prefix_indices := prefix_indices, r_last_node := Some new_last_node\<rparr>,
                          w\<lparr>rw_cache := s, rw_pool := p\<rparr>))))))))))))"

definition maybe_cache_unfinished_req :: "'b req_scheme \<Rightarrow> bool \<Rightarrow> 'a radix_world \<Rightarrow> ('b req_scheme \<times> 'a radix_world) result" where
  "maybe_cache_unfinished_req r chunked w =
     (if r_skip_radix_cache_insert r then Inr (r, w) else cache_unfinished_req r chunked w)"

text \<open>The settings the release reads: whether a speculative algorithm is set, and whether thinking output is stripped.\<close>

record release_env =
  speculative :: bool
  strip_thinking_cache :: bool

definition release_overallocated_kv_indices ::
  "release_env \<Rightarrow> kv_info \<Rightarrow> nat \<Rightarrow> nat \<Rightarrow> 'a req_pool \<Rightarrow> kv_alloc \<Rightarrow> kv_alloc result" where
  "release_overallocated_kv_indices env kv start_p end_p p a =
     rbind (if \<not> speculative env \<and> \<not> strip_thinking_cache env
            then py_assert (start_p = end_p) ''Unexpected overallocated KV cache'' else Inr ()) (\<lambda>_.
       let ps = ka_page_size a; start_p = (if ps > 1 then nat (ceil_align (int start_p) (int ps)) else start_p)
       in if start_p < end_p then free_kv_row kv [(start_p, end_p)] p a else Inr a)"

text \<open>
  \<^verbatim>\<open>release_kv_cache\<close> after the checks, for the two caches: what the cache does with the finished request, then the
  overallocated tail, then the row.
\<close>

definition release_kv_cache :: "'c aux_ops \<Rightarrow> release_env \<Rightarrow> bool \<Rightarrow> 'b req_scheme \<Rightarrow> 'c radix_world \<Rightarrow> ('b req_scheme \<times> 'c radix_world) result" where
  "release_kv_cache ops env is_insert r w =
     rbind (py_assert ((\<not> holds_kv (r_kv r)) = is_kv_released (r_kv r)) ''holds_kv'') (\<lambda>_.
       if \<not> holds_kv (r_kv r) then Inl (AssertionError ''Only MambaRadixCache allow freeing before alloc'')
       else let owned_len = owned_kv_len (strip_thinking_cache env) r in
         rbind (cache_finished_req r (is_insert \<and> \<not> r_skip_radix_cache_insert r) owned_len w) (\<lambda>w.
         rbind (release_overallocated_kv_indices env (r_kv r) owned_len (kv_allocated_len (r_kv r)) (rw_pool w) (rc_alloc (rw_cache w))) (\<lambda>a.
         rbind (rt_free ops (r_kv r) (rw_pool w)) (\<lambda>(kv, p).
           Inr (r\<lparr>r_kv := mark_kv_released kv\<rparr>, w\<lparr>rw_cache := (rw_cache w)\<lparr>rc_alloc := a\<rparr>, rw_pool := p\<rparr>)))))"

definition chunk_release_kv_cache :: "'c aux_ops \<Rightarrow> release_env \<Rightarrow> 'b req_scheme \<Rightarrow> 'c chunk_cache \<Rightarrow> ('b req_scheme \<times> 'c chunk_cache) result" where
  "chunk_release_kv_cache ops env r c =
     rbind (py_assert ((\<not> holds_kv (r_kv r)) = is_kv_released (r_kv r)) ''holds_kv'') (\<lambda>_.
       if \<not> holds_kv (r_kv r) then Inl (AssertionError ''Only MambaRadixCache allow freeing before alloc'')
       else let owned_len = owned_kv_len (strip_thinking_cache env) r in
         rbind (chunk_cache_finished_req r owned_len c) (\<lambda>c.
         rbind (release_overallocated_kv_indices env (r_kv r) owned_len (kv_allocated_len (r_kv r)) (cc_pool c) (cc_alloc c)) (\<lambda>a.
         rbind (rt_free ops (r_kv r) (cc_pool c)) (\<lambda>(kv, p).
           Inr (r\<lparr>r_kv := mark_kv_released kv\<rparr>, c\<lparr>cc_alloc := a, cc_pool := p\<rparr>)))))"

end
