(* ===== verification/Row_Free.thy ===== *)
theory Row_Free
  imports Req_Cache
begin

text \<open>
  Freeing a segment of a request's row. A row occupies whole pages, the last one possibly in part; freeing the
  segment gives back all of these pages, whatever its end, as long as it starts on a page boundary.
\<close>

section \<open>Segments and their pages\<close>

definition covers :: "nat \<Rightarrow> int list \<Rightarrow> int list \<Rightarrow> bool" where
  "covers ps v pages \<longleftrightarrow> distinct pages \<and> prefix v (page_slots ps pages) \<and> length pages = (length v + ps - 1) div ps"

lemma ceil_div_less: "0 < ps \<Longrightarrow> i < (n + ps - 1) div ps \<longleftrightarrow> i * ps < n" for i n ps :: nat
proof -
  assume ps: "0 < ps"
  have "i < (n + ps - 1) div ps \<longleftrightarrow> Suc i * ps \<le> n + ps - 1"
    using ps by (simp add: Suc_le_eq [symmetric] less_eq_div_iff_mult_less_eq)
  then show ?thesis using ps by auto
qed

lemma ceil_div_mult: "0 < ps \<Longrightarrow> (k * ps + ps - 1) div ps = k" for k ps :: nat
proof -
  assume ps: "0 < ps"
  have "(ps - 1 + k * ps) div ps = k" by (subst div_mult_self1) (use ps in auto)
  moreover have "k * ps + ps - 1 = ps - 1 + k * ps" using ps by simp
  ultimately show ?thesis by (simp only:)
qed

lemma covers_Nil [simp]: "0 < ps \<Longrightarrow> covers ps [] pages \<longleftrightarrow> pages = []"
  by (auto simp: covers_def)

lemma covers_length: "0 < ps \<Longrightarrow> covers ps v pages \<Longrightarrow> length v \<le> length pages * ps"
  using prefix_length_le [of v "page_slots ps pages"] by (simp add: covers_def)

lemma covers_whole: "0 < ps \<Longrightarrow> ps dvd length v \<Longrightarrow> covers ps v pages \<Longrightarrow> v = page_slots ps pages"
proof -
  assume h: "0 < ps" "ps dvd length v" "covers ps v pages"
  then obtain k where k: "length v = k * ps" by (elim dvdE) (simp add: mult.commute)
  then have "length pages * ps = length v" using h(3) ceil_div_mult [OF h(1), of k] by (simp add: covers_def)
  then show ?thesis using h(3) not_equal_is_parallel [of v "page_slots ps pages"] by (auto simp: covers_def)
qed

lemma covers_pages:
  assumes ps: "0 < ps" and c: "covers ps v pages"
  shows "map (\<lambda>x. x div int ps) (stride ps v) = pages" "sort pages = unique (map (\<lambda>x. x div int ps) v)"
proof -
  have len: "length pages = (length v + ps - 1) div ps" and v: "prefix v (page_slots ps pages)" and d: "distinct pages"
    using c by (simp_all add: covers_def)
  have nth: "v ! (i * ps) = pages ! i * int ps" "i * ps < length v" if i: "i < length pages" for i
  proof -
    show il: "i * ps < length v" using i ceil_div_less [OF ps] len by simp
    have "v ! (i * ps) = page_slots ps pages ! (i * ps + 0)" using v il by (auto simp: nth_append elim!: prefixE)
    then show "v ! (i * ps) = pages ! i * int ps" using page_slots_nth [OF i ps] by simp
  qed
  then show st: "map (\<lambda>x. x div int ps) (stride ps v) = pages"
    using ps len by (intro nth_equalityI) (simp_all add: stride_def)
  have "set v \<subseteq> slots_of ps (set pages)" using set_mono_prefix [OF v] ps by simp
  then have "(\<lambda>x. x div int ps) ` set v \<subseteq> set pages" by (auto simp: slots_of_def)
  moreover have "set pages \<subseteq> (\<lambda>x. x div int ps) ` set v"
  proof
    fix p assume "p \<in> set pages"
    then obtain i where i: "i < length pages" "p = pages ! i" by (auto simp: in_set_conv_nth)
    then have "p = (v ! (i * ps)) div int ps" using nth ps by simp
    then show "p \<in> (\<lambda>x. x div int ps) ` set v" using nth(2) [OF i(1)] by (intro image_eqI [of _ _ "v ! (i * ps)"]) auto
  qed
  ultimately show "sort pages = unique (map (\<lambda>x. x div int ps) v)"
    using d by (intro sorted_distinct_set_unique) (auto simp: unique_def)
qed

lemma covers_split:
  assumes ps: "0 < ps" and c: "covers ps v pages" and k: "ps dvd k" "k \<le> length v"
  shows "covers ps (take k v) (take (k div ps) pages)" "covers ps (drop k v) (drop (k div ps) pages)"
    "take k v = page_slots ps (take (k div ps) pages)"
proof -
  obtain j where j: "k = j * ps" using k(1) by (metis dvd_def mult.commute)
  then have kd: "k div ps = j" using ps by simp
  obtain z where z: "page_slots ps pages = v @ z" and d: "distinct pages" using c by (auto simp: covers_def elim: prefixE)
  have t: "take k v = page_slots ps (take j pages)"
    using page_slots_take [of j ps pages] j k(2) z by simp
  then show "take k v = page_slots ps (take (k div ps) pages)" using kd by simp
  have len: "length pages = (length v + ps - 1) div ps" using c by (simp add: covers_def)
  have jl: "j \<le> length pages" using ceil_div_less [OF ps, of "length pages" "length v"] covers_length [OF ps c] k(2) j ps
    by (metis mult_le_cancel2 order.trans)
  have "length (take k v) = j * ps" using j k(2) by simp
  then show "covers ps (take k v) (take (k div ps) pages)"
    using t d jl kd ceil_div_mult [OF ps, of j] by (simp add: covers_def min_def)
  have "drop k v @ z = drop k (page_slots ps pages)" using z k(2) by simp
  also have "\<dots> = page_slots ps (drop j pages)"
  proof -
    have "page_slots ps pages = page_slots ps (take j pages) @ page_slots ps (drop j pages)"
      using page_slots_append [of ps "take j pages" "drop j pages"] by simp
    moreover have "length (page_slots ps (take j pages)) = k" using j jl by simp
    ultimately show ?thesis by (metis append_eq_conv_conj)
  qed
  finally have dv: "prefix (drop k v) (page_slots ps (drop j pages))" by (metis prefixI)
  have "(length v - k + ps - 1) div ps = length pages - j"
  proof -
    have "length v + ps - 1 = (length v - k + ps - 1) + j * ps" using j k(2) ps by simp
    then have "(length v + ps - 1) div ps = (length v - k + ps - 1) div ps + j" using ps by (metis add.commute div_mult_self1 less_numeral_extra(3))
    then show ?thesis using len by simp
  qed
  then show "covers ps (drop k v) (drop (k div ps) pages)" using dv d kd by (simp add: covers_def)
qed

section \<open>Freeing\<close>

lemma pag_free_segment_covers:
  assumes "0 < al_page_size a" "covers (al_page_size a) v pages" "start mod al_page_size a = 0"
  shows "pag_free_segment v start a = pag_free_segment (page_slots (al_page_size a) pages) 0 a"
proof (cases "v = []")
  case True
  then show ?thesis using assms by (simp add: pag_free_segment_def)
next
  case False
  then have "length pages \<noteq> 0" using assms(1,2) ceil_div_less [OF assms(1), of 0 "length v"] by (simp add: covers_def)
  then have "length (page_slots (al_page_size a) pages) \<noteq> 0" using assms(1) by simp
  moreover have "distinct pages" using assms(2) by (simp add: covers_def)
  ultimately show ?thesis
    using False covers_pages [OF assms(1,2)] pages_of_slots [OF assms(1), of pages] assms(3)
    by (simp add: pag_free_segment_def Let_def rbind_Inr)
qed

lemma ka_inv_page: "ka_inv a \<Longrightarrow> 0 < ka_page_size a"
  by (cases a) (auto simp: tok_inv_def pag_inv_def pag_core_def)

lemma ka_free_segment_covers:
  assumes i: "ka_inv a" and c: "covers (ka_page_size a) v pages" and st: "start mod ka_page_size a = 0"
    and dis: "set (page_slots (ka_page_size a) pages) \<inter> ka_free_set a = {}"
  shows "\<exists>a'. ka_free_segment v start a = Inr a' \<and> ka_inv a' \<and> ka_page_size a' = ka_page_size a \<and>
     ka_free_set a' = ka_free_set a \<union> set (page_slots (ka_page_size a) pages) \<and> ka_universe a' = ka_universe a"
proof -
  have ps: "0 < ka_page_size a" by (rule ka_inv_page [OF i])
  have b: "blocked (ka_page_size a) (page_slots (ka_page_size a) pages)" using c unfolding blocked_def covers_def by blast
  have "ka_free_segment v start a = ka_free_segment (page_slots (ka_page_size a) pages) 0 a"
  proof (cases a)
    case (TokenA b)
    then have p1: "al_page_size b = 1" using i by (simp add: tok_inv_def)
    then have "v = page_slots (ka_page_size a) pages" using covers_whole [OF ps _ c] TokenA by simp
    then show ?thesis using TokenA p1 by (simp add: tok_free_segment_def rbind_Inr)
  next
    case (PagedA b)
    then show ?thesis using pag_free_segment_covers [of b v pages start] ps c st by simp
  qed
  then show ?thesis using ka_free_segment_ok [OF i b dis] by simp
qed

lemma ka_free_segments_eq:
  "ka_free_segments segs a = rbind (page_disjoint (ka_page_size a) None segs) (\<lambda>segs. rfold (\<lambda>(xs, start). ka_free_segment xs start) segs a)"
proof -
  have "rfold (\<lambda>(xs, start). ka_free_segment xs start) segs (TokenA b) =
      rbind (rfold (\<lambda>(xs, start). tok_free_segment xs start) segs b) (\<lambda>a. Inr (TokenA a))" for segs b
  proof (induction segs arbitrary: b)
    case (Cons x segs)
    then show ?case by (cases x; cases "tok_free_segment (fst x) (snd x) b") simp_all
  qed simp
  moreover have "rfold (\<lambda>(xs, start). ka_free_segment xs start) segs (PagedA b) =
      rbind (rfold (\<lambda>(xs, start). pag_free_segment xs start) segs b) (\<lambda>a. Inr (PagedA a))" for segs b
  proof (induction segs arbitrary: b)
    case (Cons x segs)
    then show ?case by (cases x; cases "pag_free_segment (fst x) (snd x) b") simp_all
  qed simp
  ultimately show ?thesis
    by (cases a; cases "page_disjoint (ka_page_size a) None segs") (simp_all add: tok_free_segments_def pag_free_segments_def)
qed

text \<open>Two segments of one row, the first made of whole pages and ending at or before the start of the second.\<close>

lemma ka_free_two_segments:
  assumes i: "ka_inv a" and p: "ka_page_size a = ps" and c1: "covers ps v1 pages1" and c2: "covers ps v2 pages2"
    and st: "ps dvd st1" "ps dvd st2" and len: "v1 = [] \<or> st1 + length v1 \<le> st2" "ps dvd length v1"
    and dis: "(set (page_slots ps pages1) \<union> set (page_slots ps pages2)) \<inter> ka_free_set a = {}"
      "set (page_slots ps pages1) \<inter> set (page_slots ps pages2) = {}"
  shows "\<exists>a'. ka_free_segments [(v1, st1), (v2, st2)] a = Inr a' \<and> ka_inv a' \<and> ka_page_size a' = ps \<and>
     ka_free_set a' = ka_free_set a \<union> set (page_slots ps pages1) \<union> set (page_slots ps pages2) \<and> ka_universe a' = ka_universe a"
proof -
  have ps: "0 < ps" using ka_inv_page [OF i] p by simp
  obtain a1 where a1: "ka_free_segment v1 st1 a = Inr a1" "ka_inv a1" "ka_page_size a1 = ps"
    "ka_free_set a1 = ka_free_set a \<union> set (page_slots ps pages1)" "ka_universe a1 = ka_universe a"
    using ka_free_segment_covers [OF i, of v1 pages1 st1] c1 st(1) dis(1) unfolding p by (auto simp: dvd_eq_mod_eq_0 Int_Un_distrib2)
  obtain a2 where a2: "ka_free_segment v2 st2 a1 = Inr a2" "ka_inv a2" "ka_page_size a2 = ps"
    "ka_free_set a2 = ka_free_set a1 \<union> set (page_slots ps pages2)" "ka_universe a2 = ka_universe a1"
    using ka_free_segment_covers [OF a1(2), of v2 pages2 st2] c2 st(2) dis a1(4) unfolding a1(3) by (auto simp: dvd_eq_mod_eq_0)
  have e1: "a1 = a" if "v1 = []"
    using a1(1) that by (cases a) (simp_all add: tok_free_segment_def tok_free_def pag_free_segment_def rbind_eq_Inr)
  have e2: "a2 = a1" if "v2 = []"
    using a2(1) that by (cases a1) (simp_all add: tok_free_segment_def tok_free_def pag_free_segment_def rbind_eq_Inr)
  have gap: "(int (st1 + length v1) - 1) div int ps < int st2 div int ps" if "v1 \<noteq> []"
  proof -
    have "ps dvd st1 + length v1" "st1 + length v1 \<le> st2" "0 < st1 + length v1" using st(1) len that by auto
    then obtain k where k: "st1 + length v1 = k * ps" by (metis dvd_def mult.commute)
    have "int (k * ps) - 1 < int k * int ps" by simp
    then have "(int (k * ps) - 1) div int ps < int k" using ps int_div_le_iff [of "int ps" "int (k * ps) - 1" "int k - 1"] by (simp add: mult.commute)
    moreover have "k \<le> st2 div ps" using \<open>st1 + length v1 \<le> st2\<close> k ps by (simp add: less_eq_div_iff_mult_less_eq)
    then have "int k \<le> int st2 div int ps" by (simp add: zdiv_int [symmetric])
    ultimately show ?thesis using k by simp
  qed
  have "ka_free_segments [(v1, st1), (v2, st2)] a = Inr a2"
    unfolding ka_free_segments_eq p using a1(1) a2(1) e1 e2 gap by (cases "v1 = []"; cases "v2 = []") (simp_all add: Let_def)
  then show ?thesis using a1 a2 by auto
qed

end
