(* ===== verification/Evict_Demand.thy ===== *)
theory Evict_Demand
  imports Row_Free
begin

text \<open>
  Eviction on demand. The counters of the tree measure the slots it owns, so that evicting \<open>k\<close> tokens makes exactly \<open>k\<close> slots
  available; the loop that evicts until an allocation fits therefore ends, with enough slots or with nothing left to evict.
\<close>

section \<open>Counting slots\<close>

fun ka_idle :: "kv_alloc \<Rightarrow> bool" where
  "ka_idle (TokenA a) = (al_free_group a = None)"
| "ka_idle (PagedA a) = (al_free_group a = None)"

lemma ka_free_card:
  assumes "ka_inv a" "ka_idle a"
  shows "finite (ka_free_set a)" "card (ka_free_set a) = ka_available_size a"
proof -
  have "finite (ka_free_set a) \<and> card (ka_free_set a) = ka_available_size a"
  proof (cases a)
    case (TokenA t)
    then have "ka_free_set a = set (al_free_pages t @ al_release_pages t)" "distinct (al_free_pages t @ al_release_pages t)"
      using assms by (auto simp: tok_avail_def tok_pending_def tok_inv_def)
    then show ?thesis using TokenA distinct_card [of "al_free_pages t @ al_release_pages t"] by (simp add: tok_available_size_def)
  next
    case (PagedA p)
    have i: "pag_inv p" "0 < al_page_size p" "distinct (pag_get_all_free_pages p)" using assms PagedA by (auto simp: pag_inv_def pag_core_def)
    have "ka_free_set a = set (page_slots (al_page_size p) (pag_get_all_free_pages p))"
      using assms PagedA i by (simp add: pag_avail_def pag_pending_def pag_inv_def slots_of_def)
    then show ?thesis
      using PagedA distinct_card [OF distinct_page_slots [OF i(3), of "al_page_size p"]] pag_available_card [OF i(1)]
      by (simp del: set_page_slots ka_free_set.simps)
  qed
  then show "finite (ka_free_set a)" "card (ka_free_set a) = ka_available_size a" by blast+
qed

lemma held_card:
  assumes r: "run_ok H s"
  shows "finite (held_slots s)" "int (card (held_slots s)) = rc_evictable s + rc_protected s"
proof -
  note ok = run_okD [OF r] and t = wfD(1) [OF run_okD(1) [OF r]]
  let ?L = "live s - {rc_root s}" and ?v = "\<lambda>i. the (n_value (nd s i))"
  have fin: "finite (live s)" by (rule tree_okD(2) [OF t])
  show "finite (held_slots s)" using fin by (simp add: held_slots_def tree_slots_def node_slots_def)
  have d: "distinct (?v i)" if "i \<in> ?L" for i
    using slots_okD(3) [OF ok(2), of i] that distinct_page_slots unfolding blocked_def by auto
  have "card (held_slots s) = (\<Sum>i\<in>?L. card (node_slots (rc_store s) i))"
    unfolding held_slots_def tree_slots_def
    by (rule card_UN_disjoint) (use fin ok(2) in \<open>auto simp: node_slots_def slots_ok_def\<close>)
  also have "\<dots> = (\<Sum>i\<in>?L. length (?v i))"
    by (rule sum.cong) (use d distinct_card in \<open>auto simp: node_slots_def\<close>)
  also have "\<dots> = slot_count (rc_store s) (live s)"
    using sum.remove [OF fin ok(5), of "\<lambda>i. length (?v i)"] tree_okD(7) [OF t] by (simp add: slot_count_def)
  finally show "int (card (held_slots s)) = rc_evictable s + rc_protected s" using total_size_correct(2) [OF ok(1)] by simp
qed

section \<open>Free groups stay closed\<close>

lemma pag_check_group: "pag_check a = Inr a' \<Longrightarrow> a' = a"
  by (auto simp: pag_check_def rbind_eq_Inr split: if_splits)

lemma pag_free_page_ids_idle: "pag_free_page_ids ids a = Inr a' \<Longrightarrow> al_free_group a' = None \<longleftrightarrow> al_free_group a = None"
  unfolding pag_free_page_ids_def pag_release_page_ids_def
  by (auto dest!: pag_check_group split: if_splits option.splits)

lemma ka_free_segment_idle: "ka_free_segment v p a = Inr a' \<Longrightarrow> ka_idle a' = ka_idle a"
proof (cases a)
  case (TokenA t)
  assume "ka_free_segment v p a = Inr a'"
  then have "a' = TokenA (tok_free v t)" using TokenA by (auto simp: rbind_eq_Inr tok_free_segment_def)
  then show ?thesis using TokenA by (simp add: tok_free_def split: option.split)
next
  case (PagedA t)
  assume "ka_free_segment v p a = Inr a'"
  then obtain t' where t': "a' = PagedA t'" "pag_free_segment v p t = Inr t'" using PagedA by (auto simp: rbind_eq_Inr)
  show ?thesis
  proof (cases "length v = 0")
    case True
    then show ?thesis using t' PagedA by (simp add: pag_free_segment_def)
  next
    case False
    then obtain ids where "pag_free_page_ids ids t = Inr t'" using t'(2) by (auto simp: pag_free_segment_def Let_def rbind_eq_Inr)
    then show ?thesis using t'(1) PagedA pag_free_page_ids_idle by simp
  qed
qed

lemma update_leaf_alloc: "rc_alloc (update_leaf_status i s) = rc_alloc s" "rc_events (update_leaf_status i s) = rc_events s"
  by (simp_all add: update_leaf_status_def Let_def)

lemma delete_leaf_alloc: "delete_leaf i s = Inr s' \<Longrightarrow> rc_alloc s' = rc_alloc s \<and> rc_events s' = rc_events s"
  unfolding delete_leaf_def Let_def
  by (auto simp: rbind_eq_Inr update_leaf_alloc set_node_def simp del: not_None_eq split: option.splits)

lemma record_remove_off: "\<not> ev_enabled r \<Longrightarrow> record_remove h c medium i (r, st) = Inr (r', st') \<Longrightarrow> r' = r"
  by (simp add: record_remove_def)

lemma evict_loop_idle: "evict_loop fuel n num heap s = Inr (k, s') \<Longrightarrow> ka_idle (rc_alloc s') = ka_idle (rc_alloc s) \<and>
    (\<not> ev_enabled (rc_events s) \<longrightarrow> rc_events s' = rc_events s)"
proof (induction fuel arbitrary: num heap s)
  case 0
  then show ?case by (auto simp: evict_loop.simps split: if_splits list.splits)
next
  case (Suc fuel)
  show ?case
  proof (cases "num < n \<and> heap \<noteq> []")
    case False
    then show ?thesis using Suc.prems by (auto simp: evict_loop.simps split: if_splits list.splits)
  next
    case True
    then obtain e es where h: "heap = e # es" by (cases heap) auto
    obtain pr x heap1 where pop: "heappop (rc_store s) e es = ((pr, x), heap1)" by (metis surj_pair)
    obtain v a s1 p heap2 r st where st: "ka_free_segment v 0 (rc_alloc s) = Inr a" "delete_leaf x (s\<lparr>rc_alloc := a\<rparr>) = Inr s1"
      "evict_loop fuel n (num + int (length v)) heap2 (s1\<lparr>rc_events := r, rc_store := st\<rparr>) = Inr (k, s')"
      "record_remove (rc_hasher s1) (rc_counter s1) GPU x (rc_events s1, rc_store s1) = Inr (r, st)"
      using Suc.prems True unfolding h evict_loop.simps [of "Suc fuel"]
      by (auto simp: pop rbind_eq_Inr Let_def split: option.splits)
    show ?thesis using Suc.IH [OF st(3)] delete_leaf_alloc [OF st(2)] ka_free_segment_idle [OF st(1)] record_remove_off [OF _ st(4)] by auto
  qed
qed

lemma evict_idle: "evict n s = Inr (k, s') \<Longrightarrow> ka_idle (rc_alloc s') = ka_idle (rc_alloc s)"
  "evict n s = Inr (k, s') \<Longrightarrow> \<not> ev_enabled (rc_events s) \<Longrightarrow> rc_events s' = rc_events s"
  by (auto simp: evict_def rbind_eq_Inr Let_def split: if_splits dest: evict_loop_idle)

section \<open>What an eviction gains\<close>

text \<open>Reachable states in which eviction works: priorities are total, events off, and no free group open.\<close>

definition evicting :: "nat list \<Rightarrow> cache \<Rightarrow> bool" where
  "evicting H s \<longleftrightarrow> cache_run H s \<and> prio_total (rc_strategy s) \<and> \<not> ev_enabled (rc_events s) \<and> ka_idle (rc_alloc s)"

definition reachable_slots :: "cache \<Rightarrow> int" where
  "reachable_slots s = int (ka_available_size (rc_alloc s)) + evictable_size s"

lemma evicting_counts:
  assumes "evicting H s"
  shows "0 \<le> rc_evictable s" "card (ka_free_set (rc_alloc s) \<union> held_slots s) = ka_available_size (rc_alloc s) + card (held_slots s)"
proof -
  have r: "run_ok H s" and a: "ka_idle (rc_alloc s)" using assms run_invariant by (auto simp: evicting_def)
  note ok = run_okD [OF r]
  show "0 \<le> rc_evictable s" using wfD(5) [OF ok(1)] by (simp add: tokens_def sum_nonneg)
  have i: "ka_inv (rc_alloc s)" "ka_free_set (rc_alloc s) \<inter> held_slots s = {}"
    using ok(2) by (auto simp: slots_ok_def held_slots_def)
  show "card (ka_free_set (rc_alloc s) \<union> held_slots s) = ka_available_size (rc_alloc s) + card (held_slots s)"
    using card_Un_disjoint [OF ka_free_card(1) [OF i(1) a] held_card(1) [OF r] i(2)] ka_free_card(2) [OF i(1) a] by simp
qed

lemma evict_gain:
  assumes e: "evicting H s"
  obtains k s' where "evict n s = Inr (k, s')" "evicting H s'" "reachable_slots s' = reachable_slots s" "0 \<le> k"
    "rc_evictable s' = rc_evictable s - k" "n \<le> k \<or> rc_evictable s' = 0"
proof -
  have r: "cache_run H s" "prio_total (rc_strategy s)" "\<not> ev_enabled (rc_events s)" "ka_idle (rc_alloc s)" using e by (simp_all add: evicting_def)
  note ok = run_okD [OF run_invariant [OF r(1)]]
  obtain k s' where k: "evict n s = Inr (k, s')" using evict_correct(2) [OF ok(1,2) r(2) ok(3) r(3)] by blast
  obtain L' where t: "evicted_to (live s) H s L' s' k" "n \<le> k \<or> rc_evictable s' = 0"
    using evict_correct(1) [OF ok(1,2) r(2) ok(3) k] by blast
  have run': "cache_run H s'" by (rule run_evict [OF r(1,2) k])
  have "cache_wf L' H s'" using t(1) by (simp add: evicted_to_def)
  then have L': "L' = live s'" using wf_live by blast
  have fr: "rc_root s' = rc_root s" "rc_strategy s' = rc_strategy s" using t(1) by (simp_all add: evicted_to_def same_frame_def)
  have e': "evicting H s'" using run' r fr evict_idle [OF k] by (simp add: evicting_def)
  have "ka_free_set (rc_alloc s') \<union> held_slots s' = ka_free_set (rc_alloc s) \<union> held_slots s"
    using t(1) L' fr by (simp add: evicted_to_def held_slots_def)
  then have "ka_available_size (rc_alloc s') + card (held_slots s') = ka_available_size (rc_alloc s) + card (held_slots s)"
    using evicting_counts(2) [OF e] evicting_counts(2) [OF e'] by simp
  moreover have "rc_evictable s' = rc_evictable s - k" "rc_protected s' = rc_protected s" "0 \<le> k" using t(1) by (simp_all add: evicted_to_def)
  ultimately have "reachable_slots s' = reachable_slots s" "rc_evictable s' = rc_evictable s - k" "0 \<le> k"
    using held_card(2) [OF run_invariant [OF r(1)]] held_card(2) [OF run_invariant [OF run']] by (simp_all add: reachable_slots_def evictable_size_def)
  then show ?thesis using that k e' t(2) by blast
qed

text \<open>Enough slots, or nothing left to evict.\<close>

definition drained :: "nat list \<Rightarrow> nat \<Rightarrow> cache \<Rightarrow> cache \<Rightarrow> bool" where
  "drained H n s s' \<longleftrightarrow> evicting H s' \<and> reachable_slots s' = reachable_slots s \<and> (n \<le> ka_available_size (rc_alloc s') \<or> evictable_size s' = 0)"

lemma evict_until_loop_ends:
  "evicting H s \<Longrightarrow> nat (rc_evictable s) < fuel \<Longrightarrow> \<exists>s'. evict_until_loop fuel n s = Inr s' \<and> drained H n s s'"
proof (induction fuel arbitrary: s)
  case (Suc fuel)
  let ?av = "ka_available_size (rc_alloc s)"
  show ?case
  proof (cases "n \<le> ?av")
    case True
    then show ?thesis using Suc.prems by (simp add: evict_until_loop.simps drained_def)
  next
    case False
    let ?n = "int (max (n - ?av) (ka_page_size (rc_alloc s)))"
    obtain k s1 where k: "evict ?n s = Inr (k, s1)" "evicting H s1" "reachable_slots s1 = reachable_slots s" "0 \<le> k"
      "rc_evictable s1 = rc_evictable s - k" "?n \<le> k \<or> rc_evictable s1 = 0" by (rule evict_gain [OF Suc.prems(1)])
    have step: "evict_until_loop (Suc fuel) n s = (if k = 0 then Inr s1 else evict_until_loop fuel n s1)"
      using False k(1) by (simp add: evict_until_loop.simps [of "Suc fuel"] Let_def)
    show ?thesis
    proof (cases "k = 0")
      case True
      then have "rc_evictable s1 = 0" using k(6) False by auto
      then show ?thesis using step True k(2,3) by (simp add: drained_def evictable_size_def)
    next
      case k0: False
      then have "nat (rc_evictable s1) < fuel" using Suc.prems(2) k(4,5) evicting_counts(1) [OF k(2)] by linarith
      from Suc.IH [OF k(2) this] show ?thesis using step k0 k(3) by (simp add: drained_def)
    qed
  qed
qed simp

lemma evict_to_free_tokens_drains:
  assumes e: "evicting H s"
  shows "\<exists>s'. evict_to_free_tokens shard n s = Inr s' \<and> drained H n s s'"
proof (cases "n \<le> ka_available_size (rc_alloc s)")
  case True
  then show ?thesis using e by (simp add: evict_to_free_tokens_def drained_def Let_def)
next
  case False
  let ?n = "int n - int (ka_available_size (rc_alloc s))"
  obtain k s1 where k: "evict ?n s = Inr (k, s1)" "evicting H s1" "reachable_slots s1 = reachable_slots s" "0 \<le> k"
    "rc_evictable s1 = rc_evictable s - k" "?n \<le> k \<or> rc_evictable s1 = 0" by (rule evict_gain [OF e])
  have step: "evict_to_free_tokens shard n s = evict_until_allocatable shard n s1"
    using False k(1) by (simp add: evict_to_free_tokens_def Let_def)
  show ?thesis
  proof (cases "shard \<le> 1")
    case True
    have "n \<le> ka_available_size (rc_alloc s1) \<or> evictable_size s1 = 0"
      using k(3,5,6) by (auto simp: reachable_slots_def evictable_size_def)
    then show ?thesis using step True k(2,3) by (simp add: evict_until_allocatable_def drained_def)
  next
    case False
    then show ?thesis using step evict_until_loop_ends [OF k(2), of "nat (rc_evictable s1) + 1" n] k(3)
      by (simp add: evict_until_allocatable_def drained_def)
  qed
qed

section \<open>Property\<close>



end
