(* ===== verification/Schedule_Policy.thy ===== *)
theory Schedule_Policy
  imports KV_Row "HOL-Library.Product_Lexorder" "HOL-Library.List_Lexorder" "HOL-Library.Char_ord" "HOL-Library.Log_Nat"
begin

text \<open>
  The order in which waiting requests are served: \<^verbatim>\<open>SchedulePolicy\<close> and \<^verbatim>\<open>match_prefix_for_req\<close> of
  \<^verbatim>\<open>managers/schedule_policy.py\<close>, with \<^verbatim>\<open>zero_match_result\<close> and \<^verbatim>\<open>_dfs_weight_order\<close> of
  \<^verbatim>\<open>mem_cache/base_prefix_cache.py\<close>. The tree cache is a \<open>RadixCache\<close>. Python's \<^verbatim>\<open>list.sort\<close> is stable, as is
  \<open>sort_key\<close>. Points in time are integers, of which only the order is used. The shuffle of the random policy is an argument.
\<close>

section \<open>Numbers of Python\<close>

text \<open>
  Division of two integers: the quotient rounded to 53 significant bits, ties to even. The exponents of
  token counts are far from the limits of a double.
\<close>

definition round_half_even :: "rat \<Rightarrow> int" where
  "round_half_even q =
     (let f = \<lfloor>q\<rfloor>; d = q - of_int f
      in if d < 1 / 2 then f else if d > 1 / 2 then f + 1 else if even f then f else f + 1)"

definition pow2 :: "int \<Rightarrow> rat" where
  "pow2 e = (if e \<ge> 0 then 2 ^ nat e else 1 / 2 ^ nat (- e))"

definition truediv :: "int \<Rightarrow> int \<Rightarrow> rat result" where
  "truediv a b =
     (if b = 0 then Inl ZeroDivisionError
      else if a = 0 then Inr 0
      else let q = of_int \<bar>a\<bar> / of_int \<bar>b\<bar>;
               k = int (floorlog 2 (nat \<bar>a\<bar>)) - int (floorlog 2 (nat \<bar>b\<bar>));
               e = (if q \<ge> pow2 k then k else k - 1) - 52
           in Inr (of_int (sgn a * sgn b * round_half_even (q / pow2 e)) * pow2 e))"

text \<open>Sort keys that may be infinite.\<close>

datatype pyfloat = NegInf | Fin rat | PosInf

instantiation pyfloat :: linorder
begin

fun less_eq_pyfloat :: "pyfloat \<Rightarrow> pyfloat \<Rightarrow> bool" where
  "less_eq_pyfloat NegInf y = True"
| "less_eq_pyfloat (Fin p) (Fin q) = (p \<le> q)"
| "less_eq_pyfloat (Fin p) y = (y = PosInf)"
| "less_eq_pyfloat PosInf y = (y = PosInf)"

definition less_pyfloat :: "pyfloat \<Rightarrow> pyfloat \<Rightarrow> bool" where
  "less_pyfloat x y = (x \<le> y \<and> \<not> y \<le> x)"

instance
proof
  fix x y z :: pyfloat
  show "x < y \<longleftrightarrow> x \<le> y \<and> \<not> y \<le> x" by (rule less_pyfloat_def)
  show "x \<le> x" by (cases x) simp_all
  show "x \<le> y \<Longrightarrow> y \<le> z \<Longrightarrow> x \<le> z" by (cases x; cases y; cases z) simp_all
  show "x \<le> y \<Longrightarrow> y \<le> x \<Longrightarrow> x = y" by (cases x; cases y) simp_all
  show "x \<le> y \<or> y \<le> x" by (cases x; cases y) auto
qed

end

section \<open>Requests in the waiting queue\<close>

record sched_req = req +
  r_rid :: string
  r_num_matched_prefix_tokens :: nat
  r_last_host_node :: "nat option"
  r_best_match_node :: "nat option"
  r_swa_host_hit_length :: nat
  r_mamba_host_hit_length :: nat
  r_swa_branching_seqlen :: "nat option"
  r_wait_queue_entry_time :: int
  r_arrival_processed_tokens :: int
  r_max_new_tokens :: int
  r_routing_key :: "string option"

text \<open>The cache is a tree, so a forced miss points at its root. The fields of a match that concern host memory and the other cache kinds keep their defaults.\<close>

definition zero_match_result :: "cache \<Rightarrow> match_result \<Rightarrow> match_result" where
  "zero_match_result s m = m\<lparr>mr_indices := take 0 (mr_indices m), mr_node := rc_root s\<rparr>"

definition swa_reprefill_tail_tokens :: "cache \<Rightarrow> nat" where
  "swa_reprefill_tail_tokens s = 0"

definition supports_fast_match_prefix :: "cache \<Rightarrow> bool" where
  "supports_fast_match_prefix s = False"

definition match_prefix_for_req :: "bool \<Rightarrow> 'a sched_req_scheme \<Rightarrow> int list option \<Rightarrow> cache \<Rightarrow> (match_result \<times> 'a sched_req_scheme \<times> cache) result" where
  "match_prefix_for_req force_miss r ids s =
     (let toks = (case ids of None \<Rightarrow> r_origin_input_ids r @ r_output_ids r | Some toks \<Rightarrow> toks);
          reprefill_tail = swa_reprefill_tail_tokens s;
          key_limit = (if reprefill_tail > 0 then Some (length toks - reprefill_tail) else None)
      in rbind (match_prefix (RadixKey toks (r_extra_key r) False key_limit (r_cache_salt r)) s) (\<lambda>(m, s).
        let m = (if force_miss then zero_match_result s m else m);
            r = r\<lparr>r_prefix_indices := mr_indices m, r_last_node := Some (mr_node m), r_last_host_node := Some (mr_node m),
                  r_best_match_node := Some (mr_node m), r_host_hit_length := 0, r_swa_host_hit_length := 0,
                  r_mamba_host_hit_length := 0\<rparr>;
            max_len = compute_max_prefix_len (length toks) r;
            r = r\<lparr>r_num_matched_prefix_tokens := min (length (r_prefix_indices r) + r_host_hit_length r) max_len,
                  r_swa_branching_seqlen := None\<rparr>
        in Inr (m, r, s)))"

section \<open>Depth-first order by weight\<close>

definition weight_of :: "(nat \<rightharpoonup> nat) \<Rightarrow> nat \<Rightarrow> nat" where
  "weight_of w i = (case w i of None \<Rightarrow> 0 | Some n \<Rightarrow> n)"

definition children_of :: "cache \<Rightarrow> nat \<Rightarrow> nat list" where
  "children_of s i = map snd (n_children (nd s i))"

text \<open>
  The stacks of the two loops have their top at the head. Each node is pushed twice, so twice the number of nodes ever
  created bounds the number of steps.
\<close>

fun weight_loop :: "nat \<Rightarrow> cache \<Rightarrow> (nat \<times> bool) list \<Rightarrow> (nat \<rightharpoonup> nat) \<Rightarrow> (nat \<rightharpoonup> nat) result" where
  "weight_loop fuel s [] w = Inr w"
| "weight_loop 0 s (x # stack) w = Inl OutOfFuel"
| "weight_loop (Suc fuel) s ((i, visited) # stack) w =
     (if visited
      then weight_loop fuel s stack (w(i \<mapsto> weight_of w i + sum_list (map (weight_of w) (children_of s i))))
      else weight_loop fuel s (map (\<lambda>c. (c, False)) (children_of s i) @ (i, True) # stack) w)"

fun order_loop :: "nat \<Rightarrow> cache \<Rightarrow> (nat \<rightharpoonup> nat) \<Rightarrow> (nat \<Rightarrow> nat list) \<Rightarrow> (nat \<times> bool) list \<Rightarrow> nat list \<Rightarrow> nat list result" where
  "order_loop fuel s w indices [] order = Inr order"
| "order_loop 0 s w indices (x # stack) order = Inl OutOfFuel"
| "order_loop (Suc fuel) s w indices ((i, visited) # stack) order =
     (if visited then order_loop fuel s w indices stack (order @ indices i)
      else order_loop fuel s w indices
             (map (\<lambda>c. (c, False)) (sort_key (\<lambda>c. - int (weight_of w c)) (children_of s i)) @ (i, True) # stack) order)"

text \<open>\<open>last_node_to_indices\<close> and the initial weights of the nodes.\<close>

definition indices_at :: "nat option list \<Rightarrow> nat \<Rightarrow> nat list" where
  "indices_at handles i = filter (\<lambda>k. handles ! k = Some i) [0..<length handles]"

definition own_weight :: "nat option list \<Rightarrow> (nat \<rightharpoonup> nat)" where
  "own_weight handles i = (if indices_at handles i = [] then None else Some (length (indices_at handles i)))"

definition dfs_weight_order :: "nat option list \<Rightarrow> cache \<Rightarrow> nat list result" where
  "dfs_weight_order handles s =
     rbind (weight_loop (2 * rc_counter s) s [(rc_root s, False)] (own_weight handles)) (\<lambda>w.
       order_loop (2 * rc_counter s) s w (indices_at handles) [(rc_root s, False)] [])"

section \<open>Policies\<close>

datatype cache_aware_policy = LPM | DFS_WEIGHT | HRRN | SHORTEST_PREFILL_FIRST

datatype cache_agnostic_policy = FCFS | LOF | RANDOM | ROUTING_KEY

datatype policy = Aware cache_aware_policy | Agnostic cache_agnostic_policy

definition CacheAwarePolicy :: "string \<Rightarrow> cache_aware_policy option" where
  "CacheAwarePolicy p =
     (if p = ''lpm'' then Some LPM else if p = ''dfs-weight'' then Some DFS_WEIGHT else if p = ''hrrn'' then Some HRRN
      else if p = ''shortest-prefill-first'' then Some SHORTEST_PREFILL_FIRST else None)"

definition CacheAgnosticPolicy :: "string \<Rightarrow> cache_agnostic_policy option" where
  "CacheAgnosticPolicy p =
     (if p = ''fcfs'' then Some FCFS else if p = ''lof'' then Some LOF else if p = ''random'' then Some RANDOM
      else if p = ''routing-key'' then Some ROUTING_KEY else None)"

text \<open>The \<^verbatim>\<open>ValueError\<close> of a disabled cache is raised inside the \<^verbatim>\<open>try\<close> whose handler looks the name up among the other policies.\<close>

definition validate_and_adjust_policy :: "string \<Rightarrow> bool \<Rightarrow> policy result" where
  "validate_and_adjust_policy name disabled =
     (let other = (case CacheAgnosticPolicy name of Some p \<Rightarrow> Inr (Agnostic p) | None \<Rightarrow> Inl (ValueError ''Unknown schedule_policy''))
      in case CacheAwarePolicy name of
           Some p \<Rightarrow> if disabled then (if p = SHORTEST_PREFILL_FIRST then other else Inr (Agnostic FCFS)) else Inr (Aware p)
         | None \<Rightarrow> other)"

record schedule_policy =
  sp_policy :: policy
  sp_enable_hierarchical_cache :: bool
  sp_enable_priority_scheduling :: bool
  sp_schedule_low_priority_values_first :: bool
  sp_priority_sign :: int
  sp_shortest_prefill_calls :: nat
  sp_waiting_queue_radix_tree :: cache

text \<open>\<^verbatim>\<open>RadixCache.create_simulated\<close>: pages of one token, no events, an allocator that is never used.\<close>

definition create_simulated :: "hasher \<Rightarrow> (nat \<Rightarrow> int) \<Rightarrow> kv_alloc \<Rightarrow> cache result" where
  "create_simulated h clk mock_allocator = RadixCache False 1 False ''lru'' [] False h clk mock_allocator"

definition SchedulePolicy :: "string \<Rightarrow> cache \<Rightarrow> bool \<Rightarrow> bool \<Rightarrow> bool \<Rightarrow> hasher \<Rightarrow> (nat \<Rightarrow> int) \<Rightarrow> kv_alloc \<Rightarrow> schedule_policy result" where
  "SchedulePolicy name tree_cache hier prio low_first h clk mock_allocator =
     rbind (validate_and_adjust_policy name (rc_disable tree_cache)) (\<lambda>p.
     rbind (create_simulated h clk mock_allocator) (\<lambda>simulated.
       Inr \<lparr>sp_policy = p, sp_enable_hierarchical_cache = hier, sp_enable_priority_scheduling = prio,
            sp_schedule_low_priority_values_first = low_first, sp_priority_sign = (if low_first then 1 else -1),
            sp_shortest_prefill_calls = 0, sp_waiting_queue_radix_tree = simulated\<rparr>))"

definition determine_active_policy :: "'r list \<Rightarrow> schedule_policy \<Rightarrow> policy" where
  "determine_active_policy q sp =
     (if (sp_policy sp = Aware LPM \<or> sp_policy sp = Aware HRRN) \<and> length q > 128 then Agnostic FCFS else sp_policy sp)"

definition is_aware :: "policy \<Rightarrow> bool" where
  "is_aware p = (case p of Aware _ \<Rightarrow> True | Agnostic _ \<Rightarrow> False)"

definition waiting_queue_prefix_matched :: "'r list \<Rightarrow> cache \<Rightarrow> schedule_policy \<Rightarrow> bool" where
  "waiting_queue_prefix_matched q s sp = (is_aware (determine_active_policy q sp) \<or> supports_fast_match_prefix s)"

section \<open>Matching the queue\<close>

text \<open>Settings the module reads from the environment, and whether the server is the decode side of a disaggregated pair.\<close>

record sched_env =
  se_force_miss :: bool
  se_check_threshold :: int
  se_deprioritize_threshold :: int
  se_decode :: bool

text \<open>
  The loop of \<open>compute_prefix_matches\<close>. The values stored in the simulated tree are uninitialised memory of which only
  the length is used; the model stores zeros.
\<close>

fun prefix_matches_loop :: "sched_env \<Rightarrow> 'a sched_req_scheme list \<Rightarrow> string set \<Rightarrow> cache \<Rightarrow> cache
    \<Rightarrow> (string set \<times> 'a sched_req_scheme list \<times> cache \<times> cache) result" where
  "prefix_matches_loop env [] deprioritized sim s = Inr (deprioritized, [], sim, s)"
| "prefix_matches_loop env (r # q) deprioritized sim s =
     (let prefix_ids = r_origin_input_ids r @ r_output_ids r;
          key = RadixKey prefix_ids (r_extra_key r) False None (r_cache_salt r)
      in rbind (match_prefix_for_req (se_force_miss env) r (Some prefix_ids) s) (\<lambda>(m, r, s).
         rbind (if int (length (r_prefix_indices r)) \<le> se_check_threshold env
                then rbind (match_prefix key sim) (\<lambda>(m, sim).
                  let m = (if se_force_miss env then zero_match_result sim m else m)
                  in if int (length (mr_indices m)) \<ge> se_deprioritize_threshold env
                     then Inr (insert (r_rid r) deprioritized, sim)
                     else rbind (insert_key key (Some (replicate (length prefix_ids) 0)) None False sim) (\<lambda>(_, sim). Inr (deprioritized, sim)))
                else Inr (deprioritized, sim)) (\<lambda>(deprioritized, sim).
         rbind (prefix_matches_loop env q deprioritized sim s) (\<lambda>(deprioritized, q, sim, s).
           Inr (deprioritized, r # q, sim, s)))))"

definition compute_prefix_matches :: "sched_env \<Rightarrow> 'a sched_req_scheme list \<Rightarrow> schedule_policy \<Rightarrow> cache
    \<Rightarrow> (string set \<times> 'a sched_req_scheme list \<times> schedule_policy \<times> cache) result" where
  "compute_prefix_matches env q sp s =
     rbind (prefix_matches_loop env q {} (reset (sp_waiting_queue_radix_tree sp)) s) (\<lambda>(deprioritized, q, sim, s).
       Inr (deprioritized, q, sp\<lparr>sp_waiting_queue_radix_tree := sim\<rparr>, s))"

fun match_all :: "bool \<Rightarrow> 'a sched_req_scheme list \<Rightarrow> cache \<Rightarrow> ('a sched_req_scheme list \<times> cache) result" where
  "match_all force_miss [] s = Inr ([], s)"
| "match_all force_miss (r # q) s =
     rbind (match_prefix_for_req force_miss r None s) (\<lambda>(m, r, s). rbind (match_all force_miss q s) (\<lambda>(q, s). Inr (r # q, s)))"

section \<open>Sorting the queue\<close>

definition shortest_prefill_work :: "'a sched_req_scheme \<Rightarrow> int" where
  "shortest_prefill_work r =
     max 1 (int (length (r_origin_input_ids r)) + int (length (r_output_ids r)) - int (r_num_matched_prefix_tokens r))"

definition sort_by_shortest_prefill :: "'a sched_req_scheme list \<Rightarrow> string set \<Rightarrow> 'a sched_req_scheme list" where
  "sort_by_shortest_prefill q deprioritized =
     sort_key (\<lambda>r. (r_rid r \<in> deprioritized, shortest_prefill_work r, r_wait_queue_entry_time r)) q"

definition sort_by_longest_prefix :: "'a sched_req_scheme list \<Rightarrow> string set \<Rightarrow> 'a sched_req_scheme list" where
  "sort_by_longest_prefix q deprioritized =
     sort_key (\<lambda>r. if r_rid r \<notin> deprioritized then Fin (- of_nat (r_num_matched_prefix_tokens r)) else PosInf) q"

definition uncached_len :: "'a sched_req_scheme \<Rightarrow> nat" where
  "uncached_len r = nat (max 0 (int (length (r_origin_input_ids r)) - int (r_num_matched_prefix_tokens r)))"

definition hrrn_key :: "string set \<Rightarrow> int \<Rightarrow> 'a sched_req_scheme \<Rightarrow> (pyfloat \<times> string) result" where
  "hrrn_key deprioritized processed_tokens r =
     (if r_rid r \<in> deprioritized then Inr (PosInf, r_rid r)
      else let uncached = uncached_len r
        in if uncached \<le> 0 then Inr (NegInf, r_rid r)
           else let waited_tokens = max 0 (processed_tokens - r_arrival_processed_tokens r)
             in rbind (truediv waited_tokens (int uncached)) (\<lambda>ratio_delta. Inr (Fin (- ratio_delta), r_rid r)))"

text \<open>\<^verbatim>\<open>list.sort\<close> computes the key of every element before it sorts.\<close>

definition py_sort :: "('a \<Rightarrow> ('k :: linorder) result) \<Rightarrow> 'a list \<Rightarrow> 'a list result" where
  "py_sort key xs = rbind (rmap (\<lambda>x. rbind (key x) (\<lambda>k. Inr (k, x))) xs) (\<lambda>kxs. Inr (map snd (sort_key fst kxs)))"

definition sort_by_hrrn :: "'a sched_req_scheme list \<Rightarrow> string set \<Rightarrow> int \<Rightarrow> 'a sched_req_scheme list result" where
  "sort_by_hrrn q deprioritized processed_tokens = py_sort (hrrn_key deprioritized processed_tokens) q"

definition sort_by_dfs_weight :: "'a sched_req_scheme list \<Rightarrow> cache \<Rightarrow> 'a sched_req_scheme list result" where
  "sort_by_dfs_weight q s = rbind (dfs_weight_order (map r_last_node q) s) (\<lambda>order. Inr (map (\<lambda>k. q ! k) order))"

definition signed_priority :: "int \<Rightarrow> 'a sched_req_scheme \<Rightarrow> int result" where
  "signed_priority priority_sign r = (case r_priority r of None \<Rightarrow> Inl TypeError | Some p \<Rightarrow> Inr (p * priority_sign))"

definition sort_by_longest_output :: "'a sched_req_scheme list \<Rightarrow> bool \<Rightarrow> int \<Rightarrow> 'a sched_req_scheme list result" where
  "sort_by_longest_output q enable_priority_scheduling priority_sign =
     (if enable_priority_scheduling
      then py_sort (\<lambda>r. rbind (signed_priority priority_sign r) (\<lambda>p. Inr (p, - r_max_new_tokens r))) q
      else Inr (sort_key (\<lambda>r. - r_max_new_tokens r) q))"

definition sort_by_priority_and_fcfs :: "'a sched_req_scheme list \<Rightarrow> int \<Rightarrow> 'a sched_req_scheme list result" where
  "sort_by_priority_and_fcfs q priority_sign =
     py_sort (\<lambda>r. rbind (signed_priority priority_sign r) (\<lambda>p. Inr (p, r_wait_queue_entry_time r))) q"

text \<open>A key that is missing or empty is false.\<close>

definition key_text :: "'a sched_req_scheme \<Rightarrow> string" where
  "key_text r = (case r_routing_key r of None \<Rightarrow> [] | Some k \<Rightarrow> k)"

definition sort_by_routing_key :: "'a sched_req_scheme list \<Rightarrow> 'a sched_req_scheme list \<Rightarrow> 'a sched_req_scheme list" where
  "sort_by_routing_key q running =
     (let keys = filter (\<lambda>k. k \<noteq> []) (map key_text running)
      in if keys = [] then q
         else sort_key (\<lambda>r. let k = key_text r in
                if k \<in> set keys then (0 :: int, - int (length (filter ((=) k) keys)), k) else (1, 0, k)) q)"

section \<open>Priorities\<close>

definition calc_priority :: "sched_env \<Rightarrow> ('a sched_req_scheme list \<Rightarrow> 'a sched_req_scheme list) \<Rightarrow> 'a sched_req_scheme list \<Rightarrow>
    'a sched_req_scheme list option \<Rightarrow> int \<Rightarrow> schedule_policy \<Rightarrow> cache \<Rightarrow> ('a sched_req_scheme list \<times> schedule_policy \<times> cache) result" where
  "calc_priority env shuffle q running_batch processed_tokens sp s =
     (let policy = determine_active_policy q sp in
      rbind (if \<not> is_aware policy \<and> supports_fast_match_prefix s \<and> \<not> se_decode env
             then match_all (se_force_miss env) q s else Inr (q, s)) (\<lambda>(q, s).
      if sp_policy sp = Agnostic FCFS
      then rbind (if sp_enable_priority_scheduling sp then sort_by_priority_and_fcfs q (sp_priority_sign sp) else Inr q) (\<lambda>q. Inr (q, sp, s))
      else case policy of
        Aware p \<Rightarrow>
          rbind (compute_prefix_matches env q sp s) (\<lambda>(deprioritized, q, sp, s).
            case p of
              LPM \<Rightarrow> Inr (sort_by_longest_prefix q deprioritized, sp, s)
            | DFS_WEIGHT \<Rightarrow> rbind (sort_by_dfs_weight q s) (\<lambda>q. Inr (q, sp, s))
            | HRRN \<Rightarrow> rbind (sort_by_hrrn q deprioritized processed_tokens) (\<lambda>q. Inr (q, sp, s))
            | SHORTEST_PREFILL_FIRST \<Rightarrow>
                Inr (sort_by_shortest_prefill q deprioritized, sp\<lparr>sp_shortest_prefill_calls := sp_shortest_prefill_calls sp + 1\<rparr>, s))
      | Agnostic p \<Rightarrow>
          (case p of
             FCFS \<Rightarrow> Inr (q, sp, s)
           | LOF \<Rightarrow> rbind (sort_by_longest_output q (sp_enable_priority_scheduling sp) (sp_priority_sign sp)) (\<lambda>q. Inr (q, sp, s))
           | RANDOM \<Rightarrow> Inr (shuffle q, sp, s)
           | ROUTING_KEY \<Rightarrow> Inr (case running_batch of Some running \<Rightarrow> sort_by_routing_key q running | None \<Rightarrow> q, sp, s))))"

section \<open>Chunks\<close>

fun reserve_short_loop :: "int \<Rightarrow> int \<Rightarrow> int \<Rightarrow> 'a sched_req_scheme list \<Rightarrow> int \<Rightarrow> int" where
  "reserve_short_loop remaining budget ps [] reserved = reserved"
| "reserve_short_loop remaining budget ps (r # q) reserved =
     (let work = shortest_prefill_work r; charge = neg_ceil_div work ps * ps
      in if work \<ge> remaining \<or> reserved + charge > budget - ps then reserved
         else reserve_short_loop remaining budget ps q (reserved + charge))"

definition shortest_prefill_chunk_limit :: "'a sched_req_scheme \<Rightarrow> 'a sched_req_scheme list \<Rightarrow> int \<Rightarrow> int \<Rightarrow> schedule_policy \<Rightarrow> int option" where
  "shortest_prefill_chunk_limit chunked_req q budget ps sp =
     (if sp_policy sp \<noteq> Aware SHORTEST_PREFILL_FIRST \<or> budget < 2 * ps then None
      else let remaining = int (length (r_full_untruncated_fill_ids chunked_req)) - int (length (r_prefix_indices chunked_req));
               reserved = reserve_short_loop remaining budget ps q 0
           in if reserved = 0 then None else Some ((budget - reserved) div ps * ps))"

record tile_metrics =
  tm_block_m :: int
  tm_request_count :: nat
  tm_extend_lens :: "int list"
  tm_q_tiles_per_request :: "int list"
  tm_max_extend_len :: int
  tm_sum_extend_len :: int
  tm_legacy_q_tiles_per_head :: int
  tm_compact_q_tiles_per_head :: int
  tm_saved_q_tiles_per_head :: int
  tm_saved_q_tile_ratio :: "rat option"

definition max_or_zero :: "int list \<Rightarrow> int" where
  "max_or_zero xs = (if xs = [] then 0 else fold max (tl xs) (hd xs))"

definition estimate_prefill_extend_tile_metrics :: "int list \<Rightarrow> int \<Rightarrow> tile_metrics result" where
  "estimate_prefill_extend_tile_metrics extend_lens block_m =
     (let normalized_lens = map (max 0) extend_lens in
      if block_m = 0 \<and> (\<exists>l\<in>set normalized_lens. l > 0) then Inl ZeroDivisionError
      else let q_tiles = map (\<lambda>l. if l > 0 then neg_ceil_div l block_m else 0) normalized_lens;
               legacy_tiles = int (length q_tiles) * max_or_zero q_tiles;
               compact_tiles = sum_list q_tiles;
               saved_tiles = legacy_tiles - compact_tiles
           in rbind (if legacy_tiles \<noteq> 0 then rbind (truediv saved_tiles legacy_tiles) (\<lambda>x. Inr (Some x)) else Inr None) (\<lambda>saved_ratio.
             Inr \<lparr>tm_block_m = block_m, tm_request_count = length normalized_lens, tm_extend_lens = normalized_lens,
                  tm_q_tiles_per_request = q_tiles, tm_max_extend_len = max_or_zero normalized_lens,
                  tm_sum_extend_len = sum_list normalized_lens, tm_legacy_q_tiles_per_head = legacy_tiles,
                  tm_compact_q_tiles_per_head = compact_tiles, tm_saved_q_tiles_per_head = saved_tiles,
                  tm_saved_q_tile_ratio = saved_ratio\<rparr>))"

end
