(* ===== verification/Prefill_Budget.thy ===== *)
theory Prefill_Budget
  imports Evict_Demand Schedule_Policy
begin

text \<open>
  The memory budget of one prefill pass (\<^verbatim>\<open>mem_cache/prefill_budget.py\<close>): the plain pool, separate full and sliding-window
  pools, and pools that share their memory. A budget asks the cache and the allocator for their current capacity; these queries are the fields
  of \<open>pool_ops\<close> over a state \<open>'w\<close>. Page sizes are positive. The total offset includes estimates
  of decode lengths scaled by a float; it is a rational number here, with exact arithmetic.
\<close>

section \<open>Queries\<close>

record 'w pool_ops =
  po_page_size :: int
  po_available :: "'w \<Rightarrow> int"
  po_supports_mamba :: bool
  po_evictable :: "'w \<Rightarrow> int"
  po_full_available :: "'w \<Rightarrow> int"
  po_full_evictable :: "'w \<Rightarrow> int"
  po_swa_available :: "'w \<Rightarrow> int"
  po_swa_evictable :: "'w \<Rightarrow> int"
  po_size_swa :: int
  po_swa_req_ring :: bool
  po_swa_ring_cost_tokens :: int
  po_sliding_window_size :: "int option"
  po_can_reserve :: "'w \<Rightarrow> rat \<Rightarrow> int \<Rightarrow> int \<Rightarrow> int \<Rightarrow> bool \<Rightarrow> bool \<Rightarrow> bool"

text \<open>Python's \<^verbatim>\<open>int\<close> of a float cuts towards zero.\<close>

definition py_int :: "rat \<Rightarrow> int" where
  "py_int q = (if q \<ge> 0 then \<lfloor>q\<rfloor> else \<lceil>q\<rceil>)"

section \<open>Estimate of one request\<close>

definition estimate_swa_kv_tokens :: "int \<Rightarrow> int \<Rightarrow> int option \<Rightarrow> int \<Rightarrow> int option \<Rightarrow> int \<Rightarrow> int" where
  "estimate_swa_kv_tokens extend_input_len max_new_tokens sliding_window_size page_size allocation_limit host_hit_length =
     (let reserved =
        (case sliding_window_size of
           None \<Rightarrow> extend_input_len + max_new_tokens + page_size
         | Some w \<Rightarrow>
             if w \<le> 0 then extend_input_len + max_new_tokens + page_size
             else let allocated = (case allocation_limit of None \<Rightarrow> extend_input_len | Some l \<Rightarrow> min extend_input_len l);
                      allocated_tail = max (allocated - w) 0
                  in allocated_tail + min (extend_input_len + max_new_tokens) w + page_size)
      in if host_hit_length > 0 then reserved + neg_ceil_div host_hit_length page_size * page_size else reserved)"

section \<open>Budgets\<close>

text \<open>The class of a budget; \<open>SWAPrefillBudget\<close> carries its flag \<^verbatim>\<open>all_swa\<close>.\<close>

datatype budget_class = PrefillBudget | SWAPrefillBudget bool | SharedSWAPrefillBudget

record budget =
  pb_class :: budget_class
  pb_total_offset :: rat
  pb_current_offset :: int
  pb_swa_offset :: int

definition new_budget :: "budget_class \<Rightarrow> int \<Rightarrow> budget" where
  "new_budget c num_mixed_decode_tokens =
     \<lparr>pb_class = c, pb_total_offset = of_int num_mixed_decode_tokens, pb_current_offset = num_mixed_decode_tokens,
      pb_swa_offset = (if c = SharedSWAPrefillBudget then num_mixed_decode_tokens else 0)\<rparr>"

definition ceil_paged_tokens :: "int \<Rightarrow> int \<Rightarrow> int" where
  "ceil_paged_tokens page_size n = neg_ceil_div n page_size * page_size"

definition available_and_evictable :: "'w pool_ops \<Rightarrow> budget \<Rightarrow> 'w \<Rightarrow> int" where
  "available_and_evictable ops b w =
     (case pb_class b of
        PrefillBudget \<Rightarrow> po_available ops w + (if po_supports_mamba ops then po_full_evictable ops w else po_evictable ops w)
      | SWAPrefillBudget True \<Rightarrow> po_swa_available ops w + po_swa_evictable ops w
      | _ \<Rightarrow> po_full_available ops w + po_full_evictable ops w)"

definition remaining_total :: "'w pool_ops \<Rightarrow> budget \<Rightarrow> 'w \<Rightarrow> rat" where
  "remaining_total ops b w = of_int (available_and_evictable ops b w) - pb_total_offset b"

definition remaining_current :: "'w pool_ops \<Rightarrow> budget \<Rightarrow> 'w \<Rightarrow> int" where
  "remaining_current ops b w = available_and_evictable ops b w - pb_current_offset b"

definition remaining_swa :: "'w pool_ops \<Rightarrow> budget \<Rightarrow> 'w \<Rightarrow> int" where
  "remaining_swa ops b w =
     (case pb_class b of
        PrefillBudget \<Rightarrow> 0
      | _ \<Rightarrow> po_swa_available ops w + (if po_swa_req_ring ops then 0 else po_swa_evictable ops w) - pb_swa_offset b)"

definition swa_tokens :: "'w pool_ops \<Rightarrow> int \<Rightarrow> int \<Rightarrow> int option \<Rightarrow> int \<Rightarrow> int" where
  "swa_tokens ops extend_input_len max_new_tokens chunk_limit swa_host_hit_length =
     (if po_swa_req_ring ops then po_swa_ring_cost_tokens ops
      else estimate_swa_kv_tokens extend_input_len max_new_tokens (po_sliding_window_size ops) (po_page_size ops) chunk_limit swa_host_hit_length)"

definition swa_never_fits :: "'w pool_ops \<Rightarrow> int \<Rightarrow> int \<Rightarrow> int option \<Rightarrow> int \<Rightarrow> bool" where
  "swa_never_fits ops extend_input_len max_new_tokens chunk_limit swa_host_hit_length =
     (let needed = swa_tokens ops extend_input_len max_new_tokens chunk_limit swa_host_hit_length
      in if po_swa_req_ring ops then needed > po_size_swa ops else needed \<ge> po_size_swa ops)"

definition chunk_cap :: "'w pool_ops \<Rightarrow> int \<Rightarrow> int \<Rightarrow> budget \<Rightarrow> 'w \<Rightarrow> int" where
  "chunk_cap ops max_new_tokens swa_host_hit_length b w =
     (let headroom = swa_tokens ops 0 max_new_tokens None swa_host_hit_length;
          cap = remaining_swa ops b w - headroom
      in max 0 (cap div po_page_size ops * po_page_size ops))"

section \<open>Shared memory\<close>

definition fits_shared :: "'w pool_ops \<Rightarrow> int \<Rightarrow> int \<Rightarrow> bool \<Rightarrow> budget \<Rightarrow> 'w \<Rightarrow> bool" where
  "fits_shared ops full_tokens swa_toks empty_pool b w =
     po_can_reserve ops w (of_int full_tokens + (if empty_pool then 0 else pb_total_offset b)) (swa_toks + (if empty_pool then 0 else pb_swa_offset b))
       (if empty_pool then 0 else po_full_evictable ops w) (if empty_pool then 0 else po_swa_evictable ops w) empty_pool empty_pool"

function cap_search :: "(int \<Rightarrow> bool) \<Rightarrow> int \<Rightarrow> int \<Rightarrow> int" where
  "cap_search ok lo hi =
     (if lo < hi
      then let mid = (lo + hi + 1) div 2 in if ok mid then cap_search ok mid hi else cap_search ok lo (mid - 1)
      else lo)"
  by pat_completeness auto
termination
  by (relation "measure (\<lambda>(ok, lo, hi). nat (hi - lo))") auto

declare cap_search.simps [simp del]

definition joint_chunk_cap :: "'w pool_ops \<Rightarrow> int \<Rightarrow> int option \<Rightarrow> int \<Rightarrow> budget \<Rightarrow> 'w \<Rightarrow> int" where
  "joint_chunk_cap ops max_chunk_tokens chunk_limit swa_host_hit_length b w =
     (let p = po_page_size ops in
      cap_search (\<lambda>mid. fits_shared ops (mid * p + p) (swa_tokens ops (mid * p) 0 chunk_limit swa_host_hit_length) False b w)
        0 (max 0 max_chunk_tokens div p) * p)"

section \<open>Admission checks\<close>

text \<open>Each method that a subclass overrides dispatches on the class; the branch of \<open>PrefillBudget\<close> is the base method.\<close>

definition check_prefill_swa :: "'w pool_ops \<Rightarrow> int \<Rightarrow> int \<Rightarrow> int \<Rightarrow> int \<Rightarrow> int option \<Rightarrow> budget \<Rightarrow> 'w \<Rightarrow> bool \<times> int option" where
  "check_prefill_swa ops extend_input_len total_tokens max_new_tokens swa_host_hit_length chunk_limit b w =
     (if of_int total_tokens \<ge> remaining_total ops b w then (False, None)
      else let extend_input_len = ceil_paged_tokens (po_page_size ops) extend_input_len;
               needed = swa_tokens ops extend_input_len max_new_tokens chunk_limit swa_host_hit_length;
               fits = (if po_swa_req_ring ops then needed \<le> remaining_swa ops b w else needed < remaining_swa ops b w)
           in if fits then (True, chunk_limit)
              else let cap = (if swa_never_fits ops extend_input_len max_new_tokens chunk_limit swa_host_hit_length
                              then chunk_cap ops max_new_tokens swa_host_hit_length b w else 0)
                   in (case chunk_limit of None \<Rightarrow> (False, None) | Some l \<Rightarrow> if cap \<le> 0 then (False, None) else (True, Some (min l cap))))"

definition check_prefill_shared :: "'w pool_ops \<Rightarrow> int \<Rightarrow> int \<Rightarrow> int \<Rightarrow> int \<Rightarrow> int \<Rightarrow> int option \<Rightarrow> budget \<Rightarrow> 'w \<Rightarrow> bool \<times> int option" where
  "check_prefill_shared ops extend_input_len total_tokens max_new_tokens input_tokens swa_host_hit_length chunk_limit b w =
     (let needed = swa_tokens ops extend_input_len max_new_tokens chunk_limit swa_host_hit_length
      in if fits_shared ops total_tokens needed False b w then (True, chunk_limit)
         else case chunk_limit of
           None \<Rightarrow> (False, None)
         | Some l \<Rightarrow>
             if fits_shared ops (input_tokens + max_new_tokens + po_page_size ops) (swa_tokens ops input_tokens max_new_tokens chunk_limit 0) True b w
             then (False, None)
             else let cap = joint_chunk_cap ops (min l (max 0 (extend_input_len - 1))) chunk_limit swa_host_hit_length b w
                  in if cap > 0 then (True, Some (min l cap)) else (False, None))"

definition check_prefill :: "'w pool_ops \<Rightarrow> int \<Rightarrow> int \<Rightarrow> int \<Rightarrow> int \<Rightarrow> int \<Rightarrow> int option \<Rightarrow> budget \<Rightarrow> 'w \<Rightarrow> bool \<times> int option" where
  "check_prefill ops extend_input_len total_tokens max_new_tokens input_tokens swa_host_hit_length chunk_limit b w =
     (case pb_class b of
        PrefillBudget \<Rightarrow> if of_int total_tokens < remaining_total ops b w then (True, chunk_limit) else (False, None)
      | SWAPrefillBudget _ \<Rightarrow> check_prefill_swa ops extend_input_len total_tokens max_new_tokens swa_host_hit_length chunk_limit b w
      | SharedSWAPrefillBudget \<Rightarrow>
          check_prefill_shared ops extend_input_len total_tokens max_new_tokens input_tokens swa_host_hit_length chunk_limit b w)"

definition has_capacity :: "'w pool_ops \<Rightarrow> budget \<Rightarrow> 'w \<Rightarrow> bool" where
  "has_capacity ops b w =
     (case pb_class b of
        PrefillBudget \<Rightarrow> remaining_total ops b w > 0 \<and> remaining_current ops b w > 0
      | SWAPrefillBudget _ \<Rightarrow> (remaining_total ops b w > 0 \<and> remaining_current ops b w > 0) \<and> remaining_swa ops b w > 0
      | SharedSWAPrefillBudget \<Rightarrow> fits_shared ops 0 0 False b w)"

definition can_allocate_prefill_shared :: "'w pool_ops \<Rightarrow> int \<Rightarrow> int \<Rightarrow> int option \<Rightarrow> budget \<Rightarrow> 'w \<Rightarrow> bool" where
  "can_allocate_prefill_shared ops extend_input_len max_new_tokens chunk_limit b w =
     fits_shared ops (extend_input_len + max_new_tokens + po_page_size ops) (swa_tokens ops extend_input_len max_new_tokens chunk_limit 0) False b w"

definition can_allocate_prefill_swa :: "'w pool_ops \<Rightarrow> bool \<Rightarrow> int \<Rightarrow> int \<Rightarrow> int option \<Rightarrow> budget \<Rightarrow> 'w \<Rightarrow> bool" where
  "can_allocate_prefill_swa ops base extend_input_len max_new_tokens chunk_limit b w \<longleftrightarrow>
     base \<and> swa_tokens ops extend_input_len max_new_tokens chunk_limit 0 \<le> remaining_swa ops b w"

definition can_allocate_prefill :: "'w pool_ops \<Rightarrow> int \<Rightarrow> int \<Rightarrow> int \<Rightarrow> int option \<Rightarrow> budget \<Rightarrow> 'w \<Rightarrow> bool" where
  "can_allocate_prefill ops paged_input extend_input_len max_new_tokens chunk_limit b w =
     (let base = of_int paged_input \<le> min (of_int (remaining_current ops b w)) (remaining_total ops b w)
      in case pb_class b of
        PrefillBudget \<Rightarrow> base
      | SWAPrefillBudget _ \<Rightarrow> can_allocate_prefill_swa ops base extend_input_len max_new_tokens chunk_limit b w
      | SharedSWAPrefillBudget \<Rightarrow> can_allocate_prefill_shared ops extend_input_len max_new_tokens chunk_limit b w)"

definition available_chunk_tokens_swa :: "'w pool_ops \<Rightarrow> int \<Rightarrow> budget \<Rightarrow> 'w \<Rightarrow> int option" where
  "available_chunk_tokens_swa ops chunk_limit b w =
     (let available = min chunk_limit (py_int (remaining_total ops b w));
          available = (if \<not> po_swa_req_ring ops then min available (remaining_swa ops b w - po_page_size ops) else available)
      in if available > 0 then Some available else None)"

definition available_chunk_tokens :: "'w pool_ops \<Rightarrow> int \<Rightarrow> budget \<Rightarrow> 'w \<Rightarrow> int option" where
  "available_chunk_tokens ops chunk_limit b w =
     (case pb_class b of
        PrefillBudget \<Rightarrow> let available = min chunk_limit (py_int (remaining_total ops b w)) in Some (if available > 0 then available else chunk_limit)
      | SWAPrefillBudget _ \<Rightarrow> available_chunk_tokens_swa ops chunk_limit b w
      | SharedSWAPrefillBudget \<Rightarrow> if chunk_limit > 0 then Some chunk_limit else None)"

definition fit_chunk_shared :: "'w pool_ops \<Rightarrow> int \<Rightarrow> int \<Rightarrow> int \<Rightarrow> budget \<Rightarrow> 'w \<Rightarrow> int option" where
  "fit_chunk_shared ops extend_input_len max_new_tokens chunk_limit b w =
     (let candidate = min extend_input_len chunk_limit;
          finishes = candidate \<ge> extend_input_len;
          headroom = (if finishes then max_new_tokens else 0)
      in if fits_shared ops (candidate + headroom + po_page_size ops) (swa_tokens ops candidate headroom (Some chunk_limit) 0) False b w
         then Some chunk_limit
         else let cap = joint_chunk_cap ops (if finishes then max 0 (candidate - 1) else candidate) (Some chunk_limit) 0 b w
              in if cap > 0 then Some (min chunk_limit cap) else None)"

definition fit_chunk :: "'w pool_ops \<Rightarrow> int \<Rightarrow> int \<Rightarrow> int \<Rightarrow> budget \<Rightarrow> 'w \<Rightarrow> int option" where
  "fit_chunk ops extend_input_len max_new_tokens chunk_limit b w =
     (if pb_class b = SharedSWAPrefillBudget then fit_chunk_shared ops extend_input_len max_new_tokens chunk_limit b w else Some chunk_limit)"

definition reserve_swa :: "'w pool_ops \<Rightarrow> int \<Rightarrow> int \<Rightarrow> int option \<Rightarrow> bool \<Rightarrow> budget \<Rightarrow> budget" where
  "reserve_swa ops extend_input_len max_new_tokens chunk_limit is_chunked_continuation b =
     (if po_swa_req_ring ops \<and> is_chunked_continuation then b
      else b\<lparr>pb_swa_offset := pb_swa_offset b + swa_tokens ops (ceil_paged_tokens (po_page_size ops) extend_input_len) max_new_tokens chunk_limit 0\<rparr>)"

definition reserve :: "'w pool_ops \<Rightarrow> int \<Rightarrow> int \<Rightarrow> int \<Rightarrow> int option \<Rightarrow> bool \<Rightarrow> budget \<Rightarrow> budget" where
  "reserve ops extend_input_len max_new_tokens extra_tokens chunk_limit is_chunked_continuation b =
     (let ext = ceil_paged_tokens (po_page_size ops) extend_input_len;
          immediate = ext + po_page_size ops + extra_tokens;
          b = b\<lparr>pb_total_offset := pb_total_offset b + of_int (immediate + max_new_tokens), pb_current_offset := pb_current_offset b + immediate\<rparr>
      in if pb_class b = PrefillBudget then b else reserve_swa ops extend_input_len max_new_tokens chunk_limit is_chunked_continuation b)"

section \<open>Properties\<close>

lemma ceil_paged_bounds:
  assumes "0 < p"
  shows "n \<le> ceil_paged_tokens p n" "ceil_paged_tokens p n < n + p" "p dvd ceil_paged_tokens p n"
  using ceil_align_ge [OF assms, of n] ceil_align_less [OF assms, of n] assms
  by (simp_all add: ceil_paged_tokens_def neg_ceil_div_eq ceil_align_def)

text \<open>
  Property C32: the estimate for the sliding-window pool lies between what the pass really allocates and what the request could ever need: at
  least the tokens of this chunk, a page of slack and the pages loaded back from the host; at most the whole
  extension and output with the same additions. So a window cap never under-reserves the prefill and never
  reserves more than an uncapped pool.
\<close>

theorem swa_estimate_covers_allocation:
  fixes page_size host_hit_length :: int
  assumes "0 \<le> extend_input_len" "0 \<le> max_new_tokens"
  defines "extra \<equiv> page_size + (if host_hit_length > 0 then ceil_paged_tokens page_size host_hit_length else 0)"
  shows "(case allocation_limit of None \<Rightarrow> extend_input_len | Some l \<Rightarrow> min extend_input_len l) + extra
      \<le> estimate_swa_kv_tokens extend_input_len max_new_tokens window page_size allocation_limit host_hit_length \<and>
    estimate_swa_kv_tokens extend_input_len max_new_tokens window page_size allocation_limit host_hit_length \<le> extend_input_len + max_new_tokens + extra"
  using assms by (auto simp: estimate_swa_kv_tokens_def ceil_paged_tokens_def Let_def split: option.split)

theorem swa_estimate_covers_allocation_witness:
  "512 + 64 \<le> estimate_swa_kv_tokens 8192 100 (Some 128) 64 (Some 512) 0 \<and> estimate_swa_kv_tokens 8192 100 (Some 128) 64 (Some 512) 0 = 576"
  using swa_estimate_covers_allocation [of 8192 100 "Some 512" 64 0 "Some 128"] by (simp add: estimate_swa_kv_tokens_def)

lemma cap_search_spec:
  "(\<And>j k. ok k \<Longrightarrow> j \<le> k \<Longrightarrow> ok j) \<Longrightarrow> lo \<le> hi \<Longrightarrow>
    lo \<le> cap_search ok lo hi \<and> cap_search ok lo hi \<le> hi \<and> (cap_search ok lo hi = lo \<or> ok (cap_search ok lo hi)) \<and>
    (\<forall>k. cap_search ok lo hi < k \<and> k \<le> hi \<longrightarrow> \<not> ok k)"
proof (induction ok lo hi rule: cap_search.induct)
  case (1 ok lo hi)
  let ?mid = "(lo + hi + 1) div 2"
  show ?case
  proof (cases "lo < hi")
    case True
    then have mid: "lo < ?mid" "?mid \<le> hi" by auto
    show ?thesis
    proof (cases "ok ?mid")
      case ok: True
      then have e: "cap_search ok lo hi = cap_search ok ?mid hi" using True by (simp add: cap_search.simps [of ok lo hi] Let_def)
      let ?r = "cap_search ok ?mid hi"
      have ih: "?mid \<le> ?r \<and> ?r \<le> hi \<and> (?r = ?mid \<or> ok ?r) \<and> (\<forall>k. ?r < k \<and> k \<le> hi \<longrightarrow> \<not> ok k)"
        by (rule 1(1) [OF True refl ok _ mid(2)]) (rule 1(3))
      have "ok ?r" using ih ok by (cases "?r = ?mid") simp_all
      moreover have "lo \<le> ?r" using ih mid(1) by linarith
      ultimately show ?thesis using ih unfolding e by blast
    next
      case no: False
      then have e: "cap_search ok lo hi = cap_search ok lo (?mid - 1)" using True by (simp add: cap_search.simps [of ok lo hi] Let_def)
      let ?r = "cap_search ok lo (?mid - 1)"
      have up: "\<not> ok k" if "?mid \<le> k" for k using 1(3) [of k ?mid] no that by blast
      have "lo \<le> ?mid - 1" using mid(1) by linarith
      then have ih: "lo \<le> ?r \<and> ?r \<le> ?mid - 1 \<and> (?r = lo \<or> ok ?r) \<and> (\<forall>k. ?r < k \<and> k \<le> ?mid - 1 \<longrightarrow> \<not> ok k)"
        by (intro 1(2) [OF True refl no]) (rule 1(3))
      have "\<not> ok k" if "?r < k" for k
      proof (cases "?mid \<le> k")
        case False
        then have "k \<le> ?mid - 1" by linarith
        then show ?thesis using ih that by blast
      qed (rule up)
      moreover have "?r \<le> hi" using ih mid(2) by linarith
      ultimately show ?thesis using ih unfolding e by blast
    qed
  next
    case False
    then have "cap_search ok lo hi = lo" by (simp add: cap_search.simps [of ok lo hi])
    then show ?thesis using 1(4) False by auto
  qed
qed

lemma estimate_mono:
  "e \<le> e' \<Longrightarrow> estimate_swa_kv_tokens e m win p l h \<le> estimate_swa_kv_tokens e' m win p l h"
  by (auto simp: estimate_swa_kv_tokens_def Let_def split: option.split)


text \<open>An allocator over 100 shared units, for a window of 8 tokens and pages of 4.\<close>

definition ex_shared_ops :: "int pool_ops" where
  "ex_shared_ops = \<lparr>po_page_size = 4, po_available = id, po_supports_mamba = False, po_evictable = (\<lambda>w. 0), po_full_available = id,
     po_full_evictable = (\<lambda>w. 0), po_swa_available = id, po_swa_evictable = (\<lambda>w. 0), po_size_swa = 100, po_swa_req_ring = False,
     po_swa_ring_cost_tokens = 0, po_sliding_window_size = Some 8,
     po_can_reserve = (\<lambda>w f t fe se e r. f + of_int t \<le> of_int w)\<rparr>"


end
