(* ===== verification/Prefill_Adder.thy ===== *)
theory Prefill_Adder
  imports Prefill_Budget
begin

text \<open>
  Admission of requests to a prefill batch: \<^verbatim>\<open>PrefillAdder\<close> of \<^verbatim>\<open>managers/schedule_policy.py\<close>. The tree cache is used through its
  interface (\<open>tree_ops\<close>) over a state \<open>'w\<close>, as in the code; \<open>radix_tree_ops\<close> is the instance for the radix cache. The verdict
  of the prefill delayer is a field of the adder. Requests are values: the functions return the updated request, and the list
  of admitted requests holds it in that state. Lock receipts, which the radix cache ignores, and log lines are left out.
\<close>

section \<open>Requests and settings\<close>

record adm_req = sched_req +
  r_retracted_stain :: bool
  r_is_retracted :: bool
  r_host_loaded_length :: nat
  r_host_hit_is_storage :: bool
  r_ignore_eos :: bool
  r_dllm_incomplete_ids :: "int list"
  r_finished :: bool
  r_to_finish :: "string option"

definition needs_host_load_back :: "adm_req \<Rightarrow> bool" where
  "needs_host_load_back r = (r_host_hit_length r > 0 \<or> r_swa_host_hit_length r > 0 \<or> r_mamba_host_hit_length r > 0)"

definition materialized_host_hit_len :: "adm_req \<Rightarrow> nat" where
  "materialized_host_hit_len r = min (r_host_hit_length r) (r_host_loaded_length r)"

text \<open>The fields of the model that the abort changes.\<close>

definition set_finish_with_abort :: "string \<Rightarrow> adm_req \<Rightarrow> adm_req" where
  "set_finish_with_abort msg r = r\<lparr>r_origin_input_ids := [0], r_return_logprob := False, r_logprob_start_len := -1, r_to_finish := Some msg\<rparr>"

record adm_env =
  ae_clip_max_new_tokens :: int
  ae_is_hip :: bool
  ae_prefill_tile_budget :: int
  ae_tile_mode_compact :: bool
  ae_exact_chunk_fill :: bool
  ae_encoder_swa_bounded_replay :: bool
  ae_shortest_prefill_first :: bool
  ae_low_priority_values_first :: bool

datatype add_req_result = CONTINUE | NO_TOKEN | OTHER | ABORT

record prefill_admission =
  ad_prefix_len :: int
  ad_extend_len :: int
  ad_max_new_tokens :: int
  ad_is_chunked :: bool

record 'w tree_ops =
  t_disable :: "'w \<Rightarrow> bool"
  t_inc_lock :: "nat option \<Rightarrow> 'w \<Rightarrow> 'w result"
  t_dec_lock :: "nat option \<Rightarrow> 'w \<Rightarrow> 'w result"
  t_init_load_back :: "adm_req \<Rightarrow> 'w \<Rightarrow> ((int list \<times> nat option) option \<times> 'w) result"
  t_discard_prefetch :: "adm_req \<Rightarrow> 'w \<Rightarrow> 'w"
  t_finish_prefetch :: "adm_req \<Rightarrow> nat \<Rightarrow> string option \<Rightarrow> 'w \<Rightarrow> 'w"
  t_release_req :: "adm_req \<Rightarrow> nat \<Rightarrow> 'w \<Rightarrow> (adm_req \<times> 'w) result"

section \<open>State\<close>

text \<open>\<open>pa_dllm\<close> is the block size and the remaining tokens of a diffusion model; \<open>pa_delayer\<close> the verdict of the delayer, if there is one.\<close>

record adder =
  pa_page_size :: int
  pa_tile_block_m :: int
  pa_running_batch :: "adm_req list option"
  pa_new_token_ratio :: rat
  pa_rem_input_tokens :: int
  pa_rem_chunk_tokens :: "int option"
  pa_chunked_req_limit :: "int option"
  pa_dllm :: "(int \<times> int) option"
  pa_exact_chunk_fill :: bool
  pa_memory_budget :: budget
  pa_req_states :: "(rat \<times> nat) list option"
  pa_can_run_list :: "adm_req list"
  pa_preempt_list :: "adm_req list"
  pa_new_chunked_req :: "adm_req option"
  pa_log_hit_tokens :: int
  pa_reprocessed_log_hit_tokens :: int
  pa_log_device_hit_tokens :: int
  pa_log_host_hit_tokens :: int
  pa_log_storage_hit_tokens :: int
  pa_log_input_tokens :: int
  pa_log_replay_tokens :: int
  pa_reprocessed_log_input_tokens :: int
  pa_is_hybrid_swa :: bool
  pa_mamba_slot_cost :: int
  pa_rem_mamba_slots :: "int option"
  pa_preemption_threshold :: int
  pa_prefill_max_requests :: "nat option"
  pa_delayer :: "bool option"

definition running_request_total_token_offset :: "adm_env \<Rightarrow> rat \<Rightarrow> adm_req \<Rightarrow> rat" where
  "running_request_total_token_offset env new_token_ratio r =
     of_int (min (r_max_new_tokens r - int (length (r_output_ids r))) (ae_clip_max_new_tokens env)) * new_token_ratio"

definition PrefillAdder :: "adm_env \<Rightarrow> int \<Rightarrow> int \<Rightarrow> budget_class \<Rightarrow> adm_req list option \<Rightarrow> rat \<Rightarrow> int \<Rightarrow> int option \<Rightarrow> int \<Rightarrow> int \<Rightarrow> nat option \<Rightarrow>
    bool option \<Rightarrow> (int \<times> int) option \<Rightarrow> bool \<Rightarrow> int \<Rightarrow> int option \<Rightarrow> adder" where
  "PrefillAdder env page_size block_m cls running_batch new_token_ratio rem_input_tokens rem_chunk_tokens num_mixed_decode_tokens
     preemption_threshold prefill_max_requests delayer dllm_config hybrid_swa mamba_slot_cost mamba_slots =
     (let b = new_budget cls num_mixed_decode_tokens;
          b = (case running_batch of None \<Rightarrow> b
               | Some rs \<Rightarrow> b\<lparr>pb_total_offset := pb_total_offset b + sum_list (map (running_request_total_token_offset env new_token_ratio) rs)\<rparr>)
      in \<lparr>pa_page_size = page_size, pa_tile_block_m = block_m, pa_running_batch = running_batch, pa_new_token_ratio = new_token_ratio,
          pa_rem_input_tokens = rem_input_tokens - num_mixed_decode_tokens,
          pa_rem_chunk_tokens = map_option (\<lambda>c. c - num_mixed_decode_tokens) rem_chunk_tokens, pa_chunked_req_limit = None,
          pa_dllm = map_option (\<lambda>(block_size, max_running). (block_size, max_running * block_size)) dllm_config,
          pa_exact_chunk_fill = (ae_exact_chunk_fill env \<and> dllm_config = None), pa_memory_budget = b, pa_req_states = None,
          pa_can_run_list = [], pa_preempt_list = [], pa_new_chunked_req = None, pa_log_hit_tokens = 0,
          pa_reprocessed_log_hit_tokens = 0, pa_log_device_hit_tokens = 0, pa_log_host_hit_tokens = 0, pa_log_storage_hit_tokens = 0,
          pa_log_input_tokens = 0, pa_log_replay_tokens = 0, pa_reprocessed_log_input_tokens = 0, pa_is_hybrid_swa = hybrid_swa,
          pa_mamba_slot_cost = mamba_slot_cost, pa_rem_mamba_slots = (if mamba_slot_cost \<noteq> 0 then mamba_slots else None),
          pa_preemption_threshold = preemption_threshold, pa_prefill_max_requests = prefill_max_requests, pa_delayer = delayer\<rparr>)"

section \<open>Tiles\<close>

text \<open>Requests have no attribute \<^verbatim>\<open>extend_input_len\<close>, so the default 0 is read for each of them.\<close>

definition admitted_extend_lens :: "adder \<Rightarrow> int list" where
  "admitted_extend_lens a = map (\<lambda>r. 0) (pa_can_run_list a)"

definition candidate_tile_metrics :: "int \<Rightarrow> adder \<Rightarrow> tile_metrics result" where
  "candidate_tile_metrics candidate_extend_len a =
     estimate_prefill_extend_tile_metrics (admitted_extend_lens a @ [candidate_extend_len]) (pa_tile_block_m a)"

definition check_prefill_tile_budget :: "adm_env \<Rightarrow> int \<Rightarrow> adder \<Rightarrow> add_req_result option result" where
  "check_prefill_tile_budget env candidate_extend_len a =
     (if \<not> ae_is_hip env \<or> ae_prefill_tile_budget env \<le> 0 then Inr None
      else if pa_can_run_list a = [] then Inr None
      else rbind (candidate_tile_metrics candidate_extend_len a) (\<lambda>m.
        let candidate_metric = (if ae_tile_mode_compact env then tm_compact_q_tiles_per_head m else tm_legacy_q_tiles_per_head m)
        in Inr (if candidate_metric \<le> ae_prefill_tile_budget env then None else Some OTHER)))"

section \<open>Remaining tokens\<close>

definition rem_total_tokens :: "'w pool_ops \<Rightarrow> adder \<Rightarrow> 'w \<Rightarrow> rat" where
  "rem_total_tokens ops a w = remaining_total ops (pa_memory_budget a) w"

definition cur_rem_tokens :: "'w pool_ops \<Rightarrow> adder \<Rightarrow> 'w \<Rightarrow> int" where
  "cur_rem_tokens ops a w = remaining_current ops (pa_memory_budget a) w"

definition rem_swa_tokens :: "'w pool_ops \<Rightarrow> adder \<Rightarrow> 'w \<Rightarrow> int" where
  "rem_swa_tokens ops a w = remaining_swa ops (pa_memory_budget a) w"

definition swa_req_ring :: "'w pool_ops \<Rightarrow> adder \<Rightarrow> bool" where
  "swa_req_ring ops a = (pb_class (pa_memory_budget a) \<noteq> PrefillBudget \<and> po_swa_req_ring ops)"

definition swa_budget_for_req :: "'w pool_ops \<Rightarrow> int \<Rightarrow> int \<Rightarrow> int \<Rightarrow> adder \<Rightarrow> int" where
  "swa_budget_for_req ops extend_input_len max_new_tokens swa_host_hit_length a =
     (if pb_class (pa_memory_budget a) = PrefillBudget then extend_input_len + max_new_tokens + pa_page_size a
      else swa_tokens ops extend_input_len max_new_tokens (pa_rem_chunk_tokens a) swa_host_hit_length)"

definition swa_reserved_tokens :: "'w pool_ops \<Rightarrow> int \<Rightarrow> int \<Rightarrow> int \<Rightarrow> adder \<Rightarrow> int" where
  "swa_reserved_tokens ops extend_input_len max_new_tokens swa_host_hit_length a =
     (if pb_class (pa_memory_budget a) = PrefillBudget
      then let window = (case po_sliding_window_size ops of None \<Rightarrow> 0 | Some n \<Rightarrow> n);
               headroom = (if window \<noteq> 0 then min (extend_input_len + max_new_tokens) window else extend_input_len + max_new_tokens);
               reserved = headroom + pa_page_size a
           in if swa_host_hit_length > 0 then reserved + ceil_paged_tokens (pa_page_size a) swa_host_hit_length else reserved
      else swa_tokens ops extend_input_len max_new_tokens None swa_host_hit_length)"

definition swa_new_tokens :: "adm_env \<Rightarrow> adm_req \<Rightarrow> int" where
  "swa_new_tokens env r = min (max (r_max_new_tokens r - int (length (r_output_ids r))) 0) (ae_clip_max_new_tokens env)"

definition swa_wait_is_futile :: "'w pool_ops \<Rightarrow> adder \<Rightarrow> bool" where
  "swa_wait_is_futile ops a =
     (if swa_req_ring ops a then False
      else case pa_running_batch a of None \<Rightarrow> True | Some rs \<Rightarrow> list_all r_finished rs)"

definition abort_swa_unadmittable :: "adm_req \<Rightarrow> add_req_result \<times> adm_req" where
  "abort_swa_unadmittable r = (ABORT, set_finish_with_abort ''Cannot admit prefill'' r)"

definition swa_chunk_cap :: "'w pool_ops \<Rightarrow> int \<Rightarrow> int \<Rightarrow> adder \<Rightarrow> 'w \<Rightarrow> int" where
  "swa_chunk_cap ops max_new_tokens swa_host_hit_length a w =
     (let cap = rem_swa_tokens ops a w - swa_reserved_tokens ops 0 max_new_tokens swa_host_hit_length a
      in if cap \<le> 0 then 0 else cap div pa_page_size a * pa_page_size a)"

definition swa_req_never_fits :: "'w pool_ops \<Rightarrow> int \<Rightarrow> int \<Rightarrow> int \<Rightarrow> adder \<Rightarrow> bool" where
  "swa_req_never_fits ops extend_input_len max_new_tokens swa_host_hit_length a =
     (swa_budget_for_req ops extend_input_len max_new_tokens swa_host_hit_length a \<ge> po_size_swa ops)"

definition apply_swa_token_gate :: "adm_env \<Rightarrow> 'w pool_ops \<Rightarrow> int \<Rightarrow> adm_req \<Rightarrow> int option \<Rightarrow> adder \<Rightarrow> 'w
    \<Rightarrow> add_req_result option \<times> int option \<times> adm_req" where
  "apply_swa_token_gate env ops real_input_tokens r chunk_tokens_limit a w =
     (if \<not> pa_is_hybrid_swa a then (None, chunk_tokens_limit, r)
      else
        let max_new = swa_new_tokens env r; host_hit = int (r_swa_host_hit_length r);
            swa_needed = swa_budget_for_req ops real_input_tokens max_new host_hit a;
            blocked = (if swa_req_ring ops a then swa_needed > rem_swa_tokens ops a w else swa_needed \<ge> rem_swa_tokens ops a w)
        in if \<not> blocked then (None, chunk_tokens_limit, r)
           else
             let never_fits = swa_req_never_fits ops real_input_tokens max_new host_hit a;
                 wait_futile = swa_wait_is_futile ops a;
                 swa_cap = swa_chunk_cap ops max_new host_hit a w;
                 swa_cap = (if swa_cap \<le> 0 \<and> wait_futile \<and> rem_swa_tokens ops a w \<ge> pa_page_size a then pa_page_size a else swa_cap)
             in case pa_rem_chunk_tokens a of
                  Some c \<Rightarrow> if swa_cap > 0 then (None, Some (min c swa_cap), r)
                             else if wait_futile then (let (v, r) = abort_swa_unadmittable r in (Some v, chunk_tokens_limit, r))
                             else (Some NO_TOKEN, chunk_tokens_limit, r)
                | None \<Rightarrow> if wait_futile \<or> never_fits then (let (v, r) = abort_swa_unadmittable r in (Some v, chunk_tokens_limit, r))
                           else (Some NO_TOKEN, chunk_tokens_limit, r))"

definition mamba_gap_budget_for_req :: "adm_req \<Rightarrow> adder \<Rightarrow> int" where
  "mamba_gap_budget_for_req r a = (if pa_mamba_slot_cost a \<noteq> 0 \<and> \<not> holds_mamba (r_kv r) then pa_mamba_slot_cost a else 0)"

definition budget_state :: "'w pool_ops \<Rightarrow> adder \<Rightarrow> 'w \<Rightarrow> add_req_result" where
  "budget_state ops a w =
     (let no_token = \<not> has_capacity ops (pa_memory_budget a) w;
          no_token = (case pa_rem_mamba_slots a of Some n \<Rightarrow> if \<not> no_token then n \<le> 0 else no_token | None \<Rightarrow> no_token)
      in if no_token then NO_TOKEN
         else if pa_rem_input_tokens a \<le> 0 then OTHER
         else case pa_dllm a of
                Some (_, rem_dllm_tokens) \<Rightarrow> if rem_dllm_tokens \<le> 0 then OTHER else CONTINUE
              | None \<Rightarrow> (case pa_rem_chunk_tokens a of Some c \<Rightarrow> if c \<le> 0 then OTHER else CONTINUE | None \<Rightarrow> CONTINUE))"

section \<open>Charging an admitted request\<close>

definition update_prefill_budget :: "'w pool_ops \<Rightarrow> int \<Rightarrow> int \<Rightarrow> int \<Rightarrow> bool \<Rightarrow> int \<Rightarrow> bool \<Rightarrow> int option \<Rightarrow> adder \<Rightarrow> adder" where
  "update_prefill_budget ops prefix_len extend_input_len max_new_tokens retracted_stain mamba_gap_reserve is_chunked_continuation compute_charge a =
     (let raw_extend_input_len = extend_input_len;
          extend_input_len = ceil_paged_tokens (pa_page_size a) extend_input_len;
          charge = (case compute_charge of None \<Rightarrow> extend_input_len | Some c \<Rightarrow> c);
          a = a\<lparr>pa_memory_budget := reserve ops extend_input_len max_new_tokens mamba_gap_reserve (pa_rem_chunk_tokens a) is_chunked_continuation (pa_memory_budget a)\<rparr>;
          a = a\<lparr>pa_rem_mamba_slots := (if mamba_gap_reserve \<noteq> 0 then map_option (\<lambda>n. n - 1) (pa_rem_mamba_slots a) else pa_rem_mamba_slots a),
                pa_rem_input_tokens := pa_rem_input_tokens a - charge\<rparr>;
          a = (case pa_dllm a of
                 Some (block, rem) \<Rightarrow> a\<lparr>pa_dllm := Some (block, rem - charge)\<rparr>
               | None \<Rightarrow> a\<lparr>pa_rem_chunk_tokens := map_option (\<lambda>c. c - charge) (pa_rem_chunk_tokens a)\<rparr>);
          a = a\<lparr>pa_log_hit_tokens := pa_log_hit_tokens a + prefix_len, pa_log_input_tokens := pa_log_input_tokens a + raw_extend_input_len\<rparr>
      in if retracted_stain
         then a\<lparr>pa_reprocessed_log_hit_tokens := pa_reprocessed_log_hit_tokens a + prefix_len,
                pa_reprocessed_log_input_tokens := pa_reprocessed_log_input_tokens a + raw_extend_input_len\<rparr>
         else a)"

definition account_prefill_cache_admission :: "adm_env \<Rightarrow> 'w tree_ops \<Rightarrow> adm_req \<Rightarrow> nat \<Rightarrow> adder \<Rightarrow> 'w \<Rightarrow> adder \<times> 'w" where
  "account_prefill_cache_admission env tops r prefix_len a w =
     (let a = (if ae_encoder_swa_bounded_replay env \<and> (req_pool_idx (r_kv r) = None \<or> r_is_retracted r)
               then let replay_tokens = int (min prefix_len 128)
                    in a\<lparr>pa_log_replay_tokens := pa_log_replay_tokens a + replay_tokens, pa_rem_input_tokens := pa_rem_input_tokens a - replay_tokens,
                         pa_rem_chunk_tokens := map_option (\<lambda>c. c - replay_tokens) (pa_rem_chunk_tokens a)\<rparr>
               else a)
      in if r_retracted_stain r then (a, t_discard_prefetch tops r w)
         else
           let a = (if prefix_len > 0
                    then let (device_hit, host_hit, storage_hit) =
                           split_cached_prefix_by_tier (int prefix_len) (int (materialized_host_hit_len r)) (int (r_storage_hit_length r))
                             (map_option int (r_storage_hit_start r)) (r_host_hit_is_storage r)
                         in a\<lparr>pa_log_device_hit_tokens := pa_log_device_hit_tokens a + device_hit,
                              pa_log_host_hit_tokens := pa_log_host_hit_tokens a + host_hit,
                              pa_log_storage_hit_tokens := pa_log_storage_hit_tokens a + storage_hit\<rparr>
                    else a);
               fulfilled_storage_hit = fulfilled_storage_hit_len prefix_len r;
               reason = (if fulfilled_storage_hit < r_storage_hit_length r
                         then Some (if needs_host_load_back r \<and> r_host_loaded_length r < r_host_hit_length r
                                    then ''device_capacity'' else ''cache_admission_shortfall'')
                         else None)
           in (a, t_finish_prefetch tops r fulfilled_storage_hit reason w))"

definition cand_extend_input_len :: "adm_req \<Rightarrow> int" where
  "cand_extend_input_len r = int (length (r_full_untruncated_fill_ids r)) - int (length (r_prefix_indices r))"

text \<open>\<^verbatim>\<open>set_extend_range\<close> with the integers the adder computes; negative bounds do not occur.\<close>

definition extend_to :: "int \<Rightarrow> int \<Rightarrow> adm_req \<Rightarrow> adm_req" where
  "extend_to start en r = set_extend_range (nat start) (nat en) r"

definition admit :: "adm_req \<Rightarrow> adder \<Rightarrow> adder" where
  "admit r a = a\<lparr>pa_can_run_list := pa_can_run_list a @ [r]\<rparr>"

section \<open>Diffusion models\<close>

definition get_dllm_remain_tokens :: "'w pool_ops \<Rightarrow> adder \<Rightarrow> 'w \<Rightarrow> int result" where
  "get_dllm_remain_tokens ops a w =
     (case pa_dllm a of
        None \<Rightarrow> Inl AttributeError
      | Some (dllm_block_size, rem_dllm_tokens) \<Rightarrow>
          let n = min (min rem_dllm_tokens dllm_block_size) (py_int (rem_total_tokens ops a w))
          in Inr (if n \<le> 0 then rem_dllm_tokens else n))"

definition add_dllm_req :: "adm_env \<Rightarrow> 'w pool_ops \<Rightarrow> 'w tree_ops \<Rightarrow> adm_req \<Rightarrow> nat \<Rightarrow> adder \<Rightarrow> 'w \<Rightarrow> (adm_req \<times> adder \<times> 'w) result" where
  "add_dllm_req env ops tops r prefix_len a w =
     (case pa_dllm a of
        None \<Rightarrow> Inl AttributeError
      | Some (dllm_block_size, rem_dllm_tokens) \<Rightarrow>
          let trunc_len = min rem_dllm_tokens dllm_block_size div pa_page_size a * pa_page_size a;
              r = extend_to (int prefix_len) (int prefix_len + trunc_len) r;
              a = admit r a;
              a = update_prefill_budget ops (int prefix_len) trunc_len 0 (r_retracted_stain r) (mamba_gap_budget_for_req r a) False None a;
              (a, w) = account_prefill_cache_admission env tops r prefix_len a w
          in Inr (r, a, w))"

definition add_dllm_staging_req :: "adm_env \<Rightarrow> 'w pool_ops \<Rightarrow> adm_req \<Rightarrow> adder \<Rightarrow> 'w \<Rightarrow> (add_req_result \<times> adm_req \<times> adder) result" where
  "add_dllm_staging_req env ops r a w =
     rbind (py_assert (pa_dllm a \<noteq> None) ''dllm_config'') (\<lambda>_.
     rbind (get_dllm_remain_tokens ops a w) (\<lambda>rem.
       if rem \<le> 0 then Inr (NO_TOKEN, r, a)
       else let cand = cand_extend_input_len r
            in if r_dllm_incomplete_ids r \<noteq> [] \<and> cand > rem then Inr (NO_TOKEN, r, a)
               else let truncated = cand > rem; new_len = min cand rem; prefix_len = int (length (r_prefix_indices r));
                        r = extend_to prefix_len (prefix_len + new_len) r;
                        a = admit r a;
                        max_new_tokens = (if \<not> truncated then min (r_max_new_tokens r) (ae_clip_max_new_tokens env) else 0);
                        a = update_prefill_budget ops 0 new_len max_new_tokens (r_retracted_stain r) (mamba_gap_budget_for_req r a) False None a
                    in rbind (get_dllm_remain_tokens ops a w) (\<lambda>rem. Inr (if rem \<le> 0 then NO_TOKEN else CONTINUE, r, a))))"

section \<open>The chunked request\<close>

text \<open>The first component of the result is the request if its prefill is not finished.\<close>

definition add_chunked_req :: "adm_env \<Rightarrow> 'w pool_ops \<Rightarrow> adm_req \<Rightarrow> adder \<Rightarrow> 'w \<Rightarrow> (adm_req option \<times> adm_req \<times> adder) result" where
  "add_chunked_req env ops r a w =
     rbind (case pa_dllm a of
              Some _ \<Rightarrow> rbind (get_dllm_remain_tokens ops a w) (\<lambda>n. Inr (Some n))
            | None \<Rightarrow>
                (case pa_rem_chunk_tokens a of
                   None \<Rightarrow> Inl TypeError
                 | Some c \<Rightarrow>
                     (case available_chunk_tokens ops c (pa_memory_budget a) w of
                        None \<Rightarrow> Inr None
                      | Some n \<Rightarrow> Inr (Some (if pa_is_hybrid_swa a \<and> \<not> swa_req_ring ops a
                                              then min n (rem_swa_tokens ops a w - pa_page_size a) else n))))) (\<lambda>rem.
     case rem of
       None \<Rightarrow> (let r = (if pa_is_hybrid_swa a \<and> swa_wait_is_futile ops a then snd (abort_swa_unadmittable r) else r) in Inr (Some r, r, a))
     | Some rem \<Rightarrow>
         rbind (case pa_chunked_req_limit a of
                  None \<Rightarrow> Inr rem
                | Some l \<Rightarrow> rbind (py_assert (l > 0) ''chunked_req_limit'') (\<lambda>_. Inr (min rem l))) (\<lambda>rem.
           let cand = cand_extend_input_len r in
           case fit_chunk ops cand (swa_new_tokens env r) rem (pa_memory_budget a) w of
             None \<Rightarrow> Inr (Some r, r, a)
           | Some rem \<Rightarrow>
               let truncated = cand > rem; new_len = min cand rem; prefix_len = int (length (r_prefix_indices r));
                   r = extend_to prefix_len (prefix_len + new_len) r;
                   a = admit r a;
                   a = update_prefill_budget ops 0 new_len (if \<not> truncated then min (r_max_new_tokens r) (ae_clip_max_new_tokens env) else 0)
                         (r_retracted_stain r) (mamba_gap_budget_for_req r a) True (if pa_exact_chunk_fill a then Some new_len else None) a
               in Inr (if truncated then Some r else None, r, a)))"

section \<open>Requests that ignore the end token\<close>

text \<open>
  The states of requests are kept sorted by the tokens left. \<open>insert_index\<close> is the value of the loop variable after the
  loop: the first position whose entry is not smaller, else the last position.
\<close>

fun insert_index :: "rat \<Rightarrow> (rat \<times> nat) list \<Rightarrow> nat" where
  "insert_index tokens_left [] = 0"
| "insert_index tokens_left [x] = 0"
| "insert_index tokens_left (x # y # xs) = (if tokens_left \<le> fst x then 0 else Suc (insert_index tokens_left (y # xs)))"

definition add_req_state :: "rat \<Rightarrow> adm_req \<Rightarrow> bool \<Rightarrow> (rat \<times> nat) list \<Rightarrow> (rat \<times> nat) list" where
  "add_req_state ratio r insert_sort states =
     (let new_token_ratio = (if r_ignore_eos r then 1 else ratio);
          tokens_left = of_int (r_max_new_tokens r) * new_token_ratio - of_nat (length (r_output_ids r));
          tokens_occupied = length (r_origin_input_ids r) + length (r_output_ids r)
      in if tokens_left \<le> 0 then states
         else if \<not> insert_sort then states @ [(tokens_left, tokens_occupied)]
         else let i = insert_index tokens_left states in take i states @ (tokens_left, tokens_occupied) # drop i states)"

fun ignore_eos_fits :: "rat \<Rightarrow> nat \<Rightarrow> (rat \<times> nat) list \<Rightarrow> bool" where
  "ignore_eos_fits cur_rem tokens_freed [] = True"
| "ignore_eos_fits cur_rem tokens_freed ((tokens_left, tokens_occupied) # states) =
     (let bs = of_nat (Suc (length states));
          min_free_tokens = cur_rem + of_nat tokens_freed - tokens_left * bs
      in if min_free_tokens \<le> 1 * bs then False else ignore_eos_fits cur_rem (tokens_freed + tokens_occupied) states)"

definition req_states_with :: "adm_req \<Rightarrow> adder \<Rightarrow> (rat \<times> nat) list" where
  "req_states_with r a =
     (case pa_req_states a of
        Some states \<Rightarrow> add_req_state (pa_new_token_ratio a) r True states
      | None \<Rightarrow>
          let states = add_req_state (pa_new_token_ratio a) r False [];
              states = (case pa_running_batch a of None \<Rightarrow> states | Some rs \<Rightarrow> fold (\<lambda>r. add_req_state (pa_new_token_ratio a) r False) rs states);
              states = fold (\<lambda>r. add_req_state (pa_new_token_ratio a) r False) (pa_can_run_list a) states
          in sort_key fst states)"

definition add_one_req_ignore_eos :: "adm_env \<Rightarrow> 'w pool_ops \<Rightarrow> 'w tree_ops \<Rightarrow> adm_req \<Rightarrow> adder \<Rightarrow> 'w \<Rightarrow> (add_req_result \<times> adm_req \<times> adder \<times> 'w) result" where
  "add_one_req_ignore_eos env ops tops r a w =
     (let cand = cand_extend_input_len r;
          paged_input = ceil_paged_tokens (pa_page_size a) cand + mamba_gap_budget_for_req r a
      in if \<not> can_allocate_prefill ops paged_input cand (swa_new_tokens env r) (pa_rem_chunk_tokens a) (pa_memory_budget a) w
         then Inr (NO_TOKEN, r, a, w)
         else
           let states = req_states_with r a; a = a\<lparr>pa_req_states := Some states\<rparr>
           in if \<not> pa_is_hybrid_swa a \<and> \<not> ignore_eos_fits (of_int (cur_rem_tokens ops a w - ceil_paged_tokens (pa_page_size a) cand)) 0 states
              then Inr (NO_TOKEN, r, a, w)
              else if pa_delayer a = Some False then Inr (OTHER, r, a, w)
              else case pa_dllm a of
                Some (_, rem_dllm_tokens) \<Rightarrow>
                  if rem_dllm_tokens \<le> 0 then Inr (OTHER, r, a, w)
                  else rbind (check_prefill_tile_budget env cand a) (\<lambda>tile_stop.
                    case tile_stop of Some v \<Rightarrow> Inr (v, r, a, w)
                    | None \<Rightarrow> rbind (add_dllm_req env ops tops r 0 a w) (\<lambda>(r, a, w). Inr (budget_state ops a w, r, a, w)))
              | None \<Rightarrow>
                  if (case pa_rem_chunk_tokens a of None \<Rightarrow> True | Some c \<Rightarrow> cand \<le> c)
                  then rbind (check_prefill_tile_budget env cand a) (\<lambda>tile_stop.
                    case tile_stop of Some v \<Rightarrow> Inr (v, r, a, w)
                    | None \<Rightarrow>
                        let r = extend_to (int (length (r_prefix_indices r))) (int (length (r_full_untruncated_fill_ids r))) r;
                            a = admit r a;
                            a = update_prefill_budget ops 0 cand (min (r_max_new_tokens r) (ae_clip_max_new_tokens env)) (r_retracted_stain r)
                                  (mamba_gap_budget_for_req r a) False (if pa_exact_chunk_fill a then Some cand else None) a
                        in Inr (budget_state ops a w, r, a, w))
                  else
                    let trunc_len = (case pa_rem_chunk_tokens a of None \<Rightarrow> 0 | Some c \<Rightarrow> c) in
                    if trunc_len \<le> 0 then Inr (OTHER, r, a, w)
                    else rbind (check_prefill_tile_budget env trunc_len a) (\<lambda>tile_stop.
                      case tile_stop of Some v \<Rightarrow> Inr (v, r, a, w)
                      | None \<Rightarrow>
                          rbind (py_assert (r_prefix_indices r = []) ''len(req.prefix_indices) == 0'') (\<lambda>_.
                            let r = extend_to 0 trunc_len r;
                                a = (admit r a)\<lparr>pa_new_chunked_req := Some r\<rparr>;
                                a = update_prefill_budget ops 0 trunc_len 0 (r_retracted_stain r) (mamba_gap_budget_for_req r a) False
                                      (if pa_exact_chunk_fill a then Some trunc_len else None) a
                            in Inr (budget_state ops a w, r, a, w))))"

section \<open>One request\<close>

definition select_prefill_admission :: "adm_env \<Rightarrow> 'w pool_ops \<Rightarrow> adm_req \<Rightarrow> int \<Rightarrow> int \<Rightarrow> int \<Rightarrow> int option \<Rightarrow> bool \<Rightarrow> adder \<Rightarrow> 'w
    \<Rightarrow> (add_req_result + prefill_admission) result" where
  "select_prefill_admission env ops r total_tokens host_hit_length swa_host_hit_length truncation_align_size has_chunked_req a w =
     (let prefix_len = int (length (r_prefix_indices r)) + host_hit_length;
          extend_len = int (length (r_full_untruncated_fill_ids r)) - prefix_len;
          input_tokens = ceil_paged_tokens (pa_page_size a) extend_len;
          chunk_fit_tokens = (if pa_exact_chunk_fill a then extend_len else input_tokens);
          (can_admit, chunk_tokens_limit) =
            check_prefill ops extend_len total_tokens (swa_new_tokens env r) (int (length (r_full_untruncated_fill_ids r))) swa_host_hit_length
              (pa_rem_chunk_tokens a) (pa_memory_budget a) w
      in if \<not> can_admit then Inr (Inl NO_TOKEN)
         else if pa_rem_chunk_tokens a = None \<and> pa_can_run_list a \<noteq> [] \<and> input_tokens \<ge> pa_rem_input_tokens a then Inr (Inl OTHER)
         else
           let max_new_tokens = min (r_max_new_tokens r) (ae_clip_max_new_tokens env);
               finish = (\<lambda>tile_tokens adm. rbind (check_prefill_tile_budget env tile_tokens a) (\<lambda>verdict.
                 case verdict of Some v \<Rightarrow> Inr (Inl v) | None \<Rightarrow> Inr (Inr adm)))
           in case pa_dllm a of
                Some (dllm_block_size, rem_dllm_tokens) \<Rightarrow>
                  rbind (py_assert (truncation_align_size = None) ''truncation_align_size is not supported for dllm prefill'') (\<lambda>_.
                    let extend_len = min rem_dllm_tokens dllm_block_size div pa_page_size a * pa_page_size a
                    in if extend_len \<le> 0 then Inr (Inl OTHER)
                       else finish input_tokens \<lparr>ad_prefix_len = prefix_len, ad_extend_len = extend_len, ad_max_new_tokens = 0, ad_is_chunked = False\<rparr>)
              | None \<Rightarrow>
                  (case chunk_tokens_limit of
                     Some l \<Rightarrow>
                       if chunk_fit_tokens > l
                       then if has_chunked_req \<and> ae_shortest_prefill_first env then Inr (Inl OTHER)
                            else let align = (\<lambda>n. case truncation_align_size of None \<Rightarrow> n | Some s \<Rightarrow> n div s * s);
                                     extend_len =
                                       (if pa_exact_chunk_fill a then align l
                                        else let n = align (l div pa_page_size a * pa_page_size a);
                                                 en = (prefix_len + n) div pa_page_size a * pa_page_size a
                                             in en - prefix_len)
                                 in if extend_len \<le> 0 then Inr (Inl OTHER)
                                    else finish extend_len \<lparr>ad_prefix_len = prefix_len, ad_extend_len = extend_len, ad_max_new_tokens = 0, ad_is_chunked = True\<rparr>
                       else finish input_tokens \<lparr>ad_prefix_len = prefix_len, ad_extend_len = extend_len, ad_max_new_tokens = max_new_tokens, ad_is_chunked = False\<rparr>
                   | None \<Rightarrow>
                       finish input_tokens \<lparr>ad_prefix_len = prefix_len, ad_extend_len = extend_len, ad_max_new_tokens = max_new_tokens, ad_is_chunked = False\<rparr>))"

definition commit_prefill_admission :: "adm_env \<Rightarrow> 'w pool_ops \<Rightarrow> 'w tree_ops \<Rightarrow> adm_req \<Rightarrow> prefill_admission \<Rightarrow> int \<Rightarrow> adder \<Rightarrow> 'w
    \<Rightarrow> (adm_req \<times> adder \<times> 'w) result" where
  "commit_prefill_admission env ops tops r adm mamba_gap_reserve a w =
     rbind (py_assert (int (length (r_prefix_indices r)) = ad_prefix_len adm) ''len(req.prefix_indices) == admission.prefix_len'') (\<lambda>_.
       let r = extend_to (ad_prefix_len adm) (ad_prefix_len adm + ad_extend_len adm) r in
       rbind (t_inc_lock tops (r_last_node r) w) (\<lambda>w.
         let a = admit r a;
             a = (if ad_is_chunked adm then a\<lparr>pa_new_chunked_req := Some r\<rparr> else a);
             a = update_prefill_budget ops (ad_prefix_len adm) (ad_extend_len adm) (ad_max_new_tokens adm) (r_retracted_stain r) mamba_gap_reserve
                   False (if pa_exact_chunk_fill a then Some (ad_extend_len adm) else None) a;
             (a, w) = account_prefill_cache_admission env tops r (nat (ad_prefix_len adm)) a w
         in Inr (r, a, w)))"

text \<open>Loading a host hit back, and the admission that remains afterwards; \<open>Inl\<close> is a verdict that stops the request.\<close>

definition load_back :: "adm_env \<Rightarrow> 'w pool_ops \<Rightarrow> 'w tree_ops \<Rightarrow> adm_req \<Rightarrow> int \<Rightarrow> int option \<Rightarrow> bool \<Rightarrow> prefill_admission \<Rightarrow> adder \<Rightarrow> 'w
    \<Rightarrow> ((add_req_result + prefill_admission) \<times> adm_req \<times> 'w) result" where
  "load_back env ops tops r total_tokens truncation_align_size has_chunked_req adm a w =
     (if \<not> needs_host_load_back r then Inr (Inr adm, r, w)
      else rbind (t_init_load_back tops r w) (\<lambda>(loaded, w).
        case loaded of
          None \<Rightarrow> Inr (Inl OTHER, r, w)
        | Some (new_indices, node) \<Rightarrow>
            let promised = r_host_hit_length r;
                r = r\<lparr>r_last_node := node, r_host_loaded_length := length new_indices\<rparr>;
                loaded_len = r_host_loaded_length r
            in rbind (if 0 < loaded_len \<and> loaded_len < promised
                      then Inl (RuntimeError ''HiCache load-back must commit all promised FULL tokens or none'')
                      else if loaded_len > promised
                      then let prefix_len = int (length (r_prefix_indices r)) + int loaded_len;
                               full = int (length (r_full_untruncated_fill_ids r));
                               extend_len = (if pa_dllm a = None then min (ad_extend_len adm) (full - prefix_len) else ad_extend_len adm);
                               is_chunked = (ad_is_chunked adm \<and> prefix_len + extend_len < full);
                               max_new_tokens = (if ad_is_chunked adm \<and> \<not> is_chunked
                                                 then min (r_max_new_tokens r) (ae_clip_max_new_tokens env) else ad_max_new_tokens adm)
                           in Inr (Inr \<lparr>ad_prefix_len = prefix_len, ad_extend_len = extend_len, ad_max_new_tokens = max_new_tokens, ad_is_chunked = is_chunked\<rparr>)
                      else if loaded_len < promised
                      then select_prefill_admission env ops r total_tokens 0 0 truncation_align_size has_chunked_req a w
                      else Inr (Inr adm)) (\<lambda>adm.
               case adm of
                 Inl v \<Rightarrow> Inr (Inl v, r, w)
               | Inr adm \<Rightarrow>
                   let indices = r_prefix_indices r @ new_indices;
                       r = r\<lparr>r_prefix_indices := indices, r_kv := (r_kv r)\<lparr>cache_protected_len := length indices\<rparr>\<rparr>
                   in Inr (Inr adm, r, w))))"

text \<open>The context manager around the selection: the lock is given back on every way out.\<close>

definition with_lock_node :: "'w tree_ops \<Rightarrow> nat option \<Rightarrow> ('w \<Rightarrow> ('x \<times> 'w) result) \<Rightarrow> 'w \<Rightarrow> ('x \<times> 'w) result" where
  "with_lock_node tops node body w =
     rbind (t_inc_lock tops node w) (\<lambda>w. rbind (body w) (\<lambda>(x, w). rbind (t_dec_lock tops node w) (\<lambda>w. Inr (x, w))))"

text \<open>The body of the \<^verbatim>\<open>with\<close> block: a verdict if the request is stopped, nothing if it was committed.\<close>

definition admit_locked :: "adm_env \<Rightarrow> 'w pool_ops \<Rightarrow> 'w tree_ops \<Rightarrow> adm_req \<Rightarrow> int \<Rightarrow> int \<Rightarrow> int \<Rightarrow> int option \<Rightarrow> int option \<Rightarrow> bool \<Rightarrow> adder \<Rightarrow> 'w
    \<Rightarrow> ((add_req_result option \<times> adm_req \<times> adder) \<times> 'w) result" where
  "admit_locked env ops tops r total_tokens real_input_tokens mamba_gap_reserve chunk_tokens_limit truncation_align_size has_chunked_req a w =
     rbind (select_prefill_admission env ops r total_tokens (int (r_host_hit_length r)) (int (r_swa_host_hit_length r)) truncation_align_size has_chunked_req a w)
       (\<lambda>admission.
         case admission of
           Inl v \<Rightarrow> Inr ((Some v, r, a), w)
         | Inr adm \<Rightarrow>
             let (gate, chunk_tokens_limit, r) = apply_swa_token_gate env ops real_input_tokens r chunk_tokens_limit a w in
             case gate of
               Some v \<Rightarrow> Inr ((Some v, r, a), w)
             | None \<Rightarrow>
                 if pa_delayer a = Some False then Inr ((Some OTHER, r, a), w)
                 else rbind (load_back env ops tops r total_tokens truncation_align_size has_chunked_req adm a w) (\<lambda>(adm, r, w).
                   case adm of
                     Inl v \<Rightarrow> Inr ((Some v, r, a), w)
                   | Inr adm \<Rightarrow> rbind (commit_prefill_admission env ops tops r adm mamba_gap_reserve a w) (\<lambda>(r, a, w). Inr ((None, r, a), w))))"

definition add_one_req :: "adm_env \<Rightarrow> 'w pool_ops \<Rightarrow> 'w tree_ops \<Rightarrow> adm_req \<Rightarrow> bool \<Rightarrow> int option \<Rightarrow> adder \<Rightarrow> 'w
    \<Rightarrow> (add_req_result \<times> adm_req \<times> adder \<times> 'w) result" where
  "add_one_req env ops tops r has_chunked_req truncation_align_size a w =
     (if (case pa_prefill_max_requests a of None \<Rightarrow> False | Some x \<Rightarrow> length (pa_can_run_list a) \<ge> x) then Inr (OTHER, r, a, w)
      else if r_ignore_eos r \<and> t_disable tops w then add_one_req_ignore_eos env ops tops r a w
      else
        let max_new = min (max (r_max_new_tokens r - int (length (r_output_ids r))) 0) (ae_clip_max_new_tokens env);
            cand = cand_extend_input_len r;
            mamba_gap_reserve = mamba_gap_budget_for_req r a;
            total_tokens = cand + max_new + pa_page_size a + mamba_gap_reserve;
            real_input_tokens = ceil_paged_tokens (pa_page_size a) (cand - int (r_host_hit_length r))
        in if of_int total_tokens \<ge> rem_total_tokens ops a w then Inr (NO_TOKEN, r, a, w)
           else
             let (gate, chunk_tokens_limit, r) = apply_swa_token_gate env ops real_input_tokens r (pa_rem_chunk_tokens a) a w in
             case gate of
               Some v \<Rightarrow> Inr (v, r, a, w)
             | None \<Rightarrow>
                 if pa_rem_chunk_tokens a = None \<and> pa_can_run_list a \<noteq> [] \<and> real_input_tokens \<ge> pa_rem_input_tokens a then Inr (OTHER, r, a, w)
                 else rbind (with_lock_node tops (r_last_node r)
                        (admit_locked env ops tops r total_tokens real_input_tokens mamba_gap_reserve chunk_tokens_limit truncation_align_size has_chunked_req a) w)
                      (\<lambda>((verdict, r, a), w).
                        case verdict of
                          Some v \<Rightarrow> Inr (v, r, a, w)
                        | None \<Rightarrow> Inr (budget_state ops a w, r, a, w)))"

section \<open>Preemption\<close>

text \<open>Requests are compared by their id; the set of preempted requests is listed in the order of the batch. The loop over the sorted running requests stops when enough tokens are found or a priority is too close.\<close>

fun pick_preemptible :: "adm_env \<Rightarrow> rat \<Rightarrow> int \<Rightarrow> int \<Rightarrow> int \<Rightarrow> adm_req list \<Rightarrow> rat \<Rightarrow> adm_req list \<times> rat" where
  "pick_preemptible env ratio threshold priority_sign prio [] min_tokens_to_remove = ([], min_tokens_to_remove)"
| "pick_preemptible env ratio threshold priority_sign prio (x # xs) min_tokens_to_remove =
     (let priority_diff = (prio - the (r_priority x)) * (- priority_sign)
      in if priority_diff > threshold
         then let n = min_tokens_to_remove - running_request_total_token_offset env ratio x
              in if n \<le> 0 then ([x], n)
                 else (let (ys, n) = pick_preemptible env ratio threshold priority_sign prio xs n in (x # ys, n))
         else ([], min_tokens_to_remove))"

fun release_preempted :: "adm_env \<Rightarrow> 'w tree_ops \<Rightarrow> string set \<Rightarrow> nat \<Rightarrow> nat \<Rightarrow> adm_req list \<Rightarrow> adder \<Rightarrow> 'w \<Rightarrow> (adm_req list \<times> adm_req list \<times> adder \<times> 'w) result" where
  "release_preempted env tops ids num_running counter [] a w = Inr ([], [], a, w)"
| "release_preempted env tops ids num_running counter (x # xs) a w =
     (if r_rid x \<in> ids
      then let b = pa_memory_budget a;
               a = a\<lparr>pa_memory_budget := b\<lparr>pb_total_offset := pb_total_offset b - running_request_total_token_offset env (pa_new_token_ratio a) x\<rparr>\<rparr>;
               counter = counter + 1
           in rbind (t_release_req tops x (num_running - counter) w) (\<lambda>(x, w).
              rbind (release_preempted env tops ids num_running counter xs a w) (\<lambda>(kept, released, a, w). Inr (kept, x # released, a, w)))
      else rbind (release_preempted env tops ids num_running counter xs a w) (\<lambda>(kept, released, a, w). Inr (x # kept, released, a, w)))"

definition preempt_to_schedule :: "adm_env \<Rightarrow> 'w pool_ops \<Rightarrow> 'w tree_ops \<Rightarrow> adm_req \<Rightarrow> adder \<Rightarrow> 'w \<Rightarrow> (bool \<times> adder \<times> 'w) result" where
  "preempt_to_schedule env ops tops r a w =
     (case pa_running_batch a of
        None \<Rightarrow> Inl AttributeError
      | Some running \<Rightarrow>
          let priority_sign = (if ae_low_priority_values_first env then 1 else -1);
              valid = filter (\<lambda>x. r_rid x \<notin> r_rid ` set (pa_preempt_list a) \<and> \<not> r_finished x) running
          in rbind (py_sort (\<lambda>x. rbind (signed_priority (- priority_sign) x) (\<lambda>p. Inr (p, - r_wait_queue_entry_time x))) valid) (\<lambda>sorted_running.
             rbind (case r_priority r of Some p \<Rightarrow> Inr p | None \<Rightarrow> if sorted_running = [] then Inr 0 else Inl TypeError) (\<lambda>prio.
               let need = of_int (cand_extend_input_len r + min (r_max_new_tokens r) (ae_clip_max_new_tokens env)) - rem_total_tokens ops a w;
                   (preemptible, n) = pick_preemptible env (pa_new_token_ratio a) (pa_preemption_threshold a) priority_sign prio sorted_running need
               in if preemptible = [] \<or> n > 0 then Inr (False, a, w)
                  else rbind (release_preempted env tops (r_rid ` set preemptible) (length running) 0 running a w) (\<lambda>(kept, released, a, w).
                    Inr (True, a\<lparr>pa_running_batch := Some kept, pa_preempt_list := pa_preempt_list a @ released\<rparr>, w)))))"

section \<open>The radix cache behind the interface\<close>

text \<open>
  The queries of the token and the paged allocator and of the radix cache. The plain budget does not ask for a
  sliding-window pool; the radix cache has no host memory to load from and no storage accounting. What releases a request
  is an argument.
\<close>

definition radix_pool_ops :: "nat \<Rightarrow> cache pool_ops" where
  "radix_pool_ops page_size =
     \<lparr>po_page_size = int page_size, po_available = (\<lambda>s. int (ka_available_size (rc_alloc s))), po_supports_mamba = False,
      po_evictable = evictable_size, po_full_available = (\<lambda>s. 0), po_full_evictable = (\<lambda>s. 0), po_swa_available = (\<lambda>s. 0),
      po_swa_evictable = (\<lambda>s. 0), po_size_swa = 0, po_swa_req_ring = False, po_swa_ring_cost_tokens = 0,
      po_sliding_window_size = None, po_can_reserve = (\<lambda>s f t fe se e r. False)\<rparr>"

definition lock_opt :: "(nat \<Rightarrow> cache \<Rightarrow> (int \<times> cache) result) \<Rightarrow> nat option \<Rightarrow> cache \<Rightarrow> cache result" where
  "lock_opt f node s =
     (if rc_disable s then Inr s
      else case node of None \<Rightarrow> Inl AttributeError | Some i \<Rightarrow> rbind (f i s) (\<lambda>(d, s). Inr s))"

definition radix_tree_ops :: "(adm_req \<Rightarrow> nat \<Rightarrow> cache \<Rightarrow> (adm_req \<times> cache) result) \<Rightarrow> cache tree_ops" where
  "radix_tree_ops release_req =
     \<lparr>t_disable = rc_disable, t_inc_lock = lock_opt inc_lock_ref, t_dec_lock = lock_opt dec_lock_ref,
      t_init_load_back = (\<lambda>r s. Inl (NotImplementedError ''init_load_back'')), t_discard_prefetch = (\<lambda>r s. s),
      t_finish_prefetch = (\<lambda>r n reason s. s), t_release_req = release_req\<rparr>"

end
