(* ===== verification/Row_Kernel.thy ===== *)
theory Row_Kernel
  imports Req_State Alloc_Kernel
begin

text \<open>
  Writing the slots of a batch into the table of requests and reading the last slot of a prefix: the Triton kernels of
  \<^verbatim>\<open>kernels/ops/memory/common.py\<close> and \<^verbatim>\<open>mem_cache/allocation.py\<close> next to their plain counterparts. A kernel sees the table as one
  flat array with the row length as stride and works in blocks of fixed size; as in the page kernels, a program is the list of its
  stores. The theory shows that the kernels and the plain code agree.
\<close>

section \<open>Model\<close>

text \<open>The offsets of a loop over blocks of \<open>B\<close> lanes with the mask \<^verbatim>\<open>offset < n\<close>.\<close>

definition block_offsets :: "int \<Rightarrow> int \<Rightarrow> int list" where
  "block_offsets B n = concat (map (\<lambda>i. map (\<lambda>l. l + i * B) (lanes B (\<lambda>l. l + i * B < n))) (map int [0..<nat ((n + B - 1) div B)]))"

definition write_req_to_token_pool_triton ::
  "(int \<Rightarrow> int) \<Rightarrow> int list \<Rightarrow> int list list \<Rightarrow> int list \<Rightarrow> int list \<Rightarrow> int list \<Rightarrow> int list \<Rightarrow> int \<Rightarrow> nat \<Rightarrow> (int \<times> int) list" where
  "write_req_to_token_pool_triton mem req_pool_indices prefix_tensors pre_lens seq_lens extend_lens out_cache_loc row_len pid =
     (let req_pool_index = req_pool_indices ! pid;
          pre_len = pre_lens ! pid;
          seq_len = seq_lens ! pid;
          prefix_tensor = prefix_tensors ! pid;
          prefix_part = map (\<lambda>offset. (req_pool_index * row_len + offset, tl_load mem prefix_tensor offset)) (block_offsets 512 pre_len);
          cumsum_start = sum_list (map (\<lambda>i. extend_lens ! i) [0..<pid]);
          extend_part = map (\<lambda>offset. (req_pool_index * row_len + offset + pre_len, tl_load mem out_cache_loc (cumsum_start + offset)))
            (block_offsets 512 (seq_len - pre_len))
      in prefix_part @ extend_part)"

text \<open>The plain loop; \<open>pt\<close> is the position in \<open>out_cache_loc\<close>.\<close>

fun write_rows :: "nat list \<Rightarrow> nat list \<Rightarrow> nat list \<Rightarrow> nat list \<Rightarrow> int list list \<Rightarrow> nat \<Rightarrow> int list \<Rightarrow> 'a req_pool \<Rightarrow> 'a req_pool result" where
  "write_rows (req_idx # idxs) (prefix_len # ps) (seq_len # ss) (extend_len # es) (prefix_tensor # tensors) pt out_cache_loc p =
     rbind (rt_write req_idx 0 prefix_len prefix_tensor p) (\<lambda>p.
     rbind (rt_write req_idx prefix_len seq_len (slice out_cache_loc pt (pt + extend_len)) p) (\<lambda>p.
     write_rows idxs ps ss es tensors (pt + extend_len) out_cache_loc p))"
| "write_rows _ _ _ _ _ pt out_cache_loc p = Inr p"

definition table_stride :: "'a req_pool \<Rightarrow> nat" where
  "table_stride p = length (hd (rt_req_to_token p))"

definition table_of :: "nat \<Rightarrow> nat \<Rightarrow> int list \<Rightarrow> int list list" where
  "table_of row_len n flat = map (\<lambda>i. slice flat (i * row_len) (Suc i * row_len)) [0..<n]"

definition write_cache_indices ::
  "(int \<Rightarrow> int) \<Rightarrow> bool \<Rightarrow> int list \<Rightarrow> nat list \<Rightarrow> nat list \<Rightarrow> nat list \<Rightarrow> nat list \<Rightarrow> int list list \<Rightarrow> 'a req_pool \<Rightarrow> 'a req_pool result" where
  "write_cache_indices mem triton out_cache_loc req_pool_indices prefix_lens seq_lens extend_lens prefix_tensors p =
     (if triton
      then Inr (p\<lparr>rt_req_to_token := table_of (table_stride p) (length (rt_req_to_token p))
             (launch (write_req_to_token_pool_triton mem (map int req_pool_indices) prefix_tensors (map int prefix_lens) (map int seq_lens)
                (map int extend_lens) out_cache_loc (int (table_stride p))) (length req_pool_indices) (concat (rt_req_to_token p)))\<rparr>)
      else write_rows req_pool_indices prefix_lens seq_lens extend_lens prefix_tensors 0 out_cache_loc p)"

text \<open>\<open>get_last_loc\<close>: indexing with \<open>-1\<close> reads the last column, which the mask discards.\<close>

definition get_last_loc_torch :: "int list list \<Rightarrow> nat list \<Rightarrow> nat list \<Rightarrow> int list result" where
  "get_last_loc_torch table req_pool_indices prefix_lens =
     (if list_all2 (\<lambda>i n. i < length table \<and> max 1 n \<le> length (table ! i)) req_pool_indices prefix_lens
      then Inr (map2 (\<lambda>i n. if 0 < n then table ! i ! (n - 1) else - 1) req_pool_indices prefix_lens)
      else Inl IndexError)"

definition get_last_loc_kernel :: "(int \<Rightarrow> int) \<Rightarrow> int list \<Rightarrow> int list \<Rightarrow> int list \<Rightarrow> int \<Rightarrow> nat \<Rightarrow> (int \<times> int) list" where
  "get_last_loc_kernel mem flat req_pool_indices prefix_lens row_len pid =
     map (\<lambda>offset. let prefix_len = prefix_lens ! nat offset; token_index = req_pool_indices ! nat offset * row_len + (prefix_len - 1)
                   in (offset, if prefix_len > 0 then tl_load mem flat token_index else - 1))
       (map (\<lambda>l. l + int pid * 256) (lanes 256 (\<lambda>l. l + int pid * 256 < int (length prefix_lens))))"

definition get_last_loc_triton :: "(int \<Rightarrow> int) \<Rightarrow> (nat \<Rightarrow> int) \<Rightarrow> int list list \<Rightarrow> nat list \<Rightarrow> nat list \<Rightarrow> int list" where
  "get_last_loc_triton mem fresh table req_pool_indices prefix_lens =
     launch (get_last_loc_kernel mem (concat table) (map int req_pool_indices) (map int prefix_lens) (int (length (hd table))))
       ((length prefix_lens + 255) div 256) (map fresh [0..<length prefix_lens])"

definition assign_req_to_token_pool ::
  "int \<Rightarrow> (int \<Rightarrow> int) \<Rightarrow> int list \<Rightarrow> int list \<Rightarrow> int list \<Rightarrow> int list \<Rightarrow> int \<Rightarrow> nat \<Rightarrow> nat \<Rightarrow> (int \<times> int) list" where
  "assign_req_to_token_pool other mem req_pool_indices start_offset end_offset out_cache_loc pool_len bs_upper pid =
     (let kv_start = start_offset ! pid;
          kv_end = end_offset ! pid;
          token_pool = req_pool_indices ! pid * pool_len;
          start = map (\<lambda>lane. if lane < pid then start_offset ! lane else 0) [0..<bs_upper];
          en = map (\<lambda>lane. if lane < pid then end_offset ! lane else 0) [0..<bs_upper];
          out_offset = sum_list (map2 (-) en start)
      in concat (map (\<lambda>i. map (\<lambda>l. (token_pool + kv_start + l + i * 32, tl_load mem out_cache_loc (out_offset + l + i * 32)))
             (lanes 32 (\<lambda>l. l + i * 32 + kv_start < kv_end)))
           (map int [0..<nat ((kv_end - kv_start + 31) div 32)])))"

section \<open>Blocks\<close>

lemma lanes_upt: "lanes B (\<lambda>l. l + k < n) = map int [0..<nat (min B (n - k))]"
proof -
  have "filter (\<lambda>l. l + k < n) (map int [0..<m]) = map int [0..<nat (min (int m) (n - k))]" for m
  proof (induction m)
    case (Suc m)
    show ?case
    proof (cases "int m + k < n")
      case True
      then have "nat (min (int (Suc m)) (n - k)) = Suc m" "nat (min (int m) (n - k)) = m" by linarith+
      then show ?thesis using Suc True by (simp del: of_nat_Suc)
    next
      case False
      then have "nat (min (int (Suc m)) (n - k)) = nat (min (int m) (n - k))" by auto
      then show ?thesis using Suc False by simp
    qed
  qed simp
  from this [of "nat B"] show ?thesis
    by (cases "0 \<le> B") (simp_all add: lanes_def)
qed

lemma block_offsets_eq:
  assumes B: "0 < B"
  shows "block_offsets B n = map int [0..<nat n]"
proof -
  have c: "concat (map (\<lambda>i. map (\<lambda>l. l + i * B) (lanes B (\<lambda>l. l + i * B < n))) (map int [0..<k])) = map int [0..<nat (min (int k * B) n)]" for k
  proof (induction k)
    case (Suc k)
    have s: "min (int (Suc k) * B) n = min (int k * B) n + max 0 (min B (n - int k * B))" if "0 \<le> n" using B that by (auto simp: algebra_simps)
    have "map (\<lambda>l. l + int k * B) (map int [0..<nat (min B (n - int k * B))]) = map int [nat (min (int k * B) n)..<nat (min (int (Suc k) * B) n)]"
    proof (cases "int k * B < n")
      case True
      have "nat (min (int (Suc k) * B) n) = nat (int k * B) + nat (min B (n - int k * B))" 
      proof -
        have kB: "0 \<le> int k * B" using B by simp
        then have "0 \<le> n" using True by simp
        from s [OF this] show ?thesis using True B kB by (simp add: nat_add_distrib [symmetric])
      qed
      then show ?thesis using True B by (intro nth_equalityI) auto
    next
      case False
      then show ?thesis using B by (auto simp: algebra_simps)
    qed
    moreover have "nat (min (int k * B) n) \<le> nat (min (int (Suc k) * B) n)" using B by (intro nat_mono) (simp add: algebra_simps min_def)
    then have "[0..<nat (min (int (Suc k) * B) n)] = [0..<nat (min (int k * B) n)] @ [nat (min (int k * B) n)..<nat (min (int (Suc k) * B) n)]"
      using upt_add_eq_append [of 0 "nat (min (int k * B) n)" "nat (min (int (Suc k) * B) n) - nat (min (int k * B) n)"] by simp
    ultimately show ?case using Suc by (simp add: lanes_upt del: of_nat_Suc)
  qed (use B in simp)
  moreover have "min (int (nat ((n + B - 1) div B)) * B) n = n" if "0 \<le> n"
  proof -
    have "n \<le> (n + B - 1) div B * B" using ceil_align_ge [OF B, of n] by (simp add: ceil_align_def ceil_div_def)
    then show ?thesis using B that by (simp add: pos_imp_zdiv_nonneg_iff)
  qed
  ultimately have "nat (min (int (nat ((n + B - 1) div B)) * B) n) = nat n" by (cases "0 \<le> n") auto
  then show ?thesis unfolding block_offsets_def c by simp
qed

section \<open>Flat tables\<close>

definition rect_table :: "nat \<Rightarrow> int list list \<Rightarrow> bool" where
  "rect_table m table \<longleftrightarrow> (\<forall>row\<in>set table. length row = m)"

lemma concat_table:
  assumes "rect_table m table"
  shows "length (concat table) = length table * m" "i < length table \<Longrightarrow> slice (concat table) (i * m) (Suc i * m) = table ! i"
proof -
  show "length (concat table) = length table * m" using assms by (induction table) (auto simp: rect_table_def)
  show "slice (concat table) (i * m) (Suc i * m) = table ! i" if "i < length table"
    using assms that
  proof (induction table arbitrary: i)
    case (Cons r rs)
    then have r: "length r = m" "rect_table m rs" by (simp_all add: rect_table_def)
    show ?case
    proof (cases i)
      case (Suc j)
      then have "slice (concat rs) (j * m) (Suc j * m) = rs ! j" using Cons r by simp
      then show ?thesis using Suc r(1) by (simp add: slice_def)
    qed (use r in \<open>simp add: slice_def\<close>)
  qed simp
qed

lemma table_of_concat: "rect_table m table \<Longrightarrow> table_of m (length table) (concat table) = table"
  using concat_table(2) by (intro nth_equalityI) (simp_all add: table_of_def)

lemma concat_update:
  assumes t: "rect_table m table" and i: "i < length table" and r: "length r = m"
  shows "concat (table[i := r]) = take (i * m) (concat table) @ r @ drop (Suc i * m) (concat table)"
proof -
  have s: "table = take i table @ table ! i # drop (Suc i) table" by (rule id_take_nth_drop [OF i])
  have a: "length (concat (take i table)) = i * m" using concat_table(1) [of m "take i table"] t i by (auto simp: rect_table_def dest: in_set_takeD)
  have b: "length (table ! i) = m" using t i by (simp add: rect_table_def)
  have c: "concat table = concat (take i table) @ table ! i @ concat (drop (Suc i) table)" by (subst s) simp
  have "take (i * m) (concat table) = concat (take i table)" "drop (Suc i * m) (concat table) = concat (drop (Suc i) table)"
    unfolding c using a b by simp_all
  then show ?thesis using i by (simp add: upd_conv_take_nth_drop)
qed

text \<open>One request: the prefix and the new slots, in consecutive cells of its row.\<close>

lemma row_stores:
  assumes t: "rect_table m table" and i: "i < length table" and v: "length v \<le> m"
  shows "fold tl_store (store_seq (int i * int m) v) (concat table) = concat (table[i := v @ drop (length v) (table ! i)])"
proof -
  have im: "i * m + m \<le> length (concat table)" using concat_table(1) [OF t] i by (metis Suc_leI add.commute mult_Suc mult_le_mono1)
  have "drop (i * m + length v) (concat table) = drop (length v) (table ! i) @ drop (Suc i * m) (concat table)"
  proof -
    have "drop (length v) (table ! i) = slice (concat table) (i * m + length v) (Suc i * m)"
      using concat_table(2) [OF t i] by (simp add: slice_def drop_take add.commute flip: concat_table(2) [OF t i])
    then show ?thesis using slice_append_drop [of "i * m + length v" "Suc i * m" "concat table"] v by simp
  qed
  moreover have "length (v @ drop (length v) (table ! i)) = m" using t i v by (simp add: rect_table_def)
  ultimately show ?thesis
    using fold_tl_store_seq [of "int i * int m" v "concat table"] im v concat_update [OF t i] by (simp add: nat_mult_distrib)
qed

section \<open>The last slot of a prefix\<close>

lemma concat_nth:
  assumes "rect_table m table" "i < length table" "j < m"
  shows "i * m + j < length (concat table)" "concat table ! (i * m + j) = table ! i ! j"
proof -
  have "Suc i * m \<le> length table * m" using assms(2) by (intro mult_le_mono1) simp
  then show l: "i * m + j < length (concat table)" using concat_table(1) [OF assms(1)] assms(3) by simp
  show "concat table ! (i * m + j) = table ! i ! j" using concat_table(2) [OF assms(1,2)] assms(3) l nth_slice [of j "Suc i * m" "i * m" "concat table"] by simp
qed

lemma tl_load_int: "a < length xs \<Longrightarrow> tl_load mem xs (int a) = xs ! a"
  by (simp add: tl_load_def)

text \<open>The kernel and the indexing read the same slots.\<close>

lemma get_last_loc_agree:
  assumes t: "rect_table m table" "table \<noteq> []" and r: "list_all2 (\<lambda>i n. i < length table \<and> max 1 n \<le> m) req_pool_indices prefix_lens"
  shows "get_last_loc_torch table req_pool_indices prefix_lens = Inr (get_last_loc_triton mem fresh table req_pool_indices prefix_lens)"
proof -
  let ?n = "length prefix_lens"
  let ?vs = "map2 (\<lambda>i n. if 0 < n then table ! i ! (n - 1) else - 1) req_pool_indices prefix_lens"
  let ?k = "get_last_loc_kernel mem (concat table) (map int req_pool_indices) (map int prefix_lens) (int (length (hd table)))"
  have h: "length (hd table) = m" using t by (simp add: rect_table_def)
  have l: "length req_pool_indices = ?n" by (rule list_all2_lengthD [OF r])
  have b: "req_pool_indices ! j < length table" "max 1 (prefix_lens ! j) \<le> m" if "j < ?n" for j using list_all2_nthD2 [OF r that] l by auto
  let ?f = "\<lambda>o'. let n = map int prefix_lens ! nat o'; ti = map int req_pool_indices ! nat o' * int m + (n - 1)
      in (o', if n > 0 then tl_load mem (concat table) ti else - 1)"
  have "concat (map ?k [0..<(?n + 255) div 256]) = map ?f (block_offsets 256 (int ?n))"
    by (simp add: get_last_loc_kernel_def [abs_def] h block_offsets_def map_concat o_def Let_def nat_div_distrib nat_add_distrib zdiv_int [symmetric]
        flip: of_nat_add add: add.commute)
  also have "\<dots> = store_seq 0 ?vs"
  proof -
    have v: "?f (int j) = (int j, ?vs ! j)" if j: "j < ?n" for j
    proof (cases "prefix_lens ! j")
      case (Suc n)
      then have "n < m" using b(2) [OF j] by simp
      note c = concat_nth [OF t(1) b(1) [OF j] this]
      have "int (req_pool_indices ! j) * int m + (int (prefix_lens ! j) - 1) = int (req_pool_indices ! j * m + n)" using Suc by simp
      then have "tl_load mem (concat table) (int (req_pool_indices ! j) * int m + (int (prefix_lens ! j) - 1)) = table ! (req_pool_indices ! j) ! n"
        by (simp only: tl_load_int [OF c(1)] c(2))
      then show ?thesis using Suc j l by (simp add: Let_def)
    qed (use j l in \<open>simp add: Let_def\<close>)
    have "map (\<lambda>j. ?f (int j)) [0..<?n] = map (\<lambda>j. (int j, ?vs ! j)) [0..<?n]" by (rule map_cong [OF refl]) (rule v, simp)
    moreover have "length ?vs = ?n" using l by simp
    ultimately show ?thesis unfolding store_seq_def block_offsets_eq [of 256, simplified] by (simp only: map_map comp_def nat_int add_0)
  qed
  finally have "get_last_loc_triton mem fresh table req_pool_indices prefix_lens = ?vs"
    using l fold_tl_store_seq [of 0 ?vs "map fresh [0..<?n]"] by (simp add: get_last_loc_triton_def launch_def)
  moreover have "list_all2 (\<lambda>i n. i < length table \<and> max 1 n \<le> length (table ! i)) req_pool_indices prefix_lens"
    using r t(1) by (auto simp: rect_table_def elim!: list_all2_mono)
  ultimately show ?thesis by (simp add: get_last_loc_torch_def)
qed

section \<open>The kernel and the loop\<close>

text \<open>A batch as the list of row, prefix and number of new tokens of each request; \<open>fill_rows\<close> is what writing it means.\<close>

fun fill_rows :: "(nat \<times> int list \<times> nat) list \<Rightarrow> int list \<Rightarrow> int list list \<Rightarrow> int list list" where
  "fill_rows [] out table = table"
| "fill_rows ((i, pre, n) # rs) out table = fill_rows rs (drop n out) (table[i := pre @ take n out @ drop (length pre + n) (table ! i)])"

definition rows_fit :: "nat \<Rightarrow> nat \<Rightarrow> (nat \<times> int list \<times> nat) list \<Rightarrow> bool" where
  "rows_fit m k rs \<longleftrightarrow> (\<forall>(i, pre, n) \<in> set rs. i < k \<and> length pre + n \<le> m)"

abbreviation new_tokens :: "(nat \<times> int list \<times> nat) list \<Rightarrow> nat" where
  "new_tokens rs \<equiv> sum_list (map (\<lambda>(i, pre, n). n) rs)"

lemma fill_rows_ok:
  "rect_table m table \<Longrightarrow> rows_fit m (length table) rs \<Longrightarrow> new_tokens rs \<le> length out \<Longrightarrow>
   rect_table m (fill_rows rs out table) \<and> length (fill_rows rs out table) = length table"
proof (induction rs out table rule: fill_rows.induct)
  case (2 i pre n rs out table)
  have "rect_table m (table[i := pre @ take n out @ drop (length pre + n) (table ! i)])"
    using "2.prems" by (auto simp: rect_table_def rows_fit_def dest!: set_update_subset_insert [THEN subsetD])
  then show ?case using 2 by (auto simp: rows_fit_def)
qed simp

lemma fill_rows_append: "fill_rows (rs @ rs') out table = fill_rows rs' (drop (new_tokens rs) out) (fill_rows rs out table)"
  by (induction rs out table rule: fill_rows.induct) (auto simp: add.commute)

lemma write_rows_fill:
  assumes "rect_table m (rt_req_to_token p)" "rows_fit m (length (rt_req_to_token p)) rs" "pt + new_tokens rs \<le> length out"
  shows "write_rows (map fst rs) (map (\<lambda>(i, pre, n). length pre) rs) (map (\<lambda>(i, pre, n). length pre + n) rs) (map (\<lambda>(i, pre, n). n) rs)
     (map (\<lambda>(i, pre, n). pre) rs) pt out p = Inr (p\<lparr>rt_req_to_token := fill_rows rs (drop pt out) (rt_req_to_token p)\<rparr>)"
  using assms
proof (induction rs arbitrary: pt p)
  case (Cons x rs)
  obtain i pre n where x: "x = (i, pre, n)" by (cases x)
  let ?t = "rt_req_to_token p"
  have i: "i < length ?t" "length pre + n \<le> m" "length (?t ! i) = m" "pt + n \<le> length out" using Cons.prems by (auto simp: x rows_fit_def rect_table_def)
  have 1: "rt_write i 0 (length pre) pre p = Inr (p\<lparr>rt_req_to_token := ?t[i := pre @ drop (length pre) (?t ! i)]\<rparr>)"
    using i by (simp add: rt_write_def Let_def)
  let ?row = "pre @ slice out pt (pt + n) @ drop (length pre + n) (?t ! i)"
  have 2: "rt_write i (length pre) (length pre + n) (slice out pt (pt + n)) (p\<lparr>rt_req_to_token := ?t[i := pre @ drop (length pre) (?t ! i)]\<rparr>) =
      Inr (p\<lparr>rt_req_to_token := ?t[i := ?row]\<rparr>)"
    using i by (simp add: rt_write_def Let_def add.commute)
  have "length ?row = m" using i by simp
  then have ok: "rect_table m (?t[i := ?row])" using Cons.prems(1) by (auto simp: rect_table_def dest!: set_update_subset_insert [THEN subsetD])
  have f: "rows_fit m (length (?t[i := ?row])) rs" "pt + n + new_tokens rs \<le> length out" using Cons.prems(2,3) by (auto simp: x rows_fit_def)
  show ?case
    using Cons.IH [of "p\<lparr>rt_req_to_token := ?t[i := ?row]\<rparr>" "pt + n"] ok f 1 2
    by (simp add: x slice_def add.commute)
qed simp

abbreviation write_kernel :: "(int \<Rightarrow> int) \<Rightarrow> nat \<Rightarrow> (nat \<times> int list \<times> nat) list \<Rightarrow> int list \<Rightarrow> nat \<Rightarrow> (int \<times> int) list" where
  "write_kernel mem m rs out \<equiv> write_req_to_token_pool_triton mem (map int (map fst rs)) (map (\<lambda>(i, pre, n). pre) rs)
     (map int (map (\<lambda>(i, pre, n). length pre) rs)) (map int (map (\<lambda>(i, pre, n). length pre + n) rs)) (map int (map (\<lambda>(i, pre, n). n) rs)) out (int m)"

lemma sum_list_int: "sum_list (map int xs) = int (sum_list xs)"
  by (induction xs) simp_all

lemma store_seq_map: "map (\<lambda>j. (s + j, f j)) (map int [0..<n]) = store_seq s (map (\<lambda>j. f (int j)) [0..<n])"
  by (simp add: store_seq_def)

lemma write_kernel_program:
  assumes k: "k < length rs" "rs ! k = (i, pre, n)" and out: "new_tokens rs \<le> length out"
  shows "write_kernel mem m rs out k = store_seq (int i * int m) (pre @ slice out (new_tokens (take k rs)) (new_tokens (take (Suc k) rs)))"
proof -
  let ?c = "new_tokens (take k rs)"
  have s: "new_tokens (take (Suc k) rs) = ?c + n" using k by (simp add: take_Suc_conv_app_nth)
  have "new_tokens (take (Suc k) rs) \<le> new_tokens rs"
    using sum_list_append [of "map (\<lambda>(i, pre, n). n) (take (Suc k) rs)" "map (\<lambda>(i, pre, n). n) (drop (Suc k) rs)"] by (simp flip: map_append)
  then have le: "?c + n \<le> length out" using out s by simp
  have cum: "sum_list (map (\<lambda>j. map int (map (\<lambda>(i, pre, n). n) rs) ! j) [0..<k]) = int ?c"
  proof -
    have "map (\<lambda>j. map int (map (\<lambda>(i, pre, n). n) rs) ! j) [0..<k] = map int (map (\<lambda>(i, pre, n). n) (take k rs))"
      using k by (intro nth_equalityI) simp_all
    then show ?thesis by (simp only: sum_list_int)
  qed
  have 1: "map (\<lambda>j. tl_load mem pre (int j)) [0..<length pre] = pre" by (intro nth_equalityI) (simp_all add: tl_load_def)
  have 2: "map (\<lambda>j. tl_load mem out (int ?c + int j)) [0..<n] = slice out ?c (?c + n)"
    using le by (intro nth_equalityI) (simp_all add: tl_load_def nat_add_distrib)
  have b: "map (\<lambda>o'. (int i * int m + o', tl_load mem pre o')) (block_offsets 512 (int (length pre))) = store_seq (int i * int m) pre"
    using store_seq_map [of "int i * int m" "tl_load mem pre" "length pre"] 1 by (simp add: block_offsets_eq)
  have "map (\<lambda>o'. (int i * int m + o' + int (length pre), tl_load mem out (int ?c + o'))) (block_offsets 512 (int n)) =
      store_seq (int i * int m + int (length pre)) (slice out ?c (?c + n))"
    using store_seq_map [of "int i * int m + int (length pre)" "\<lambda>j. tl_load mem out (int ?c + j)" n] 2 by (simp add: block_offsets_eq add_ac)
  then show ?thesis using k cum b s unfolding write_req_to_token_pool_triton_def by (simp add: Let_def store_seq_append)
qed

lemma write_kernel_fill:
  assumes t: "rect_table m table" and f: "rows_fit m (length table) rs" and out: "new_tokens rs \<le> length out" and k: "k \<le> length rs"
  shows "fold tl_store (concat (map (write_kernel mem m rs out) [0..<k])) (concat table) = concat (fill_rows (take k rs) out table)"
  using k
proof (induction k)
  case (Suc k)
  obtain i pre n where x: "rs ! k = (i, pre, n)" by (cases "rs ! k")
  let ?T = "fill_rows (take k rs) out table" and ?c = "new_tokens (take k rs)"
  have le: "new_tokens (take j rs) \<le> length out" for j
    using out sum_list_append [of "map (\<lambda>(i, pre, n). n) (take j rs)" "map (\<lambda>(i, pre, n). n) (drop j rs)"] by (simp flip: map_append)
  have T: "rect_table m ?T" "length ?T = length table"
    using fill_rows_ok [OF t _ le, of k] f in_set_takeD [of _ k rs] unfolding rows_fit_def by blast+
  have i: "i < length ?T" "length pre + n \<le> m" using f x nth_mem [of k rs] Suc.prems T by (auto simp: rows_fit_def)
  have s: "new_tokens (take (Suc k) rs) = ?c + n" using Suc.prems x by (simp add: take_Suc_conv_app_nth)
  have v: "length (pre @ slice out ?c (?c + n)) = length pre + n" using le [of "Suc k"] s by simp
  have "fold tl_store (write_kernel mem m rs out k) (concat ?T) = concat (?T[i := pre @ slice out ?c (?c + n) @ drop (length pre + n) (?T ! i)])"
    using row_stores [OF T(1) i(1), of "pre @ slice out ?c (?c + n)"] i(2) v write_kernel_program [OF _ x out, of mem m] s Suc.prems by simp
  then show ?case using Suc x by (simp add: take_Suc_conv_app_nth fill_rows_append slice_def)
qed simp

lemma launch_in_any_order:
  assumes "mset order = mset [0..<n]"
    and c: "\<And>s s'. s \<in> set (concat (map program [0..<n])) \<Longrightarrow> s' \<in> set (concat (map program [0..<n])) \<Longrightarrow> s = s' \<or> fst s \<noteq> fst s'"
  shows "launch_in program order out = launch program n out"
proof -
  have m: "mset (concat (map program order)) = mset (concat (map program [0..<n]))"
    unfolding mset_concat map_map by (simp add: assms(1) flip: sum_mset_sum_list)
  have "fold tl_store (concat (map program order)) = fold tl_store (concat (map program [0..<n]))"
  proof (rule fold_multiset_equiv [OF _ m])
    fix s s' assume "s \<in> set (concat (map program order))" "s' \<in> set (concat (map program order))"
    then show "tl_store s \<circ> tl_store s' = tl_store s' \<circ> tl_store s"
      using c mset_eq_setD [OF m] by (intro tl_store_commute) blast
  qed
  then show ?thesis by (simp add: launch_in_def launch_def)
qed

lemma fill_rows_other: "i \<notin> fst ` set rs \<Longrightarrow> fill_rows rs out table ! i = table ! i"
  by (induction rs out table rule: fill_rows.induct) auto

lemma fill_rows_nth:
  assumes "rows_fit m (length table) rs" "distinct (map fst rs)" "k < length rs" "rs ! k = (i, pre, n)"
  shows "fill_rows rs out table ! i = pre @ slice out (new_tokens (take k rs)) (new_tokens (take k rs) + n) @ drop (length pre + n) (table ! i)"
  using assms
proof (induction rs out table arbitrary: k rule: fill_rows.induct)
  case (2 j pre' n' rs out table)
  let ?t = "table[j := pre' @ take n' out @ drop (length pre' + n') (table ! j)]"
  have f: "rows_fit m (length ?t) rs" "distinct (map fst rs)" "j \<notin> fst ` set rs" "j < length table" using "2.prems"(1,2) by (auto simp: rows_fit_def)
  show ?case
  proof (cases k)
    case 0
    then show ?thesis using "2.prems"(4) f by (simp add: fill_rows_other)
  next
    case (Suc k')
    then have k': "k' < length rs" "rs ! k' = (i, pre, n)" using "2.prems"(3,4) by simp_all
    then have "i \<noteq> j" using f(3) nth_mem [OF k'(1)] by force
    moreover have "slice (drop n' out) a b = slice out (n' + a) (n' + b)" for a b by (simp add: slice_def add.commute)
    ultimately show ?thesis using "2.IH" [OF f(1,2) k'] Suc by (simp add: add.assoc)
  qed
qed simp

lemma write_kernel_order:
  assumes t: "rect_table m table" and f: "rows_fit m (length table) rs" and out: "new_tokens rs \<le> length out" and d: "distinct (map fst rs)"
    and o: "mset order = mset [0..<length rs]"
  shows "launch_in (write_kernel mem m rs out) order flat = launch (write_kernel mem m rs out) (length rs) flat"
proof (rule launch_in_any_order [OF o])
  fix s s'
  assume "s \<in> set (concat (map (write_kernel mem m rs out) [0..<length rs]))" "s' \<in> set (concat (map (write_kernel mem m rs out) [0..<length rs]))"
  then obtain k k' where k: "k < length rs" "s \<in> set (write_kernel mem m rs out k)" "k' < length rs" "s' \<in> set (write_kernel mem m rs out k')" by auto
  obtain i pre n i' pre' n' where x: "rs ! k = (i, pre, n)" "rs ! k' = (i', pre', n')" by (meson prod_cases3)
  note p = write_kernel_program [OF k(1) x(1) out, of mem m] write_kernel_program [OF k(3) x(2) out, of mem m]
  show "s = s' \<or> fst s \<noteq> fst s'"
  proof (cases "k = k'")
    case True
    show ?thesis using k(2) k(4) [folded True] unfolding p(1) by (auto simp: store_seq_def)
  next
    case False
    have ii: "i \<noteq> i'" using d False k x by (metis fst_conv length_map nth_eq_iff_index_eq nth_map)
    have "\<exists>a < m. fst s = int (i * m + a)" "\<exists>a < m. fst s' = int (i' * m + a)"
    proof -
      have len: "length (pre @ slice out a b) \<le> m" if "rs ! k = (i, pre, n)" "k < length rs" "b = a + n" for pre i n k a b
        using f that nth_mem [of k rs] by (force simp: rows_fit_def)
      have s: "new_tokens (take (Suc k) rs) = new_tokens (take k rs) + n" "new_tokens (take (Suc k') rs) = new_tokens (take k' rs) + n'"
        using k x by (simp_all add: take_Suc_conv_app_nth)
      show "\<exists>a < m. fst s = int (i * m + a)" using k(2) len [OF x(1) k(1) s(1)] unfolding p(1) by (force simp: store_seq_def)
      show "\<exists>a < m. fst s' = int (i' * m + a)" using k(4) len [OF x(2) k(3) s(2)] unfolding p(2) by (force simp: store_seq_def)
    qed
    moreover have "i * m + a \<noteq> i' * m + b" if "a < m" "b < m" for a b
      using ii that by (metis add.commute div_mult_self3 div_less gr_implies_not0 plus_nat.add_0)
    ultimately show ?thesis by (metis of_nat_eq_iff)
  qed
qed

lemma write_cache_indices_fill:
  assumes t: "rt_req_to_token p \<noteq> []" "rect_table m (rt_req_to_token p)" and f: "rows_fit m (length (rt_req_to_token p)) rs" and out: "new_tokens rs = length out"
  shows "write_cache_indices mem triton out (map fst rs) (map (\<lambda>(i, pre, n). length pre) rs) (map (\<lambda>(i, pre, n). length pre + n) rs)
     (map (\<lambda>(i, pre, n). n) rs) (map (\<lambda>(i, pre, n). pre) rs) p = Inr (p\<lparr>rt_req_to_token := fill_rows rs out (rt_req_to_token p)\<rparr>)"
proof -
  let ?T = "rt_req_to_token p" and ?F = "fill_rows rs out (rt_req_to_token p)"
  have m: "table_stride p = m" using t by (simp add: table_stride_def rect_table_def)
  have le: "new_tokens rs \<le> length out" using out by simp
  have k: "launch (write_kernel mem m rs out) (length rs) (concat ?T) = concat ?F"
    using write_kernel_fill [OF t(2) f le, of "length rs" mem] by (simp add: launch_def)
  have "table_of m (length ?T) (concat ?F) = ?F" using table_of_concat [of m ?F] fill_rows_ok [OF t(2) f le] by simp
  then show ?thesis using k m write_rows_fill [OF t(2) f, of 0 out] out by (simp add: write_cache_indices_def)
qed

text \<open>
  Property C37: the two ways of writing a batch into the table of requests agree. For requests with different rows, the Triton kernel, in whatever order the
  device runs its programs, and the plain loop leave the same table: the row of each request is its prefix, then its
  share of the new slots, then what was there before, and no other row changes.
\<close>

theorem write_cache_indices_paths_agree:
  fixes rs :: "(nat \<times> int list \<times> nat) list" and p :: "'a req_pool"
  assumes t: "rt_req_to_token p \<noteq> []" "rect_table m (rt_req_to_token p)" and f: "rows_fit m (length (rt_req_to_token p)) rs"
    and d: "distinct (map fst rs)" and out: "new_tokens rs = length out" and order: "mset order = mset [0..<length rs]"
  shows "\<exists>p'. (\<forall>triton. write_cache_indices mem triton out (map fst rs) (map (\<lambda>(i, pre, n). length pre) rs) (map (\<lambda>(i, pre, n). length pre + n) rs)
        (map (\<lambda>(i, pre, n). n) rs) (map (\<lambda>(i, pre, n). pre) rs) p = Inr p') \<and>
     concat (rt_req_to_token p') = launch_in (write_kernel mem m rs out) order (concat (rt_req_to_token p)) \<and>
     (\<forall>k<length rs. \<forall>i pre n. rs ! k = (i, pre, n) \<longrightarrow> rt_req_to_token p' ! i =
        pre @ slice out (new_tokens (take k rs)) (new_tokens (take k rs) + n) @ drop (length pre + n) (rt_req_to_token p ! i)) \<and>
     (\<forall>i. i \<notin> fst ` set rs \<longrightarrow> rt_req_to_token p' ! i = rt_req_to_token p ! i)"
proof -
  let ?T = "rt_req_to_token p" and ?F = "fill_rows rs out (rt_req_to_token p)"
  have le: "new_tokens rs \<le> length out" using out by simp
  have k: "launch (write_kernel mem m rs out) (length rs) (concat ?T) = concat ?F"
    using write_kernel_fill [OF t(2) f le, of "length rs" mem] by (simp add: launch_def)
  show ?thesis
    using write_cache_indices_fill [OF t f out, of mem] k write_kernel_order [OF t(2) f le d order, of mem "concat ?T"]
      fill_rows_nth [OF f d] fill_rows_other [of _ rs out ?T]
    by (intro exI [of _ "p\<lparr>rt_req_to_token := ?F\<rparr>"]) simp
qed

theorem write_cache_indices_paths_agree_witness:
  "\<exists>p'. (\<forall>triton. write_cache_indices (\<lambda>_. 9) triton [6, 8, 9] [2, 1] [2, 0] [3, 2] [1, 2] [[4, 5], []] (ReqToTokenPool 2 4 :: nat req_pool) = Inr p') \<and>
     rt_req_to_token p' ! 2 = [4, 5, 6, 0] \<and> rt_req_to_token p' ! 1 = [8, 9, 0, 0]"
proof -
  let ?p = "ReqToTokenPool 2 4 :: nat req_pool" and ?rs = "[(2, [4, 5], 1), (1, [], 2)] :: (nat \<times> int list \<times> nat) list"
  have t: "rt_req_to_token ?p = [[0, 0, 0, 0], [0, 0, 0, 0], [0, 0, 0, 0]]" by (simp add: ReqToTokenPool_def numeral_eq_Suc)
  have h: "rt_req_to_token ?p \<noteq> []" "rect_table 4 (rt_req_to_token ?p)" "rows_fit 4 (length (rt_req_to_token ?p)) ?rs" "distinct (map fst ?rs)"
    "new_tokens ?rs = length [6 :: int, 8, 9]" "mset [1, 0] = mset [0..<length ?rs]"
    by (simp_all add: t rect_table_def rows_fit_def upt_rec)
  obtain p' where p': "\<forall>triton. write_cache_indices (\<lambda>_. 9) triton [6, 8, 9] (map fst ?rs) (map (\<lambda>(i, pre, n). length pre) ?rs) (map (\<lambda>(i, pre, n). length pre + n) ?rs)
        (map (\<lambda>(i, pre, n). n) ?rs) (map (\<lambda>(i, pre, n). pre) ?rs) ?p = Inr p'"
    "\<forall>k<length ?rs. \<forall>i pre n. ?rs ! k = (i, pre, n) \<longrightarrow> rt_req_to_token p' ! i =
        pre @ slice [6, 8, 9] (new_tokens (take k ?rs)) (new_tokens (take k ?rs) + n) @ drop (length pre + n) (rt_req_to_token ?p ! i)"
    using write_cache_indices_paths_agree [OF h, of "\<lambda>_. 9"] by blast
  have "rt_req_to_token p' ! 2 = [4, 5, 6, 0]" using p'(2) [rule_format, of 0] by (simp add: t slice_def)
  moreover have "rt_req_to_token p' ! 1 = [8, 9, 0, 0]" using p'(2) [rule_format, of 1] by (simp add: t slice_def)
  ultimately show ?thesis using p'(1) by (intro exI [of _ p']) (simp add: numeral_2_eq_2 numeral_3_eq_3)
qed

end
