(* ===== verification/Batch_Alloc.thy ===== *)
theory Batch_Alloc
  imports Prefill_Adder Row_Kernel Req_Cache
begin

text \<open>
  Memory for a batch (\<^verbatim>\<open>mem_cache/allocation.py\<close>, \<^verbatim>\<open>allocation_sizing.py\<close>) over the radix cache, its allocator and the table of requests: rows and slots
  for a prefill batch, one slot per request for a decode step, the reservation of speculative decoding. Eviction makes room first; an
  allocation that still fails raises, as in the code. The radix cache has no sliding window, so \<^verbatim>\<open>maybe_evict_swa\<close> does
  nothing, and its allocators are not sharded and have no second pool.
\<close>

section \<open>Slots\<close>

fun page_interleave_shard_size :: "kv_alloc \<Rightarrow> nat" where
  "page_interleave_shard_size (TokenA a) = 1"
| "page_interleave_shard_size (PagedA a) = 1"

definition evict_from_tree_cache :: "nat \<Rightarrow> cache \<Rightarrow> cache result" where
  "evict_from_tree_cache num_tokens s = evict_to_free_tokens (page_interleave_shard_size (rc_alloc s)) num_tokens s"

fun ka_alloc :: "nat \<Rightarrow> kv_alloc \<Rightarrow> (int list option \<times> kv_alloc) result" where
  "ka_alloc n (TokenA a) = (let (out, a) = tok_alloc n a in Inr (out, TokenA a))"
| "ka_alloc n (PagedA a) = rbind (pag_alloc n a) (\<lambda>(out, a). Inr (out, PagedA a))"

fun ka_alloc_extend :: "gpu \<Rightarrow> int list \<Rightarrow> int list \<Rightarrow> int list \<Rightarrow> nat \<Rightarrow> kv_alloc \<Rightarrow> (int list option \<times> kv_alloc) result" where
  "ka_alloc_extend dev prefix_lens seq_lens last_loc n (TokenA a) = Inl (NotImplementedError ''alloc_extend is only for paged allocator'')"
| "ka_alloc_extend dev prefix_lens seq_lens last_loc n (PagedA a) =
     rbind (pag_alloc_extend dev prefix_lens seq_lens last_loc n None a) (\<lambda>(out, a). Inr (out, PagedA a))"

fun ka_alloc_decode :: "gpu \<Rightarrow> int list \<Rightarrow> int list \<Rightarrow> kv_alloc \<Rightarrow> (int list option \<times> kv_alloc) result" where
  "ka_alloc_decode dev seq_lens last_loc (TokenA a) = Inl (NotImplementedError ''alloc_decode is only for paged allocator'')"
| "ka_alloc_decode dev seq_lens last_loc (PagedA a) = rbind (pag_alloc_decode dev seq_lens last_loc a) (\<lambda>(out, a). Inr (out, PagedA a))"

definition or_out_of_memory :: "string \<Rightarrow> (int list option \<times> kv_alloc) result \<Rightarrow> cache \<Rightarrow> (int list \<times> cache) result" where
  "or_out_of_memory msg res s =
     rbind res (\<lambda>(out, a). case out of None \<Rightarrow> Inl (RuntimeError msg) | Some out_cache_loc \<Rightarrow> Inr (out_cache_loc, s\<lparr>rc_alloc := a\<rparr>))"

definition alloc_token_slots :: "nat \<Rightarrow> cache \<Rightarrow> (int list \<times> cache) result" where
  "alloc_token_slots num_tokens s =
     rbind (evict_from_tree_cache num_tokens s) (\<lambda>s. or_out_of_memory ''Out of memory'' (ka_alloc num_tokens (rc_alloc s)) s)"

definition alloc_paged_token_slots_extend :: "gpu \<Rightarrow> nat list \<Rightarrow> nat list \<Rightarrow> int list \<Rightarrow> nat \<Rightarrow> cache \<Rightarrow> (int list \<times> cache) result" where
  "alloc_paged_token_slots_extend dev prefix_lens seq_lens last_loc extend_num_tokens s =
     (let num_tokens = extend_num_tokens + length seq_lens * (ka_page_size (rc_alloc s) * page_interleave_shard_size (rc_alloc s)) in
      rbind (evict_from_tree_cache num_tokens s) (\<lambda>s.
        or_out_of_memory ''Prefill out of memory''
          (ka_alloc_extend dev (map int prefix_lens) (map int seq_lens) last_loc extend_num_tokens (rc_alloc s)) s))"

definition alloc_paged_token_slots_decode :: "gpu \<Rightarrow> nat list \<Rightarrow> int list \<Rightarrow> cache \<Rightarrow> (int list \<times> cache) result" where
  "alloc_paged_token_slots_decode dev seq_lens last_loc s =
     rbind (evict_from_tree_cache (length seq_lens * ka_page_size (rc_alloc s)) s) (\<lambda>s.
       or_out_of_memory ''Decode out of memory'' (ka_alloc_decode dev (map int seq_lens) last_loc (rc_alloc s)) s)"

section \<open>A prefill batch\<close>

text \<open>The fields of \<^verbatim>\<open>ScheduleBatch\<close> that allocation reads and writes.\<close>

record 'r batch =
  b_reqs :: "'r list"
  b_is_dllm :: bool
  b_prefix_lens :: "nat list"
  b_extend_lens :: "nat list"
  b_seq_lens :: "nat list"
  b_extend_num_tokens :: nat
  b_req_pool_indices :: "nat list"
  b_out_cache_loc :: "int list"

definition alloc_req_slots :: "kv_info list \<Rightarrow> 'a req_pool \<Rightarrow> (nat list \<times> kv_info list \<times> 'a req_pool) result" where
  "alloc_req_slots kvs p =
     rbind (rt_alloc kvs p) (\<lambda>(req_pool_indices, kvs, p).
       case req_pool_indices of
         None \<Rightarrow> Inl (RuntimeError ''alloc_req_slots runs out of memory'')
       | Some req_pool_indices \<Rightarrow> Inr (req_pool_indices, kvs, p))"

definition last_locs :: "int list list \<Rightarrow> int list" where
  "last_locs prefix_tensors = map (\<lambda>t. if t = [] then - 1 else last t) prefix_tensors"

text \<open>A diffusion block that is not finished keeps its slots: its part is read from the row, the other requests get fresh slots.\<close>

definition reuse_check :: "bool list \<Rightarrow> 'b adm_req_scheme batch \<Rightarrow> unit result" where
  "reuse_check reuse_kv b =
     rfold (\<lambda>(reuse, r, prefix_len, extend_len) u.
        if \<not> reuse then Inr ()
        else if extend_len \<noteq> length (r_dllm_incomplete_ids r) then Inl (RuntimeError ''dLLM FDFO retained KV must be reused as a full block.'')
        else if prefix_len + extend_len > kv_allocated_len (r_kv r) then Inl (RuntimeError ''dLLM FDFO retained KV is missing.'')
        else Inr ())
       (zip reuse_kv (zip (b_reqs b) (zip (b_prefix_lens b) (b_extend_lens b)))) ()"

fun reuse_parts :: "bool list \<Rightarrow> nat list \<Rightarrow> nat list \<Rightarrow> nat list \<Rightarrow> nat \<Rightarrow> int list option \<Rightarrow> int list list \<Rightarrow> int list result" where
  "reuse_parts (reuse # us) (req_idx # idxs) (prefix_len # ps) (extend_len # es) fresh_ptr fresh_loc table =
     (if reuse
      then rbind (reuse_parts us idxs ps es fresh_ptr fresh_loc table) (\<lambda>rest.
             Inr (slice (table ! req_idx) prefix_len (prefix_len + extend_len) @ rest))
      else case fresh_loc of
        None \<Rightarrow> Inl TypeError
      | Some fresh \<Rightarrow>
          rbind (reuse_parts us idxs ps es (fresh_ptr + extend_len) fresh_loc table) (\<lambda>rest.
            Inr (slice fresh fresh_ptr (fresh_ptr + extend_len) @ rest)))"
| "reuse_parts _ _ _ _ fresh_ptr fresh_loc table = Inr []"

definition alloc_extend_loc_with_kv_reuse ::
  "gpu \<Rightarrow> bool list \<Rightarrow> nat list \<Rightarrow> nat \<Rightarrow> 'b adm_req_scheme batch \<Rightarrow> 'a req_pool \<Rightarrow> cache \<Rightarrow> (int list \<times> cache) result" where
  "alloc_extend_loc_with_kv_reuse dev reuse_kv req_pool_indices alloc_page_size b p s =
     rbind (reuse_check reuse_kv b) (\<lambda>_.
       let alloc_extend_num_tokens = sum_list (map2 (\<lambda>reuse n. if reuse then 0 else n) reuse_kv (b_extend_lens b)) in
       rbind (if alloc_extend_num_tokens > 0
              then rbind (if alloc_page_size = 1 then alloc_token_slots alloc_extend_num_tokens s
                          else alloc_paged_token_slots_extend dev (b_prefix_lens b)
                            (map (\<lambda>(reuse, prefix_len, seq_len). if reuse then prefix_len else seq_len) (zip reuse_kv (zip (b_prefix_lens b) (b_seq_lens b))))
                            (last_locs (map r_prefix_indices (b_reqs b))) alloc_extend_num_tokens s)
                     (\<lambda>(fresh, s). Inr (Some fresh, s))
              else Inr (None, s))
         (\<lambda>(fresh_loc, s).
            rbind (reuse_parts reuse_kv req_pool_indices (b_prefix_lens b) (b_extend_lens b) 0 fresh_loc (rt_req_to_token p)) (\<lambda>out. Inr (out, s))))"

definition set_kv_lens :: "nat \<Rightarrow> 'b req_scheme \<Rightarrow> 'b req_scheme" where
  "set_kv_lens seq_len r = r\<lparr>r_kv := (r_kv r)\<lparr>kv_allocated_len := seq_len, kv_committed_len := seq_len\<rparr>\<rparr>"

definition alloc_for_extend :: "gpu \<Rightarrow> bool \<Rightarrow> 'a aux_ops \<Rightarrow> 'b adm_req_scheme batch \<Rightarrow> 'a radix_world
    \<Rightarrow> (int list \<times> nat list \<times> 'b adm_req_scheme batch \<times> 'a radix_world) result" where
  "alloc_for_extend dev triton ops b w =
     (let prefix_tensors = map r_prefix_indices (b_reqs b);
          reuse_kv = (if b_is_dllm b then Some (map (\<lambda>r. holds_kv (r_kv r) \<and> r_dllm_incomplete_ids r \<noteq> []) (b_reqs b)) else None);
          alloc_page_size = rc_page_size (rw_cache w)
      in rbind (alloc_req_slots (map r_kv (b_reqs b)) (rw_pool w)) (\<lambda>(req_pool_indices, kvs, p).
           let reqs = map2 (\<lambda>r kv. r\<lparr>r_kv := kv\<rparr>) (b_reqs b) kvs; s = rw_cache w in
           rbind (case reuse_kv of
                    Some us \<Rightarrow> if list_ex id us then alloc_extend_loc_with_kv_reuse dev us req_pool_indices alloc_page_size (b\<lparr>b_reqs := reqs\<rparr>) p s
                               else if alloc_page_size = 1 then alloc_token_slots (b_extend_num_tokens b) s
                               else alloc_paged_token_slots_extend dev (b_prefix_lens b) (b_seq_lens b) (last_locs prefix_tensors) (b_extend_num_tokens b) s
                  | None \<Rightarrow> if alloc_page_size = 1 then alloc_token_slots (b_extend_num_tokens b) s
                            else alloc_paged_token_slots_extend dev (b_prefix_lens b) (b_seq_lens b) (last_locs prefix_tensors) (b_extend_num_tokens b) s)
             (\<lambda>(out_cache_loc, s).
           rbind (write_cache_indices (behind dev) triton out_cache_loc req_pool_indices (b_prefix_lens b) (b_seq_lens b) (b_extend_lens b) prefix_tensors p) (\<lambda>p.
           rbind (alloc_aux_to_lengths ops req_pool_indices (b_seq_lens b) p) (\<lambda>p.
             let reqs = map2 set_kv_lens (b_seq_lens b) reqs
             in Inr (out_cache_loc, req_pool_indices, b\<lparr>b_reqs := reqs\<rparr>, w\<lparr>rw_cache := s, rw_pool := p\<rparr>))))))"

text \<open>The part of \<^verbatim>\<open>prepare_for_extend\<close> up to the allocation, and what it stores of the result.\<close>

definition prepare_for_extend :: "gpu \<Rightarrow> bool \<Rightarrow> 'a aux_ops \<Rightarrow> bool \<Rightarrow> 'b adm_req_scheme list \<Rightarrow> 'a radix_world
    \<Rightarrow> ('b adm_req_scheme batch \<times> 'a radix_world) result" where
  "prepare_for_extend dev triton ops is_dllm reqs w =
     rbind (rmap (\<lambda>r. rbind (get_fill_ids r) (\<lambda>ids. Inr (drop (length (r_prefix_indices r)) ids))) reqs) (\<lambda>input_ids.
     rbind (rmap (\<lambda>r. case r_extend_range r of None \<Rightarrow> Inl AttributeError | Some x \<Rightarrow> Inr x) reqs) (\<lambda>ranges.
       let b = \<lparr>b_reqs = reqs, b_is_dllm = is_dllm, b_prefix_lens = map (\<lambda>r. length (r_prefix_indices r)) reqs,
                b_extend_lens = map (\<lambda>(start, en). en - start) ranges, b_seq_lens = map snd ranges,
                b_extend_num_tokens = sum_list (map length input_ids), b_req_pool_indices = [], b_out_cache_loc = []\<rparr>
       in rbind (alloc_for_extend dev triton ops b w) (\<lambda>(out_cache_loc, req_pool_indices, b, w).
          rbind (py_assert (list_all2 (\<lambda>(seq_len, pre_len) n. int seq_len - int pre_len = int n) (zip (b_seq_lens b) (b_prefix_lens b)) (b_extend_lens b))
                   ''seq_len - pre_len == req.extend_range.length'') (\<lambda>_.
            Inr (b\<lparr>b_req_pool_indices := req_pool_indices, b_out_cache_loc := out_cache_loc\<rparr>, w)))))"

section \<open>A decode step\<close>

text \<open>\<^verbatim>\<open>write((rows, columns), values)\<close>: one cell per request; a single value is broadcast.\<close>

fun write_cells :: "nat list \<Rightarrow> nat list \<Rightarrow> int list \<Rightarrow> 'a req_pool \<Rightarrow> 'a req_pool result" where
  "write_cells (row # rows) (col # cols) (v # vs) p =
     (if row < length (rt_req_to_token p) \<and> col < length (rt_req_to_token p ! row)
      then write_cells rows cols vs (p\<lparr>rt_req_to_token := (rt_req_to_token p)[row := (rt_req_to_token p ! row)[col := v]]\<rparr>)
      else Inl IndexError)"
| "write_cells _ _ _ p = Inr p"

definition rt_write_cells :: "nat list \<Rightarrow> nat list \<Rightarrow> int list \<Rightarrow> 'a req_pool \<Rightarrow> 'a req_pool result" where
  "rt_write_cells rows cols vals p =
     (if length vals = length rows then write_cells rows cols vals p
      else if length vals = 1 then write_cells rows cols (replicate (length rows) (hd vals)) p
      else Inl (RuntimeError ''shape mismatch''))"

definition cells_at :: "nat list \<Rightarrow> nat list \<Rightarrow> int list list \<Rightarrow> int list result" where
  "cells_at rows cols table =
     (if list_all2 (\<lambda>i c. i < length table \<and> c < length (table ! i)) rows cols then Inr (map2 (\<lambda>i c. table ! i ! c) rows cols) else Inl IndexError)"

definition add_kv_lens :: "nat \<Rightarrow> 'b req_scheme \<Rightarrow> 'b req_scheme" where
  "add_kv_lens n r = r\<lparr>r_kv := (r_kv r)\<lparr>kv_allocated_len := kv_allocated_len (r_kv r) + n, kv_committed_len := kv_committed_len (r_kv r) + n\<rparr>\<rparr>"

text \<open>\<open>encoder_lens\<close> is given for an encoder-decoder model.\<close>

definition alloc_for_decode :: "gpu \<Rightarrow> 'a aux_ops \<Rightarrow> nat list option \<Rightarrow> nat \<Rightarrow> 'b req_scheme batch \<Rightarrow> 'a radix_world
    \<Rightarrow> (int list \<times> 'b req_scheme batch \<times> 'a radix_world) result" where
  "alloc_for_decode dev ops encoder_lens token_per_req b w =
     (let bs = length (b_seq_lens b); s = rw_cache w; p = rw_pool w in
      rbind (if rc_page_size s = 1 then alloc_token_slots (bs * token_per_req) s
             else rbind (cells_at (b_req_pool_indices b) (map2 (\<lambda>i n. if n = 0 then table_stride p - 1 else n - 1) (b_req_pool_indices b) (b_seq_lens b))
                      (rt_req_to_token p)) (\<lambda>last_loc.
                    alloc_paged_token_slots_decode dev (map (\<lambda>n. n + token_per_req) (b_seq_lens b)) last_loc s))
        (\<lambda>(out_cache_loc, s).
           let locs = (case encoder_lens of None \<Rightarrow> b_seq_lens b | Some ls \<Rightarrow> map2 (+) ls (b_seq_lens b)) in
           rbind (rt_write_cells (b_req_pool_indices b) locs out_cache_loc p) (\<lambda>p.
           rbind (alloc_aux_to_lengths ops (b_req_pool_indices b) (map (\<lambda>n. n + token_per_req) (b_seq_lens b)) p) (\<lambda>p.
             Inr (out_cache_loc, b\<lparr>b_reqs := map (add_kv_lens token_per_req) (b_reqs b)\<rparr>, w\<lparr>rw_cache := s, rw_pool := p\<rparr>)))))"

text \<open>\<open>prepare_for_decode\<close> without speculative decoding: the slot of the next token, then the lengths grow by one.\<close>

definition prepare_for_decode :: "gpu \<Rightarrow> 'a aux_ops \<Rightarrow> nat list option \<Rightarrow> 'b req_scheme batch \<Rightarrow> 'a radix_world \<Rightarrow> ('b req_scheme batch \<times> 'a radix_world) result" where
  "prepare_for_decode dev ops encoder_lens b w =
     rbind (alloc_for_decode dev ops encoder_lens 1 b w) (\<lambda>(out_cache_loc, b, w).
       Inr (b\<lparr>b_out_cache_loc := out_cache_loc, b_seq_lens := map Suc (b_seq_lens b)\<rparr>, w))"

section \<open>Speculative decoding\<close>

text \<open>The published settings: the algorithm, if any, and whether its kind is UNO or has draft KV.\<close>

record spec_conf =
  sc_algorithm :: "string option"
  sc_is_uno :: bool
  sc_has_draft_kv :: bool
  sc_num_steps :: "nat option"
  sc_eagle_topk :: "nat option"
  sc_num_draft_tokens :: "nat option"
  sc_max_num_draft_tokens :: "nat option"

definition max_speculative_num_draft_tokens :: "spec_conf \<Rightarrow> nat option" where
  "max_speculative_num_draft_tokens c =
     (case (sc_num_draft_tokens c, sc_max_num_draft_tokens c) of
        (None, m) \<Rightarrow> m | (Some n, None) \<Rightarrow> Some n | (Some n, Some m) \<Rightarrow> Some (max n m))"

definition get_alloc_page_size :: "nat \<Rightarrow> nat \<Rightarrow> nat" where
  "get_alloc_page_size page_size attn_dcp_size = page_size * attn_dcp_size"

definition nat_or_1 :: "nat option \<Rightarrow> nat" where
  "nat_or_1 x = (case x of None \<Rightarrow> 1 | Some n \<Rightarrow> if n = 0 then 1 else n)"

definition get_alloc_len_per_decode :: "spec_conf \<Rightarrow> nat \<Rightarrow> nat result" where
  "get_alloc_len_per_decode c page_size =
     (if sc_algorithm c = None then Inr 1
      else
        let spec_steps = nat_or_1 (sc_num_steps c); spec_topk = nat_or_1 (sc_eagle_topk c); spec_tokens = max_speculative_num_draft_tokens c in
        if sc_is_uno c then (case spec_tokens of None \<Rightarrow> Inl (RuntimeError ''UNO requires speculative_num_draft_tokens'') | Some n \<Rightarrow> Inr (n + 1))
        else case spec_tokens of
          None \<Rightarrow> Inl TypeError
        | Some n \<Rightarrow>
            if page_size = 1 \<or> spec_topk = 1 \<or> \<not> sc_has_draft_kv c then Inr (max (spec_steps * spec_topk) n)
            else let num_new_pages_per_topk = ((page_size - 1) + spec_steps + page_size - 1) div page_size
                 in Inr (max (num_new_pages_per_topk * page_size * spec_topk) n))"

definition get_alloc_reserve_per_decode :: "spec_conf \<Rightarrow> nat \<Rightarrow> nat result" where
  "get_alloc_reserve_per_decode c page_size = rbind (get_alloc_len_per_decode c page_size) (\<lambda>n. Inr (2 * n))"

definition get_req_to_token_extra_context_len :: "spec_conf \<Rightarrow> nat \<Rightarrow> nat result" where
  "get_req_to_token_extra_context_len c page_size =
     (let extra = 4 + (case max_speculative_num_draft_tokens c of None \<Rightarrow> 0 | Some n \<Rightarrow> n)
      in if sc_algorithm c \<noteq> None \<and> (page_size > 1 \<or> sc_is_uno c)
         then rbind (get_alloc_reserve_per_decode c page_size) (\<lambda>n. Inr (max extra (n + page_size - 1)))
         else Inr extra)"

definition page_aligned_decode_alloc_lens :: "kv_info list \<Rightarrow> nat \<Rightarrow> nat \<Rightarrow> nat list \<times> nat list \<times> nat" where
  "page_aligned_decode_alloc_lens kvs reserve_len page_size =
     (let cur_kv_lens = map kv_allocated_len kvs;
          nxt_kv_lens = map (\<lambda>kv. max (kv_allocated_len kv) ((kv_committed_len kv + reserve_len + page_size - 1) div page_size * page_size)) kvs
      in (cur_kv_lens, nxt_kv_lens, sum_list (map2 (-) nxt_kv_lens cur_kv_lens)))"

definition get_last_loc :: "gpu \<Rightarrow> bool \<Rightarrow> int list list \<Rightarrow> nat list \<Rightarrow> nat list \<Rightarrow> int list result" where
  "get_last_loc dev triton table req_pool_indices prefix_lens =
     (if triton then Inr (get_last_loc_triton (behind dev) (uninit dev) table req_pool_indices prefix_lens)
      else get_last_loc_torch table req_pool_indices prefix_lens)"

definition assign_req_to_token_pool_func :: "gpu \<Rightarrow> nat list \<Rightarrow> nat list \<Rightarrow> nat list \<Rightarrow> int list \<Rightarrow> nat \<Rightarrow> 'a req_pool \<Rightarrow> 'a req_pool" where
  "assign_req_to_token_pool_func dev req_pool_indices start_offset end_offset out_cache_loc batch_size p =
     p\<lparr>rt_req_to_token := table_of (table_stride p) (length (rt_req_to_token p))
       (launch (assign_req_to_token_pool (lane_other dev) (behind dev) (map int req_pool_indices) (map int start_offset) (map int end_offset)
          out_cache_loc (int (table_stride p)) (next_power_of_2 batch_size)) batch_size (concat (rt_req_to_token p)))\<rparr>"

definition alloc_for_spec_decode :: "gpu \<Rightarrow> bool \<Rightarrow> 'b req_scheme list \<Rightarrow> nat list \<Rightarrow> nat list \<Rightarrow> nat list \<Rightarrow> nat \<Rightarrow> 'a radix_world
    \<Rightarrow> ('b req_scheme list \<times> 'a radix_world) result" where
  "alloc_for_spec_decode dev triton reqs req_pool_indices cur_kv_lens nxt_kv_lens num_needed_tokens w =
     (let s = rw_cache w; p = rw_pool w in
      rbind (if num_needed_tokens > 0
             then rbind (if ka_page_size (rc_alloc s) = 1 then alloc_token_slots num_needed_tokens s
                         else rbind (get_last_loc dev triton (rt_req_to_token p) req_pool_indices cur_kv_lens) (\<lambda>last_loc.
                                alloc_paged_token_slots_extend dev cur_kv_lens nxt_kv_lens last_loc num_needed_tokens s))
                    (\<lambda>(out_cache_loc, s).
                       Inr (s, assign_req_to_token_pool_func dev req_pool_indices cur_kv_lens nxt_kv_lens out_cache_loc (length reqs) p))
             else Inr (s, p))
        (\<lambda>(s, p).
           if length reqs \<noteq> length nxt_kv_lens then Inl (ValueError ''zip'')
           else Inr (map2 (\<lambda>r n. r\<lparr>r_kv := (r_kv r)\<lparr>kv_allocated_len := max (kv_allocated_len (r_kv r)) n\<rparr>\<rparr>) reqs nxt_kv_lens,
                     w\<lparr>rw_cache := s, rw_pool := p\<rparr>)))"

section \<open>Whether the next decode step fits\<close>

definition new_tokens_required_next_decode_spec_v2 :: "nat \<Rightarrow> kv_info list \<Rightarrow> nat \<Rightarrow> int" where
  "new_tokens_required_next_decode_spec_v2 reserve_len kvs page_size =
     sum_list (map (\<lambda>kv. let x = max 0 (int (kv_committed_len kv) + int reserve_len - int (kv_allocated_len kv));
                             cur = int (kv_allocated_len kv); nxt = cur + x
                         in ceil_align nxt (int page_size) - ceil_align cur (int page_size)) kvs)"

text \<open>Beam search is not modelled: no request has member rows.\<close>

definition new_tokens_required_next_decode :: "spec_conf \<Rightarrow> nat \<Rightarrow> kv_info list \<Rightarrow> int result" where
  "new_tokens_required_next_decode c page_size kvs =
     (if sc_algorithm c = None
      then let new_pages = length (filter (\<lambda>kv. kv_committed_len kv mod page_size = 0) kvs) in Inr (int (new_pages * page_size))
      else rbind (get_alloc_reserve_per_decode c page_size) (\<lambda>reserve_len. Inr (new_tokens_required_next_decode_spec_v2 reserve_len kvs page_size)))"

definition check_decode_mem :: "spec_conf \<Rightarrow> kv_info list \<Rightarrow> cache \<Rightarrow> (bool \<times> cache) result" where
  "check_decode_mem c kvs s =
     rbind (new_tokens_required_next_decode c (ka_page_size (rc_alloc s)) kvs) (\<lambda>num_tokens.
       check_decode_capacity (page_interleave_shard_size (rc_alloc s)) (nat num_tokens) s)"

end
