(* ===== verification/Retract.thy ===== *)
theory Retract
  imports Batch_Alloc
begin

text \<open>
  Retraction of running requests (\<^verbatim>\<open>managers/schedule_batch.py\<close>) and the decode side of a scheduler step
  (\<^verbatim>\<open>update_running_batch\<close> of \<^verbatim>\<open>managers/scheduler.py\<close>): when the next decode step does not fit, requests are released one by
  one, the least preferred first, until it fits. The scheduler runs without disaggregation, so no backup is saved, and without beam
  groups, sparse attention offloading or Mamba states.
\<close>

section \<open>Releasing a request\<close>

definition reset_for_retract :: "'b adm_req_scheme \<Rightarrow> 'b adm_req_scheme result" where
  "reset_for_retract r =
     (let kv = (r_kv r)\<lparr>cache_protected_len := 0, mamba_pool_idx := None, mamba_ping_pong_track_buffer := None, mamba_next_track_idx := None,
                 mamba_last_track_idx := None, mamba_last_track_seqlen := None, mamba_cow_src_index := None, mamba_needs_clear := False\<rparr>;
          r = r\<lparr>r_prefix_indices := [], r_last_node := None, r_num_matched_prefix_tokens := 0, r_swa_branching_seqlen := None,
                r_extend_range := None, r_is_retracted := True, r_retracted_stain := True, r_kv := kv\<rparr>
      in rbind (py_assert (\<not> holds_kv (r_kv r)) ''expect it is already released'') (\<lambda>_.
           Inr (r\<lparr>r_kv := (r_kv r)\<lparr>kv_committed_len := 0\<rparr>\<rparr>)))"

text \<open>What retraction reads of the settings.\<close>

record retract_conf =
  cf_release :: release_env
  cf_spec :: spec_conf
  cf_decode_steps :: nat
  cf_policy_priority :: bool
  cf_low_priority_values_first :: bool

definition release_req :: "retract_conf \<Rightarrow> 'a aux_ops \<Rightarrow> 'b adm_req_scheme \<Rightarrow> nat \<Rightarrow> 'a radix_world \<Rightarrow> ('b adm_req_scheme \<times> 'a radix_world) result" where
  "release_req cf ops r remaing_req_count w =
     rbind (release_kv_cache ops (cf_release cf) False r w) (\<lambda>(r, w).
       let num_tokens = remaing_req_count * cf_decode_steps cf in
       rbind (evict_from_tree_cache num_tokens (rw_cache w)) (\<lambda>s.
       rbind (reset_for_retract r) (\<lambda>r. Inr (r, w\<lparr>rw_cache := s\<rparr>))))"

fun retract_all_from :: "retract_conf \<Rightarrow> 'a aux_ops \<Rightarrow> 'b adm_req_scheme list \<Rightarrow> 'a radix_world \<Rightarrow> ('b adm_req_scheme list \<times> 'a radix_world) result" where
  "retract_all_from cf ops [] w = Inr ([], w)"
| "retract_all_from cf ops (r # rs) w =
     rbind (release_req cf ops r (length (r # rs)) w) (\<lambda>(r, w).
     rbind (retract_all_from cf ops rs w) (\<lambda>(rs, w). Inr (r # rs, w)))"

definition retract_all :: "retract_conf \<Rightarrow> 'a aux_ops \<Rightarrow> 'b adm_req_scheme list \<Rightarrow> 'a radix_world \<Rightarrow> ('b adm_req_scheme list \<times> 'a radix_world) result" where
  "retract_all cf ops reqs w = retract_all_from cf ops reqs w"

section \<open>The order of retraction\<close>

definition length_key :: "'b req_scheme \<Rightarrow> int \<times> int" where
  "length_key r = (int (length (r_output_ids r)), - int (length (r_origin_input_ids r)))"

definition sys_maxsize :: int where
  "sys_maxsize = 2 ^ 63 - 1"

definition retraction_key :: "bool \<Rightarrow> 'b req_scheme \<Rightarrow> int \<times> int \<times> int" where
  "retraction_key low_first r =
     (let priority_sign = (if low_first then 1 else - 1);
          priority = (case r_priority r of None \<Rightarrow> if low_first then sys_maxsize else - sys_maxsize - 1 | Some p \<Rightarrow> p)
      in (priority * (- priority_sign), length_key r))"

text \<open>\<^verbatim>\<open>sort(key=..., reverse=True)\<close>: descending, equal elements in their old order.\<close>

definition sort_reverse :: "('a \<Rightarrow> 'k :: linorder) \<Rightarrow> 'a list \<Rightarrow> 'a list" where
  "sort_reverse key xs = rev (sort_key key (rev xs))"

definition get_decode_retraction_order :: "retract_conf \<Rightarrow> 'b req_scheme list \<Rightarrow> nat list" where
  "get_decode_retraction_order cf reqs =
     (let sorted_indices = [0..<length reqs] in
      if cf_policy_priority cf then sort_reverse (\<lambda>i. retraction_key (cf_low_priority_values_first cf) (reqs ! i)) sorted_indices
      else sort_reverse (\<lambda>i. length_key (reqs ! i)) sorted_indices)"

section \<open>Filtering and merging batches\<close>

text \<open>\<open>None\<close> keeps the unfinished requests that are not excluded; the excluded ones are given by their positions.\<close>

definition filter_batch :: "nat list \<Rightarrow> nat list option \<Rightarrow> 'b adm_req_scheme batch \<Rightarrow> 'b adm_req_scheme batch" where
  "filter_batch chunked_req_to_exclude keep b =
     (let keep_indices = (case keep of Some ks \<Rightarrow> ks
            | None \<Rightarrow> filter (\<lambda>i. \<not> r_finished (b_reqs b ! i) \<and> i \<notin> set chunked_req_to_exclude) [0..<length (b_reqs b)])
      in if keep_indices = [] then b\<lparr>b_reqs := []\<rparr>
         else if length keep_indices = length (b_reqs b) then b
         else b\<lparr>b_reqs := map (\<lambda>i. b_reqs b ! i) keep_indices, b_req_pool_indices := map (\<lambda>i. b_req_pool_indices b ! i) keep_indices,
                b_seq_lens := map (\<lambda>i. b_seq_lens b ! i) keep_indices, b_out_cache_loc := []\<rparr>)"

definition merge_batch :: "'r batch \<Rightarrow> 'r batch \<Rightarrow> 'r batch" where
  "merge_batch b other =
     b\<lparr>b_req_pool_indices := b_req_pool_indices b @ b_req_pool_indices other, b_seq_lens := b_seq_lens b @ b_seq_lens other,
       b_out_cache_loc := [], b_reqs := b_reqs b @ b_reqs other\<rparr>"

section \<open>Retraction\<close>

text \<open>The check reads the requests at the given positions.\<close>

definition check_decode_mem_at :: "retract_conf \<Rightarrow> nat list \<Rightarrow> 'b req_scheme list \<Rightarrow> 'a radix_world \<Rightarrow> (bool \<times> 'a radix_world) result" where
  "check_decode_mem_at cf selected_indices reqs w =
     rbind (check_decode_mem (cf_spec cf) (map (\<lambda>i. r_kv (reqs ! i)) selected_indices) (rw_cache w)) (\<lambda>(ok, s). Inr (ok, w\<lparr>rw_cache := s\<rparr>))"

function retract_loop :: "retract_conf \<Rightarrow> 'a aux_ops \<Rightarrow> bool \<Rightarrow> nat list \<Rightarrow> nat list \<Rightarrow> 'b adm_req_scheme list \<Rightarrow> 'a radix_world
    \<Rightarrow> (nat list \<times> nat list \<times> 'b adm_req_scheme list \<times> 'a radix_world) result" where
  "retract_loop cf ops first_iter sorted_indices retracted reqs w =
     rbind (if first_iter then Inr (False, w) else check_decode_mem_at cf sorted_indices reqs w) (\<lambda>(fits, w).
       if fits \<or> length sorted_indices = 1 then Inr (sorted_indices, retracted, reqs, w)
       else if sorted_indices = [] then Inl IndexError
       else let idx = last sorted_indices; sorted_indices = butlast sorted_indices in
         rbind (release_req cf ops (reqs ! idx) (length sorted_indices) w) (\<lambda>(req, w).
           retract_loop cf ops False sorted_indices (retracted @ [idx]) (reqs[idx := req]) w))"
  by auto
termination by (relation "measure (\<lambda>(cf, ops, f, is, xs, rs, w). length is)") auto

declare retract_loop.simps [simp del]

definition estimate_new_token_ratio_after_retract :: "nat \<Rightarrow> 'b sched_req_scheme list \<Rightarrow> rat result" where
  "estimate_new_token_ratio_after_retract decode_steps reqs =
     (let total_decoded_tokens = sum_list (map (\<lambda>r. int (length (r_output_ids r))) reqs);
          total_max_new_tokens = sum_list (map r_max_new_tokens reqs)
      in rbind (truediv (total_decoded_tokens + int decode_steps * int (length reqs)) (total_max_new_tokens + 1)) (\<lambda>x. Inr (min 1 x)))"

text \<open>The requests of the results are read at the end: they are the same objects.\<close>

definition retract_decode :: "retract_conf \<Rightarrow> 'a aux_ops \<Rightarrow> 'b adm_req_scheme batch \<Rightarrow> 'a radix_world
    \<Rightarrow> ('b adm_req_scheme list \<times> rat \<times> 'b adm_req_scheme list \<times> 'b adm_req_scheme batch \<times> 'a radix_world) result" where
  "retract_decode cf ops b w =
     rbind (retract_loop cf ops True (get_decode_retraction_order cf (b_reqs b)) [] (b_reqs b) w) (\<lambda>(sorted_indices, retracted, reqs, w).
     rbind (if length sorted_indices \<le> 1 then check_decode_mem_at cf sorted_indices reqs w else Inr (True, w)) (\<lambda>(fits, w).
     rbind (if fits then Inr (sorted_indices, [], reqs, w)
            else if sorted_indices = [] then Inl IndexError
            else let last_idx = last sorted_indices;
                     last_req = (reqs ! last_idx)\<lparr>r_to_finish := Some ''Out of memory even after retracting all other requests in the decode batch. Aborting the last request.''\<rparr>
                 in rbind (release_req cf ops last_req 0 w) (\<lambda>(last_req, w). Inr (butlast sorted_indices, [last_idx], reqs[last_idx := last_req], w)))
       (\<lambda>(sorted_indices, aborted, reqs, w).
          let b = filter_batch [] (Some sorted_indices) (b\<lparr>b_reqs := reqs\<rparr>) in
          rbind (estimate_new_token_ratio_after_retract (cf_decode_steps cf) (b_reqs b)) (\<lambda>new_estimate_ratio.
            Inr (map (\<lambda>i. reqs ! i) retracted, new_estimate_ratio, map (\<lambda>i. reqs ! i) aborted, b, w)))))"

section \<open>The ratio of new tokens\<close>

text \<open>Floating-point results: the exact result rounded to a double.\<close>

definition to_double :: "rat \<Rightarrow> rat" where
  "to_double q = (let (n, d) = quotient_of q in case truediv n d of Inr x \<Rightarrow> x | Inl _ \<Rightarrow> 0)"

record ratio_tracker =
  nt_init :: rat
  nt_min :: rat
  nt_decay :: rat
  nt_current :: rat

definition NewTokenRatioTracker_from_config :: "rat \<Rightarrow> rat \<Rightarrow> rat \<Rightarrow> nat \<Rightarrow> ratio_tracker result" where
  "NewTokenRatioTracker_from_config init_new_token_ratio schedule_conservativeness min_new_token_ratio_factor decay_steps =
     (let init = min (to_double (init_new_token_ratio * schedule_conservativeness)) 1;
          min_ratio = min (to_double (init * min_new_token_ratio_factor)) 1
      in if decay_steps = 0 then Inl ZeroDivisionError
         else Inr \<lparr>nt_init = init, nt_min = min_ratio, nt_decay = to_double (to_double (init - min_ratio) / of_nat decay_steps), nt_current = init\<rparr>)"

definition decay_step :: "ratio_tracker \<Rightarrow> ratio_tracker" where
  "decay_step t = t\<lparr>nt_current := max (to_double (nt_current t - nt_decay t)) (nt_min t)\<rparr>"

definition reset_ratio :: "ratio_tracker \<Rightarrow> ratio_tracker" where
  "reset_ratio t = t\<lparr>nt_current := nt_init t\<rparr>"

section \<open>The running batch\<close>

text \<open>
  The decode side of a scheduler step. The result holds the batch, whether it counts as full, the requests that go back to the
  waiting queue and those reported as aborted. \<open>test_retract\<close> is the test switch that forces a retraction.
\<close>

record 'b running =
  ru_batch :: "'b adm_req_scheme batch"
  ru_batch_is_full :: bool
  ru_tracker :: ratio_tracker
  ru_requeued :: "'b adm_req_scheme list"
  ru_aborted :: "'b adm_req_scheme list"

definition update_running_batch :: "retract_conf \<Rightarrow> 'a aux_ops \<Rightarrow> gpu \<Rightarrow> bool \<Rightarrow> 'b running \<Rightarrow> 'a radix_world \<Rightarrow> ('b running \<times> 'a radix_world) result" where
  "update_running_batch cf ops dev test_retract st w =
     (let initial_bs = length (b_reqs (ru_batch st)); b = filter_batch [] None (ru_batch st) in
      if b_reqs b = [] then Inr (st\<lparr>ru_batch := b, ru_batch_is_full := False\<rparr>, w)
      else
        rbind (check_decode_mem_at cf [0..<length (b_reqs b)] (b_reqs b) w) (\<lambda>(fits, w).
        rbind (if \<not> fits \<or> test_retract
               then rbind (retract_decode cf ops b w) (\<lambda>(retracted_reqs, new_token_ratio, reqs_to_abort, b, w).
                      Inr (st\<lparr>ru_batch := b, ru_tracker := (ru_tracker st)\<lparr>nt_current := new_token_ratio\<rparr>,
                              ru_requeued := ru_requeued st @ retracted_reqs, ru_aborted := ru_aborted st @ reqs_to_abort\<rparr>, w))
               else Inr (st\<lparr>ru_batch := b, ru_tracker := decay_step (ru_tracker st)\<rparr>, w))
          (\<lambda>(st, w).
             let st = (if length (b_reqs (ru_batch st)) < initial_bs then st\<lparr>ru_batch_is_full := False\<rparr> else st) in
             if b_reqs (ru_batch st) = [] then Inr (st, w)
             else rbind (prepare_for_decode dev ops None (ru_batch st) w) (\<lambda>(b, w). Inr (st\<lparr>ru_batch := b\<rparr>, w)))))"

end
