(* ===== verification/Row_Grow.thy ===== *)
theory Row_Grow
  imports Batch_Alloc Evict_Demand
begin

text \<open>
  What allocation gives a batch. The slots handed to a request continue its row on the pages it owns, then on fresh pages; so a request
  that owned the pages of its row before owns those of the longer row afterwards. With the counting of \<open>reachable_slots\<close> this gives
  when an allocation succeeds.
\<close>

section \<open>Extending a row\<close>

lemma ceil_pages: "0 < ps \<Longrightarrow> (int (k * ps + n) + int ps - 1) div int ps = int (k + (n + ps - 1) div ps)" for ps :: nat
proof -
  assume ps: "0 < ps"
  have "(int (k * ps + n) + int ps - 1) div int ps = int ((n + ps - 1 + k * ps) div ps)"
    unfolding zdiv_int using ps by (intro arg_cong [of _ _ "\<lambda>x. x div int ps"]) (simp add: algebra_simps of_nat_diff)
  also have "\<dots> = int (k + (n + ps - 1) div ps)" using ps by (subst div_mult_self1) simp_all
  finally show ?thesis .
qed

lemma covers_nth: "covers ps v pages \<Longrightarrow> 0 < ps \<Longrightarrow> j < length v \<Longrightarrow> j div ps < length pages \<and> v ! j = pages ! (j div ps) * int ps + int (j mod ps)"
proof -
  assume h: "covers ps v pages" "0 < ps" "j < length v"
  have "j div ps * ps \<le> j" by simp
  then have "j div ps * ps < length v" using h(3) by linarith
  then have l: "j div ps < length pages" using h(1) ceil_div_less [OF h(2)] by (simp add: covers_def)
  have "v ! j = page_slots ps pages ! (j div ps * ps + j mod ps)" using h(1,3) by (auto simp: covers_def nth_append elim!: prefixE)
  then show ?thesis using l page_slots_nth [OF l, of "j mod ps" ps] h(2) by simp
qed

lemma coversI:
  assumes "0 < ps" "distinct pages" "length pages = (length v + ps - 1) div ps"
    "\<And>j. j < length v \<Longrightarrow> v ! j = pages ! (j div ps) * int ps + int (j mod ps)"
  shows "covers ps v pages"
proof -
  have le: "length v \<le> length pages * ps" using assms(1,3) ceil_div_less [OF assms(1), of "length pages" "length v"] by (simp add: not_less)
  have "v = take (length v) (page_slots ps pages)"
  proof (rule nth_equalityI)
    fix j assume j: "j < length v"
    then have "j div ps < length pages" using assms(1) le by (simp add: less_mult_imp_div_less)
    then show "v ! j = take (length v) (page_slots ps pages) ! j"
      using j assms(1,4) page_slots_nth [of "j div ps" pages "j mod ps" ps] by simp
  qed (use le in simp)
  then have "prefix v (page_slots ps pages)" by (metis take_is_prefix)
  then show ?thesis using assms(2,3) by (simp add: covers_def)
qed

lemma covers_extend:
  assumes ps: "0 < ps" and c: "covers ps v pages" and d: "distinct (pages @ N)" and l: "v \<noteq> [] \<Longrightarrow> l = last v"
    and N: "int (length N) = new_pages (int ps) (int (k * ps + length v)) (int (k * ps + length v + n))"
  shows "covers ps (v @ request_slots (int ps) (int (k * ps + length v)) (int (k * ps + length v + n)) l N) (pages @ N)"
    "length (request_slots (int ps) (int (k * ps + length v)) (int (k * ps + length v + n)) l N) = n"
proof -
  let ?L = "length v" and ?K = "length pages"
  let ?r = "request_slots (int ps) (int (k * ps + ?L)) (int (k * ps + ?L + n)) l N"
  show len: "length ?r = n" by (simp add: request_slots_def)
  have K: "?K = (?L + ps - 1) div ps" using c by (simp add: covers_def)
  have c1: "(int (k * ps + ?L) + int ps - 1) div int ps = int (k + ?K)" unfolding K by (rule ceil_pages [OF ps])
  have c2: "(int (k * ps + ?L + n) + int ps - 1) div int ps = int (k + (?L + n + ps - 1) div ps)" using ceil_pages [OF ps, of k "?L + n"] by (simp add: add.assoc)
  have "?K \<le> (?L + n + ps - 1) div ps" unfolding K by (intro div_le_mono) simp
  then have KN: "?K + length N = (?L + n + ps - 1) div ps" using N c1 c2 unfolding new_pages_def by linarith
  have new: "?r ! i = (pages @ N) ! ((?L + i) div ps) * int ps + int ((?L + i) mod ps)" if i: "i < n" for i
  proof -
    let ?x = "?L + i"
    have xl: "?x div ps * ps \<le> ?x" by (rule div_times_less_eq_dividend)
    have xm: "(int (k * ps + ?L) + int i) mod int ps = int (?x mod ps)"
    proof -
      have "int (k * ps + ?L) + int i = int (?x + k * ps)" by simp
      then show ?thesis by (simp only: zmod_int [symmetric] mod_mult_self1)
    qed
    have q: "int (k * ps + ?L) + int i < int (k + ?K) * int ps \<longleftrightarrow> ?x < ?K * ps"
      unfolding of_nat_add [symmetric] of_nat_mult [symmetric] of_nat_less_iff by (simp add: distrib_right add.assoc)
    show ?thesis
    proof (cases "?x < ?K * ps")
      case True
      then have K0: "0 < ?K" by (cases ?K) simp_all
      have "(?K - 1) * ps < ?L" using ceil_div_less [OF ps, of "?K - 1" ?L] K K0 by simp
      then have v: "v \<noteq> []" and a: "(?K - 1) * ps \<le> ?L - 1" "?x div ps = ?K - 1" "(?L - 1) div ps = ?K - 1"
        using True K0 by (auto intro!: div_nat_eqI simp: diff_mult_distrib diff_mult_distrib2 mult.commute [of ps])
      have "l = pages ! (?K - 1) * int ps + int ((?L - 1) mod ps)"
        using l [OF v] v covers_nth [OF c ps, of "?L - 1"] a(3) by (simp add: last_conv_nth)
      moreover have "int ((?L - 1) mod ps) + 1 + int i = int (?x mod ps)"
      proof -
        have "(?L - 1) mod ps = ?L - 1 - (?K - 1) * ps" "?x mod ps = ?x - (?K - 1) * ps"
          using a by (simp_all add: minus_div_mult_eq_mod [symmetric])
        then show ?thesis using a(1) v by (cases v) auto
      qed
      ultimately have "l + 1 + int i = (pages @ N) ! (?x div ps) * int ps + int (?x mod ps)" using a(2) K0 by (simp add: nth_append)
      then show ?thesis using True i q c1 by (simp add: request_slots_def Let_def)
    next
      case False
      then have kx: "?K \<le> ?x div ps" using ps by (simp add: less_eq_div_iff_mult_less_eq)
      have "?x div ps * ps < ?L + n" using xl i by linarith
      then have "?x div ps < ?K + length N" using KN ceil_div_less [OF ps] by simp
      moreover have "nat ((int (k * ps + ?L) + int i - int (k + ?K) * int ps) div int ps) = ?x div ps - ?K"
      proof -
        have "int (k * ps + ?L) + int i - int (k + ?K) * int ps = int (?x - ?K * ps)" using False by (simp add: of_nat_diff algebra_simps)
        moreover have "(?x - ?K * ps) div ps = ?x div ps - ?K"
          using ps False div_mult_self3 [of ps ?K "?x - ?K * ps"] by simp
        ultimately show ?thesis by (simp only: zdiv_int [symmetric] nat_int)
      qed
      ultimately show ?thesis using False i q c1 kx xm by (simp add: request_slots_def Let_def nth_append)
    qed
  qed
  show "covers ps (v @ ?r) (pages @ N)"
  proof (rule coversI [OF ps d])
    show "length (pages @ N) = (length (v @ ?r) + ps - 1) div ps" using KN len by simp
    fix j assume "j < length (v @ ?r)"
    then show "(v @ ?r) ! j = (pages @ N) ! (j div ps) * int ps + int (j mod ps)"
      using covers_nth [OF c ps, of j] new [of "j - ?L"] len by (cases "j < ?L") (auto simp: nth_append)
  qed
qed

section \<open>Pages shared out\<close>

text \<open>What a batch asks for: per request the length of its row, the number of new slots, and the last slot of the row.\<close>

type_synonym ask = "nat \<times> nat \<times> int"

definition ask_row :: "ask \<Rightarrow> int \<times> int \<times> int" where
  "ask_row a = (case a of (q, n, l) \<Rightarrow> (int q, int (q + n), l))"

definition ask_pages :: "nat \<Rightarrow> ask \<Rightarrow> nat" where
  "ask_pages ps a = (case a of (q, n, l) \<Rightarrow> nat (new_pages (int ps) (int q) (int (q + n))))"

abbreviation page_demand :: "nat \<Rightarrow> ask list \<Rightarrow> nat" where
  "page_demand ps as \<equiv> sum_list (map (ask_pages ps) as)"

definition ask_slots :: "nat \<Rightarrow> ask \<Rightarrow> int list \<Rightarrow> int list" where
  "ask_slots ps a pages = (case a of (q, n, l) \<Rightarrow> request_slots (int ps) (int q) (int (q + n)) l pages)"

fun shares :: "nat \<Rightarrow> ask list \<Rightarrow> int list \<Rightarrow> int list list" where
  "shares ps [] pages = []"
| "shares ps (a # as) pages = take (ask_pages ps a) pages # shares ps as (drop (ask_pages ps a) pages)"

definition granted :: "nat \<Rightarrow> ask list \<Rightarrow> int list \<Rightarrow> int list" where
  "granted ps as pages = concat (map2 (ask_slots ps) as (shares ps as pages))"

lemma total_new_asks: "total_new (int ps) (map ask_row as) = page_demand ps as"
  by (induction as) (auto simp: total_new_def ask_row_def ask_pages_def)

lemma length_shares [simp]: "length (shares ps as pages) = length as"
  by (induction as arbitrary: pages) simp_all

lemma concat_shares: "length pages = page_demand ps as \<Longrightarrow> concat (shares ps as pages) = pages"
  by (induction as arbitrary: pages) simp_all

lemma shares_nth: "length pages = page_demand ps as \<Longrightarrow> k < length as \<Longrightarrow> length (shares ps as pages ! k) = ask_pages ps (as ! k)"
proof (induction as arbitrary: pages k)
  case (Cons a as)
  then show ?case by (cases k) simp_all
qed simp

lemma length_ask_slots [simp]: "length (ask_slots ps a pages) = fst (snd a)"
  by (auto simp: ask_slots_def split: prod.split)

lemma request_slots_take:
  assumes ps: "0 < ps" and n: "ask_pages ps (q, n, l) \<le> length pages"
  shows "request_slots (int ps) (int q) (int (q + n)) l (take (ask_pages ps (q, n, l)) pages) = request_slots (int ps) (int q) (int (q + n)) l pages"
proof -
  let ?c = "(int q + int ps - 1) div int ps" and ?e = "(int (q + n) + int ps - 1) div int ps"
  have "nat ((int q + int i - ?c * int ps) div int ps) < ask_pages ps (q, n, l)" if "i < n" "\<not> int q + int i < ?c * int ps" for i
  proof -
    let ?x = "int q + int i - ?c * int ps"
    have "int (q + n) \<le> ?e * int ps" using ceil_align_ge [of "int ps" "int (q + n)"] ps by (simp add: ceil_align_def ceil_div_def)
    then have "?x < (?e - ?c) * int ps" using that by (simp add: left_diff_distrib)
    then have "?x div int ps < ?e - ?c" using ps by (simp add: int_div_lessI)
    moreover have "0 \<le> ?x div int ps" using that ps by (simp add: pos_imp_zdiv_nonneg_iff)
    ultimately show ?thesis by (simp add: ask_pages_def new_pages_def)
  qed
  then show ?thesis by (auto simp: request_slots_def Let_def)
qed

lemma extend_slots_granted:
  assumes "0 < ps" "page_demand ps as \<le> length pages"
  shows "extend_slots (int ps) (map ask_row as) pages = granted ps as (take (page_demand ps as) pages)"
  using assms(2)
proof (induction as arbitrary: pages)
  case (Cons a as)
  obtain q n l where a: "a = (q, n, l)" by (cases a)
  let ?k = "ask_pages ps a"
  have k: "nat (new_pages (int ps) (int q) (int (q + n))) = ?k" by (simp add: a ask_pages_def)
  have "ask_slots ps a (take ?k pages) = ask_slots ps a pages"
    using request_slots_take [OF assms(1), of q n l pages] Cons.prems by (simp add: a ask_slots_def)
  then show ?case
    using Cons k by (simp add: a ask_row_def granted_def ask_slots_def min_def drop_take del: of_nat_add)
qed (simp add: granted_def)

section \<open>Rows that grow\<close>

text \<open>
  A request whose row consists of \<open>k\<close> pages of the tree followed by slots of its own, on the pages it owns; the last slot is that of
  the row.
\<close>

definition row_ask :: "nat \<Rightarrow> ask \<Rightarrow> int list \<Rightarrow> int list \<Rightarrow> bool" where
  "row_ask ps a own pages \<longleftrightarrow> (\<exists>k. fst a = k * ps + length own) \<and> covers ps own pages \<and>
     (if own = [] then (snd (snd a) + 1) mod int ps = 0 else snd (snd a) = last own)"

lemma row_ask_grows:
  assumes ps: "0 < ps" and a: "row_ask ps a own pages" and N: "length N = ask_pages ps a" "distinct (pages @ N)"
  shows "covers ps (own @ ask_slots ps a N) (pages @ N)"
proof -
  obtain q n l where q: "a = (q, n, l)" by (cases a)
  obtain k where k: "q = k * ps + length own" using a by (auto simp: row_ask_def q)
  have "int (length N) = new_pages (int ps) (int q) (int (q + n))"
    using N(1) ps new_pages_nonneg [of "int ps" "int q" "int (q + n)"] by (simp add: q ask_pages_def)
  then show ?thesis
    using covers_extend(1) [OF ps _ N(2), of own l k n] a unfolding row_ask_def q ask_slots_def k by (auto split: if_splits)
qed

lemma row_ask_last:
  assumes ps: "0 < ps" and a: "row_ask ps a own pages"
  shows "(snd (snd a) + 1) mod int ps = int (fst a) mod int ps" "set (old_pages (int ps) (ask_row a)) \<subseteq> set pages"
proof -
  obtain q n l where q: "a = (q, n, l)" by (cases a)
  obtain k where k: "q = k * ps + length own" using a by (auto simp: row_ask_def q)
  have m: "int q mod int ps = int (length own mod ps)" unfolding k zmod_int [symmetric] by simp
  have "(l + 1) mod int ps = int q mod int ps \<and> set (old_pages (int ps) (ask_row a)) \<subseteq> set pages"
  proof (cases "own = []")
    case True
    then show ?thesis using a m by (simp add: row_ask_def q old_pages_def ask_row_def)
  next
    case False
    then obtain j where j: "length own = Suc j" by (cases own) auto
    have l: "l = own ! j" using a False j by (simp add: row_ask_def q last_conv_nth)
    have c: "covers ps own pages" using a by (simp add: row_ask_def)
    note nth = covers_nth [OF c ps, of j]
    have e: "l = pages ! (j div ps) * int ps + int (j mod ps)" "j div ps < length pages" using nth j l by simp_all
    have "(l + 1) mod int ps = int (Suc j mod ps)"
    proof -
      have "l + 1 = int (j mod ps + 1) + pages ! (j div ps) * int ps" using e(1) by simp
      then have "(l + 1) mod int ps = int (j mod ps + 1) mod int ps" by (simp only: mod_mult_self1)
      then show ?thesis by (simp only: zmod_int [symmetric] mod_add_left_eq Suc_eq_plus1)
    qed
    moreover have "l div int ps = pages ! (j div ps)"
      using e(1) ps by (simp add: add.commute [of _ "int (j mod ps)"])
    ultimately show ?thesis using m j e(2) by (auto simp: old_pages_def ask_row_def q)
  qed
  then show "(snd (snd a) + 1) mod int ps = int (fst a) mod int ps" "set (old_pages (int ps) (ask_row a)) \<subseteq> set pages" by (simp_all add: q)
qed

lemma concat_slots_disjoint:
  assumes "0 < ps" "\<And>k. k < length pgs \<Longrightarrow> set (page_slots ps (pgs ! k)) \<inter> X = {}"
  shows "set (page_slots ps (concat pgs)) \<inter> X = {}"
proof -
  have "set (page_slots ps pg) \<inter> X = {}" if "pg \<in> set pgs" for pg using that assms(2) by (metis in_set_conv_nth)
  then show ?thesis using assms(1) by (fastforce simp: slots_of_def)
qed

text \<open>What the kernels need of a batch: aligned last slots, and partly filled pages that are different and not free (\<open>X\<close>).\<close>

definition asks_ok :: "nat \<Rightarrow> int set \<Rightarrow> ask list \<Rightarrow> bool" where
  "asks_ok ps X as \<longleftrightarrow> list_all (loc_aligned (int ps)) (map ask_row as) \<and> distinct (concat (map (old_pages (int ps)) (map ask_row as))) \<and>
     set (page_slots ps (concat (map (old_pages (int ps)) (map ask_row as)))) \<inter> X = {}"

lemma asks_ok_mono: "asks_ok ps X as \<Longrightarrow> Y \<subseteq> X \<Longrightarrow> asks_ok ps Y as"
  unfolding asks_ok_def by blast

lemma distinct_concat_parts:
  "distinct (concat ys) \<Longrightarrow> list_all2 (\<lambda>x y. distinct x \<and> set x \<subseteq> set y) xs ys \<Longrightarrow> distinct (concat xs) \<and> set (concat xs) \<subseteq> set (concat ys)"
proof (induction ys arbitrary: xs)
  case (Cons y ys)
  then obtain x xs' where "xs = x # xs'" "distinct x" "set x \<subseteq> set y" "list_all2 (\<lambda>x y. distinct x \<and> set x \<subseteq> set y) xs' ys"
    by (auto simp: list_all2_Cons2)
  then show ?case using Cons.IH [of xs'] Cons.prems(1) by auto
qed simp

lemma row_asks_ok:
  assumes ps: "0 < ps" and a: "\<And>k. k < length as \<Longrightarrow> row_ask ps (as ! k) (owns ! k) (pgs ! k)" and l: "length pgs = length as"
    and d: "distinct (concat pgs)" and x: "set (page_slots ps (concat pgs)) \<inter> X = {}"
  shows "asks_ok ps X as"
proof -
  have "list_all2 (\<lambda>x y. distinct x \<and> set x \<subseteq> set y) (map (old_pages (int ps)) (map ask_row as)) pgs"
    using row_ask_last(2) [OF ps a] l by (auto simp: list_all2_conv_all_nth old_pages_def split: prod.split)
  then have "distinct (concat (map (old_pages (int ps)) (map ask_row as))) \<and> set (concat (map (old_pages (int ps)) (map ask_row as))) \<subseteq> set (concat pgs)"
    by (rule distinct_concat_parts [OF d])
  moreover have "loc_aligned (int ps) (ask_row (as ! k))" if "k < length as" for k
    using row_ask_last(1) [OF ps a [OF that]] by (auto simp: loc_aligned_def ask_row_def split: prod.split)
  ultimately show ?thesis
    using x ps slots_of_mono [of _ "set (concat pgs)" ps] unfolding asks_ok_def by (auto simp: list_all_length simp del: set_concat)
qed

lemma shares_mset:
  assumes "length pgs = length as" "length P = page_demand ps as"
  shows "mset (concat (map2 (@) pgs (shares ps as P))) = mset (concat pgs @ P)"
proof -
  have "length zs = length ys \<Longrightarrow> mset (concat (map2 (@) ys zs)) = mset (concat ys @ concat zs)" for ys zs :: "int list list"
    by (induction ys arbitrary: zs) (auto simp: length_Suc_conv simp flip: ex_simps)
  then show ?thesis using concat_shares [OF assms(2)] assms(1) by simp
qed

lemma row_asks_grow:
  assumes ps: "0 < ps" and a: "\<And>k. k < length as \<Longrightarrow> row_ask ps (as ! k) (owns ! k) (pgs ! k)" and l: "length pgs = length as"
    and d: "distinct (concat pgs @ P)" and P: "length P = page_demand ps as"
    and k: "k < length as"
  shows "covers ps (owns ! k @ ask_slots ps (as ! k) (shares ps as P ! k)) (pgs ! k @ shares ps as P ! k)"
proof -
  have "distinct (concat (map2 (@) pgs (shares ps as P)))" using d mset_eq_imp_distinct_iff [OF shares_mset [OF l P]] by simp
  moreover have "map2 (@) pgs (shares ps as P) ! k \<in> set (map2 (@) pgs (shares ps as P))" using k l by (intro nth_mem) simp
  ultimately have "distinct (map2 (@) pgs (shares ps as P) ! k)" unfolding distinct_concat_iff by blast
  then show ?thesis
    using k l by (intro row_ask_grows [OF ps a [OF k] shares_nth [OF P k]]) simp
qed

section \<open>The contract of an allocation for a batch\<close>

text \<open>The allocator hands out the slots of the asks on the pages \<open>P\<close>, which were free and are no longer.\<close>

definition takes :: "int list \<Rightarrow> kv_alloc \<Rightarrow> kv_alloc \<Rightarrow> bool" where
  "takes P a a' \<longleftrightarrow> distinct P \<and> set (page_slots (ka_page_size a) P) \<subseteq> ka_free_set a \<and> ka_inv a' \<and> ka_page_size a' = ka_page_size a \<and>
     ka_universe a' = ka_universe a \<and> ka_idle a' \<and> ka_free_set a' = ka_free_set a - set (page_slots (ka_page_size a) P)"

definition served :: "ask list \<Rightarrow> kv_alloc \<Rightarrow> int list \<Rightarrow> kv_alloc \<Rightarrow> bool" where
  "served as a out a' \<longleftrightarrow> (\<exists>P. length P = page_demand (ka_page_size a) as \<and> out = granted (ka_page_size a) as P \<and> takes P a a')"

lemma pag_takes:
  assumes i: "pag_inv p" and g: "al_free_group p = None"
  shows "takes (take k (al_free_pages (pag_prepare m p))) (PagedA p) (PagedA ((pag_prepare m p)\<lparr>al_free_pages := drop k (al_free_pages (pag_prepare m p))\<rparr>))"
proof -
  let ?c = "pag_prepare m p"
  have ps: "0 < al_page_size p" using i by (simp add: pag_inv_def pag_core_def)
  have c: "pag_inv ?c" using i by simp
  have e: "al_free_page_ids_group p = []" using i g by (simp add: pag_inv_def)
  have n: "slots_of (al_page_size p) {} = {}" by (simp add: slots_of_def)
  note t = pag_take [OF c, of k]
  show ?thesis
    using t ps g e n slots_of_mono [of "set (take k (al_free_pages ?c))" "set (pag_get_all_free_pages p)" "al_page_size p"]
    by (simp add: takes_def pag_avail_def pag_pending_def pag_universe_def slots_of_Diff)
qed

lemma tok_takes:
  assumes i: "tok_inv t" and g: "al_free_group t = None"
  shows "takes (take k (al_free_pages (tok_prepare m t))) (TokenA t) (TokenA ((tok_prepare m t)\<lparr>al_free_pages := drop k (al_free_pages (tok_prepare m t))\<rparr>))"
proof -
  let ?c = "tok_prepare m t"
  have ps: "al_page_size t = 1" using i by (simp add: tok_inv_def)
  have c: "tok_inv ?c" using i by simp
  have s: "slots_of (Suc 0) X = X" for X by (auto simp: slots_of_def)
  have p1: "al_page_size ?c = 1" using c by (simp add: tok_inv_def)
  note t = tok_take [OF c, of k]
  show ?thesis using t ps p1 g by (simp add: takes_def tok_pending_def tok_universe_def s)
qed

lemma asks_batch_ok:
  assumes "pag_inv p" "asks_ok (al_page_size p) (ka_free_set (PagedA p)) as"
  shows "batch_ok p (map (int \<circ> fst) as) (map (\<lambda>(q, n, l). int (q + n)) as) (map (snd \<circ> snd) as)"
    "zip (map (int \<circ> fst) as) (zip (map (\<lambda>(q, n, l). int (q + n)) as) (map (snd \<circ> snd) as)) = map ask_row as"
proof -
  have ps: "0 < al_page_size p" using assms(1) by (simp add: pag_inv_def pag_core_def)
  show z: "zip (map (int \<circ> fst) as) (zip (map (\<lambda>(q, n, l). int (q + n)) as) (map (snd \<circ> snd) as)) = map ask_row as"
    by (induction as) (auto simp: ask_row_def)
  have "x \<in> P \<Longrightarrow> x \<in> Q \<Longrightarrow> x * int (al_page_size p) \<in> slots_of (al_page_size p) P \<inter> slots_of (al_page_size p) Q" for x P Q
    using ps by (simp add: slots_of_def)
  then show "batch_ok p (map (int \<circ> fst) as) (map (\<lambda>(q, n, l). int (q + n)) as) (map (snd \<circ> snd) as)"
    using assms(2) ps unfolding batch_ok_def Let_def z asks_ok_def
    by (simp add: pag_avail_def Int_Un_distrib del: set_concat) blast
qed

lemma pages_available:
  "pag_inv p \<Longrightarrow> al_page_size p * d \<le> ka_available_size (PagedA p) \<longleftrightarrow> d \<le> length (pag_get_all_free_pages p)"
  using pag_available_card [of p] by (auto simp: pag_inv_def pag_core_def mult.commute [of "al_page_size p"])

lemma tokens_before_asks: "int (sum_list (map (fst \<circ> snd) as)) = tokens_before (map (int \<circ> fst) as) (map (\<lambda>(q, n, l). int (q + n)) as) (length as)"
proof (induction as rule: rev_induct)
  case (snoc a as)
  then show ?case by (auto simp: tokens_before_def nth_append split: prod.split)
qed (simp add: tokens_before_def)

section \<open>Making room in the cache\<close>

text \<open>The slots that no request owns.\<close>

definition unowned :: "cache \<Rightarrow> int set" where
  "unowned s = ka_free_set (rc_alloc s) \<union> held_slots s"

text \<open>The pages \<open>P\<close> left the cache for a client; the locked part of the tree and the frame are as before.\<close>

definition parted :: "nat list \<Rightarrow> int list \<Rightarrow> cache \<Rightarrow> cache \<Rightarrow> bool" where
  "parted H P s s' \<longleftrightarrow> evicting H s' \<and> same_frame s s' \<and> ka_universe (rc_alloc s') = ka_universe (rc_alloc s) \<and>
     (\<forall>j\<in>set H. at_node (rc_store s') (rc_root s) j = at_node (rc_store s) (rc_root s) j) \<and>
     distinct P \<and> set (page_slots (rc_page_size s) P) \<subseteq> unowned s \<and> unowned s' = unowned s - set (page_slots (rc_page_size s) P) \<and>
     reachable_slots s' = reachable_slots s - int (rc_page_size s * length P)"

lemma parted_refl: "evicting H s \<Longrightarrow> parted H [] s s"
  by (simp add: parted_def same_frame_def)

lemma parted_trans:
  assumes a: "parted H P s s1" and b: "parted H Q s1 s2"
  shows "parted H (P @ Q) s s2"
proof -
  let ?ps = "rc_page_size s"
  have f: "same_frame s s2" "rc_page_size s1 = ?ps" "rc_root s1 = rc_root s" using a b by (simp_all add: parted_def same_frame_def)
  have "cache_run H s1" using a by (simp add: parted_def evicting_def)
  then have ps: "0 < ?ps" using run_okD(4) [OF run_invariant] f(2) by metis
  have u: "unowned s1 = unowned s - set (page_slots ?ps P)" "unowned s2 = unowned s1 - set (page_slots ?ps Q)" "set (page_slots ?ps Q) \<subseteq> unowned s1"
    "set (page_slots ?ps P) \<subseteq> unowned s"
    using a b f(2) by (simp_all add: parted_def)
  then have "slots_of ?ps (set P) \<inter> slots_of ?ps (set Q) = {}" using ps by auto
  moreover have "x * int ?ps \<in> slots_of ?ps (set P) \<inter> slots_of ?ps (set Q)" if "x \<in> set P" "x \<in> set Q" for x
    using that ps by (simp add: slots_of_def)
  ultimately have "set P \<inter> set Q = {}" by blast
  moreover have "set (page_slots ?ps (P @ Q)) = set (page_slots ?ps P) \<union> set (page_slots ?ps Q)" by (simp only: page_slots_append set_append)
  moreover have "reachable_slots s2 = reachable_slots s - int (?ps * length (P @ Q))" using a b f(2) by (simp add: parted_def distrib_left)
  ultimately show ?thesis using a b f u unfolding parted_def by auto
qed

lemma evict_parted:
  assumes e: "evicting H s" and k: "evict n s = Inr (k, s')"
  shows "parted H [] s s'"
proof -
  have r: "cache_run H s" "prio_total (rc_strategy s)" "\<not> ev_enabled (rc_events s)" using e by (simp_all add: evicting_def)
  note ok = run_okD [OF run_invariant [OF r(1)]]
  obtain L' where t: "evicted_to (live s) H s L' s' k" using evict_correct(1) [OF ok(1,2) r(2) ok(3) k] by blast
  have w: "cache_wf L' H s'" using t by (simp add: evicted_to_def)
  have L': "L' = live s'" using wf_live [OF w] by simp
  have H: "set H \<subseteq> L'" using wfD(3) [OF w] by (simp add: locks_ok_def)
  have f: "same_frame s s'" using t by (simp add: evicted_to_def)
  obtain k' s1 where g: "evict n s = Inr (k', s1)" "evicting H s1" "reachable_slots s1 = reachable_slots s" by (rule evict_gain [OF e])
  then have "evicting H s'" "reachable_slots s' = reachable_slots s" using k by auto
  then show ?thesis using t H f L' by (auto simp: parted_def evicted_to_def unowned_def held_slots_def same_frame_def)
qed

lemma evict_from_tree_step:
  assumes e: "evicting H s"
  obtains s' where "evict_from_tree_cache n s = Inr s'" "parted H [] s s'" "n \<le> ka_available_size (rc_alloc s') \<or> evictable_size s' = 0"
proof -
  have sh: "page_interleave_shard_size a = 1" for a by (cases a) simp_all
  obtain s' where s': "evict_to_free_tokens 1 n s = Inr s'" "drained H n s s'" using evict_to_free_tokens_drains [OF e] by blast
  have "parted H [] s s'"
  proof (cases "n \<le> ka_available_size (rc_alloc s)")
    case True
    then show ?thesis using s'(1) parted_refl [OF e] by (simp add: evict_to_free_tokens_def Let_def)
  next
    case False
    then obtain k where "evict (int n - int (ka_available_size (rc_alloc s))) s = Inr (k, s')"
      using s'(1) by (auto simp: evict_to_free_tokens_def evict_until_allocatable_def Let_def rbind_eq_Inr)
    then show ?thesis by (rule evict_parted [OF e])
  qed
  then show ?thesis using that [of s'] s' sh by (simp add: evict_from_tree_cache_def drained_def)
qed

lemma takes_parted:
  assumes e: "evicting H s" and t: "takes P (rc_alloc s) a"
  shows "parted H P s (s\<lparr>rc_alloc := a\<rparr>)"
proof -
  let ?s = "s\<lparr>rc_alloc := a\<rparr>" and ?X = "set (page_slots (rc_page_size s) P)"
  have r: "cache_run H s" "prio_total (rc_strategy s)" "\<not> ev_enabled (rc_events s)" "ka_idle (rc_alloc s)" using e by (simp_all add: evicting_def)
  note ok = run_okD [OF run_invariant [OF r(1)]] and sl = slots_okD [OF run_okD(2) [OF run_invariant [OF r(1)]]]
  have t': "distinct P" "?X \<subseteq> ka_free_set (rc_alloc s)" "ka_inv a" "ka_page_size a = rc_page_size s" "ka_universe a = ka_universe (rc_alloc s)"
    "ka_idle a" "ka_free_set a = ka_free_set (rc_alloc s) - ?X"
    using t sl(2) by (simp_all add: takes_def)
  have d: "ka_free_set (rc_alloc s) \<inter> held_slots s = {}" using sl(5) by (auto simp: held_slots_def)
  then have "cache_run H ?s" using t' by (intro run_pool [OF r(1)]) auto
  then have ev: "evicting H ?s" using r t' by (simp add: evicting_def)
  have "card ?X = rc_page_size s * length P" using distinct_card [OF distinct_page_slots [OF t'(1)], of "rc_page_size s"] by (simp add: mult.commute)
  then have "ka_available_size (rc_alloc s) = ka_available_size a + rc_page_size s * length P"
    using card_Diff_subset [OF _ t'(2)] card_mono [OF _ t'(2)] ka_free_card [OF sl(1) r(4)] ka_free_card [OF t'(3,6)] t'(7) by auto
  moreover have "held_slots ?s = held_slots s" by (simp add: held_slots_def live_def)
  ultimately show ?thesis using ev t' d by (auto simp: parted_def same_frame_def unowned_def reachable_slots_def evictable_size_def)
qed

text \<open>
  The contract: an allocation that fits is served. Its client is the pattern of the three ways to allocate for a batch, which evict first
  and raise when the allocator still has too little: it succeeds when the free slots and the evictable tokens reach the demand.
\<close>

locale batch_server =
  fixes fit :: "kv_alloc \<Rightarrow> ask list \<Rightarrow> bool" and give :: "ask list \<Rightarrow> kv_alloc \<Rightarrow> (int list option \<times> kv_alloc) result"
  assumes serve: "ka_inv a \<Longrightarrow> ka_idle a \<Longrightarrow> fit a as \<Longrightarrow> asks_ok (ka_page_size a) (ka_free_set a) as \<Longrightarrow>
    ka_page_size a * page_demand (ka_page_size a) as \<le> ka_available_size a \<Longrightarrow> \<exists>out a'. give as a = Inr (Some out, a') \<and> served as a out a'"
  and refuse: "ka_inv a \<Longrightarrow> ka_idle a \<Longrightarrow> fit a as \<Longrightarrow> asks_ok (ka_page_size a) (ka_free_set a) as \<Longrightarrow>
    ka_available_size a < ka_page_size a * page_demand (ka_page_size a) as \<Longrightarrow> give as a \<noteq> Inr (Some out, a')"
begin

lemma evicted_state:
  assumes e: "evicting H s" and a: "asks_ok (rc_page_size s) (unowned s) as"
  obtains s' where "evict_from_tree_cache n s = Inr s'" "parted H [] s s'" "n \<le> ka_available_size (rc_alloc s') \<or> evictable_size s' = 0"
    "ka_inv (rc_alloc s')" "ka_idle (rc_alloc s')" "ka_page_size (rc_alloc s') = rc_page_size s" "asks_ok (rc_page_size s) (ka_free_set (rc_alloc s')) as"
    "reachable_slots s' = reachable_slots s" "0 \<le> evictable_size s'"
proof -
  obtain s1 where s1: "evict_from_tree_cache n s = Inr s1" "parted H [] s s1" "n \<le> ka_available_size (rc_alloc s1) \<or> evictable_size s1 = 0"
    by (rule evict_from_tree_step [OF e])
  have e1: "evicting H s1" "unowned s1 = unowned s" "reachable_slots s1 = reachable_slots s" "rc_page_size s1 = rc_page_size s"
    using s1(2) by (simp_all add: parted_def same_frame_def)
  have r: "cache_run H s1" "ka_idle (rc_alloc s1)" using e1(1) by (simp_all add: evicting_def)
  note sl = slots_okD(1,2) [OF run_okD(2) [OF run_invariant [OF r(1)]]]
  have "asks_ok (rc_page_size s) (ka_free_set (rc_alloc s1)) as" using asks_ok_mono [OF a] e1(2) by (auto simp: unowned_def)
  then show ?thesis using that [OF s1 sl(1) r(2)] sl(2) e1 evicting_counts(1) [OF e1(1)] by (simp add: evictable_size_def)
qed

lemma make_room:
  assumes e: "evicting H s" and f: "\<And>a. ka_page_size a = rc_page_size s \<Longrightarrow> ka_inv a \<Longrightarrow> fit a as" and a: "asks_ok (rc_page_size s) (unowned s) as"
    and n: "rc_page_size s * page_demand (rc_page_size s) as \<le> n"
    and room: "int (rc_page_size s * page_demand (rc_page_size s) as) \<le> reachable_slots s"
  obtains P s' where "rbind (evict_from_tree_cache n s) (\<lambda>s. or_out_of_memory msg (give as (rc_alloc s)) s) = Inr (granted (rc_page_size s) as P, s')"
    "parted H P s s'" "length P = page_demand (rc_page_size s) as"
proof -
  let ?ps = "rc_page_size s"
  obtain s1 where s1: "evict_from_tree_cache n s = Inr s1" "parted H [] s s1" "n \<le> ka_available_size (rc_alloc s1) \<or> evictable_size s1 = 0"
    "ka_inv (rc_alloc s1)" "ka_idle (rc_alloc s1)" "ka_page_size (rc_alloc s1) = ?ps" "asks_ok ?ps (ka_free_set (rc_alloc s1)) as"
    "reachable_slots s1 = reachable_slots s" "0 \<le> evictable_size s1"
    by (rule evicted_state [OF e a])
  have "?ps * page_demand ?ps as \<le> ka_available_size (rc_alloc s1)"
    using s1(3,8) n room by (auto simp: reachable_slots_def simp flip: of_nat_mult)
  then obtain out a' where g: "give as (rc_alloc s1) = Inr (Some out, a')" "served as (rc_alloc s1) out a'"
    using serve [OF s1(4,5) f [OF s1(6,4)]] s1(6,7) by auto
  then obtain P where P: "length P = page_demand ?ps as" "out = granted ?ps as P" "takes P (rc_alloc s1) a'" using s1(6) by (auto simp: served_def)
  show ?thesis
  proof (rule that)
    show "parted H P s (s1\<lparr>rc_alloc := a'\<rparr>)" using parted_trans [OF s1(2) takes_parted [OF _ P(3)]] s1(2) by (simp add: parted_def)
  qed (use s1(1) g P in \<open>simp_all add: or_out_of_memory_def\<close>)
qed

lemma no_room:
  assumes e: "evicting H s" and f: "\<And>a. ka_page_size a = rc_page_size s \<Longrightarrow> ka_inv a \<Longrightarrow> fit a as" and a: "asks_ok (rc_page_size s) (unowned s) as"
    and room: "reachable_slots s < int (rc_page_size s * page_demand (rc_page_size s) as)"
  shows "\<exists>err. rbind (evict_from_tree_cache n s) (\<lambda>s. or_out_of_memory msg (give as (rc_alloc s)) s) = Inl err"
proof -
  let ?ps = "rc_page_size s"
  obtain s1 where s1: "evict_from_tree_cache n s = Inr s1" "parted H [] s s1" "n \<le> ka_available_size (rc_alloc s1) \<or> evictable_size s1 = 0"
    "ka_inv (rc_alloc s1)" "ka_idle (rc_alloc s1)" "ka_page_size (rc_alloc s1) = ?ps" "asks_ok ?ps (ka_free_set (rc_alloc s1)) as"
    "reachable_slots s1 = reachable_slots s" "0 \<le> evictable_size s1"
    by (rule evicted_state [OF e a])
  have "int (ka_available_size (rc_alloc s1)) < int (?ps * page_demand ?ps as)" using room s1(8,9) unfolding reachable_slots_def by linarith
  then have "give as (rc_alloc s1) \<noteq> Inr (Some out, a')" for out a'
    unfolding of_nat_less_iff by (intro refuse [OF s1(4,5) f [OF s1(6,4)]]) (use s1(6,7) in simp_all)
  then have "\<exists>err. or_out_of_memory msg (give as (rc_alloc s1)) s1 = Inl err"
  proof (cases "give as (rc_alloc s1)")
    case (Inr x)
    then obtain a' where "x = (None, a')" using \<open>\<And>out a'. give as (rc_alloc s1) \<noteq> Inr (Some out, a')\<close> by (cases x, cases "fst x") auto
    then show ?thesis using Inr by (simp add: or_out_of_memory_def)
  qed (simp add: or_out_of_memory_def)
  then show ?thesis using s1(1) by simp
qed

end

section \<open>The three allocations\<close>

definition give_tokens :: "ask list \<Rightarrow> kv_alloc \<Rightarrow> (int list option \<times> kv_alloc) result" where
  "give_tokens as = ka_alloc (sum_list (map (fst \<circ> snd) as))"

definition give_extend :: "gpu \<Rightarrow> ask list \<Rightarrow> kv_alloc \<Rightarrow> (int list option \<times> kv_alloc) result" where
  "give_extend dev as = ka_alloc_extend dev (map (int \<circ> fst) as) (map (\<lambda>(q, n, l). int (q + n)) as) (map (snd \<circ> snd) as) (sum_list (map (fst \<circ> snd) as))"

definition give_decode :: "gpu \<Rightarrow> ask list \<Rightarrow> kv_alloc \<Rightarrow> (int list option \<times> kv_alloc) result" where
  "give_decode dev as = ka_alloc_decode dev (map (\<lambda>(q, n, l). int (q + n)) as) (map (snd \<circ> snd) as)"

lemma tokens_demand: "page_demand 1 as = sum_list (map (fst \<circ> snd) as)"
  by (induction as) (auto simp: ask_pages_def new_pages_def)

lemma granted_tokens: "length P = page_demand 1 as \<Longrightarrow> granted 1 as P = P"
proof (induction as arbitrary: P)
  case (Cons a as)
  obtain q n l where a: "a = (q, n, l)" by (cases a)
  have k: "ask_pages 1 a = n" by (simp add: a ask_pages_def new_pages_def)
  have "ask_slots 1 a (take n P) = take n P"
    using Cons.prems k by (intro nth_equalityI) (simp_all add: a ask_slots_def request_slots_def)
  then show ?case using Cons k by (simp add: granted_def)
qed (simp add: granted_def)

lemma give_tokens_serves:
  assumes i: "ka_inv a" "ka_idle a" and p: "ka_page_size a = 1" and n: "page_demand 1 as \<le> ka_available_size a"
  shows "\<exists>out a'. give_tokens as a = Inr (Some out, a') \<and> served as a out a'"
proof -
  let ?n = "page_demand 1 as"
  have s: "served as a P a'" if "length P = ?n" "takes P a a'" for P a' using that p granted_tokens [of P as] by (auto simp: served_def)
  show ?thesis
  proof (cases a)
    case (TokenA t)
    let ?c = "tok_prepare ?n t"
    have "?n \<le> length (al_free_pages ?c)"
      using i n TokenA by (auto simp: tok_available_size_def tok_prepare_def tok_merge_and_sort_free_def tok_inv_def)
    then show ?thesis
      using s [OF _ tok_takes [of t ?n ?n, folded TokenA]] i TokenA by (simp add: give_tokens_def tok_alloc_unfold tokens_demand [symmetric] Let_def)
  next
    case (PagedA q)
    let ?c = "pag_prepare ?n q"
    have q: "pag_inv q" "al_page_size q = 1" "al_free_group q = None" using i p PagedA by simp_all
    have "?n \<le> length (pag_get_all_free_pages q)" using n PagedA pages_available [OF q(1), of ?n] q(2) by simp
    then have "?n \<le> length (al_free_pages ?c)" using q(1) by (intro pag_prepare_enough [of q]) (auto simp: pag_inv_def)
    moreover have "page_slots 1 xs = xs" for xs by (induction xs) (simp_all add: page_slots_def)
    ultimately show ?thesis
      using s [OF _ pag_takes [OF q(1,3), of ?n ?n, folded PagedA]] q PagedA by (simp add: give_tokens_def pag_alloc_unfold tokens_demand [symmetric] Let_def)
  qed
qed

lemma give_tokens_refuses:
  assumes i: "ka_inv a" and p: "ka_page_size a = 1" and n: "ka_available_size a < page_demand 1 as"
  shows "give_tokens as a \<noteq> Inr (Some out, a')"
proof (cases a)
  case (TokenA t)
  have "length (al_free_pages (tok_prepare m t)) \<le> tok_available_size t" for m
    by (auto simp: tok_available_size_def tok_prepare_def tok_merge_and_sort_free_def)
  then have "length (al_free_pages (tok_prepare m t)) < page_demand 1 as" for m using n TokenA le_less_trans by auto
  then show ?thesis using TokenA by (simp add: give_tokens_def tok_alloc_unfold tokens_demand [symmetric] Let_def)
next
  case (PagedA q)
  have "length (pag_get_all_free_pages q) < page_demand 1 as" using i p n PagedA pag_available_card [of q] by simp
  then have "length (al_free_pages (pag_prepare m q)) < page_demand 1 as" for m using pag_prepare_length [of m q] by (rule le_less_trans [rotated])
  then show ?thesis using p PagedA by (simp add: give_tokens_def pag_alloc_unfold tokens_demand [symmetric] Let_def)
qed

interpretation token_server: batch_server "\<lambda>a as. ka_page_size a = 1" give_tokens
  by unfold_locales (use give_tokens_serves give_tokens_refuses in auto)

lemma served_pages:
  assumes i: "pag_inv p" "al_free_group p = None" and l: "page_demand (al_page_size p) as \<le> length (al_free_pages (pag_prepare m p))"
  shows "served as (PagedA p) (extend_slots (int (al_page_size p)) (map ask_row as) (al_free_pages (pag_prepare m p)))
     (PagedA ((pag_prepare m p)\<lparr>al_free_pages := drop (page_demand (al_page_size p) as) (al_free_pages (pag_prepare m p))\<rparr>))"
proof -
  have ps: "0 < al_page_size p" using i by (simp add: pag_inv_def pag_core_def)
  show ?thesis unfolding served_def extend_slots_granted [OF ps l] using pag_takes [OF i, of _ m] l by (intro exI conjI) simp_all
qed

lemma give_extend_serves:
  assumes i: "pag_inv p" "al_free_group p = None" and a: "asks_ok (al_page_size p) (ka_free_set (PagedA p)) as"
    and n: "al_page_size p * page_demand (al_page_size p) as \<le> ka_available_size (PagedA p)"
  shows "\<exists>out a'. give_extend dev as (PagedA p) = Inr (Some out, a') \<and> served as (PagedA p) out a'"
proof -
  let ?d = "page_demand (al_page_size p) as" and ?m = "sum_list (map (fst \<circ> snd) as) div al_page_size p + length as + 1"
  note b = asks_batch_ok [OF i(1) a]
  have fit: "?d \<le> length (pag_get_all_free_pages p)" using n pages_available [OF i(1)] by simp
  have t: "int (sum_list (map (fst \<circ> snd) as)) = tokens_before (map (int \<circ> fst) as) (map (\<lambda>(q, n, l). int (q + n)) as) (length (map (int \<circ> fst) as))"
    using tokens_before_asks [of as] by simp
  have "?d \<le> length (al_free_pages (pag_prepare ?m p))" using pag_extend_fits [OF i(1) b(1) t] fit unfolding b(2) total_new_asks by simp
  then show ?thesis
    using pag_alloc_extend_eq(1) [OF i(1) b(1) t] fit served_pages [OF i, of as ?m] unfolding b(2) total_new_asks by (auto simp: give_extend_def)
qed

lemma pages_short:
  assumes "pag_inv p" "ka_available_size (PagedA p) < al_page_size p * d"
  shows "length (al_free_pages (pag_prepare m p)) < d"
proof -
  have "length (pag_get_all_free_pages p) < d" using assms pages_available [OF assms(1), of d] by simp
  then show ?thesis using pag_prepare_length [of m p] by (rule le_less_trans [rotated])
qed

lemma give_extend_refuses:
  assumes i: "pag_inv p" and a: "asks_ok (al_page_size p) (ka_free_set (PagedA p)) as"
    and n: "ka_available_size (PagedA p) < al_page_size p * page_demand (al_page_size p) as"
  shows "give_extend dev as (PagedA p) \<noteq> Inr (Some out, a')"
proof -
  note b = asks_batch_ok [OF i a]
  have "0 < int (al_page_size p)" using i by (simp add: pag_inv_def pag_core_def)
  then have g: "get_num_new_pages (map (\<lambda>(q, n, l). int (q + n)) as) (int (al_page_size p)) (Some (map (int \<circ> fst) as)) False = Inr (int (page_demand (al_page_size p) as))"
    using get_num_new_pages_extend [OF _ _ _ batch_ok_le [OF b(1)], of "int (al_page_size p)" "map (snd \<circ> snd) as"] unfolding b(2) total_new_asks by simp
  show ?thesis
    using pages_short [OF i n] g unfolding give_extend_def
    by (auto simp: pag_alloc_extend_def Let_def rbind_eq_Inr pag_prepare_def [symmetric] split: if_splits)
qed

interpretation extend_server: batch_server "\<lambda>a as. \<exists>p. a = PagedA p" "give_extend dev" for dev
  by unfold_locales (use give_extend_serves give_extend_refuses in auto)

lemma give_decode_serves:
  assumes i: "pag_inv p" "al_free_group p = None" and p2: "2 \<le> al_page_size p" and one: "\<forall>a\<in>set as. fst (snd a) = 1"
    and a: "asks_ok (al_page_size p) (ka_free_set (PagedA p)) as" and n: "al_page_size p * page_demand (al_page_size p) as \<le> ka_available_size (PagedA p)"
  shows "\<exists>out a'. give_decode dev as (PagedA p) = Inr (Some out, a') \<and> served as (PagedA p) out a'"
proof -
  let ?d = "page_demand (al_page_size p) as" and ?ss = "map (\<lambda>(q, n, l). int (q + n)) as"
  have e: "map (\<lambda>s. s - 1) ?ss = map (int \<circ> fst) as" using one by auto
  note b = asks_batch_ok [OF i(1) a, folded e]
  have fit: "?d \<le> length (pag_get_all_free_pages p)" using n pages_available [OF i(1)] by simp
  have "ask_pages (al_page_size p) a \<le> 1" if "a \<in> set as" for a
    using one that new_pages_decode [of "int (al_page_size p)" "int (fst a) + 1"] p2 by (auto simp: ask_pages_def split: prod.split)
  then have "?d \<le> length as" using sum_list_mono [of as "ask_pages (al_page_size p)" "\<lambda>_. 1"] by (simp add: sum_list_triv)
  then have "?d \<le> length (al_free_pages (pag_prepare (length as) p))" using i(1) fit by (intro pag_prepare_enough [of p]) (auto simp: pag_inv_def)
  then show ?thesis
    using pag_alloc_decode_eq [OF i(1) p2 b(1), of dev] fit served_pages [OF i, of as "length as"] unfolding b(2) total_new_asks by (auto simp: give_decode_def)
qed

lemma give_decode_refuses:
  assumes i: "pag_inv p" and p2: "2 \<le> al_page_size p" and one: "\<forall>a\<in>set as. fst (snd a) = 1"
    and n: "ka_available_size (PagedA p) < al_page_size p * page_demand (al_page_size p) as"
  shows "give_decode dev as (PagedA p) \<noteq> Inr (Some out, a')"
proof -
  let ?ss = "map (\<lambda>(q, n, l). int (q + n)) as"
  have e: "map (\<lambda>s. s - 1) ?ss = map (int \<circ> fst) as" using one by auto
  have z: "zip (map (\<lambda>s. s - 1) ?ss) (zip ?ss (map (snd \<circ> snd) as)) = map ask_row as" unfolding e by (induction as) (auto simp: ask_row_def)
  have g: "get_num_new_pages ?ss (int (al_page_size p)) None True = Inr (int (page_demand (al_page_size p) as))"
    using get_num_new_pages_decode [of "int (al_page_size p)" "map (snd \<circ> snd) as" ?ss None] p2 unfolding z total_new_asks by simp
  show ?thesis
    using pages_short [OF i n] g unfolding give_decode_def
    by (auto simp: pag_alloc_decode_def Let_def rbind_eq_Inr pag_prepare_def [symmetric] split: if_splits)
qed

interpretation decode_server: batch_server "\<lambda>a as. (\<exists>p. a = PagedA p) \<and> 2 \<le> ka_page_size a \<and> (\<forall>x\<in>set as. fst (snd x) = 1)" "give_decode dev" for dev
  by unfold_locales (use give_decode_serves give_decode_refuses in auto)

end
