(* ===== verification/Req_Theorems.thy ===== *)
theory Req_Theorems
  imports Row_Free
begin

text \<open>
  Memory accounting of requests. A request that runs holds a lock on the node of the tree that owns the
  first part of its row, and owns the pages of the rest itself. Caching it, finished or not, moves pages from the
  request to the tree or to the free list: none is lost, none has two owners.
\<close>

section \<open>Steps of a run\<close>

lemma spec_insert_id:
  assumes ok: "contents_ok ps M" and w: "M w \<noteq> None"
  shows "spec_insert ps w x M = M" "spec_match M w = length w"
proof -
  obtain v where v: "M w = Some v" using w by blast
  have "M u \<noteq> None" if "ps dvd length u" "prefix u w" for u
    using ok v that unfolding contents_ok_def by blast
  then show "spec_insert ps w x M = M" by (intro ext) (auto simp: spec_insert_def)
  show "spec_match M w = length w" using v by (intro spec_match_eq [OF ok, of _ _ v]) (auto simp: prefix_length_le)
qed

lemma contents_prefix:
  assumes "contents_ok ps M" "M u = Some v" "ps dvd p" "p \<le> length u"
  shows "M (take p u) = Some (take p v)"
proof -
  have "length (take p u) = p" using assms(4) by simp
  then show ?thesis using assms(1-3) take_is_prefix [of p u] unfolding contents_ok_def by metis
qed

lemma contents_ok_run: "cache_run H s \<Longrightarrow> contents_ok (rc_page_size s) (radix_contents s)"
  using radix_contents_ok run_invariant by blast

lemma insert_step:
  assumes r: "cache_run H s" and ev: "\<not> ev_enabled (rc_events s)" and m: "mode_ok s key" and l: "length (query s key) \<le> length x"
    and f: "new_slots s (drop (spec_match (radix_contents s) (query s key)) (take (length (query s key)) x))"
  obtains j s' where "insert_key key (Some x) prio chunked s = Inr ((spec_match (radix_contents s) (query s key), j), s')"
    "cache_run H s'" "same_frame s s'" "rc_alloc s' = rc_alloc s" "rc_events s' = rc_events s"
    "radix_contents s' = spec_insert (rc_page_size s) (query s key) (take (length (query s key)) x) (radix_contents s)"
    "held_slots s' = held_slots s \<union> set (drop (spec_match (radix_contents s) (query s key)) (take (length (query s key)) x))"
    "live s \<subseteq> live s'"
proof -
  note ok = run_okD [OF run_invariant [OF r]]
  obtain n j s' where e: "insert_key key (Some x) prio chunked s = Inr ((n, j), s')" "rc_events s' = rc_events s"
    using insert_key_correct(2) [OF ok(1) m ok(3) l ev] by blast
  obtain i where i: "inserted (live s) H s (query s key) (take (length (query s key)) x) n i s'"
    using insert_key_correct(1) [OF ok(1) m ok(3) l e(1)] by blast
  then obtain v where v: "length v = n" "n \<le> length (query s key)" "holds s (take n (query s key)) v"
    "\<And>u u'. holds s u u' \<Longrightarrow> prefix u (query s key) \<Longrightarrow> length u \<le> n"
    unfolding inserted_def holds_def by metis
  have n: "spec_match (radix_contents s) (query s key) = n"
    using v radix_contents_iff [OF run_invariant [OF r]]
    by (intro spec_match_eq [OF contents_ok_run [OF r], of n _ v]) simp_all
  have f': "new_slots s (drop n (take (length (query s key)) x))" using f n by simp
  note q = insert_refines [OF run_invariant [OF r] m l e(1) f']
  have r': "cache_run H s'" by (rule run_insert [OF r m l e(1) f'])
  have "live s \<subseteq> live s'" using i wf_live unfolding inserted_def by metis
  then show ?thesis using that [of j s'] e q(3-6) r' n by auto
qed

lemma radix_contents_cong: "holds s' = holds s \<Longrightarrow> radix_contents s' = radix_contents s"
  by (rule ext) (simp only: radix_contents_def)

lemma relocked_same:
  assumes l: "relocked s s'" and w: "cache_wf (live s) H s'"
  shows "live s' = live s" "held_slots s' = held_slots s" "radix_contents s' = radix_contents s" "same_frame s s'"
    "rc_alloc s' = rc_alloc s" "rc_events s' = rc_events s" "at_node (rc_store s') = at_node (rc_store s)"
proof -
  show "live s' = live s" by (rule wf_live [OF w])
  moreover have v: "n_value (nd s' j) = n_value (nd s j)" for j using l by (simp add: relocked_def)
  moreover show sf: "same_frame s s'" "rc_alloc s' = rc_alloc s" "rc_events s' = rc_events s" "at_node (rc_store s') = at_node (rc_store s)"
    using l by (simp_all add: relocked_def)
  ultimately show "held_slots s' = held_slots s" by (simp add: held_slots_def tree_slots_def node_slots_def same_frame_def)
  have "holds s' = holds s" using l sf(1) by (simp add: fun_eq_iff holds_def relocked_def same_frame_def)
  then show "radix_contents s' = radix_contents s" by (rule radix_contents_cong)
qed

lemma unlock_step:
  assumes r: "cache_run H s" and i: "i \<in> set H"
  obtains d s' where "dec_lock_ref i s = Inr (d, s')" "cache_run (remove1 i H) s'" "live s' = live s" "held_slots s' = held_slots s"
    "radix_contents s' = radix_contents s" "same_frame s s'" "rc_alloc s' = rc_alloc s" "rc_events s' = rc_events s"
    "at_node (rc_store s') = at_node (rc_store s)"
proof -
  note ok = run_okD [OF run_invariant [OF r]]
  obtain X s' where e: "dec_lock_ref i s = Inr (X, s')" "cache_wf (live s) (remove1 i H) s'" "relocked s s'"
    using dec_lock_ref_correct [OF ok(1) i ok(3)] by blast
  show ?thesis by (rule that [OF e(1) run_unlock [OF r i e(1)] relocked_same [OF e(3,2)]])
qed

lemma lock_step:
  assumes r: "cache_run H s" and i: "i \<in> live s"
  obtains d s' where "inc_lock_ref i s = Inr (d, s')" "cache_run (i # H) s'" "live s' = live s" "held_slots s' = held_slots s"
    "radix_contents s' = radix_contents s" "same_frame s s'" "rc_alloc s' = rc_alloc s" "rc_events s' = rc_events s"
    "at_node (rc_store s') = at_node (rc_store s)"
proof -
  note ok = run_okD [OF run_invariant [OF r]]
  obtain X s' where e: "inc_lock_ref i s = Inr (- X, s')" "cache_wf (live s) (i # H) s'" "relocked s s'"
    using inc_lock_ref_correct [OF ok(1) i ok(3)] by blast
  show ?thesis by (rule that [OF e(1) run_lock [OF r i e(1)] relocked_same [OF e(3,2)]])
qed

lemma pool_fields [simp]:
  "live (s\<lparr>rc_alloc := a\<rparr>) = live s" "held_slots (s\<lparr>rc_alloc := a\<rparr>) = held_slots s"
  "radix_contents (s\<lparr>rc_alloc := a\<rparr>) = radix_contents s" "same_frame s (s\<lparr>rc_alloc := a\<rparr>)" "query (s\<lparr>rc_alloc := a\<rparr>) = query s"
  "mode_ok (s\<lparr>rc_alloc := a\<rparr>) = mode_ok s"
  by (simp_all add: live_def held_slots_def fun_eq_iff holds_def same_frame_def query_def mode_ok_def
      radix_contents_cong [of "s\<lparr>rc_alloc := a\<rparr>" s])

section \<open>Keys of requests\<close>

definition req_units :: "cache \<Rightarrow> 'b req_scheme \<Rightarrow> int list \<Rightarrow> tunit list" where
  "req_units s r ts = query s (RadixKey ts (r_extra_key r) (rc_eagle s) None (r_cache_salt r))"

lemma req_key_step:
  assumes "0 < rc_page_size s"
  obtains k where "req_key r ts s = Inr k" "mode_ok s k" "query s k = req_units s r ts" "rk_len k = length (req_units s r ts)"
proof -
  let ?k0 = "RadixKey ts (r_extra_key r) (rc_eagle s) None (r_cache_salt r)"
  have m: "mode_ok s ?k0" by (simp add: mode_ok_def)
  have v: "maybe_to_bigram_view ?k0 (rc_eagle s) (None :: int list option) = (?k0, None)" by (simp add: maybe_to_bigram_view_def Let_def)
  obtain k where k: "page_aligned ?k0 (rc_page_size s) = Inr k" "key_ok s k" "tk k = query s ?k0" by (rule aligned_view [OF assms m v])
  have "query s k = tk k" using k(2) by (simp add: query_def key_ok_def Let_def)
  moreover have "mode_ok s k" using k(2) by (simp add: mode_ok_def key_ok_def)
  moreover have "rk_len k = length (tk k)" by simp
  ultimately show ?thesis using that [of k] k by (simp add: req_key_def req_units_def)
qed

lemma req_frame:
  assumes "same_frame s s'"
  shows "req_units s' r = req_units s r" "req_key r ts s' = req_key r ts s" "mode_ok s' = mode_ok s"
  using assms by (simp_all add: fun_eq_iff req_units_def req_key_def mode_ok_def query_def same_frame_def)

lemma units_take: "units (RadixKey (take n ts) e b None c) = take (if b then n - 1 else n) (units (RadixKey ts e b None c))"
proof (cases b)
  case True
  then show ?thesis by (intro nth_equalityI) (auto simp: units_def RadixKey_def raw_len_def Let_def split: if_splits)
qed (simp add: units_def RadixKey_def raw_len_def Let_def take_map)

lemma length_req_units: "length (req_units s r ts) \<le> length ts"
proof -
  have "rk_len (RadixKey ts e b None c) \<le> length ts" for e b c by (simp add: rk_len_def raw_len_def RadixKey_def Let_def)
  then show ?thesis unfolding req_units_def query_def by (simp add: Let_def) (meson le_trans page_floor_le)
qed

lemma req_units_prefix:
  assumes "0 < rc_page_size s"
  shows "prefix (req_units s r (take n ts)) (req_units s r ts)"
proof -
  let ?K = "\<lambda>ts. RadixKey ts (r_extra_key r) (rc_eagle s) None (r_cache_salt r)"
  have u: "req_units s r ts = take (page_floor (rc_page_size s) (rk_len (?K ts))) (tk (?K ts))" for ts
    by (simp add: req_units_def query_def Let_def)
  have ns: "namespace (?K (take n ts)) = namespace (?K ts)" by (simp add: RadixKey_def)
  have p: "prefix (tk (?K (take n ts))) (tk (?K ts))"
    unfolding tk_def ns units_take take_map [symmetric] by (rule take_is_prefix)
  have le: "rk_len (?K (take n ts)) \<le> rk_len (?K ts)" using prefix_length_le [OF p] by simp
  then have "page_floor (rc_page_size s) (rk_len (?K (take n ts))) \<le> page_floor (rc_page_size s) (rk_len (?K ts))"
    by (simp add: page_floor_def div_le_mono)
  moreover have "prefix (req_units s r (take n ts)) (tk (?K ts))"
    unfolding u [of "take n ts"] using p take_is_prefix prefix_order.trans by blast
  ultimately show ?thesis
    using prefix_length_prefix [of _ "tk (?K ts)" "req_units s r ts"] unfolding u [of ts] by (simp add: u take_is_prefix)
qed

section \<open>Pages of a row\<close>

lemma row_three_parts:
  assumes ps: "0 < ps" and c: "covers ps v pages" and x: "ps dvd x" "ps dvd y" "x \<le> y" "y \<le> length v"
  obtains p1 p2 p3 where "pages = p1 @ p2 @ p3" "covers ps (take x v) p1" "covers ps (drop y v) p3"
    "drop x (take y v) = page_slots ps p2" "distinct p2"
proof -
  note c1 = covers_split [OF ps c x(2,4)]
  have xl: "x \<le> length (take y v)" using x by simp
  note c2 = covers_split [OF ps c1(1) x(1) xl]
  let ?q = "take (y div ps) pages"
  have "drop x (take y v) = page_slots ps (drop (x div ps) ?q)"
    using covers_whole [OF ps _ c2(2)] x by (simp add: dvd_diff_nat)
  moreover have "take x (take y v) = take x v" using x by (simp add: min_def)
  moreover have "pages = take (x div ps) ?q @ drop (x div ps) ?q @ drop (y div ps) pages"
    by (simp only: append_take_drop_id append_assoc [symmetric])
  moreover have "distinct (drop (x div ps) ?q)" using c by (simp add: covers_def)
  ultimately show ?thesis using that c1(2) c2(1) by metis
qed

lemma page_slots_disjoint: "0 < ps \<Longrightarrow> set p \<inter> set q = {} \<Longrightarrow> set (page_slots ps p) \<inter> set (page_slots ps q) = {}"
  by (auto simp: slots_of_def)

lemma set_page_slots_append: "set (page_slots ps (p @ q)) = set (page_slots ps p) \<union> set (page_slots ps q)"
  by (simp add: page_slots_append)

lemma covers_subset:
  assumes "0 < ps" "pages = p1 @ p2 @ p3"
  shows "set (page_slots ps pages) = set (page_slots ps p1) \<union> set (page_slots ps p2) \<union> set (page_slots ps p3)"
    "distinct pages \<Longrightarrow> set (page_slots ps p1) \<inter> set (page_slots ps p2) = {}"
    "distinct pages \<Longrightarrow> set (page_slots ps p1) \<inter> set (page_slots ps p3) = {}"
    "distinct pages \<Longrightarrow> set (page_slots ps p2) \<inter> set (page_slots ps p3) = {}"
  using assms(2) page_slots_disjoint [OF assms(1), of p1 p2] page_slots_disjoint [OF assms(1), of p1 p3] page_slots_disjoint [OF assms(1), of p2 p3]
  by (auto simp: page_slots_append)

section \<open>Finished requests\<close>

text \<open>
  A running request of the world: the tree owns the first \<open>cache_protected_len\<close> slots of its row, at a node the
  request holds locked and under the request's own tokens \<open>ts\<close>; the rest of its row up to \<open>len\<close> lies on the
  pages \<open>pages\<close>, which nobody else owns.
\<close>

definition req_row_of :: "'b req_scheme \<Rightarrow> 'a radix_world \<Rightarrow> int list" where
  "req_row_of r w = rt_req_to_token (rw_pool w) ! the (req_pool_idx (r_kv r))"

definition req_owns :: "nat list \<Rightarrow> 'b req_scheme \<Rightarrow> int list \<Rightarrow> nat \<Rightarrow> int list \<Rightarrow> 'a radix_world \<Rightarrow> bool" where
  "req_owns H r ts len pages w \<longleftrightarrow>
     (\<exists>i. req_pool_idx (r_kv r) = Some i \<and> i < length (rt_req_to_token (rw_pool w))) \<and> length ts \<le> len \<and> len \<le> length (req_row_of r w) \<and>
     rc_page_size (rw_cache w) dvd cache_protected_len (r_kv r) \<and> cache_protected_len (r_kv r) \<le> length (req_units (rw_cache w) r ts) \<and>
     (\<exists>n. r_last_node r = Some n \<and> n \<in> set H \<and>
        at_node (rc_store (rw_cache w)) (rc_root (rw_cache w)) n (take (cache_protected_len (r_kv r)) (req_units (rw_cache w) r ts))
          (take (cache_protected_len (r_kv r)) (req_row_of r w))) \<and>
     covers (rc_page_size (rw_cache w)) (slice (req_row_of r w) (cache_protected_len (r_kv r)) len) pages \<and>
     set (page_slots (rc_page_size (rw_cache w)) pages) \<subseteq> ka_universe (rc_alloc (rw_cache w)) \<and>
     set (page_slots (rc_page_size (rw_cache w)) pages) \<inter> (held_slots (rw_cache w) \<union> ka_free_set (rc_alloc (rw_cache w))) = {}"

lemma req_row_Inr: "req_owns H r ts len pages w \<Longrightarrow> req_row r w = Inr (req_row_of r w)"
  by (auto simp: req_owns_def req_row_def rt_row_def req_row_of_def)

lemma run_pageD:
  assumes "cache_run H s"
  shows "0 < rc_page_size s" "ka_inv (rc_alloc s)" "ka_page_size (rc_alloc s) = rc_page_size s" "\<not> rc_disable s"
  using run_okD [OF run_invariant [OF assms]] slots_okD(1,2) by blast+

text \<open>The part of the row below the protected length is cached, so an insertion matches at least that much.\<close>

lemma protected_cached:
  assumes r: "cache_run H s" and a: "at_node (rc_store s) (rc_root s) n (take p u) v" and p: "rc_page_size s dvd p" "p \<le> length u"
  shows "p \<le> spec_match (radix_contents s) u"
proof -
  note ok = run_okD [OF run_invariant [OF r]]
  have "holds s (take p u) v"
    unfolding holds_def using at_node_cached [OF a wfD(1) [OF ok(1)] ok(5)] p by (simp add: min_def)
  then show ?thesis
    using spec_matchD(4) [OF contents_ok_run [OF r] p(2)] radix_contents_iff [OF run_invariant [OF r]] by (metis option.distinct(1))
qed

lemma spec_match_page:
  assumes "cache_run H s"
  shows "rc_page_size s dvd spec_match (radix_contents s) u"
proof -
  note ok = contents_ok_run [OF assms]
  have "rc_page_size s dvd length (take (spec_match (radix_contents s) u) u)"
    using ok spec_matchD(2) [OF ok, of u] unfolding contents_ok_def by blast
  then show ?thesis using spec_matchD(1) [OF ok, of u] by (simp add: min.absorb2)
qed

text \<open>Inserting a running request's tokens with the slots of its row.\<close>

lemma insert_row_step:
  assumes r: "cache_run H (rw_cache w)" and ev: "\<not> ev_enabled (rc_events (rw_cache w))" and o: "req_owns H r ts len pages w"
    and k: "mode_ok (rw_cache w) key" "query (rw_cache w) key = req_units (rw_cache w) r ts"
  obtains m p1 p2 p3 j s' where
    "insert_key key (Some (take (length (req_units (rw_cache w) r ts)) (take len (req_row_of r w)))) prio chunked (rw_cache w) = Inr ((m, j), s')"
    "cache_protected_len (r_kv r) \<le> m" "m \<le> length (req_units (rw_cache w) r ts)" "rc_page_size (rw_cache w) dvd m" "pages = p1 @ p2 @ p3"
    "covers (rc_page_size (rw_cache w)) (slice (take len (req_row_of r w)) (cache_protected_len (r_kv r)) m) p1"
    "covers (rc_page_size (rw_cache w)) (drop (length (req_units (rw_cache w) r ts)) (take len (req_row_of r w))) p3"
    "cache_run H s'" "same_frame (rw_cache w) s'" "rc_alloc s' = rc_alloc (rw_cache w)" "rc_events s' = rc_events (rw_cache w)"
    "radix_contents s' = spec_insert (rc_page_size (rw_cache w)) (req_units (rw_cache w) r ts)
       (take (length (req_units (rw_cache w) r ts)) (req_row_of r w)) (radix_contents (rw_cache w))"
    "held_slots s' = held_slots (rw_cache w) \<union> set (page_slots (rc_page_size (rw_cache w)) p2)" "live (rw_cache w) \<subseteq> live s'"
proof -
  let ?s = "rw_cache w" and ?p = "cache_protected_len (r_kv r)" and ?row = "req_row_of r w"
  let ?ps = "rc_page_size ?s" and ?u = "req_units ?s r ts"
  let ?m = "spec_match (radix_contents ?s) ?u" and ?v = "slice ?row ?p len"
  have ps: "0 < ?ps" by (rule run_pageD(1) [OF r])
  have lu: "length ?u \<le> len" using length_req_units [of ?s r ts] o by (simp add: req_owns_def)
  have ll: "len \<le> length ?row" and dp: "?ps dvd ?p" "?p \<le> length ?u" and c: "covers ?ps ?v pages"
    and uni: "set (page_slots ?ps pages) \<subseteq> ka_universe (rc_alloc ?s)" "set (page_slots ?ps pages) \<inter> (held_slots ?s \<union> ka_free_set (rc_alloc ?s)) = {}"
    using o by (auto simp: req_owns_def)
  have pm: "?p \<le> ?m" using o protected_cached [OF r _ dp] by (auto simp: req_owns_def)
  have mu: "?m \<le> length ?u" by (rule spec_matchD(1) [OF contents_ok_run [OF r]])
  have du: "?ps dvd length ?u" unfolding req_units_def by (rule query_page [OF ps])
  have dm: "?ps dvd ?m" by (rule spec_match_page [OF r])
  have lv: "length ?v = len - ?p" using ll by simp
  obtain p1 p2 p3 where p: "pages = p1 @ p2 @ p3" "covers ?ps (take (?m - ?p) ?v) p1" "covers ?ps (drop (length ?u - ?p) ?v) p3"
    "drop (?m - ?p) (take (length ?u - ?p) ?v) = page_slots ?ps p2" "distinct p2"
    by (rule row_three_parts [OF ps c, of "?m - ?p" "length ?u - ?p"]) (use dm dp du pm mu lu lv in \<open>auto intro: dvd_diff_nat\<close>)
  have e1: "take (?m - ?p) ?v = slice (take len ?row) ?p ?m" using pm mu lu by (simp add: slice_def take_drop min_def)
  have e2: "drop (?m - ?p) (take (length ?u - ?p) ?v) = drop ?m (take (length ?u) (take len ?row))"
    using pm mu lu by (simp add: slice_def take_drop min_def)
  have e3: "drop (length ?u - ?p) ?v = drop (length ?u) (take len ?row)"
    using dp lu by (simp add: slice_def take_drop)
  have sub: "set (page_slots ?ps p2) \<subseteq> set (page_slots ?ps pages)" unfolding p(1) set_page_slots_append by blast
  have l: "length (query ?s key) \<le> length (take (length ?u) (take len ?row))" using k(2) lu ll by simp
  have tt: "take (length (query ?s key)) (take (length ?u) (take len ?row)) = take (length ?u) (take len ?row)" using k(2) by simp
  have "new_slots ?s (drop (spec_match (radix_contents ?s) (query ?s key)) (take (length (query ?s key)) (take (length ?u) (take len ?row))))"
    unfolding tt unfolding k(2) e2 [symmetric] p(4) new_slots_def using sub uni p(5) unfolding blocked_def by blast
  from insert_step [OF r ev k(1) l this, of prio chunked]
  obtain j s' where s': "insert_key key (Some (take (length ?u) (take len ?row))) prio chunked ?s = Inr ((?m, j), s')"
    "cache_run H s'" "same_frame ?s s'" "rc_alloc s' = rc_alloc ?s" "rc_events s' = rc_events ?s"
    "radix_contents s' = spec_insert ?ps ?u (take (length ?u) (take len ?row)) (radix_contents ?s)"
    "held_slots s' = held_slots ?s \<union> set (page_slots ?ps p2)" "live ?s \<subseteq> live s'"
    unfolding tt unfolding k(2) e2 [symmetric] p(4) by metis
  have tl: "take (length ?u) (take len ?row) = take (length ?u) ?row" using lu by (simp add: min_def)
  show ?thesis by (rule that [OF s'(1) pm mu dm p(1) p(2) [unfolded e1] p(3) [unfolded e3] s'(2-5) s'(6) [unfolded tl] s'(7,8)])
qed

text \<open>Putting pages on the free list that are neither free nor in the tree.\<close>

lemma pool_step_run:
  assumes "cache_run H s" "ka_inv a" "ka_page_size a = rc_page_size s" "ka_universe a = ka_universe (rc_alloc s)"
    "ka_free_set a = ka_free_set (rc_alloc s) \<union> X" "X \<inter> held_slots s = {}"
  shows "cache_run H (s\<lparr>rc_alloc := a\<rparr>)"
proof (rule run_pool [OF assms(1-4)])
  show "ka_free_set a \<inter> held_slots s = {}"
    using assms(5,6) slots_okD(5) [OF run_okD(2) [OF run_invariant [OF assms(1)]]] unfolding held_slots_def by blast
qed

text \<open>The second insertion of a finished request: the prompt is cached already, so nothing is added.\<close>

lemma reinsert_step:
  assumes r: "cache_run H s" and ev: "\<not> ev_enabled (rc_events s)" and m: "mode_ok s key" and l: "length x = length (query s key)"
    and c: "radix_contents s (query s key) \<noteq> None"
  obtains j s' where "insert_key key (Some x) prio chunked s = Inr ((length (query s key), j), s')" "cache_run H s'" "same_frame s s'"
    "rc_alloc s' = rc_alloc s" "rc_events s' = rc_events s" "radix_contents s' = radix_contents s" "held_slots s' = held_slots s"
proof -
  note i = spec_insert_id [OF contents_ok_run [OF r] c]
  have le: "length (query s key) \<le> length x" using l by simp
  have ns: "new_slots s (drop (spec_match (radix_contents s) (query s key)) (take (length (query s key)) x))"
    using l unfolding i(2) by (simp add: new_slots_def blocked_def) (metis distinct.simps(1) page_slots_Nil)
  obtain j s' where "insert_key key (Some x) prio chunked s = Inr ((spec_match (radix_contents s) (query s key), j), s')"
    "cache_run H s'" "same_frame s s'" "rc_alloc s' = rc_alloc s" "rc_events s' = rc_events s"
    "radix_contents s' = spec_insert (rc_page_size s) (query s key) (take (length (query s key)) x) (radix_contents s)"
    "held_slots s' = held_slots s \<union> set (drop (spec_match (radix_contents s) (query s key)) (take (length (query s key)) x))"
    by (rule insert_step [OF r ev m le ns])
  then show ?thesis using that [of j s'] l unfolding i by simp
qed

text \<open>The prompt of a finished request is inserted again at a higher priority.\<close>

lemma prompt_step:
  assumes r: "cache_run H s" and ev: "\<not> ev_enabled (rc_events s)" and u: "radix_contents s u \<noteq> None" "prefix (req_units s q pt) u" "length x = length u"
  obtains k s' where "req_key q pt s = Inr k"
    "(if 0 < rk_len k \<and> rk_len k < length u then rbind (insert_key k (Some (take (rk_len k) x)) prio True s) (\<lambda>(_, s). Inr s) else Inr s) = Inr s'"
    "cache_run H s'" "same_frame s s'" "rc_alloc s' = rc_alloc s" "radix_contents s' = radix_contents s" "held_slots s' = held_slots s"
proof -
  have ps: "0 < rc_page_size s" by (rule run_pageD(1) [OF r])
  obtain k where k: "req_key q pt s = Inr k" "mode_ok s k" "query s k = req_units s q pt" "rk_len k = length (req_units s q pt)" by (rule req_key_step [OF ps])
  show ?thesis
  proof (cases "0 < rk_len k \<and> rk_len k < length u")
    case True
    have "rc_page_size s dvd length (query s k)" "prefix (query s k) u" using query_page [OF ps, of k] u(2) k(3) by simp_all
    then have c: "radix_contents s (query s k) \<noteq> None" using u(1) contents_ok_run [OF r] unfolding contents_ok_def by blast
    have l: "length (take (rk_len k) x) = length (query s k)" using True k(3,4) u(3) by simp
    obtain j s' where "insert_key k (Some (take (rk_len k) x)) prio True s = Inr ((length (query s k), j), s')" "cache_run H s'" "same_frame s s'"
      "rc_alloc s' = rc_alloc s" "rc_events s' = rc_events s" "radix_contents s' = radix_contents s" "held_slots s' = held_slots s"
      by (rule reinsert_step [OF r ev k(2) l c])
    then show ?thesis using that [OF k(1), of s'] True by simp
  next
    case False
    show ?thesis by (rule that [OF k(1) if_not_P [OF False] r]) (simp_all add: same_frame_def)
  qed
qed

text \<open>The pages that were cached before and those of the unaligned tail become free.\<close>

lemma finish_free_step:
  assumes r: "cache_run H s" and c: "covers (rc_page_size s) (slice v p m) p1" "covers (rc_page_size s) (drop l v) p3"
    and d: "rc_page_size s dvd p" "rc_page_size s dvd m" "rc_page_size s dvd l" "p \<le> m" "m \<le> l" "l \<le> length v"
    and x: "(set (page_slots (rc_page_size s) p1) \<union> set (page_slots (rc_page_size s) p3)) \<inter> (held_slots s \<union> ka_free_set (rc_alloc s)) = {}"
      "set (page_slots (rc_page_size s) p1) \<inter> set (page_slots (rc_page_size s) p3) = {}"
  obtains a where "ka_free_segments [(slice v p m, p), (drop l v, l)] (rc_alloc s) = Inr a" "cache_run H (s\<lparr>rc_alloc := a\<rparr>)"
    "ka_free_set a = ka_free_set (rc_alloc s) \<union> set (page_slots (rc_page_size s) p1) \<union> set (page_slots (rc_page_size s) p3)"
proof -
  have lp: "length (slice v p m) = m - p" using d(5,6) by simp
  obtain a where a: "ka_free_segments [(slice v p m, p), (drop l v, l)] (rc_alloc s) = Inr a" "ka_inv a" "ka_page_size a = rc_page_size s"
    "ka_free_set a = ka_free_set (rc_alloc s) \<union> set (page_slots (rc_page_size s) p1) \<union> set (page_slots (rc_page_size s) p3)" "ka_universe a = ka_universe (rc_alloc s)"
  proof (rule exE [OF ka_free_two_segments [OF run_pageD(2,3) [OF r] c d(1,3)]])
    show "slice v p m = [] \<or> p + length (slice v p m) \<le> l" using lp d(4,5) by simp
    show "rc_page_size s dvd length (slice v p m)" unfolding lp by (rule dvd_diff_nat [OF d(2,1)])
  qed (use x that in blast)+
  have "cache_run H (s\<lparr>rc_alloc := a\<rparr>)"
    by (rule pool_step_run [OF r a(2,3,5), of "set (page_slots (rc_page_size s) p1) \<union> set (page_slots (rc_page_size s) p3)"]) (use a(4) x(1) in auto)
  then show ?thesis using that a(1,4) by blast
qed

text \<open>
  Property C25: finishing a request accounts for every slot of it. For a running request, \<open>cache_finished_req\<close> returns; the tree then maps
  the request's page-aligned tokens, keeping what it had and adding the rest from the request's row; the lock is
  given back; and each slot of the request's pages is afterwards owned by the tree or free. Since the state reached
  is again a reachable one, no slot is both.
\<close>

theorem finish_accounts_all_slots:
  assumes r: "cache_run H (rw_cache w)" and ev: "\<not> ev_enabled (rc_events (rw_cache w))"
    and o: "req_owns H r ts len pages w" and ts: "ts = take len (r_origin_input_ids r @ r_output_ids r)"
  shows "\<exists>w'. cache_finished_req r True len w = Inr w' \<and> cache_run (remove1 (the (r_last_node r)) H) (rw_cache w') \<and> rw_pool w' = rw_pool w \<and>
     radix_contents (rw_cache w') = spec_insert (rc_page_size (rw_cache w)) (req_units (rw_cache w) r ts)
       (take (length (req_units (rw_cache w) r ts)) (req_row_of r w)) (radix_contents (rw_cache w)) \<and>
     held_slots (rw_cache w') \<union> ka_free_set (rc_alloc (rw_cache w')) =
       held_slots (rw_cache w) \<union> ka_free_set (rc_alloc (rw_cache w)) \<union> set (page_slots (rc_page_size (rw_cache w)) pages)"
proof -
  let ?s = "rw_cache w" and ?p = "cache_protected_len (r_kv r)" and ?row = "req_row_of r w"
  let ?ps = "rc_page_size ?s" and ?u = "req_units ?s r ts" and ?pt = "take (length (r_origin_input_ids r)) ts"
  have ps: "0 < ?ps" and en: "\<not> rc_disable ?s" using run_pageD [OF r] by blast+
  have lu: "length ?u \<le> len" "len \<le> length ?row" using length_req_units [of ?s r ts] o by (auto simp: req_owns_def)
  have du: "?ps dvd length ?u" unfolding req_units_def by (rule query_page [OF ps])
  obtain k where k: "req_key r ts ?s = Inr k" "mode_ok ?s k" "query ?s k = ?u" "rk_len k = length ?u" by (rule req_key_step [OF ps])
  obtain m p1 p2 p3 j s1 where
    s1: "insert_key k (Some (take (length ?u) (take len ?row))) (Some (req_priority r)) False ?s = Inr ((m, j), s1)"
    "?p \<le> m" "m \<le> length ?u" "?ps dvd m" "pages = p1 @ p2 @ p3" "covers ?ps (slice (take len ?row) ?p m) p1"
    "covers ?ps (drop (length ?u) (take len ?row)) p3"
    "cache_run H s1" "same_frame ?s s1" "rc_alloc s1 = rc_alloc ?s" "rc_events s1 = rc_events ?s"
    "radix_contents s1 = spec_insert ?ps ?u (take (length ?u) ?row) (radix_contents ?s)"
    "held_slots s1 = held_slots ?s \<union> set (page_slots ?ps p2)" "live ?s \<subseteq> live s1"
    by (rule insert_row_step [OF r ev o k(2,3)])
  have ps1: "rc_page_size s1 = ?ps" using s1(9) by (simp add: same_frame_def)
  have pre: "prefix (req_units s1 r ?pt) ?u" unfolding req_frame(1) [OF s1(9)] by (rule req_units_prefix [OF ps])
  have full: "radix_contents s1 ?u \<noteq> None" unfolding s1(12) spec_insert_def using du by simp
  have ev1: "\<not> ev_enabled (rc_events s1)" and lx: "length (take (length ?u) (take len ?row)) = length ?u" using ev s1(11) lu by simp_all
  obtain k2 s2 where k2: "req_key r ?pt s1 = Inr k2" and s2: "(if 0 < rk_len k2 \<and> rk_len k2 < length ?u
        then rbind (insert_key k2 (Some (take (rk_len k2) (take (length ?u) (take len ?row)))) (Some (req_priority r + 1)) True s1) (\<lambda>(_, s). Inr s)
        else Inr s1) = Inr s2" "cache_run H s2" "same_frame s1 s2" "rc_alloc s2 = rc_alloc s1" "radix_contents s2 = radix_contents s1"
      "held_slots s2 = held_slots s1"
    by (rule prompt_step [OF s1(8) ev1 full pre lx])
  have ps2: "rc_page_size s2 = ?ps" and al: "rc_alloc s2 = rc_alloc ?s" using s2(3,4) s1(10) ps1 by (simp_all add: same_frame_def)
  have own: "set (page_slots ?ps pages) \<inter> (held_slots ?s \<union> ka_free_set (rc_alloc ?s)) = {}" "distinct pages" "?ps dvd ?p"
    using o by (auto simp: req_owns_def covers_def)
  note cs = covers_subset [OF ps s1(5)]
  obtain a where a: "ka_free_segments [(slice (take len ?row) ?p m, ?p), (drop (length ?u) (take len ?row), length ?u)] (rc_alloc s2) = Inr a"
    "cache_run H (s2\<lparr>rc_alloc := a\<rparr>)" "ka_free_set a = ka_free_set (rc_alloc s2) \<union> set (page_slots ?ps p1) \<union> set (page_slots ?ps p3)"
  proof (rule finish_free_step [OF s2(2), unfolded ps2, OF s1(6,7) own(3) s1(4) du s1(2,3)])
    show "(set (page_slots ?ps p1) \<union> set (page_slots ?ps p3)) \<inter> (held_slots s2 \<union> ka_free_set (rc_alloc s2)) = {}"
      using own(1) cs(1) cs(2-4) [OF own(2)] s1(13) s2(6) al by auto
  qed (use lu cs(3) own(2) that in simp_all)
  obtain n where n: "r_last_node r = Some n" "n \<in> set H" using o by (auto simp: req_owns_def)
  obtain d s4 where s4: "dec_lock_ref n (s2\<lparr>rc_alloc := a\<rparr>) = Inr (d, s4)" "cache_run (remove1 n H) s4" "live s4 = live (s2\<lparr>rc_alloc := a\<rparr>)"
    "held_slots s4 = held_slots (s2\<lparr>rc_alloc := a\<rparr>)" "radix_contents s4 = radix_contents (s2\<lparr>rc_alloc := a\<rparr>)" "same_frame (s2\<lparr>rc_alloc := a\<rparr>) s4"
    "rc_alloc s4 = rc_alloc (s2\<lparr>rc_alloc := a\<rparr>)"
    by (rule unlock_step [OF a(2) n(2)])
  have "cache_finished_req r True len w = Inr (w\<lparr>rw_cache := s4\<rparr>)"
    unfolding cache_finished_req_def Let_def ts [symmetric]
    by (simp only: en not_True_eq_False if_False req_row_Inr [OF o] k(1,4) rbind_Inr s1(1) prod.case k2 s2(1) a(1)
        unlock_last_node_def n(1) option.case s4(1))
  moreover have "held_slots s4 \<union> ka_free_set (rc_alloc s4) =
      held_slots ?s \<union> ka_free_set (rc_alloc ?s) \<union> set (page_slots ?ps pages)"
    using s4(4,7) a(3) s2(6) s1(13) cs(1) al by auto
  ultimately show ?thesis using s4(2,5) s2(5) s1(12) n(1) by auto
qed

section \<open>An example world\<close>

definition ex_req :: req where
  "ex_req = demo_req\<lparr>r_origin_input_ids := [11, 12], r_output_ids := [13], r_full_untruncated_fill_ids := [11, 12, 13],
     r_extend_range := Some (0, 3), r_last_node := Some 0,
     r_kv := ReqKvInfo\<lparr>req_pool_idx := Some 1, kv_committed_len := 3, kv_allocated_len := 3\<rparr>\<rparr>"

definition ex_world :: "nat radix_world" where
  "ex_world = \<lparr>rw_cache = ex_cache0, rw_pool = (ReqToTokenPool 1 5)\<lparr>rt_req_to_token := [[0, 0, 0, 0, 0], [2, 3, 4, 0, 0]], rt_free_slots := []\<rparr>\<rparr>"

lemma ex_world_run: "cache_run [0] (rw_cache ex_world)" "\<not> ev_enabled (rc_events (rw_cache ex_world))"
proof -
  have "0 \<in> live ex_cache0" by (auto simp: live_def below_def ex_cache0_def intro: exI [of _ "[]"])
  moreover have "inc_lock_ref 0 ex_cache0 = Inr (0, ex_cache0)"
    by (simp add: inc_lock_ref_def inc_lock_loop.simps ex_cache0_def)
  ultimately have "cache_run [0] ex_cache0" using run_lock [OF ex_run0(1)] by blast
  then show "cache_run [0] (rw_cache ex_world)" by (simp add: ex_world_def)
  show "\<not> ev_enabled (rc_events (rw_cache ex_world))" by (simp add: ex_world_def ex_cache0_def KVCacheEventRecorder_def)
qed

lemma ex_world_owns: "req_owns [0] ex_req [11, 12, 13] 3 [1, 2] ex_world"
proof -
  have row: "req_row_of ex_req ex_world = [2, 3, 4, 0, 0]" by (simp add: req_row_of_def ex_req_def ex_world_def)
  have pg: "page_slots 2 [1, 2] = [2, 3, 4, 5]" by code_simp
  have "set [2, 3, 4, 5] \<subseteq> ka_universe ex_pool" "set [2, 3, 4, 5] \<inter> (held_slots ex_cache0 \<union> ka_free_set ex_pool) = {}"
    using ex_fresh by (simp_all add: new_slots_def ex_cache0_def)
  moreover have "rc_page_size ex_cache0 = 2" "rc_alloc ex_cache0 = ex_pool" "rc_root ex_cache0 = 0" by (simp_all add: ex_cache0_def)
  ultimately show ?thesis
    unfolding req_owns_def row using pg at_node_refl
    by (simp add: ex_world_def ex_req_def demo_req_def ReqKvInfo_def covers_def ReqToTokenPool_def)
qed

theorem finish_accounts_all_slots_witness:
  "\<exists>w'. cache_finished_req ex_req True 3 ex_world = Inr w' \<and> held_slots (rw_cache w') \<union> ka_free_set (rc_alloc (rw_cache w')) = ka_free_set ex_pool \<union> {2, 3, 4, 5}"
proof -
  have ts: "[11, 12, 13] = take 3 (r_origin_input_ids ex_req @ r_output_ids ex_req)" by (simp add: ex_req_def)
  have pg: "page_slots 2 [1, 2] = [2, 3, 4, 5]" by code_simp
  have "rc_page_size (rw_cache ex_world) = 2" "rc_alloc (rw_cache ex_world) = ex_pool" "held_slots (rw_cache ex_world) = {}"
    using ex_run0(2) by (simp_all add: ex_world_def) (simp_all add: ex_cache0_def)
  then show ?thesis using finish_accounts_all_slots [OF ex_world_run ex_world_owns ts] pg by auto
qed

section \<open>Requests that go on\<close>

lemma cached_value:
  assumes r: "cache_run H s" and a: "at_node (rc_store s) (rc_root s) n (take p u) v" and p: "rc_page_size s dvd p" "p \<le> length u"
  shows "radix_contents s (take p u) = Some v"
proof -
  note ok = run_okD [OF run_invariant [OF r]]
  have "holds s (take p u) v"
    unfolding holds_def using at_node_cached [OF a wfD(1) [OF ok(1)] ok(5)] p by (simp add: min_def)
  then show ?thesis using radix_contents_iff [OF run_invariant [OF r]] by blast
qed

lemma match_step:
  assumes r: "cache_run H s" and m: "mode_ok s key" and c: "radix_contents s (query s key) = Some v"
  obtains n s' where "match_prefix key s = Inr (\<lparr>mr_indices = v, mr_node = n\<rparr>, s')" "cache_run H s'" "radix_contents s' = radix_contents s"
    "held_slots s' = held_slots s" "same_frame s s'" "rc_alloc s' = rc_alloc s" "rc_events s' = rc_events s" "n \<in> live s'"
    "at_node (rc_store s') (rc_root s) n (query s key) v"
proof -
  note ok = contents_ok_run [OF r]
  have sm: "spec_match (radix_contents s) (query s key) = length (query s key)" using spec_insert_id(2) [OF ok] c by simp
  then have ss: "spec_slots (radix_contents s) (query s key) = v" using c by (simp add: spec_slots_def)
  obtain n s' where e: "match_prefix key s = Inr (\<lparr>mr_indices = v, mr_node = n\<rparr>, s')" "run_ok H s'" "radix_contents s' = radix_contents s"
    "grows (live s) s (live s') s'" "n \<in> live s'" "at_node (rc_store s') (rc_root s) n (query s key) v"
    by (rule match_refines [OF run_invariant [OF r] m, unfolded sm ss take_all [OF order_refl]])
  have "held_slots s' = held_slots s" using growsD(4,14) [OF e(4)] by (simp add: held_slots_def)
  then show ?thesis by (rule that [OF e(1) run_match [OF r m e(1)] e(3) _ growsD(2,8,9) [OF e(4)] e(5,6)])
qed

lemma write_row:
  assumes i: "i < length (rt_req_to_token p)" and v: "length v = b - a" "a \<le> b" "b \<le> length (rt_req_to_token p ! i)"
  shows "rt_write i a b v p = Inr (p\<lparr>rt_req_to_token := (rt_req_to_token p)[i := take a (rt_req_to_token p ! i) @ v @ drop b (rt_req_to_token p ! i)]\<rparr>)"
  using assms by (simp add: rt_write_def Let_def)

text \<open>The state after the insertion and the release of the duplicates.\<close>

lemma cache_chunk_step:
  assumes r: "cache_run H (rw_cache w)" and ev: "\<not> ev_enabled (rc_events (rw_cache w))" and o: "req_owns H r ts (length ts) pages w"
    and k: "mode_ok (rw_cache w) k" "query (rw_cache w) k = req_units (rw_cache w) r ts"
  obtains m j s1 s2 p1 p2 p3 where
    "insert_key k (Some (take (length (req_units (rw_cache w) r ts)) (take (length ts) (req_row_of r w)))) (Some (req_priority r)) chunked (rw_cache w) = Inr ((m, j), s1)"
    "free_row_segment (slice (take (length ts) (req_row_of r w)) (cache_protected_len (r_kv r)) m) (cache_protected_len (r_kv r)) s1 = Inr s2"
    "cache_run H s2" "same_frame (rw_cache w) s2" "rc_events s2 = rc_events (rw_cache w)" "pages = p1 @ p2 @ p3"
    "covers (rc_page_size (rw_cache w)) (drop (length (req_units (rw_cache w) r ts)) (take (length ts) (req_row_of r w))) p3"
    "radix_contents s2 = spec_insert (rc_page_size (rw_cache w)) (req_units (rw_cache w) r ts)
       (take (length (req_units (rw_cache w) r ts)) (req_row_of r w)) (radix_contents (rw_cache w))"
    "held_slots s2 = held_slots (rw_cache w) \<union> set (page_slots (rc_page_size (rw_cache w)) p2)"
    "ka_free_set (rc_alloc s2) = ka_free_set (rc_alloc (rw_cache w)) \<union> set (page_slots (rc_page_size (rw_cache w)) p1)"
    "ka_universe (rc_alloc s2) = ka_universe (rc_alloc (rw_cache w))"
proof -
  let ?s = "rw_cache w" and ?p = "cache_protected_len (r_kv r)" and ?row = "req_row_of r w"
  let ?ps = "rc_page_size ?s" and ?u = "req_units ?s r ts"
  have ps: "0 < ?ps" by (rule run_pageD(1) [OF r])
  obtain m p1 p2 p3 j s1 where
    s1: "insert_key k (Some (take (length ?u) (take (length ts) ?row))) (Some (req_priority r)) chunked ?s = Inr ((m, j), s1)"
    "?p \<le> m" "m \<le> length ?u" "?ps dvd m" "pages = p1 @ p2 @ p3" "covers ?ps (slice (take (length ts) ?row) ?p m) p1"
    "covers ?ps (drop (length ?u) (take (length ts) ?row)) p3"
    "cache_run H s1" "same_frame ?s s1" "rc_alloc s1 = rc_alloc ?s" "rc_events s1 = rc_events ?s"
    "radix_contents s1 = spec_insert ?ps ?u (take (length ?u) ?row) (radix_contents ?s)"
    "held_slots s1 = held_slots ?s \<union> set (page_slots ?ps p2)" "live ?s \<subseteq> live s1"
    by (rule insert_row_step [OF r ev o k])
  have own: "set (page_slots ?ps pages) \<inter> (held_slots ?s \<union> ka_free_set (rc_alloc ?s)) = {}" "distinct pages" "?ps dvd ?p"
    using o by (auto simp: req_owns_def covers_def)
  note cs = covers_subset [OF ps s1(5)]
  have al: "ka_inv (rc_alloc s1)" "ka_page_size (rc_alloc s1) = ?ps" using run_pageD(2,3) [OF r] s1(10) by simp_all
  obtain a where a: "ka_free_segment (slice (take (length ts) ?row) ?p m) ?p (rc_alloc s1) = Inr a" "ka_inv a" "ka_page_size a = ?ps"
    "ka_free_set a = ka_free_set (rc_alloc s1) \<union> set (page_slots ?ps p1)" "ka_universe a = ka_universe (rc_alloc s1)"
    using ka_free_segment_covers [OF al(1), of "slice (take (length ts) ?row) ?p m" p1 ?p] s1(6,10) own cs(1) al(2)
    by (auto simp: dvd_eq_mod_eq_0)
  have "set (page_slots ?ps p1) \<inter> held_slots s1 = {}" using own cs(1,2) s1(13) by auto
  then have "cache_run H (s1\<lparr>rc_alloc := a\<rparr>)"
    by (intro pool_step_run [OF s1(8) a(2) _ a(5,4)]) (use a(3) s1(9) in \<open>simp_all add: same_frame_def\<close>)
  then show ?thesis
    using a s1(9-13) by (intro that [OF s1(1) _ _ _ _ s1(5,7), of "s1\<lparr>rc_alloc := a\<rparr>"]) (simp_all add: free_row_segment_def same_frame_def)
qed

text \<open>The sequence just cached is found again, with the request's own slots in front.\<close>

lemma chunk_value:
  assumes r: "cache_run H s" and r2: "cache_run H s2" "rc_page_size s2 = rc_page_size s" and at: "at_node (rc_store s) (rc_root s) n (take p u) (take p row)"
    and p: "rc_page_size s dvd p" "p \<le> length u" and u: "rc_page_size s dvd length u" "length u \<le> length row"
    and M: "radix_contents s2 = spec_insert (rc_page_size s) u (take (length u) row) (radix_contents s)"
  obtains v where "radix_contents s2 u = Some v" "length v = length u" "take p v = take p row"
proof -
  have ok: "contents_ok (rc_page_size s) (radix_contents s2)" using contents_ok_run [OF r2(1)] r2(2) by simp
  have "spec_match (radix_contents s2) u = length u"
    unfolding M by (rule spec_insert_full(1) [OF contents_ok_run [OF r] ok [unfolded M] u(1)]) (use u(2) in simp)
  then obtain v where v: "radix_contents s2 u = Some v" using spec_matchD(2) [OF ok, of u] by simp
  then have "length v = length u" using ok unfolding contents_ok_def by blast
  moreover have "radix_contents s2 (take p u) = Some (take p v)" using contents_prefix [OF ok v p] .
  moreover have "radix_contents s2 (take p u) = Some (take p row)" using cached_value [OF r at p] unfolding M spec_insert_def by simp
  ultimately show ?thesis using that v by simp
qed

text \<open>Moving the lock of a request to another node.\<close>

lemma relock_step:
  assumes r: "cache_run H s" and n: "n \<in> set H" "n' \<in> live s"
  obtains d d' s1 s' where "dec_lock_ref n s = Inr (d, s1)" "inc_lock_ref n' s1 = Inr (d', s')" "cache_run (n' # remove1 n H) s'" "same_frame s s'"
    "held_slots s' = held_slots s" "radix_contents s' = radix_contents s" "rc_alloc s' = rc_alloc s" "at_node (rc_store s') = at_node (rc_store s)"
proof -
  obtain d s4 where s4: "dec_lock_ref n s = Inr (d, s4)" "cache_run (remove1 n H) s4" "live s4 = live s" "held_slots s4 = held_slots s"
    "radix_contents s4 = radix_contents s" "same_frame s s4" "rc_alloc s4 = rc_alloc s" "rc_events s4 = rc_events s" "at_node (rc_store s4) = at_node (rc_store s)"
    by (rule unlock_step [OF r n(1)])
  have n4: "n' \<in> live s4" using n(2) s4(3) by simp
  obtain d' s5 where s5: "inc_lock_ref n' s4 = Inr (d', s5)" "cache_run (n' # remove1 n H) s5" "live s5 = live s4" "held_slots s5 = held_slots s4"
    "radix_contents s5 = radix_contents s4" "same_frame s4 s5" "rc_alloc s5 = rc_alloc s4" "rc_events s5 = rc_events s4" "at_node (rc_store s5) = at_node (rc_store s4)"
    by (rule lock_step [OF s4(2) n4])
  show ?thesis using that [OF s4(1) s5(1,2)] s4 s5 by (simp add: same_frame_def)
qed

text \<open>The run of \<open>cache_unfinished_req\<close> on a running request.\<close>

lemma chunk_runs:
  assumes r: "cache_run H (rw_cache w)" and ev: "\<not> ev_enabled (rc_events (rw_cache w))"
    and o: "req_owns H r ts (length ts) pages w" and f: "get_fill_ids r = Inr ts" and i: "req_pool_idx (r_kv r) = Some i"
  defines "u \<equiv> req_units (rw_cache w) r ts"
  obtains v n' s' p1 p2 p3 where
    "cache_unfinished_req r chunked w = Inr (r\<lparr>r_kv := (r_kv r)\<lparr>cache_protected_len := length u\<rparr>,
        r_prefix_indices := take (length ts) (v @ drop (length u) (req_row_of r w)), r_last_node := Some n'\<rparr>,
       w\<lparr>rw_cache := s', rw_pool := (rw_pool w)\<lparr>rt_req_to_token := (rt_req_to_token (rw_pool w))[i := v @ drop (length u) (req_row_of r w)]\<rparr>\<rparr>)"
    "cache_run (n' # remove1 (the (r_last_node r)) H) s'" "same_frame (rw_cache w) s'" "length v = length u" "at_node (rc_store s') (rc_root s') n' u v"
    "radix_contents s' = spec_insert (rc_page_size (rw_cache w)) u (take (length u) (req_row_of r w)) (radix_contents (rw_cache w))"
    "held_slots s' \<union> ka_free_set (rc_alloc s') =
       held_slots (rw_cache w) \<union> ka_free_set (rc_alloc (rw_cache w)) \<union> set (page_slots (rc_page_size (rw_cache w)) p1) \<union> set (page_slots (rc_page_size (rw_cache w)) p2)"
    "ka_universe (rc_alloc s') = ka_universe (rc_alloc (rw_cache w))" "pages = p1 @ p2 @ p3"
    "covers (rc_page_size (rw_cache w)) (drop (length u) (take (length ts) (req_row_of r w))) p3"
proof -
  let ?s = "rw_cache w" and ?p = "cache_protected_len (r_kv r)" and ?row = "req_row_of r w" and ?len = "length ts"
  let ?ps = "rc_page_size ?s" and ?u = u and ?M = "radix_contents (rw_cache w)"
  have ps: "0 < ?ps" and en: "\<not> rc_disable ?s" using run_pageD [OF r] by blast+
  obtain n where il: "i < length (rt_req_to_token (rw_pool w))" and n: "r_last_node r = Some n" "n \<in> set H"
    and at: "at_node (rc_store ?s) (rc_root ?s) n (take ?p ?u) (take ?p ?row)"
    using o i by (auto simp: req_owns_def u_def)
  have lu: "length ?u \<le> ?len" "?len \<le> length ?row" and dp: "?ps dvd ?p" "?p \<le> length ?u"
    using length_req_units [of ?s r ts] o by (auto simp: req_owns_def u_def)
  have du: "?ps dvd length ?u" unfolding u_def req_units_def by (rule query_page [OF ps])
  obtain k where k: "req_key r ts ?s = Inr k" "mode_ok ?s k" "query ?s k = ?u" "rk_len k = length ?u" unfolding u_def by (rule req_key_step [OF ps])
  obtain m j s1 s2 p1 p2 p3 where
    s1: "insert_key k (Some (take (length ?u) (take ?len ?row))) (Some (req_priority r)) chunked ?s = Inr ((m, j), s1)"
    and s2: "free_row_segment (slice (take ?len ?row) ?p m) ?p s1 = Inr s2" "cache_run H s2" "same_frame ?s s2" "rc_events s2 = rc_events ?s"
    and pg: "pages = p1 @ p2 @ p3" "covers ?ps (drop (length ?u) (take ?len ?row)) p3"
    and M2: "radix_contents s2 = spec_insert ?ps ?u (take (length ?u) ?row) ?M"
    and h2: "held_slots s2 = held_slots ?s \<union> set (page_slots ?ps p2)" "ka_free_set (rc_alloc s2) = ka_free_set (rc_alloc ?s) \<union> set (page_slots ?ps p1)"
      "ka_universe (rc_alloc s2) = ka_universe (rc_alloc ?s)"
    unfolding u_def by (rule cache_chunk_step [OF r ev o k(2,3) [unfolded u_def]])
  have q2: "query s2 k = ?u" "mode_ok s2 k" using k(2,3) query_frame [OF s2(3)] req_frame(3) [OF s2(3)] by simp_all
  have ps2: "rc_page_size s2 = ?ps" "rc_root s2 = rc_root ?s" using s2(3) by (simp_all add: same_frame_def)
  obtain v where v: "radix_contents s2 ?u = Some v" and lv: "length v = length ?u" and vp: "take ?p v = take ?p ?row"
    by (rule chunk_value [OF r s2(2) ps2(1) at dp du _ M2]) (use lu in simp)
  have c2: "radix_contents s2 (query s2 k) = Some v" using v q2 by simp
  obtain n3 s3 where s3: "match_prefix k s2 = Inr (\<lparr>mr_indices = v, mr_node = n3\<rparr>, s3)" "cache_run H s3" "radix_contents s3 = radix_contents s2"
    "held_slots s3 = held_slots s2" "same_frame s2 s3" "rc_alloc s3 = rc_alloc s2" "rc_events s3 = rc_events s2" "n3 \<in> live s3"
    "at_node (rc_store s3) (rc_root s2) n3 (query s2 k) v"
    by (rule match_step [OF s2(2) q2(2) c2])
  let ?row' = "take ?p ?row @ drop ?p v @ drop (length ?u) ?row"
  define p' where "p' = (rw_pool w)\<lparr>rt_req_to_token := (rt_req_to_token (rw_pool w))[i := ?row']\<rparr>"
  have wr: "rt_write i ?p (length ?u) (drop ?p v) (rw_pool w) = Inr p'"
    unfolding p'_def using write_row [OF il, of "drop ?p v" "length ?u" ?p] i lv dp lu by (simp add: req_row_of_def)
  have row': "?row' = v @ drop (length ?u) ?row" using vp append_take_drop_id [of ?p v] by (metis append_assoc)
  obtain d d' s4 s5 where s4: "dec_lock_ref n s3 = Inr (d, s4)" "inc_lock_ref n3 s4 = Inr (d', s5)" and s5: "cache_run (n3 # remove1 n H) s5" "same_frame s3 s5"
    "held_slots s5 = held_slots s3" "radix_contents s5 = radix_contents s3" "rc_alloc s5 = rc_alloc s3" "at_node (rc_store s5) = at_node (rc_store s3)"
    by (rule relock_step [OF s3(2) n(2) s3(8)])
  have sf: "same_frame ?s s5" using s2(3) s3(5) s5(2) by (simp add: same_frame_def)
  have h5: "held_slots s5 \<union> ka_free_set (rc_alloc s5) = held_slots ?s \<union> ka_free_set (rc_alloc ?s) \<union> set (page_slots ?ps p1) \<union> set (page_slots ?ps p2)"
    "ka_universe (rc_alloc s5) = ka_universe (rc_alloc ?s)"
    using h2 s3(4,6) s5(3,5) by auto
  have rt: "rt_req_to_token p' ! i = v @ drop (length ?u) ?row" by (simp add: p'_def il row')
  have pf: "(if length v < length (take ?len (v @ drop (length ?u) ?row)) then v @ drop (length v) (take ?len (v @ drop (length ?u) ?row)) else v) = take ?len (v @ drop (length ?u) ?row)"
    using lv lu by (simp add: min_def)
  have "cache_unfinished_req r chunked w = Inr (r\<lparr>r_kv := (r_kv r)\<lparr>cache_protected_len := length ?u\<rparr>,
      r_prefix_indices := take ?len (v @ drop (length ?u) ?row), r_last_node := Some n3\<rparr>, w\<lparr>rw_cache := s5, rw_pool := p'\<rparr>)"
    unfolding cache_unfinished_req_def Let_def
    by (simp only: en if_False f rbind_Inr req_row_Inr [OF o] k(1,4) s1 prod.case s2(1) s3(1) match_result.select_convs lv py_assert_True i option.sel wr
        n(1) option.case s4(1,2) rt pf [unfolded lv] simp_thms)
  moreover have "at_node (rc_store s5) (rc_root s5) n3 ?u v" using s3(9) q2(1) ps2(2) sf s5(6) by (simp add: same_frame_def)
  ultimately show ?thesis using that s5(1,4) sf lv h5 pg M2 s3(3) n(1) unfolding p'_def row' by auto
qed

text \<open>
  Property C26: caching a request that goes on keeps it a running request. \<open>cache_unfinished_req\<close> returns; the tree then owns the
  page-aligned part of the request's tokens, under the node that the request now holds locked instead of the old
  one; the row names the tree's slots for that part and the request still owns the pages of the rest, which nobody
  else owns; no slot is lost.
\<close>

theorem chunk_keeps_ownership:
  assumes r: "cache_run H (rw_cache w)" and ev: "\<not> ev_enabled (rc_events (rw_cache w))"
    and o: "req_owns H r ts (length ts) pages w" and f: "get_fill_ids r = Inr ts"
  shows "\<exists>r' w' H' pages'. cache_unfinished_req r chunked w = Inr (r', w') \<and> cache_run H' (rw_cache w') \<and>
     req_owns H' r' ts (length ts) pages' w' \<and> cache_protected_len (r_kv r') = length (req_units (rw_cache w) r ts) \<and>
     r_prefix_indices r' = take (length ts) (req_row_of r' w') \<and> mset H' + {#the (r_last_node r)#} = mset H + {#the (r_last_node r')#} \<and>
     radix_contents (rw_cache w') = spec_insert (rc_page_size (rw_cache w)) (req_units (rw_cache w) r ts)
       (take (length (req_units (rw_cache w) r ts)) (req_row_of r w)) (radix_contents (rw_cache w)) \<and>
     held_slots (rw_cache w') \<union> ka_free_set (rc_alloc (rw_cache w')) \<union> set (page_slots (rc_page_size (rw_cache w)) pages') =
       held_slots (rw_cache w) \<union> ka_free_set (rc_alloc (rw_cache w)) \<union> set (page_slots (rc_page_size (rw_cache w)) pages)"
proof -
  let ?s = "rw_cache w" and ?row = "req_row_of r w" and ?len = "length ts"
  let ?ps = "rc_page_size ?s" and ?u = "req_units ?s r ts"
  have ps: "0 < ?ps" by (rule run_pageD(1) [OF r])
  have lu: "length ?u \<le> ?len" "?len \<le> length ?row" using length_req_units [of ?s r ts] o by (auto simp: req_owns_def)
  have du: "?ps dvd length ?u" unfolding req_units_def by (rule query_page [OF ps])
  obtain i n where i: "req_pool_idx (r_kv r) = Some i" "i < length (rt_req_to_token (rw_pool w))" and n: "r_last_node r = Some n" "n \<in> set H"
    using o by (auto simp: req_owns_def)
  obtain v n' s' p1 p2 p3 where e: "cache_unfinished_req r chunked w = Inr (r\<lparr>r_kv := (r_kv r)\<lparr>cache_protected_len := length ?u\<rparr>,
        r_prefix_indices := take ?len (v @ drop (length ?u) ?row), r_last_node := Some n'\<rparr>,
       w\<lparr>rw_cache := s', rw_pool := (rw_pool w)\<lparr>rt_req_to_token := (rt_req_to_token (rw_pool w))[i := v @ drop (length ?u) ?row]\<rparr>\<rparr>)"
    and s': "cache_run (n' # remove1 (the (r_last_node r)) H) s'" "same_frame ?s s'" "length v = length ?u" "at_node (rc_store s') (rc_root s') n' ?u v"
    "radix_contents s' = spec_insert ?ps ?u (take (length ?u) ?row) (radix_contents ?s)"
    "held_slots s' \<union> ka_free_set (rc_alloc s') = held_slots ?s \<union> ka_free_set (rc_alloc ?s) \<union> set (page_slots ?ps p1) \<union> set (page_slots ?ps p2)"
    "ka_universe (rc_alloc s') = ka_universe (rc_alloc ?s)" and pg: "pages = p1 @ p2 @ p3" "covers ?ps (drop (length ?u) (take ?len ?row)) p3"
    by (rule chunk_runs [OF r ev o f i(1)])
  define r' where "r' = r\<lparr>r_kv := (r_kv r)\<lparr>cache_protected_len := length ?u\<rparr>, r_prefix_indices := take ?len (v @ drop (length ?u) ?row), r_last_node := Some n'\<rparr>"
  define w' where "w' = w\<lparr>rw_cache := s', rw_pool := (rw_pool w)\<lparr>rt_req_to_token := (rt_req_to_token (rw_pool w))[i := v @ drop (length ?u) ?row]\<rparr>\<rparr>"
  have row: "req_row_of r' w' = v @ drop (length ?u) ?row" "req_pool_idx (r_kv r') = Some i" using i by (simp_all add: req_row_of_def r'_def w'_def)
  have u': "req_units (rw_cache w') r' ts = ?u" using query_frame [OF s'(2)] s'(2) by (simp add: w'_def r'_def req_units_def same_frame_def)
  have own: "set (page_slots ?ps pages) \<subseteq> ka_universe (rc_alloc ?s)" "set (page_slots ?ps pages) \<inter> (held_slots ?s \<union> ka_free_set (rc_alloc ?s)) = {}" "distinct pages"
    using o by (auto simp: req_owns_def covers_def)
  note cs = covers_subset [OF ps pg(1)]
  have "slice (req_row_of r' w') (length ?u) ?len = drop (length ?u) (take ?len ?row)"
    unfolding row(1) using s'(3) lu by (simp add: slice_def drop_take)
  moreover have "set (page_slots ?ps p3) \<inter> (held_slots s' \<union> ka_free_set (rc_alloc s')) = {}" using own cs s'(6) by auto
  moreover have "set (page_slots ?ps p3) \<subseteq> ka_universe (rc_alloc s')" using own(1) cs(1) s'(7) by auto
  moreover have "rc_page_size s' = ?ps" using s'(2) by (simp add: same_frame_def)
  ultimately have "req_owns (n' # remove1 n H) r' ts ?len p3 w'"
    using s'(3,4) pg(2) du lu row u' i by (simp add: req_owns_def) (simp add: w'_def r'_def)
  then have "cache_unfinished_req r chunked w = Inr (r', w')" "req_owns (n' # remove1 n H) r' ts ?len p3 w'" using e by (simp_all add: r'_def w'_def)
  moreover have "held_slots s' \<union> ka_free_set (rc_alloc s') \<union> set (page_slots ?ps p3) = held_slots ?s \<union> ka_free_set (rc_alloc ?s) \<union> set (page_slots ?ps pages)"
    using cs(1) s'(6) by auto
  moreover have "mset (n' # remove1 n H) + {#n#} = mset H + {#n'#}" using n(2) by simp
  moreover have "r_prefix_indices r' = take ?len (req_row_of r' w')" unfolding row(1) by (simp add: r'_def)
  ultimately show ?thesis
    using s'(1,5) n(1) by (intro exI [of _ r'] exI [of _ w'] exI [of _ "n' # remove1 n H"] exI [of _ p3]) (simp add: w'_def r'_def)
qed

theorem chunk_keeps_ownership_witness:
  "\<exists>r' w' H' pages'. cache_unfinished_req ex_req True ex_world = Inr (r', w') \<and> cache_run H' (rw_cache w') \<and>
     req_owns H' r' [11, 12, 13] 3 pages' w'"
proof -
  have f: "get_fill_ids ex_req = Inr [11, 12, 13]" by (simp add: get_fill_ids_def ex_req_def)
  have l: "length [11, 12, 13 :: int] = 3" by simp
  have "req_owns [0] ex_req [11, 12, 13] (length [11, 12, 13 :: int]) [1, 2] ex_world" using ex_world_owns by (simp only: l)
  from chunk_keeps_ownership [OF ex_world_run this f, of True] show ?thesis unfolding l by blast
qed

section \<open>Aborted requests\<close>

text \<open>Without insertion the pages of the request are freed and the lock is given back.\<close>

lemma release_row_step:
  assumes r: "cache_run H (rw_cache w)" and o: "req_owns H r ts len pages w"
  obtains s' where "cache_finished_req r False len w = Inr (w\<lparr>rw_cache := s'\<rparr>)" "cache_run (remove1 (the (r_last_node r)) H) s'" "same_frame (rw_cache w) s'"
    "radix_contents s' = radix_contents (rw_cache w)" "held_slots s' = held_slots (rw_cache w)" "rc_events s' = rc_events (rw_cache w)"
    "at_node (rc_store s') = at_node (rc_store (rw_cache w))" "ka_universe (rc_alloc s') = ka_universe (rc_alloc (rw_cache w))"
    "ka_free_set (rc_alloc s') = ka_free_set (rc_alloc (rw_cache w)) \<union> set (page_slots (rc_page_size (rw_cache w)) pages)"
    "ka_free_segment (slice (req_row_of r w) (cache_protected_len (r_kv r)) len) (cache_protected_len (r_kv r)) (rc_alloc (rw_cache w)) = Inr (rc_alloc s')"
proof -
  let ?s = "rw_cache w" and ?p = "cache_protected_len (r_kv r)" and ?row = "req_row_of r w"
  let ?ps = "rc_page_size ?s"
  have own: "set (page_slots ?ps pages) \<inter> (held_slots ?s \<union> ka_free_set (rc_alloc ?s)) = {}" "?ps dvd ?p" "covers ?ps (slice ?row ?p len) pages"
    using o by (auto simp: req_owns_def)
  obtain n where n: "r_last_node r = Some n" "n \<in> set H" using o by (auto simp: req_owns_def)
  obtain a where a: "ka_free_segment (slice ?row ?p len) ?p (rc_alloc ?s) = Inr a" "ka_inv a" "ka_page_size a = ?ps"
    "ka_free_set a = ka_free_set (rc_alloc ?s) \<union> set (page_slots ?ps pages)" "ka_universe a = ka_universe (rc_alloc ?s)"
    using ka_free_segment_covers [OF run_pageD(2) [OF r], of "slice ?row ?p len" pages ?p] own run_pageD(3) [OF r]
    by (auto simp: dvd_eq_mod_eq_0)
  have r1: "cache_run H (?s\<lparr>rc_alloc := a\<rparr>)" by (rule pool_step_run [OF r a(2,3,5,4)]) (use own in blast)
  obtain d s4 where s4: "dec_lock_ref n (?s\<lparr>rc_alloc := a\<rparr>) = Inr (d, s4)" "cache_run (remove1 n H) s4" "held_slots s4 = held_slots (?s\<lparr>rc_alloc := a\<rparr>)"
    "radix_contents s4 = radix_contents (?s\<lparr>rc_alloc := a\<rparr>)" "same_frame (?s\<lparr>rc_alloc := a\<rparr>) s4" "rc_alloc s4 = rc_alloc (?s\<lparr>rc_alloc := a\<rparr>)"
    "rc_events s4 = rc_events (?s\<lparr>rc_alloc := a\<rparr>)" "at_node (rc_store s4) = at_node (rc_store (?s\<lparr>rc_alloc := a\<rparr>))"
    by (rule unlock_step [OF r1 n(2)])
  have "cache_finished_req r False len w = Inr (w\<lparr>rw_cache := s4\<rparr>)"
    using run_pageD(4) [OF r] a(1) n(1) s4(1) by (simp add: cache_finished_req_def Let_def req_row_Inr [OF o] free_row_segment_def unlock_last_node_def)
  moreover have "radix_contents s4 = radix_contents ?s" "held_slots s4 = held_slots ?s" "same_frame ?s s4" using s4(3,4,5) by (simp_all add: pool_fields same_frame_def)
  ultimately show ?thesis using that [of s4] s4 n(1) a(1,4,5) by simp
qed

text \<open>
  Property C27: a request released without insertion gives back exactly its own pages: the cached sequences and the slots of the tree stay,
  the lock is given back, and the pages of the request become free.
\<close>

theorem abort_frees_own_pages:
  assumes r: "cache_run H (rw_cache w)" and o: "req_owns H r ts len pages w"
  shows "\<exists>w'. cache_finished_req r False len w = Inr w' \<and> cache_run (remove1 (the (r_last_node r)) H) (rw_cache w') \<and> rw_pool w' = rw_pool w \<and>
     radix_contents (rw_cache w') = radix_contents (rw_cache w) \<and> held_slots (rw_cache w') = held_slots (rw_cache w) \<and>
     ka_free_set (rc_alloc (rw_cache w')) = ka_free_set (rc_alloc (rw_cache w)) \<union> set (page_slots (rc_page_size (rw_cache w)) pages)"
proof -
  obtain s' where "cache_finished_req r False len w = Inr (w\<lparr>rw_cache := s'\<rparr>)" "cache_run (remove1 (the (r_last_node r)) H) s'"
    "radix_contents s' = radix_contents (rw_cache w)" "held_slots s' = held_slots (rw_cache w)"
    "ka_free_set (rc_alloc s') = ka_free_set (rc_alloc (rw_cache w)) \<union> set (page_slots (rc_page_size (rw_cache w)) pages)"
    by (rule release_row_step [OF r o])
  then show ?thesis by (intro exI [of _ "w\<lparr>rw_cache := s'\<rparr>"]) simp
qed

theorem abort_frees_own_pages_witness:
  "\<exists>w'. cache_finished_req ex_req False 3 ex_world = Inr w' \<and> ka_free_set (rc_alloc (rw_cache w')) = ka_free_set ex_pool \<union> {2, 3, 4, 5}"
proof -
  have pg: "page_slots 2 [1, 2] = [2, 3, 4, 5]" by code_simp
  have "rc_page_size (rw_cache ex_world) = 2" "rc_alloc (rw_cache ex_world) = ex_pool" by (simp_all add: ex_world_def ex_cache0_def)
  then show ?thesis using abort_frees_own_pages [OF ex_world_run(1) ex_world_owns] pg by auto
qed

end
