(* ===== verification/Schedule_Order.thy ===== *)
theory Schedule_Order
  imports Schedule_Policy
begin

text \<open>
  The depth-first order by weight is a permutation: both traversals end within their bound, and the order lists every request
  exactly once if the requests point at nodes of the tree.
\<close>

section \<open>Traversal with markers\<close>

lemma visiting_mset: "mset xs = mset ys \<Longrightarrow> visiting st r L V xs = visiting st r L V ys"
  using mset_eq_setD [of xs ys] mset_eq_imp_distinct_iff [of xs ys] by (simp add: visiting_def)

lemma visiting_any:
  assumes t: "tree_ok ps eagle st r L" and v: "visiting st r L V (x # xs)" and c: "mset cs = mset (map snd (n_children (node_at st x)))"
  shows "visiting st r L (insert x V) (cs @ xs)"
proof -
  have "visiting st r L V (xs @ [x])" using v visiting_mset [of "x # xs" "xs @ [x]"] by simp
  from visiting_step [OF t this] show ?thesis
    using visiting_mset [of "cs @ xs" "xs @ map snd (n_children (node_at st x))"] c by simp
qed

text \<open>\<open>open_nodes\<close> are pushed but not yet expanded, \<open>closing\<close> are expanded and wait for their subtree.\<close>

definition open_nodes :: "(nat \<times> bool) list \<Rightarrow> nat list" where
  "open_nodes stack = map fst (filter (\<lambda>(i, b). \<not> b) stack)"

definition closing :: "(nat \<times> bool) list \<Rightarrow> nat list" where
  "closing stack = map fst (filter snd stack)"

lemma stack_simps [simp]:
  "open_nodes [] = []" "closing [] = []"
  "open_nodes ((i, False) # st) = i # open_nodes st" "open_nodes ((i, True) # st) = open_nodes st"
  "closing ((i, False) # st) = closing st" "closing ((i, True) # st) = i # closing st"
  "open_nodes (map (\<lambda>c. (c, False)) cs @ st) = cs @ open_nodes st" "closing (map (\<lambda>c. (c, False)) cs @ st) = closing st"
  by (simp_all add: open_nodes_def closing_def comp_def)

definition stack_ok :: "cache \<Rightarrow> nat set \<Rightarrow> nat set \<Rightarrow> (nat \<times> bool) list \<Rightarrow> bool" where
  "stack_ok s L D stack \<longleftrightarrow> visiting (rc_store s) (rc_root s) L (D \<union> set (closing stack)) (open_nodes stack) \<and>
     D \<inter> set (closing stack) = {} \<and> distinct (closing stack) \<and> D \<subseteq> L"

definition steps_left :: "nat set \<Rightarrow> nat set \<Rightarrow> (nat \<times> bool) list \<Rightarrow> nat" where
  "steps_left L D stack = 2 * card (L - (D \<union> set (closing stack))) + length (closing stack)"

lemma stack_close:
  assumes "stack_ok s L D ((i, True) # stack)" "finite L"
  shows "stack_ok s L (insert i D) stack" "steps_left L D ((i, True) # stack) = Suc (steps_left L (insert i D) stack)" "i \<in> L - D"
  using assms by (auto simp: stack_ok_def steps_left_def visiting_def)

lemma stack_open:
  assumes t: "tree_ok ps eagle (rc_store s) (rc_root s) L" and o: "stack_ok s L D ((i, False) # stack)"
    and c: "mset cs = mset (children_of s i)"
  shows "stack_ok s L D (map (\<lambda>c. (c, False)) cs @ (i, True) # stack)"
    "steps_left L D ((i, False) # stack) = Suc (steps_left L D (map (\<lambda>c. (c, False)) cs @ (i, True) # stack))"
proof -
  let ?V = "D \<union> set (closing stack)"
  have v: "visiting (rc_store s) (rc_root s) L ?V (i # open_nodes stack)" using o by (simp add: stack_ok_def)
  then have i: "i \<in> L" "i \<notin> ?V" by (auto simp: visiting_def)
  have "visiting (rc_store s) (rc_root s) L (insert i ?V) (cs @ open_nodes stack)"
    by (rule visiting_any [OF t v]) (use c in \<open>simp add: children_of_def\<close>)
  then show "stack_ok s L D (map (\<lambda>c. (c, False)) cs @ (i, True) # stack)"
    using o i by (auto simp: stack_ok_def)
  have "card (L - ?V) = Suc (card (L - insert i ?V))"
    using i tree_okD(2) [OF t] by (metis card.remove Diff_insert DiffI finite_Diff)
  then show "steps_left L D ((i, False) # stack) = Suc (steps_left L D (map (\<lambda>c. (c, False)) cs @ (i, True) # stack))"
    by (simp add: steps_left_def)
qed

lemma stack_done: "tree_ok ps eagle (rc_store s) (rc_root s) L \<Longrightarrow> stack_ok s L D [] \<Longrightarrow> D = L"
  using visiting_done by (simp add: stack_ok_def)

lemma stack_init:
  assumes "cache_wf L H s"
  shows "stack_ok s L {} [(rc_root s, False)]" "steps_left L {} [(rc_root s, False)] \<le> 2 * rc_counter s"
proof -
  note t = wfD(1) [OF assms]
  show "stack_ok s L {} [(rc_root s, False)]" using tree_okD(3) [OF t] by (simp add: stack_ok_def visiting_def)
  have "L \<subseteq> {..<rc_counter s}" using assms tree_okD(4) [OF t] by (auto simp: cache_wf_def dom_def)
  then have "card L \<le> rc_counter s" using card_mono [OF finite_lessThan] by fastforce
  then show "steps_left L {} [(rc_root s, False)] \<le> 2 * rc_counter s" by (simp add: steps_left_def)
qed

section \<open>Both loops\<close>

lemma stack_step:
  assumes t: "tree_ok ps eagle (rc_store s) (rc_root s) L" and o: "stack_ok s L D (x # stack)"
  shows "0 < steps_left L D (x # stack)"
proof (cases x)
  case (Pair i b)
  then show ?thesis
    using o stack_close(2) [of s L D i stack] stack_open(2) [OF t, of D i stack "children_of s i"] tree_okD(2) [OF t] by (cases b) auto
qed

lemma weight_loop_ends:
  assumes t: "tree_ok ps eagle (rc_store s) (rc_root s) L"
  shows "stack_ok s L D stack \<Longrightarrow> steps_left L D stack \<le> fuel \<Longrightarrow> \<exists>w'. weight_loop fuel s stack w = Inr w'"
proof (induction fuel arbitrary: D stack w)
  case 0
  then show ?case using stack_step [OF t, of D] by (cases stack) fastforce+
next
  case (Suc fuel)
  show ?case
  proof (cases stack)
    case (Cons x rest)
    obtain i b where x: "x = (i, b)" by fastforce
    show ?thesis
    proof (cases b)
      case True
      then show ?thesis using Suc Cons x stack_close(1,2) [of s L D i rest] tree_okD(2) [OF t] by simp
    next
      case False
      then show ?thesis using Suc Cons x stack_open [OF t, of D i rest "children_of s i"] by simp
    qed
  qed simp
qed

lemma order_loop_lists:
  assumes t: "tree_ok ps eagle (rc_store s) (rc_root s) L"
  shows "stack_ok s L D stack \<Longrightarrow> steps_left L D stack \<le> fuel \<Longrightarrow>
    \<exists>order'. order_loop fuel s w indices stack order = Inr order' \<and> mset order' = mset order + (\<Sum>i\<in>L - D. mset (indices i))"
proof (induction fuel arbitrary: D stack order)
  case 0
  then have "stack = []" using stack_step [OF t, of D] by (cases stack) fastforce+
  then show ?case using 0 stack_done [OF t, of D] by simp
next
  case (Suc fuel)
  note fin = tree_okD(2) [OF t]
  show ?case
  proof (cases stack)
    case Nil
    then show ?thesis using Suc.prems stack_done [OF t, of D] by simp
  next
    case (Cons x rest)
    obtain i b where x: "x = (i, b)" by fastforce
    show ?thesis
    proof (cases b)
      case True
      have o: "stack_ok s L D ((i, True) # rest)" using Suc.prems Cons x True by simp
      note c = stack_close [OF o fin]
      have "steps_left L (insert i D) rest \<le> fuel" using Suc.prems(2) c(2) Cons x True by simp
      then obtain order' where o': "order_loop fuel s w indices rest (order @ indices i) = Inr order'"
        "mset order' = mset (order @ indices i) + (\<Sum>i\<in>L - insert i D. mset (indices i))"
        using Suc.IH [OF c(1), of "order @ indices i"] by blast
      have "(\<Sum>i\<in>L - D. mset (indices i)) = mset (indices i) + (\<Sum>i\<in>(L - D) - {i}. mset (indices i))"
        by (rule sum.remove) (use fin c(3) in auto)
      moreover have "(L - D) - {i} = L - insert i D" by auto
      ultimately have "(\<Sum>i\<in>L - D. mset (indices i)) = mset (indices i) + (\<Sum>i\<in>L - insert i D. mset (indices i))" by simp
      then show ?thesis using o' Cons x True by (simp add: add.assoc)
    next
      case False
      have "mset (sort_key (\<lambda>c. - int (weight_of w c)) (children_of s i)) = mset (children_of s i)" by simp
      from stack_open [OF t _ this, of D rest] show ?thesis using Suc Cons x False by simp
    qed
  qed
qed

section \<open>The order is a permutation\<close>

lemma indices_partition:
  assumes "finite L" "set handles \<subseteq> Some ` L"
  shows "(\<Sum>i\<in>L. mset (indices_at handles i)) = mset [0..<length handles]"
proof (rule multiset_eqI)
  fix k
  have c: "count (mset (indices_at handles i)) k = (if k < length handles \<and> handles ! k = Some i then 1 else 0)" for i
    by (simp add: indices_at_def distinct_count_atmost_1 count_filter_mset)
  show "count (\<Sum>i\<in>L. mset (indices_at handles i)) k = count (mset [0..<length handles]) k"
  proof (cases "k < length handles")
    case True
    then obtain j where j: "j \<in> L" "handles ! k = Some j" using assms(2) nth_mem by blast
    have "(\<Sum>i\<in>L. count (mset (indices_at handles i)) k) = (\<Sum>i\<in>L. if i = j then 1 else 0)"
      by (rule sum.cong) (use True j in \<open>auto simp: c\<close>)
    then show ?thesis using True j assms(1) by (simp add: count_sum)
  next
    case False
    then have "(\<Sum>i\<in>L. count (mset (indices_at handles i)) k) = 0" by (simp add: c)
    then show ?thesis using False by (simp add: count_sum count_eq_zero_iff)
  qed
qed

lemma dfs_weight_order_permutes:
  assumes w: "cache_wf L H s" and h: "set handles \<subseteq> Some ` L"
  shows "\<exists>order. dfs_weight_order handles s = Inr order \<and> mset order = mset [0..<length handles]"
proof -
  note t = wfD(1) [OF w] and i = stack_init [OF w]
  obtain wt where wt: "weight_loop (2 * rc_counter s) s [(rc_root s, False)] (own_weight handles) = Inr wt"
    using weight_loop_ends [OF t i] by blast
  obtain order where "order_loop (2 * rc_counter s) s wt (indices_at handles) [(rc_root s, False)] [] = Inr order"
    "mset order = (\<Sum>i\<in>L. mset (indices_at handles i))"
    using order_loop_lists [OF t i, of wt "indices_at handles" "[]"] by auto
  then show ?thesis using wt indices_partition [OF tree_okD(2) [OF t] h] by (simp add: dfs_weight_order_def)
qed

lemma permuted_queue: "mset order = mset [0..<length q] \<Longrightarrow> mset (map (\<lambda>k. q ! k) order) = mset q"
proof -
  assume "mset order = mset [0..<length q]"
  then have "mset (map (\<lambda>k. q ! k) order) = mset (map (\<lambda>k. q ! k) [0..<length q])" by simp
  then show ?thesis by (simp add: map_nth)
qed

end
