(* ===== verification/Schedule_Theorems.thy ===== *)
theory Schedule_Theorems
  imports Schedule_Order
begin

text \<open>
  What the scheduling policies guarantee: whatever the policy, no request is lost or served twice, and the tree
  stays a reachable one; longest-prefix-match serves by the true length of the cached prefix and holds back the requests that share
  a long prefix with an earlier one of the queue.
\<close>

section \<open>Matching one request\<close>

definition forget_match :: "'a sched_req_scheme \<Rightarrow> 'a sched_req_scheme" where
  "forget_match r = r\<lparr>r_prefix_indices := [], r_last_node := None, r_last_host_node := None, r_best_match_node := None,
     r_host_hit_length := 0, r_swa_host_hit_length := 0, r_mamba_host_hit_length := 0, r_num_matched_prefix_tokens := 0,
     r_swa_branching_seqlen := None\<rparr>"

definition wait_key :: "'a sched_req_scheme \<Rightarrow> radix_key" where
  "wait_key r = RadixKey (r_origin_input_ids r @ r_output_ids r) (r_extra_key r) False None (r_cache_salt r)"

text \<open>The fields a match leaves in a request, for the contents \<open>M\<close> of the tree.\<close>

definition matched :: "cache \<Rightarrow> (tunit, int) contents \<Rightarrow> 'a sched_req_scheme \<Rightarrow> bool" where
  "matched s M r \<longleftrightarrow> r_prefix_indices r = spec_slots M (query s (wait_key r)) \<and>
     r_num_matched_prefix_tokens r = min (spec_match M (query s (wait_key r))) (compute_max_prefix_len (seqlen r) r)"

lemma wait_key_mode [simp]: "mode_ok s (wait_key r)"
  by (simp add: mode_ok_def wait_key_def salt_ok_def RadixKey_def)

lemma forget_match_fields:
  assumes "forget_match r' = forget_match r"
  shows "r_rid r' = r_rid r" "wait_key r' = wait_key r" "r_priority r' = r_priority r" "seqlen r' = seqlen r"
proof -
  have f: "r_rid (forget_match r) = r_rid r" "wait_key (forget_match r) = wait_key r" "r_priority (forget_match r) = r_priority r"
    "seqlen (forget_match r) = seqlen r" for r :: "'a sched_req_scheme"
    by (simp_all add: forget_match_def wait_key_def seqlen_def)
  show "r_rid r' = r_rid r" "wait_key r' = wait_key r" "r_priority r' = r_priority r" "seqlen r' = seqlen r"
    using f [of r'] f [of r] assms by simp_all
qed

text \<open>A state reached from \<open>s\<close> by matching only.\<close>

definition touched :: "nat list \<Rightarrow> cache \<Rightarrow> cache \<Rightarrow> bool" where
  "touched H s s' \<longleftrightarrow> cache_run H s' \<and> live s \<subseteq> live s' \<and> radix_contents s' = radix_contents s \<and> query s' = query s"

lemma touched_trans: "touched H s s1 \<Longrightarrow> touched H s1 s2 \<Longrightarrow> touched H s s2"
  by (auto simp: touched_def)

lemma touched_refl: "cache_run H s \<Longrightarrow> touched H s s"
  by (simp add: touched_def)

lemma max_prefix_upd: "compute_max_prefix_len n (r\<lparr>r_prefix_indices := a, r_last_node := b, r_last_host_node := c, r_best_match_node := d,
     r_host_hit_length := e, r_swa_host_hit_length := f, r_mamba_host_hit_length := g\<rparr>) = compute_max_prefix_len n r"
  by (simp add: compute_max_prefix_len_def cong: if_cong)

lemma match_one:
  assumes r: "cache_run H s" and ids: "ids = None \<or> ids = Some (r_origin_input_ids q @ r_output_ids q)"
  shows "\<exists>m q' s'. match_prefix_for_req fm q ids s = Inr (m, q', s') \<and> touched H s s' \<and> forget_match q' = forget_match q \<and>
    r_last_node q' \<in> Some ` live s' \<and> (\<not> fm \<longrightarrow> matched s (radix_contents s) q')"
proof -
  let ?M = "radix_contents s" and ?w = "query s (wait_key q)"
  obtain n s' where e: "match_prefix (wait_key q) s = Inr (\<lparr>mr_indices = spec_slots ?M ?w, mr_node = n\<rparr>, s')" "run_ok H s'"
    "radix_contents s' = ?M" "grows (live s) s (live s') s'" "n \<in> live s'"
    "at_node (rc_store s') (rc_root s) n (take (spec_match ?M ?w) ?w) (spec_slots ?M ?w)"
    by (rule match_refines [OF run_invariant [OF r] wait_key_mode [of s q]])
  have run: "cache_run H s'" by (rule run_match [OF r wait_key_mode [of s q] e(1)])
  have t: "touched H s s'" using run e(3) growsD(1) [OF e(4)] query_frame [OF growsD(2) [OF e(4)]] by (simp add: touched_def)
  have root: "rc_root s' \<in> live s'" by (rule run_okD(5) [OF e(2)])
  have len: "length (spec_slots ?M ?w) = spec_match ?M ?w" by (rule spec_matchD(3) [OF radix_contents_ok [OF run_invariant [OF r]]])
  have toks: "(case ids of None \<Rightarrow> r_origin_input_ids q @ r_output_ids q | Some toks \<Rightarrow> toks) = r_origin_input_ids q @ r_output_ids q"
    using ids by auto
  define m where "m = \<lparr>mr_indices = spec_slots ?M ?w, mr_node = n\<rparr>"
  define m' where "m' = (if fm then zero_match_result s' m else m)"
  define q' where "q' = q\<lparr>r_prefix_indices := mr_indices m', r_last_node := Some (mr_node m'), r_last_host_node := Some (mr_node m'),
       r_best_match_node := Some (mr_node m'), r_host_hit_length := 0, r_swa_host_hit_length := 0, r_mamba_host_hit_length := 0,
       r_num_matched_prefix_tokens := min (length (mr_indices m')) (compute_max_prefix_len (seqlen q) q), r_swa_branching_seqlen := None\<rparr>"
  have e1: "match_prefix (RadixKey (r_origin_input_ids q @ r_output_ids q) (r_extra_key q) False None (r_cache_salt q)) s = Inr (m, s')"
    using e(1) by (simp only: wait_key_def m_def)
  have "match_prefix_for_req fm q ids s = Inr (m', q', s')"
    unfolding match_prefix_for_req_def toks by (simp add: swa_reprefill_tail_tokens_def e1 m'_def [symmetric] q'_def max_prefix_upd seqlen_def)
  moreover have "forget_match q' = forget_match q" by (simp add: forget_match_def q'_def)
  moreover have "r_last_node q' \<in> Some ` live s'" using e(5) root by (simp add: q'_def m'_def m_def zero_match_result_def)
  moreover have "\<not> fm \<longrightarrow> matched s ?M q'"
    using len by (simp add: matched_def wait_key_def seqlen_def compute_max_prefix_len_def q'_def m'_def m_def cong: if_cong)
  ultimately show ?thesis using t by blast
qed

section \<open>The simulated tree\<close>

definition sim_ok :: "cache \<Rightarrow> bool" where
  "sim_ok s \<longleftrightarrow> (\<forall>i\<in>dom (rc_store s). i < rc_counter s) \<and> rc_page_size s = 1 \<and> \<not> rc_eagle s \<and> \<not> rc_disable s \<and> \<not> ev_enabled (rc_events s)"

text \<open>\<open>W\<close> are the sequences that were put into the tree.\<close>

definition knows :: "cache \<Rightarrow> tunit list list \<Rightarrow> bool" where
  "knows s W \<longleftrightarrow> sim_ok s \<and> (\<exists>L. cache_wf L [] s) \<and>
     (\<forall>u. (\<exists>v. cached 1 (rc_store s) (rc_root s) u v) \<longleftrightarrow> u = [] \<or> (\<exists>w\<in>set W. prefix u w))"

lemma reset_knows:
  assumes "sim_ok s"
  shows "knows (reset s) []"
proof -
  let ?s = "reset s" and ?r = "rc_counter s"
  have fresh: "rc_store s ?r = None" using assms unfolding sim_ok_def by blast
  have s: "rc_root ?s = ?r" "rc_counter ?s = ?r + 1" "rc_evictable ?s = 0" "rc_protected ?s = 0" "rc_leaves ?s = {}" "rc_disable ?s = rc_disable s"
    "rc_page_size ?s = rc_page_size s" "rc_eagle ?s = rc_eagle s" "rc_events ?s = record_all_cleared (rc_events s)"
    by (auto simp: reset_def new_tree_node_def set_node_def Let_def)
  have st: "dom (rc_store ?s) = insert ?r (dom (rc_store s))" "n_children (nd ?s ?r) = []" "n_parent (nd ?s ?r) = None" "n_value (nd ?s ?r) = Some []"
    "n_lock_ref (nd ?s ?r) = 1" "rk_len (n_key (nd ?s ?r)) = 0"
    by (auto simp: reset_def new_tree_node_def set_node_def Let_def TreeNode_def upd_apply dom_upd rk_len_def raw_len_def RadixKey_def)
  have ps: "rc_page_size ?s = 1" using assms s by (simp add: sim_ok_def)
  have noedge: "\<not> edge (rc_store ?s) ?r j" for j using st(2) by (simp add: edge_def)
  have "tree_ok 1 (rc_eagle ?s) (rc_store ?s) ?r {?r}"
    unfolding tree_ok_def using st by (auto simp: children_ok_def intro: exI [of _ "[]"])
  then have "cache_wf {?r} [] ?s"
    unfolding cache_wf_def using s st ps assms by (auto simp: locks_ok_def leaf_set_def unlocked_def locked_def tokens_def sim_ok_def less_Suc_eq)
  moreover have "sim_ok ?s" using assms s st ps by (auto simp: sim_ok_def record_all_cleared_def less_Suc_eq)
  moreover have "chain (edge (rc_store ?s)) ?r is \<Longrightarrow> is = []" for "is" using noedge by (cases "is") auto
  then have "cached 1 (rc_store ?s) (rc_root ?s) u v \<Longrightarrow> u = []" for u v unfolding cached_def s by fastforce
  ultimately show ?thesis unfolding knows_def using cached_Nil by fastforce
qed

definition best_overlap :: "tunit list list \<Rightarrow> tunit list \<Rightarrow> nat" where
  "best_overlap W w = Max (insert 0 ((\<lambda>v. lcp w v) ` set W))"

lemma best_overlap_eq:
  assumes n: "n \<le> length w" "take n w = [] \<or> (\<exists>v\<in>set W. prefix (take n w) v)"
    and max: "\<And>u. prefix u w \<Longrightarrow> (\<exists>v\<in>set W. prefix u v) \<Longrightarrow> length u \<le> n"
  shows "best_overlap W w = n"
proof (unfold best_overlap_def, rule Max_eqI)
  fix k assume "k \<in> insert 0 ((\<lambda>v. lcp w v) ` set W)"
  moreover have "lcp w v \<le> n" if "v \<in> set W" for v
  proof -
    have "prefix (take (lcp w v) w) v" using lcp_take_eq [OF order_refl, of w v] by (metis take_is_prefix)
    then show ?thesis using max [OF take_is_prefix, of "lcp w v"] that lcp_le1 [of w v] by auto
  qed
  ultimately show "k \<le> n" by auto
next
  show "n \<in> insert 0 ((\<lambda>v. lcp w v) ` set W)"
  proof (cases "n = 0")
    case False
    then obtain v where v: "v \<in> set W" "prefix (take n w) v" using n by auto
    have tv: "take n v = take n w" using v(2) n(1) by (auto elim!: prefixE)
    have lv: "n \<le> length v" using v(2) n(1) prefix_length_le by fastforce
    have "n \<le> lcp w v" by (rule lcp_geI) (use tv n(1) lv in simp_all)
    moreover have "lcp w v \<le> n"
    proof -
      have "prefix (take (lcp w v) w) v" using lcp_take_eq [OF order_refl, of w v] by (metis take_is_prefix)
      then show ?thesis using max [OF take_is_prefix, of "lcp w v"] v(1) lcp_le1 [of w v] by auto
    qed
    ultimately show ?thesis using v(1) by (metis (no_types) antisym image_eqI insertI2)
  qed simp
qed simp

lemma knows_match:
  assumes k: "knows s W" and m: "mode_ok s key"
  shows "\<exists>r s'. match_prefix key s = Inr (r, s') \<and> knows s' W \<and> query s' = query s \<and> length (mr_indices r) = best_overlap W (query s key)"
proof -
  obtain L where w: "cache_wf L [] s" and sim: "sim_ok s"
    and c: "\<And>u. (\<exists>v. cached 1 (rc_store s) (rc_root s) u v) \<longleftrightarrow> u = [] \<or> (\<exists>w\<in>set W. prefix u w)"
    using k unfolding knows_def by blast
  have ps: "rc_page_size s = 1" and en: "\<not> rc_disable s" using sim by (simp_all add: sim_ok_def)
  have rt: "rc_root s \<in> L" by (rule tree_okD(3) [OF wfD(1) [OF w]])
  obtain q s' L' where q: "match_prefix key s = Inr (q, s')" "cache_wf L' [] s'" "grows L s L' s'"
    "found (rc_page_size s) (rc_store s) (rc_store s') (rc_root s) (mr_node q) (query s key) (mr_indices q)"
    using match_prefix_correct [OF w m en] by blast
  have "sim_ok s'" using sim q(2) growsD(2,9) [OF q(3)] by (simp add: sim_ok_def same_frame_def cache_wf_def)
  moreover have "cached 1 (rc_store s') (rc_root s') u v = cached 1 (rc_store s) (rc_root s) u v" for u v
    using growsD(6) [OF q(3) rt] growsD(4) [OF q(3)] ps by simp
  ultimately have k': "knows s' W" unfolding knows_def using q(2) c by blast
  have f: "cached 1 (rc_store s) (rc_root s) (take (length (mr_indices q)) (query s key)) (mr_indices q)"
    using found_cached [OF q(2,3) rt q(4)] ps by simp
  have "best_overlap W (query s key) = length (mr_indices q)"
  proof (rule best_overlap_eq)
    show "length (mr_indices q) \<le> length (query s key)" using q(4) by (simp add: found_def)
    show "take (length (mr_indices q)) (query s key) = [] \<or> (\<exists>v\<in>set W. prefix (take (length (mr_indices q)) (query s key)) v)" using c f by blast
    show "length u \<le> length (mr_indices q)" if "prefix u (query s key)" "\<exists>v\<in>set W. prefix u v" for u
      using q(4) c that ps unfolding found_def by metis
  qed
  then show ?thesis using q(1) k' query_frame [OF growsD(2) [OF q(3)]] by auto
qed

lemma knows_insert:
  assumes k: "knows s W" and m: "mode_ok s key" and l: "length (query s key) \<le> length vals"
  shows "\<exists>r s'. insert_key key (Some vals) prio chunked s = Inr (r, s') \<and> knows s' (query s key # W) \<and> query s' = query s"
proof -
  obtain L where w: "cache_wf L [] s" and sim: "sim_ok s"
    and c: "\<And>u. (\<exists>v. cached 1 (rc_store s) (rc_root s) u v) \<longleftrightarrow> u = [] \<or> (\<exists>w\<in>set W. prefix u w)"
    using k unfolding knows_def by blast
  have ps: "rc_page_size s = 1" and en: "\<not> rc_disable s" and ev: "\<not> ev_enabled (rc_events s)" using sim by (simp_all add: sim_ok_def)
  obtain n j s' where i: "insert_key key (Some vals) prio chunked s = Inr ((n, j), s')" "rc_events s' = rc_events s"
    using insert_key_correct(2) [OF w m en l ev] by blast
  obtain i where ins: "inserted L [] s (query s key) (take (length (query s key)) vals) n i s'"
    using insert_key_correct(1) [OF w m en l i(1)] by blast
  then obtain L' where w': "cache_wf L' [] s'" and fr: "same_frame s s'" unfolding inserted_def by blast
  have sim': "sim_ok s'" using sim w' fr i(2) by (simp add: sim_ok_def same_frame_def cache_wf_def)
  obtain v where v: "\<And>u u'. cached (rc_page_size s) (rc_store s') (rc_root s) u u' \<longleftrightarrow> cached (rc_page_size s) (rc_store s) (rc_root s) u u' \<or>
      (rc_page_size s dvd length u \<and> prefix u (query s key) \<and> u' = take (length u) v)"
    using ins unfolding inserted_def by blast
  have "(\<exists>v. cached 1 (rc_store s') (rc_root s') u v) \<longleftrightarrow> u = [] \<or> (\<exists>w\<in>set (query s key # W). prefix u w)" for u
    using v [of u] c [of u] fr ps by (auto simp: same_frame_def)
  then have "knows s' (query s key # W)" unfolding knows_def using sim' w' by blast
  then show ?thesis using i(1) query_frame [OF fr] by auto
qed

section \<open>Matching the queue\<close>

text \<open>
  Which requests are held back: one with a short cached prefix that overlaps at least the threshold with an earlier request of the
  queue that is not held back itself and has a short cached prefix too. An entry is the id, the length of the
  cached prefix and the tokens.
\<close>

fun held_back :: "sched_env \<Rightarrow> (string \<times> nat \<times> tunit list) list \<Rightarrow> tunit list list \<Rightarrow> string set \<Rightarrow> string set" where
  "held_back env [] W D = D"
| "held_back env ((rid, hit, w) # q) W D =
     (if int hit \<le> se_check_threshold env
      then if int (best_overlap W w) \<ge> se_deprioritize_threshold env then held_back env q W (insert rid D) else held_back env q (w # W) D
      else held_back env q W D)"

definition entry :: "cache \<Rightarrow> (tunit, int) contents \<Rightarrow> 'a sched_req_scheme \<Rightarrow> string \<times> nat \<times> tunit list" where
  "entry s M r = (r_rid r, spec_match M (query s (wait_key r)), tk (wait_key r))"

lemma sim_query: "sim_ok s \<Longrightarrow> query s (wait_key r) = tk (wait_key r)"
  by (simp add: query_def sim_ok_def page_floor_def)

lemma wait_key_len: "length (tk (wait_key r)) = length (r_origin_input_ids r @ r_output_ids r)"
  by (simp add: wait_key_def rk_len_def raw_len_def RadixKey_def)

text \<open>The part of the loop that concerns the simulated tree.\<close>

lemma in_batch_step:
  assumes k: "knows sim W"
  shows "\<exists>D' sim' W'. (if int hit \<le> se_check_threshold env
      then rbind (match_prefix (wait_key r) sim) (\<lambda>(m, sim).
        let m = (if se_force_miss env then zero_match_result sim m else m)
        in if int (length (mr_indices m)) \<ge> se_deprioritize_threshold env then Inr (insert (r_rid r) D, sim)
           else rbind (insert_key (wait_key r) (Some (replicate (length (r_origin_input_ids r @ r_output_ids r)) 0)) None False sim) (\<lambda>(_, sim). Inr (D, sim)))
      else Inr (D, sim)) = Inr (D', sim') \<and> knows sim' W' \<and>
    (\<not> se_force_miss env \<longrightarrow> held_back env ((r_rid r, hit, tk (wait_key r)) # q) W D = held_back env q W' D')"
proof (cases "int hit \<le> se_check_threshold env")
  case False
  then show ?thesis using k by (intro exI [of _ D] exI [of _ sim] exI [of _ W]) simp
next
  case True
  have q: "query sim (wait_key r) = tk (wait_key r)" using k by (intro sim_query) (simp add: knows_def)
  obtain m s1 where m: "match_prefix (wait_key r) sim = Inr (m, s1)" "knows s1 W" "query s1 = query sim"
    "length (mr_indices m) = best_overlap W (tk (wait_key r))"
    using knows_match [OF k wait_key_mode [of sim r]] q by auto
  let ?v = "replicate (length (r_origin_input_ids r @ r_output_ids r)) (0 :: int)"
  obtain x s2 where i: "insert_key (wait_key r) (Some ?v) None False s1 = Inr (x, s2)" "knows s2 (tk (wait_key r) # W)"
    using knows_insert [OF m(2) wait_key_mode [of s1 r], of ?v None False] m(3) q wait_key_len [of r] by (auto simp del: length_append)
  let ?m = "if se_force_miss env then zero_match_result s1 m else m"
  show ?thesis
  proof (cases "int (length (mr_indices ?m)) \<ge> se_deprioritize_threshold env")
    case d: True
    show ?thesis using True d m(1,2,4) by (intro exI [of _ "insert (r_rid r) D"] exI [of _ s1] exI [of _ W]) (cases "se_force_miss env"; simp add: Let_def)
  next
    case d: False
    show ?thesis using True d m(1,4) i by (intro exI [of _ D] exI [of _ s2] exI [of _ "tk (wait_key r) # W"]) (cases "se_force_miss env"; simp add: Let_def)
  qed
qed

lemma prefix_matches_loop_correct:
  "cache_run H s \<Longrightarrow> knows sim W \<Longrightarrow>
    \<exists>D' q' sim' s'. prefix_matches_loop env q D sim s = Inr (D', q', sim', s') \<and> touched H s s' \<and> sim_ok sim' \<and>
      map forget_match q' = map forget_match q \<and> (\<forall>r\<in>set q'. r_last_node r \<in> Some ` live s') \<and>
      (\<not> se_force_miss env \<longrightarrow> (\<forall>r\<in>set q'. matched s (radix_contents s) r) \<and> D' = held_back env (map (entry s (radix_contents s)) q) W D)"
proof (induction q arbitrary: D sim s W)
  case Nil
  then show ?case by (simp add: touched_refl knows_def)
next
  case (Cons r q)
  obtain m r1 s1 where m: "match_prefix_for_req (se_force_miss env) r (Some (r_origin_input_ids r @ r_output_ids r)) s = Inr (m, r1, s1)"
    "touched H s s1" "forget_match r1 = forget_match r" "r_last_node r1 \<in> Some ` live s1" "\<not> se_force_miss env \<longrightarrow> matched s (radix_contents s) r1"
    using match_one [OF Cons.prems(1), of "Some (r_origin_input_ids r @ r_output_ids r)" r "se_force_miss env"] by blast
  note f = forget_match_fields [OF m(3)]
  obtain D1 sim1 W1 where st: "(if int (length (r_prefix_indices r1)) \<le> se_check_threshold env
      then rbind (match_prefix (wait_key r) sim) (\<lambda>(m, sim).
        let m = (if se_force_miss env then zero_match_result sim m else m)
        in if int (length (mr_indices m)) \<ge> se_deprioritize_threshold env then Inr (insert (r_rid r) D, sim)
           else rbind (insert_key (wait_key r) (Some (replicate (length (r_origin_input_ids r @ r_output_ids r)) 0)) None False sim) (\<lambda>(_, sim). Inr (D, sim)))
      else Inr (D, sim)) = Inr (D1, sim1)" "knows sim1 W1"
    "\<not> se_force_miss env \<longrightarrow> held_back env ((r_rid r, length (r_prefix_indices r1), tk (wait_key r)) # map (entry s (radix_contents s)) q) W D =
       held_back env (map (entry s (radix_contents s)) q) W1 D1"
    using in_batch_step [OF Cons.prems(2), where hit = "length (r_prefix_indices r1)" and env = env and r = r and D = D and q = "map (entry s (radix_contents s)) q"]
    by blast
  have run1: "cache_run H s1" and eq: "radix_contents s1 = radix_contents s" "query s1 = query s" using m(2) by (auto simp: touched_def)
  have e: "entry s1 (radix_contents s1) = entry s (radix_contents s)" "matched s1 (radix_contents s1) = matched s (radix_contents s)"
    by (simp_all add: fun_eq_iff entry_def matched_def eq)
  obtain D2 q2 sim2 s2 where ih: "prefix_matches_loop env q D1 sim1 s1 = Inr (D2, q2, sim2, s2)" "touched H s1 s2" "sim_ok sim2"
    "map forget_match q2 = map forget_match q" "\<forall>r\<in>set q2. r_last_node r \<in> Some ` live s2"
    "\<not> se_force_miss env \<longrightarrow> (\<forall>r\<in>set q2. matched s (radix_contents s) r) \<and> D2 = held_back env (map (entry s (radix_contents s)) q) W1 D1"
    using Cons.IH [OF run1 st(2), of D1] unfolding e by blast
  have hit: "length (r_prefix_indices r1) = spec_match (radix_contents s) (query s (wait_key r))" if "\<not> se_force_miss env"
    using m(5) that f(2) spec_matchD(3) [OF radix_contents_ok [OF run_invariant [OF Cons.prems(1)]]] by (simp add: matched_def)
  have "prefix_matches_loop env (r # q) D sim s = Inr (D2, r1 # q2, sim2, s2)"
    unfolding prefix_matches_loop.simps Let_def wait_key_def [symmetric]
    by (simp only: m(1) rbind_Inr prod.case f(1) st(1) [unfolded Let_def] ih(1))
  moreover have "touched H s s2" by (rule touched_trans [OF m(2) ih(2)])
  moreover have "r_last_node r1 \<in> Some ` live s2" using m(4) ih(2) by (auto simp: touched_def)
  moreover have "D2 = held_back env (map (entry s (radix_contents s)) (r # q)) W D" if "\<not> se_force_miss env"
    using st(3) ih(6) hit [OF that] that by (simp only: list.map entry_def simp_thms)
  ultimately show ?case using ih(3-6) m(3,5)
    by (intro exI [of _ D2] exI [of _ "r1 # q2"] exI [of _ sim2] exI [of _ s2]) (simp del: prefix_matches_loop.simps held_back.simps)
qed

lemma compute_prefix_matches_correct:
  assumes r: "cache_run H s" and sim: "sim_ok (sp_waiting_queue_radix_tree sp)"
  obtains D q' sp' s' where "compute_prefix_matches env q sp s = Inr (D, q', sp', s')" "touched H s s'" "sim_ok (sp_waiting_queue_radix_tree sp')"
    "map forget_match q' = map forget_match q" "set (map r_last_node q') \<subseteq> Some ` live s'" "sp_priority_sign sp' = sp_priority_sign sp"
    "\<not> se_force_miss env \<longrightarrow> (\<forall>r\<in>set q'. matched s (radix_contents s) r) \<and> D = held_back env (map (entry s (radix_contents s)) q) [] {}"
proof -
  obtain D q' sim s' where "prefix_matches_loop env q {} (reset (sp_waiting_queue_radix_tree sp)) s = Inr (D, q', sim, s')" "touched H s s'" "sim_ok sim"
    "map forget_match q' = map forget_match q" "\<forall>r\<in>set q'. r_last_node r \<in> Some ` live s'"
    "\<not> se_force_miss env \<longrightarrow> (\<forall>r\<in>set q'. matched s (radix_contents s) r) \<and> D = held_back env (map (entry s (radix_contents s)) q) [] {}"
    using prefix_matches_loop_correct [OF r reset_knows [OF sim], of env q "{}"] by blast
  then show ?thesis by (intro that [of D q' "sp\<lparr>sp_waiting_queue_radix_tree := sim\<rparr>" s']) (auto simp: compute_prefix_matches_def)
qed

section \<open>Sorting\<close>

lemma rmap_total: "(\<And>x. x \<in> set xs \<Longrightarrow> \<exists>k. f x = Inr (k, x)) \<Longrightarrow> \<exists>kxs. rmap f xs = Inr kxs \<and> map snd kxs = xs"
proof (induction xs)
  case (Cons x xs)
  obtain k where "f x = Inr (k, x)" using Cons.prems by auto
  moreover obtain kxs where "rmap f xs = Inr kxs" "map snd kxs = xs" using Cons by auto
  ultimately show ?case by simp
qed simp

lemma py_sort_permutes:
  assumes "\<And>x. x \<in> set xs \<Longrightarrow> \<exists>k. key x = Inr k"
  shows "\<exists>ys. py_sort key xs = Inr ys \<and> mset ys = mset xs"
proof -
  obtain kxs where k: "rmap (\<lambda>x. rbind (key x) (\<lambda>k. Inr (k, x))) xs = Inr kxs" "map snd kxs = xs"
    using rmap_total [of xs "\<lambda>x. rbind (key x) (\<lambda>k. Inr (k, x))"] assms by fastforce
  have "mset (map snd (sort_key fst kxs)) = mset (map snd kxs)" by simp
  then show ?thesis using k by (simp add: py_sort_def)
qed

lemma hrrn_key_total: "\<exists>k. hrrn_key D pt r = Inr k"
  by (auto simp: hrrn_key_def truediv_def Let_def)

lemma signed_priority_total: "r_priority r \<noteq> None \<Longrightarrow> \<exists>p. signed_priority sign r = Inr p"
  by (auto simp: signed_priority_def)

lemma sort_priority_permutes:
  assumes "\<And>r. r \<in> set q \<Longrightarrow> r_priority r \<noteq> None"
  shows "\<exists>q'. py_sort (\<lambda>r. rbind (signed_priority sign r) (\<lambda>p. Inr (p, f r))) q = Inr q' \<and> mset q' = mset q"
proof (rule py_sort_permutes)
  fix x assume "x \<in> set q"
  then obtain p where "signed_priority sign x = Inr p" using signed_priority_total assms by blast
  then show "\<exists>k. rbind (signed_priority sign x) (\<lambda>p. Inr (p, f x)) = Inr k" by simp
qed

lemma sorts_permute:
  "mset (sort_by_longest_prefix q D) = mset q" "mset (sort_by_shortest_prefill q D) = mset q" "mset (sort_by_routing_key q running) = mset q"
  by (simp_all add: sort_by_longest_prefix_def sort_by_shortest_prefill_def sort_by_routing_key_def Let_def)

lemma sort_by_dfs_weight_permutes:
  assumes "cache_run H s" "set (map r_last_node q) \<subseteq> Some ` live s"
  shows "\<exists>q'. sort_by_dfs_weight q s = Inr q' \<and> mset q' = mset q"
proof -
  obtain order where "dfs_weight_order (map r_last_node q) s = Inr order" "mset order = mset [0..<length q]"
    using dfs_weight_order_permutes [OF run_okD(1) [OF run_invariant [OF assms(1)]] assms(2)] by auto
  then show ?thesis using permuted_queue [of order q] by (simp add: sort_by_dfs_weight_def)
qed

lemma sort_by_longest_output_permutes:
  assumes "prio \<longrightarrow> (\<forall>r\<in>set q. r_priority r \<noteq> None)"
  shows "\<exists>q'. sort_by_longest_output q prio sign = Inr q' \<and> mset q' = mset q"
  using assms sort_priority_permutes [of q] by (cases prio) (auto simp: sort_by_longest_output_def)

section \<open>Every policy permutes the queue\<close>

lemma aware_permutes:
  assumes r: "cache_run H s" and sim: "sim_ok (sp_waiting_queue_radix_tree sp)" and p: "sp_policy sp = Aware p" "determine_active_policy q sp = Aware p"
  shows "\<exists>q' sp' s'. calc_priority env shuffle q running pt sp s = Inr (q', sp', s') \<and> touched H s s' \<and>
    sim_ok (sp_waiting_queue_radix_tree sp') \<and> mset (map forget_match q') = mset (map forget_match q)"
proof -
  obtain D q1 sp1 s1 where c: "compute_prefix_matches env q sp s = Inr (D, q1, sp1, s1)" "touched H s s1" "sim_ok (sp_waiting_queue_radix_tree sp1)"
    "map forget_match q1 = map forget_match q" "set (map r_last_node q1) \<subseteq> Some ` live s1"
    by (rule compute_prefix_matches_correct [OF r sim])
  have run1: "cache_run H s1" using c(2) by (simp add: touched_def)
  have perm: "mset q2 = mset q1 \<Longrightarrow> mset (map forget_match q2) = mset (map forget_match q)" for q2
    using c(4) by (metis mset_map)
  have e: "calc_priority env shuffle q running pt sp s = (case p of
              LPM \<Rightarrow> Inr (sort_by_longest_prefix q1 D, sp1, s1)
            | DFS_WEIGHT \<Rightarrow> rbind (sort_by_dfs_weight q1 s1) (\<lambda>q. Inr (q, sp1, s1))
            | HRRN \<Rightarrow> rbind (sort_by_hrrn q1 D pt) (\<lambda>q. Inr (q, sp1, s1))
            | SHORTEST_PREFILL_FIRST \<Rightarrow>
                Inr (sort_by_shortest_prefill q1 D, sp1\<lparr>sp_shortest_prefill_calls := sp_shortest_prefill_calls sp1 + 1\<rparr>, s1))"
    using p c(1) by (simp add: calc_priority_def supports_fast_match_prefix_def)
  obtain qd where d: "sort_by_dfs_weight q1 s1 = Inr qd" "mset qd = mset q1" using sort_by_dfs_weight_permutes [OF run1 c(5)] by blast
  obtain qh where h: "sort_by_hrrn q1 D pt = Inr qh" "mset qh = mset q1"
    using py_sort_permutes [of q1 "hrrn_key D pt"] hrrn_key_total unfolding sort_by_hrrn_def by blast
  show ?thesis
  proof (cases p)
    case LPM then show ?thesis using e c(2,3) perm [OF sorts_permute(1)] by simp
  next
    case DFS_WEIGHT then show ?thesis using e c(2,3) d(1) perm [OF d(2)] by simp
  next
    case HRRN then show ?thesis using e c(2,3) h(1) perm [OF h(2)] by simp
  next
    case SHORTEST_PREFILL_FIRST then show ?thesis using e c(2,3) perm [OF sorts_permute(2)] by simp
  qed
qed

lemma agnostic_permutes:
  assumes p: "determine_active_policy q sp = Agnostic p"
    and prio: "sp_enable_priority_scheduling sp \<longrightarrow> (\<forall>r\<in>set q. r_priority r \<noteq> None)" and sh: "mset (shuffle q) = mset q"
  shows "\<exists>q'. calc_priority env shuffle q running pt sp s = Inr (q', sp, s) \<and> mset q' = mset q"
proof (cases "sp_policy sp = Agnostic FCFS")
  case True
  then show ?thesis
    using p prio sort_priority_permutes [of q "sp_priority_sign sp" r_wait_queue_entry_time]
    by (cases "sp_enable_priority_scheduling sp")
       (auto simp: calc_priority_def supports_fast_match_prefix_def sort_by_priority_and_fcfs_def)
next
  case False
  have e: "calc_priority env shuffle q running pt sp s = (case p of
             FCFS \<Rightarrow> Inr (q, sp, s)
           | LOF \<Rightarrow> rbind (sort_by_longest_output q (sp_enable_priority_scheduling sp) (sp_priority_sign sp)) (\<lambda>q. Inr (q, sp, s))
           | RANDOM \<Rightarrow> Inr (shuffle q, sp, s)
           | ROUTING_KEY \<Rightarrow> Inr (case running of Some running \<Rightarrow> sort_by_routing_key q running | None \<Rightarrow> q, sp, s))"
    using p False by (simp add: calc_priority_def supports_fast_match_prefix_def)
  show ?thesis
    using sort_by_longest_output_permutes [OF prio, of "sp_priority_sign sp"] sh sorts_permute(3) unfolding e
    by (cases p) (auto split: option.split)
qed

section \<open>An example queue\<close>

definition wait_req :: "string \<Rightarrow> int list \<Rightarrow> sched_req" where
  "wait_req rid ids = \<lparr>r_origin_input_ids = ids, r_output_ids = [], r_full_untruncated_fill_ids = ids, r_fill_aliases_origin = True,
     r_extend_range = None, r_extra_key = None, r_cache_salt = None, r_priority = Some 0, r_return_logprob = False, r_logprob_start_len = -1,
     r_prefix_indices = [], r_last_node = None, r_host_hit_length = 0, r_storage_hit_length = 0, r_storage_hit_start = None,
     r_skip_radix_cache_insert = False, r_reasoning = new_reasoning, r_kv = ReqKvInfo, r_rid = rid, r_num_matched_prefix_tokens = 0,
     r_last_host_node = None, r_best_match_node = None, r_swa_host_hit_length = 0, r_mamba_host_hit_length = 0, r_swa_branching_seqlen = None,
     r_wait_queue_entry_time = 0, r_arrival_processed_tokens = 0, r_max_new_tokens = 16, r_routing_key = None\<rparr>"

definition ex_env :: sched_env where
  "ex_env = \<lparr>se_force_miss = False, se_check_threshold = 32, se_deprioritize_threshold = 32, se_decode = False\<rparr>"

definition ex_queue :: "sched_req list" where
  "ex_queue = [wait_req ''a'' [1, 2, 3], wait_req ''b'' [11, 12, 13, 14, 15]]"

lemma create_simulated_ok: "\<exists>sim. create_simulated h clk alc = Inr sim \<and> sim_ok sim"
  by (simp add: create_simulated_def RadixCache_def get_eviction_strategy_def kwargs_ok_def Let_def reset_def new_tree_node_def
      set_node_def upd_def record_all_cleared_def KVCacheEventRecorder_def sim_ok_def dom_def)

lemma ex_policy: obtains sp where "SchedulePolicy ''lpm'' ex_cache1 False False False ex_hasher int ex_pool = Inr sp"
  "sim_ok (sp_waiting_queue_radix_tree sp)" "sp_policy sp = Aware LPM" "\<not> sp_enable_priority_scheduling sp"
proof -
  obtain sim where "create_simulated ex_hasher int ex_pool = Inr sim" "sim_ok sim" using create_simulated_ok by blast
  moreover have "\<not> rc_disable ex_cache1" by (simp add: ex_cache1_def ex_cache0_def)
  ultimately show ?thesis
    using that by (simp add: SchedulePolicy_def validate_and_adjust_policy_def CacheAwarePolicy_def Let_def)
qed

section \<open>Properties\<close>

text \<open>
  Property C28: whatever the policy, \<open>calc_priority\<close> returns and only permutes the waiting queue: no request is lost, none appears twice, and
  apart from the fields that record a prefix match no request is changed. The tree keeps its nodes, its cached sequences and its locks.
\<close>

theorem calc_priority_permutes_queue:
  assumes "cache_run H s" and "sim_ok (sp_waiting_queue_radix_tree sp)"
    and "sp_enable_priority_scheduling sp \<longrightarrow> (\<forall>r\<in>set q. r_priority r \<noteq> None)" and "mset (shuffle q) = mset q"
  shows "\<exists>q' sp' s'. calc_priority env shuffle q running_batch processed_tokens sp s = Inr (q', sp', s') \<and>
     mset (map forget_match q') = mset (map forget_match q) \<and> touched H s s' \<and> sim_ok (sp_waiting_queue_radix_tree sp')"
proof (cases "determine_active_policy q sp")
  case (Aware p)
  then have "sp_policy sp = Aware p" by (auto simp: determine_active_policy_def split: if_splits)
  from aware_permutes [OF assms(1,2) this Aware] show ?thesis by blast
next
  case (Agnostic p)
  from agnostic_permutes [where shuffle = shuffle, OF this assms(3,4)] show ?thesis using assms(2) touched_refl [OF assms(1)] by (metis mset_map)
qed

theorem calc_priority_permutes_queue_witness:
  "\<exists>sp q' sp' s'. SchedulePolicy ''lpm'' ex_cache1 False False False ex_hasher int ex_pool = Inr sp \<and>
     calc_priority ex_env rev ex_queue None 0 sp ex_cache1 = Inr (q', sp', s') \<and> mset (map forget_match q') = mset (map forget_match ex_queue)"
proof -
  obtain sp where sp: "SchedulePolicy ''lpm'' ex_cache1 False False False ex_hasher int ex_pool = Inr sp"
    "sim_ok (sp_waiting_queue_radix_tree sp)" "\<not> sp_enable_priority_scheduling sp"
    by (rule ex_policy)
  then show ?thesis using calc_priority_permutes_queue [OF ex_run1(1) sp(2), of ex_queue rev ex_env None 0] by auto
qed

text \<open>
  Property C29: longest-prefix-match serves the queue in the order it promises. Each request carries the slots and the length of its longest
  cached prefix; the requests held back are exactly those that share at least the threshold with an earlier request that is
  served first (\<open>held_back\<close>); they come last, the others by decreasing length of the cached prefix, and requests of equal length
  in the order of the queue.
\<close>

theorem lpm_serves_longest_prefix_first:
  fixes q :: "'a sched_req_scheme list"
  assumes r: "cache_run H s" and sim: "sim_ok (sp_waiting_queue_radix_tree sp)" and p: "sp_policy sp = Aware LPM" "length q \<le> 128" "\<not> se_force_miss env"
  defines "D \<equiv> held_back env (map (entry s (radix_contents s)) q) [] {}"
  shows "\<exists>qm q' sp' s'. calc_priority env shuffle q running_batch processed_tokens sp s = Inr (q', sp', s') \<and>
     map forget_match qm = map forget_match q \<and> (\<forall>r\<in>set qm. matched s (radix_contents s) r) \<and> mset q' = mset qm \<and>
     sorted_wrt (\<lambda>a b. r_rid b \<in> D \<or> r_rid a \<notin> D \<and> r_num_matched_prefix_tokens b \<le> r_num_matched_prefix_tokens a) q' \<and>
     (\<forall>n. filter (\<lambda>r. r_rid r \<notin> D \<and> r_num_matched_prefix_tokens r = n) q' = filter (\<lambda>r. r_rid r \<notin> D \<and> r_num_matched_prefix_tokens r = n) qm)"
proof -
  obtain D' qm sp1 s1 where c: "compute_prefix_matches env q sp s = Inr (D', qm, sp1, s1)" "touched H s s1" "sim_ok (sp_waiting_queue_radix_tree sp1)"
    "map forget_match qm = map forget_match q" "set (map r_last_node qm) \<subseteq> Some ` live s1" "sp_priority_sign sp1 = sp_priority_sign sp"
    "\<not> se_force_miss env \<longrightarrow> (\<forall>r\<in>set qm. matched s (radix_contents s) r) \<and> D' = held_back env (map (entry s (radix_contents s)) q) [] {}"
    by (rule compute_prefix_matches_correct [OF r sim])
  then have D': "D' = D" and m: "\<forall>r\<in>set qm. matched s (radix_contents s) r" using p(3) D_def by auto
  let ?q = "sort_by_longest_prefix qm D"
  let ?key = "\<lambda>r :: 'a sched_req_scheme. if r_rid r \<notin> D then Fin (- of_nat (r_num_matched_prefix_tokens r)) else PosInf"
  have q: "?q = sort_key ?key qm" by (simp add: sort_by_longest_prefix_def)
  have "determine_active_policy q sp = Aware LPM" using p by (simp add: determine_active_policy_def)
  then have e: "calc_priority env shuffle q running_batch processed_tokens sp s = Inr (?q, sp1, s1)"
    using p(1) c(1) D' by (simp add: calc_priority_def is_aware_def)
  have "sorted_wrt (\<lambda>a b. ?key a \<le> ?key b) ?q" using sorted_sort_key [of ?key qm] unfolding q by (simp only: sorted_map)
  then have "sorted_wrt (\<lambda>a b. r_rid b \<in> D \<or> r_rid a \<notin> D \<and> r_num_matched_prefix_tokens b \<le> r_num_matched_prefix_tokens a) ?q"
    by (rule sorted_wrt_mono_rel [rotated]) (auto split: if_splits)
  moreover have "filter (\<lambda>r. r_rid r \<notin> D \<and> r_num_matched_prefix_tokens r = n) ?q = filter (\<lambda>r. r_rid r \<notin> D \<and> r_num_matched_prefix_tokens r = n) qm" for n
  proof -
    have "(\<lambda>r. r_rid r \<notin> D \<and> r_num_matched_prefix_tokens r = n) = (\<lambda>r. ?key r = Fin (- of_nat n))" by (auto simp: fun_eq_iff)
    then show ?thesis unfolding q by (simp only: sort_key_stable)
  qed
  ultimately show ?thesis using e c(4) m sorts_permute(1) [of qm D] by blast
qed

theorem lpm_serves_longest_prefix_first_witness:
  "\<exists>sp q' sp' s'. SchedulePolicy ''lpm'' ex_cache1 False False False ex_hasher int ex_pool = Inr sp \<and>
     calc_priority ex_env rev ex_queue None 0 sp ex_cache1 = Inr (q', sp', s') \<and> length q' = 2"
proof -
  obtain sp where sp: "SchedulePolicy ''lpm'' ex_cache1 False False False ex_hasher int ex_pool = Inr sp"
    "sim_ok (sp_waiting_queue_radix_tree sp)" "sp_policy sp = Aware LPM"
    by (rule ex_policy)
  have l: "length ex_queue \<le> 128" "length ex_queue = 2" and f: "\<not> se_force_miss ex_env" by (simp_all add: ex_queue_def ex_env_def)
  obtain qm q' sp' s' where x: "calc_priority ex_env rev ex_queue None 0 sp ex_cache1 = Inr (q', sp', s')"
    "map forget_match qm = map forget_match ex_queue" "mset q' = mset qm"
    using lpm_serves_longest_prefix_first [OF ex_run1(1) sp(2,3) l(1) f, of rev None 0] by (elim exE conjE) (rule that)
  have "length q' = 2" using mset_eq_length [OF x(3)] map_eq_imp_length_eq [OF x(2)] l(2) by simp
  with sp(1) x(1) show ?thesis by blast
qed

section \<open>Chunks that leave room\<close>

definition page_charge :: "int \<Rightarrow> 'a sched_req_scheme \<Rightarrow> int" where
  "page_charge ps r = neg_ceil_div (shortest_prefill_work r) ps * ps"

lemma page_charge_pos: "0 < ps \<Longrightarrow> shortest_prefill_work r \<le> page_charge ps r" "0 < ps \<Longrightarrow> 0 < page_charge ps r"
proof -
  have "0 < ps \<Longrightarrow> shortest_prefill_work r \<le> page_charge ps r"
    using ceil_align_ge [of ps "shortest_prefill_work r"] by (simp add: page_charge_def neg_ceil_div_eq ceil_align_def)
  then show "0 < ps \<Longrightarrow> shortest_prefill_work r \<le> page_charge ps r" "0 < ps \<Longrightarrow> 0 < page_charge ps r"
    by (auto simp: shortest_prefill_work_def)
qed

lemma reserve_short_prefix:
  assumes ps: "0 < ps"
  shows "res \<le> budget - ps \<Longrightarrow> \<exists>q1 q2. q = q1 @ q2 \<and> reserve_short_loop remaining budget ps q res = res + sum_list (map (page_charge ps) q1) \<and>
     (\<forall>r\<in>set q1. shortest_prefill_work r < remaining) \<and> res + sum_list (map (page_charge ps) q1) \<le> budget - ps"
proof (induction q arbitrary: res)
  case (Cons r q)
  show ?case
  proof (cases "shortest_prefill_work r \<ge> remaining \<or> res + page_charge ps r > budget - ps")
    case True
    then have "reserve_short_loop remaining budget ps (r # q) res = res" by (auto simp: Let_def page_charge_def)
    then show ?thesis using Cons.prems by (metis (no_types) append_Nil empty_iff list.set(1) list.simps(8) sum_list.Nil add_0_right)
  next
    case False
    then obtain q1 q2 where i: "q = q1 @ q2" "reserve_short_loop remaining budget ps q (res + page_charge ps r) = res + page_charge ps r + sum_list (map (page_charge ps) q1)"
      "\<forall>r\<in>set q1. shortest_prefill_work r < remaining" "res + page_charge ps r + sum_list (map (page_charge ps) q1) \<le> budget - ps"
      using Cons.IH [of "res + page_charge ps r"] by auto
    have "r # q = (r # q1) @ q2 \<and> reserve_short_loop remaining budget ps (r # q) res = res + sum_list (map (page_charge ps) (r # q1)) \<and>
      (\<forall>x\<in>set (r # q1). shortest_prefill_work x < remaining) \<and> res + sum_list (map (page_charge ps) (r # q1)) \<le> budget - ps"
      using i False by (auto simp: Let_def page_charge_def add.assoc)
    then show ?thesis by (intro exI)
  qed
qed simp

text \<open>
  Property C30: when the shortest-prefill-first policy caps the chunk of an active prefill, the cap is a positive number of whole pages below the budget, and the rest
  of the budget holds the page-rounded work of at least the first waiting request, all of them shorter than what the active one
  still has to do.
\<close>

theorem chunk_limit_leaves_room:
  fixes q :: "'a sched_req_scheme list"
  assumes ps: "0 < ps" and l: "shortest_prefill_chunk_limit chunked_req q budget ps sp = Some cap"
  shows "ps dvd cap \<and> ps \<le> cap \<and> cap < budget \<and>
    (\<exists>q1 q2. q = q1 @ q2 \<and> q1 \<noteq> [] \<and> cap + sum_list (map (page_charge ps) q1) \<le> budget \<and>
      (\<forall>r\<in>set q1. shortest_prefill_work r < int (length (r_full_untruncated_fill_ids chunked_req)) - int (length (r_prefix_indices chunked_req))))"
proof -
  let ?rem = "int (length (r_full_untruncated_fill_ids chunked_req)) - int (length (r_prefix_indices chunked_req))"
  let ?res = "reserve_short_loop ?rem budget ps q 0"
  have b: "2 * ps \<le> budget" and res: "?res \<noteq> 0" and lm: "cap = (budget - ?res) div ps * ps"
    using l by (auto simp: shortest_prefill_chunk_limit_def Let_def split: if_splits)
  obtain q1 q2 where q: "q = q1 @ q2" "?res = sum_list (map (page_charge ps) q1)" "\<forall>r\<in>set q1. shortest_prefill_work r < ?rem"
    "sum_list (map (page_charge ps) q1) \<le> budget - ps"
    using reserve_short_prefix [OF ps, of 0 budget q ?rem] b ps by auto
  have q1: "q1 \<noteq> []" using q(2) res by auto
  have "0 \<le> page_charge ps r" for r :: "'a sched_req_scheme" using page_charge_pos(2) [OF ps, of r] by simp
  then have "0 \<le> ?res" unfolding q(2) by (intro sum_list_nonneg) auto
  then have pos: "0 < ?res" using res by simp
  have le: "cap \<le> budget - ?res" unfolding lm using ps by (simp add: minus_mod_eq_div_mult [symmetric])
  have "ps div ps \<le> (budget - ?res) div ps" by (rule zdiv_mono1) (use q(2,4) ps in simp_all)
  then have "1 \<le> (budget - ?res) div ps" using ps by simp
  then have "ps \<le> cap" unfolding lm using ps by (simp add: mult_le_cancel_right1)
  moreover have "ps dvd cap" by (simp add: lm)
  moreover have "cap < budget" using le pos by linarith
  ultimately show ?thesis using q(1,3) q1 le unfolding q(2) by auto
qed

definition ex_chunk_policy :: schedule_policy where
  "ex_chunk_policy = \<lparr>sp_policy = Aware SHORTEST_PREFILL_FIRST, sp_enable_hierarchical_cache = False, sp_enable_priority_scheduling = False,
     sp_schedule_low_priority_values_first = False, sp_priority_sign = -1, sp_shortest_prefill_calls = 0, sp_waiting_queue_radix_tree = ex_cache0\<rparr>"

theorem chunk_limit_leaves_room_witness:
  "shortest_prefill_chunk_limit (wait_req ''c'' [1, 2, 3, 4, 5, 6, 7, 8, 9]) ex_queue 8 2 ex_chunk_policy = Some 4 \<and> (4 :: int) < 8"
proof -
  have "shortest_prefill_chunk_limit (wait_req ''c'' [1, 2, 3, 4, 5, 6, 7, 8, 9]) ex_queue 8 2 ex_chunk_policy = Some 4"
    by (simp add: shortest_prefill_chunk_limit_def ex_chunk_policy_def ex_queue_def wait_req_def shortest_prefill_work_def neg_ceil_div_def)
  with chunk_limit_leaves_room [OF _ this] show ?thesis by simp
qed

end
