(* ===== verification/Adder_Theorems.thy ===== *)
theory Adder_Theorems
  imports Prefill_Adder Req_Theorems Schedule_Theorems
begin

text \<open>
  What admission guarantees for the radix cache: the batch it builds never promises more prefill slots than are free or
  evictable, the lock of an admitted request is held, and a request that is not admitted leaves everything as it was.
\<close>

section \<open>Tiles and charges\<close>

lemma truediv_total: "b \<noteq> 0 \<Longrightarrow> \<exists>q. truediv a b = Inr q"
  by (simp add: truediv_def Let_def)

lemma tile_check_total:
  assumes "0 < pa_tile_block_m a"
  shows "\<exists>v. check_prefill_tile_budget env n a = Inr v"
proof -
  have "\<exists>m. estimate_prefill_extend_tile_metrics lens (pa_tile_block_m a) = Inr m" for lens
  proof -
    let ?q = "map (\<lambda>l. if l > 0 then neg_ceil_div l (pa_tile_block_m a) else 0) (map (max 0) lens)"
    let ?legacy = "int (length ?q) * max_or_zero ?q"
    obtain x where "(if ?legacy \<noteq> 0 then rbind (truediv (?legacy - sum_list ?q) ?legacy) (\<lambda>x. Inr (Some x)) else Inr None) = Inr x"
      using truediv_total [of ?legacy "?legacy - sum_list ?q"] by (cases "?legacy = 0") auto
    then show ?thesis using assms unfolding estimate_prefill_extend_tile_metrics_def Let_def by (simp only:) simp
  qed
  then obtain m where "candidate_tile_metrics n a = Inr m" unfolding candidate_tile_metrics_def by blast
  then show ?thesis by (simp add: check_prefill_tile_budget_def Let_def)
qed

lemma ceil_paged_idem: "0 < p \<Longrightarrow> ceil_paged_tokens p (ceil_paged_tokens p n) = ceil_paged_tokens p n"
  by (simp add: ceil_paged_tokens_def neg_ceil_div_def)

lemma ceil_paged_mono: "0 < p \<Longrightarrow> m \<le> n \<Longrightarrow> ceil_paged_tokens p m \<le> ceil_paged_tokens p n"
  by (simp add: ceil_paged_tokens_def neg_ceil_div_def mult_right_mono zdiv_mono1)

definition extend_len_of :: "adm_req \<Rightarrow> int" where
  "extend_len_of r = (case r_extend_range r of None \<Rightarrow> 0 | Some (start, en) \<Rightarrow> int en - int start)"

text \<open>The slots the prefill of a batch will allocate, in whole pages.\<close>

definition batch_demand :: "nat \<Rightarrow> adm_req list \<Rightarrow> int" where
  "batch_demand ps rs = sum_list (map (\<lambda>r. ceil_paged_tokens (int ps) (extend_len_of r)) rs)"

text \<open>An adder over the token or the paged allocator whose budget accounts for its batch.\<close>

definition booked :: "nat \<Rightarrow> adder \<Rightarrow> bool" where
  "booked ps a \<longleftrightarrow> pa_page_size a = int ps \<and> pb_class (pa_memory_budget a) = PrefillBudget \<and> \<not> pa_is_hybrid_swa a \<and> pa_mamba_slot_cost a = 0 \<and>
     pa_dllm a = None \<and> 0 < pa_tile_block_m a \<and> of_int (batch_demand ps (pa_can_run_list a)) \<le> pb_total_offset (pa_memory_budget a)"

lemma radix_remaining:
  "pb_class b = PrefillBudget \<Longrightarrow> remaining_total (radix_pool_ops ps) b s = of_int (reachable_slots s) - pb_total_offset b"
  by (simp add: remaining_total_def available_and_evictable_def radix_pool_ops_def reachable_slots_def)

section \<open>Selecting\<close>

text \<open>The length of a chunk that does not finish the prompt.\<close>

definition chunk_len :: "nat \<Rightarrow> adm_req \<Rightarrow> int option \<Rightarrow> adder \<Rightarrow> int \<Rightarrow> int" where
  "chunk_len ps r align_size a l =
     (let align = (\<lambda>n. case align_size of None \<Rightarrow> n | Some s \<Rightarrow> n div s * s);
          prefix_len = int (length (r_prefix_indices r))
      in if pa_exact_chunk_fill a then align l
         else (prefix_len + align (l div int ps * int ps)) div int ps * int ps - prefix_len)"

lemma floor_le: "0 < k \<Longrightarrow> m div k * k \<le> m" for m k :: int
  by (simp add: minus_mod_eq_div_mult [symmetric])

lemma floor_below_ceil: "0 < k \<Longrightarrow> l < ceil_paged_tokens k n \<Longrightarrow> l div k * k \<le> n" for k :: int
proof -
  assume k: "0 < k" and l: "l < ceil_paged_tokens k n"
  have "l div k + 1 \<le> neg_ceil_div n k" using int_div_lessI [OF k, of l "neg_ceil_div n k"] l by (simp add: ceil_paged_tokens_def mult.commute)
  then have "(l div k + 1) * k \<le> neg_ceil_div n k * k" using k by (intro mult_right_mono) simp_all
  then show ?thesis using ceil_paged_bounds(2) [OF k, of n] by (simp add: ceil_paged_tokens_def distrib_right)
qed

lemma chunk_len_le:
  assumes ps: "0 < ps" and align: "\<And>n. align_size = Some n \<Longrightarrow> 0 < n"
  shows "chunk_len ps r align_size a l \<le> (if pa_exact_chunk_fill a then l else l div int ps * int ps)"
proof -
  let ?align = "\<lambda>n. case align_size of None \<Rightarrow> n | Some s \<Rightarrow> n div s * s"
  have al: "?align m \<le> m" for m using floor_le align by (cases align_size) auto
  let ?n = "?align (l div int ps * int ps)" and ?k = "int (length (r_prefix_indices r))"
  have "(?k + ?n) div int ps * int ps \<le> ?k + ?n" using ps by (intro floor_le) simp
  then have "(?k + ?n) div int ps * int ps - ?k \<le> l div int ps * int ps" using al [of "l div int ps * int ps"] by linarith
  then show ?thesis using al [of l] unfolding chunk_len_def Let_def by (cases "pa_exact_chunk_fill a") (simp_all only: if_True if_False)
qed

lemma tile_verdict:
  assumes "0 < pa_tile_block_m a"
  obtains x where "rbind (check_prefill_tile_budget env t a) (\<lambda>verdict. case verdict of Some v \<Rightarrow> Inr (Inl v) | None \<Rightarrow> Inr (Inr adm)) = Inr x"
    "\<forall>adm'. x = Inr adm' \<longrightarrow> adm' = adm"
proof -
  obtain v where "check_prefill_tile_budget env t a = Inr v" using tile_check_total [OF assms] by blast
  then show ?thesis using that by (cases v) auto
qed

definition whole_admission :: "adm_env \<Rightarrow> adm_req \<Rightarrow> prefill_admission" where
  "whole_admission env r = \<lparr>ad_prefix_len = int (length (r_prefix_indices r)), ad_extend_len = cand_extend_input_len r,
     ad_max_new_tokens = min (r_max_new_tokens r) (ae_clip_max_new_tokens env), ad_is_chunked = False\<rparr>"

definition chunk_admission :: "nat \<Rightarrow> adm_req \<Rightarrow> int option \<Rightarrow> adder \<Rightarrow> int \<Rightarrow> prefill_admission" where
  "chunk_admission ps r align_size a l = \<lparr>ad_prefix_len = int (length (r_prefix_indices r)), ad_extend_len = chunk_len ps r align_size a l,
     ad_max_new_tokens = 0, ad_is_chunked = True\<rparr>"

lemma select_plain_eq:
  assumes a: "pa_page_size a = int ps" "pb_class (pa_memory_budget a) = PrefillBudget" "pa_dllm a = None"
  shows "select_prefill_admission env (radix_pool_ops ps) r n 0 0 align_size has_chunked a s =
     (let inp = ceil_paged_tokens (int ps) (cand_extend_input_len r); fit = (if pa_exact_chunk_fill a then cand_extend_input_len r else inp) in
      if \<not> of_int n < of_int (reachable_slots s) - pb_total_offset (pa_memory_budget a) then Inr (Inl NO_TOKEN)
      else if pa_rem_chunk_tokens a = None \<and> pa_can_run_list a \<noteq> [] \<and> inp \<ge> pa_rem_input_tokens a then Inr (Inl OTHER)
      else case pa_rem_chunk_tokens a of
        Some l \<Rightarrow> if fit > l
          then if has_chunked \<and> ae_shortest_prefill_first env then Inr (Inl OTHER) else if chunk_len ps r align_size a l \<le> 0 then Inr (Inl OTHER)
               else rbind (check_prefill_tile_budget env (chunk_len ps r align_size a l) a)
                      (\<lambda>verdict. case verdict of Some v \<Rightarrow> Inr (Inl v) | None \<Rightarrow> Inr (Inr (chunk_admission ps r align_size a l)))
          else rbind (check_prefill_tile_budget env inp a) (\<lambda>verdict. case verdict of Some v \<Rightarrow> Inr (Inl v) | None \<Rightarrow> Inr (Inr (whole_admission env r)))
      | None \<Rightarrow> rbind (check_prefill_tile_budget env inp a) (\<lambda>verdict. case verdict of Some v \<Rightarrow> Inr (Inl v) | None \<Rightarrow> Inr (Inr (whole_admission env r))))"
proof -
  have chk: "check_prefill (radix_pool_ops ps) e n m i 0 l (pa_memory_budget a) s =
     (if of_int n < of_int (reachable_slots s) - pb_total_offset (pa_memory_budget a) then (True, l) else (False, None))" for e m i l
    using a(2) by (simp add: check_prefill_def radix_remaining)
  have cand: "int (length (r_full_untruncated_fill_ids r)) - int (length (r_prefix_indices r)) = cand_extend_input_len r"
    by (simp add: cand_extend_input_len_def)
  have pre: "int (length (r_prefix_indices r)) + 0 = int (length (r_prefix_indices r))" by simp
  show ?thesis
    unfolding select_prefill_admission_def Let_def chk pre cand a(1,3) option.case chunk_admission_def whole_admission_def chunk_len_def
    by (cases "of_int n < of_int (reachable_slots s) - pb_total_offset (pa_memory_budget a)")
       (simp_all only: if_True if_False prod.case simp_thms)
qed

text \<open>What an admission selected for \<open>r\<close> satisfies when \<open>n\<close> tokens were checked.\<close>

definition sound_admission :: "nat \<Rightarrow> adm_req \<Rightarrow> int \<Rightarrow> adder \<Rightarrow> cache \<Rightarrow> prefill_admission \<Rightarrow> bool" where
  "sound_admission ps r n a s adm \<longleftrightarrow> of_int n < of_int (reachable_slots s) - pb_total_offset (pa_memory_budget a) \<and>
     ad_prefix_len adm = int (length (r_prefix_indices r)) \<and> 0 \<le> ad_extend_len adm \<and> ad_extend_len adm \<le> cand_extend_input_len r \<and>
     (ad_extend_len adm = 0 \<longrightarrow> cand_extend_input_len r = 0) \<and> 0 \<le> ad_max_new_tokens adm"

lemma select_plain:
  assumes ps: "0 < ps" and a: "booked ps a" and align: "\<And>n. align_size = Some n \<Longrightarrow> 0 < n"
    and c: "0 \<le> cand_extend_input_len r" "0 \<le> r_max_new_tokens r" "0 \<le> ae_clip_max_new_tokens env"
  shows "\<exists>x. select_prefill_admission env (radix_pool_ops ps) r n 0 0 align_size has_chunked a s = Inr x \<and>
    (\<forall>adm. x = Inr adm \<longrightarrow> sound_admission ps r n a s adm)"
proof (cases "of_int n < of_int (reachable_slots s) - pb_total_offset (pa_memory_budget a)")
  case fits: True
  have p: "0 < int ps" using ps by simp
  have b: "pa_page_size a = int ps" "pb_class (pa_memory_budget a) = PrefillBudget" "pa_dllm a = None" "0 < pa_tile_block_m a"
    using a by (simp_all add: booked_def)
  note eq = select_plain_eq [OF b(1-3)]
  have whole: "sound_admission ps r n a s (whole_admission env r)"
    using fits c by (simp add: sound_admission_def whole_admission_def)
  have chunk: "sound_admission ps r n a s (chunk_admission ps r align_size a l)"
    if "0 < chunk_len ps r align_size a l" "l < (if pa_exact_chunk_fill a then cand_extend_input_len r else ceil_paged_tokens (int ps) (cand_extend_input_len r))" for l
  proof -
    have "chunk_len ps r align_size a l \<le> cand_extend_input_len r"
      using chunk_len_le [OF ps align, of align_size r a l] floor_below_ceil [OF p, of l "cand_extend_input_len r"] that(2) by (auto split: if_splits)
    then show ?thesis using fits that(1) by (simp add: sound_admission_def chunk_admission_def)
  qed
  obtain x where x: "rbind (check_prefill_tile_budget env (ceil_paged_tokens (int ps) (cand_extend_input_len r)) a)
      (\<lambda>verdict. case verdict of Some v \<Rightarrow> Inr (Inl v) | None \<Rightarrow> Inr (Inr (whole_admission env r))) = Inr x" "\<forall>adm. x = Inr adm \<longrightarrow> adm = whole_admission env r"
    by (rule tile_verdict [OF b(4)])
  show ?thesis
  proof (cases "pa_rem_chunk_tokens a")
    case None
    then show ?thesis using x whole fits unfolding eq Let_def by auto
  next
    case (Some l)
    obtain y where y: "rbind (check_prefill_tile_budget env (chunk_len ps r align_size a l) a)
        (\<lambda>verdict. case verdict of Some v \<Rightarrow> Inr (Inl v) | None \<Rightarrow> Inr (Inr (chunk_admission ps r align_size a l))) = Inr y"
      "\<forall>adm. y = Inr adm \<longrightarrow> adm = chunk_admission ps r align_size a l"
      by (rule tile_verdict [OF b(4)])
    show ?thesis using Some x y whole chunk [of l] fits unfolding eq Let_def by auto
  qed
next
  case False
  have "select_prefill_admission env (radix_pool_ops ps) r n 0 0 align_size has_chunked a s = Inr (Inl NO_TOKEN)"
    using False a select_plain_eq [of a ps env r n align_size has_chunked s] by (simp add: booked_def Let_def)
  then show ?thesis by simp
qed

section \<open>Committing\<close>

lemma reserve_plain:
  "pb_class b = PrefillBudget \<Longrightarrow> 0 < ps \<Longrightarrow> reserve (radix_pool_ops ps) (ceil_paged_tokens (int ps) e) m 0 l c b =
     b\<lparr>pb_total_offset := pb_total_offset b + of_int (ceil_paged_tokens (int ps) e + int ps + m), pb_current_offset := pb_current_offset b + (ceil_paged_tokens (int ps) e + int ps)\<rparr>"
  by (simp add: reserve_def radix_pool_ops_def Let_def ceil_paged_idem)

lemma extend_to_len: "0 \<le> e \<Longrightarrow> extend_len_of (extend_to (int n) (int n + e) r) = e"
  by (simp add: extend_len_of_def extend_to_def set_extend_range_def)

text \<open>The fields that charging and accounting keep.\<close>

lemma update_prefill_budget_fields:
  fixes a :: adder
  assumes a': "a' = update_prefill_budget ops pl e m st 0 cont ch a"
  shows "pa_page_size a' = pa_page_size a" "pa_is_hybrid_swa a' = pa_is_hybrid_swa a" "pa_mamba_slot_cost a' = pa_mamba_slot_cost a"
    "pa_tile_block_m a' = pa_tile_block_m a" "pa_can_run_list a' = pa_can_run_list a" "pa_dllm a = None \<Longrightarrow> pa_dllm a' = None"
    "pa_memory_budget a' = reserve ops (ceil_paged_tokens (pa_page_size a) e) m 0 (pa_rem_chunk_tokens a) cont (pa_memory_budget a)"
  unfolding a' update_prefill_budget_def Let_def by (simp_all split: option.split)

lemma account_fields:
  fixes a :: adder
  assumes "account_prefill_cache_admission env (radix_tree_ops rel) r n a s = (a', s')"
  shows "pa_page_size a' = pa_page_size a" "pa_is_hybrid_swa a' = pa_is_hybrid_swa a" "pa_mamba_slot_cost a' = pa_mamba_slot_cost a"
    "pa_tile_block_m a' = pa_tile_block_m a" "pa_can_run_list a' = pa_can_run_list a" "pa_dllm a' = pa_dllm a"
    "pa_memory_budget a' = pa_memory_budget a" "s' = s"
  using assms unfolding account_prefill_cache_admission_def Let_def radix_tree_ops_def
  by (auto split: if_splits prod.splits)

lemma batch_demand_snoc [simp]: "batch_demand ps (rs @ [r]) = batch_demand ps rs + ceil_paged_tokens (int ps) (extend_len_of r)"
  by (simp add: batch_demand_def)

lemma commit_plain:
  assumes ps: "0 < ps" and a: "booked ps a" and adm: "sound_admission ps r n a s0 adm"
    and i: "r_last_node r = Some i" "inc_lock_ref i s = Inr (d, s2)" "\<not> rc_disable s"
  shows "\<exists>r' a'. commit_prefill_admission env (radix_pool_ops ps) (radix_tree_ops rel) r adm 0 a s = Inr (r', a', s2) \<and> booked ps a' \<and>
    pa_can_run_list a' = pa_can_run_list a @ [r'] \<and> r' = extend_to (ad_prefix_len adm) (ad_prefix_len adm + ad_extend_len adm) r \<and>
    extend_len_of r' = ad_extend_len adm"
proof -
  have m: "ad_prefix_len adm = int (length (r_prefix_indices r))" "0 \<le> ad_extend_len adm" "0 \<le> ad_max_new_tokens adm" using adm by (simp_all add: sound_admission_def)
  define r' where "r' = extend_to (ad_prefix_len adm) (ad_prefix_len adm + ad_extend_len adm) r"
  define a1 where "a1 = (if ad_is_chunked adm then (admit r' a)\<lparr>pa_new_chunked_req := Some r'\<rparr> else admit r' a)"
  define a2 where "a2 = update_prefill_budget (radix_pool_ops ps) (ad_prefix_len adm) (ad_extend_len adm) (ad_max_new_tokens adm) (r_retracted_stain r') 0 False
     (if pa_exact_chunk_fill a1 then Some (ad_extend_len adm) else None) a1"
  obtain a3 s3 where a3: "account_prefill_cache_admission env (radix_tree_ops rel) r' (nat (ad_prefix_len adm)) a2 s2 = (a3, s3)" by fastforce
  have ln: "r_last_node r' = Some i" using i(1) by (simp add: r'_def extend_to_def set_extend_range_def)
  have "t_inc_lock (radix_tree_ops rel) (Some i) s = Inr s2" using i(2,3) by (simp add: radix_tree_ops_def lock_opt_def)
  then have "commit_prefill_admission env (radix_pool_ops ps) (radix_tree_ops rel) r adm 0 a s = Inr (r', a3, s3)"
    using m(1) a3 ln unfolding commit_prefill_admission_def Let_def r'_def [symmetric] a1_def [symmetric] a2_def [symmetric]
    by (simp add: py_assert_def)
  moreover note f3 = account_fields [OF a3] and f2 = update_prefill_budget_fields [OF a2_def]
  have f1: "pa_page_size a1 = pa_page_size a" "pa_is_hybrid_swa a1 = pa_is_hybrid_swa a" "pa_mamba_slot_cost a1 = pa_mamba_slot_cost a" "pa_tile_block_m a1 = pa_tile_block_m a"
    "pa_can_run_list a1 = pa_can_run_list a @ [r']" "pa_dllm a1 = pa_dllm a" "pa_memory_budget a1 = pa_memory_budget a"
    by (simp_all add: a1_def admit_def)
  have e: "extend_len_of r' = ad_extend_len adm" using extend_to_len [OF m(2)] by (simp add: r'_def m(1))
  note b = a [unfolded booked_def]
  have bud: "pa_memory_budget a3 = (pa_memory_budget a)\<lparr>
      pb_total_offset := pb_total_offset (pa_memory_budget a) + of_int (ceil_paged_tokens (int ps) (ad_extend_len adm) + int ps + ad_max_new_tokens adm),
      pb_current_offset := pb_current_offset (pa_memory_budget a) + (ceil_paged_tokens (int ps) (ad_extend_len adm) + int ps)\<rparr>"
    using b ps by (simp add: f3 f2 f1 reserve_plain)
  have "(of_int (batch_demand ps (pa_can_run_list a)) + of_int (ceil_paged_tokens (int ps) (ad_extend_len adm)) :: rat)
      \<le> pb_total_offset (pa_memory_budget a) + of_int (ceil_paged_tokens (int ps) (ad_extend_len adm)) + of_int (int ps + ad_max_new_tokens adm)"
    using b m(3) by simp
  then have "booked ps a3" using b e by (simp add: booked_def bud f3 f2 f1 add.assoc)
  ultimately show ?thesis using f3 f2 f1 e r'_def by auto
qed

section \<open>Property\<close>

text \<open>
  \<open>add_one_req\<close> over the radix cache: three gates, then, with the node of the request locked, the selection and the commit. The lock
  taken for the decision is given back, the one of the commit stays.
\<close>

definition admission_estimate :: "adm_env \<Rightarrow> nat \<Rightarrow> adm_req \<Rightarrow> int" where
  "admission_estimate env ps r =
     cand_extend_input_len r + min (max (r_max_new_tokens r - int (length (r_output_ids r))) 0) (ae_clip_max_new_tokens env) + int ps"

definition gates_refuse :: "adm_env \<Rightarrow> nat \<Rightarrow> adm_req \<Rightarrow> adder \<Rightarrow> cache \<Rightarrow> bool" where
  "gates_refuse env ps r a s \<longleftrightarrow>
     (case pa_prefill_max_requests a of None \<Rightarrow> False | Some x \<Rightarrow> length (pa_can_run_list a) \<ge> x) \<or>
     of_int (admission_estimate env ps r) \<ge> rem_total_tokens (radix_pool_ops ps) a s \<or>
     pa_rem_chunk_tokens a = None \<and> pa_can_run_list a \<noteq> [] \<and> ceil_paged_tokens (int ps) (cand_extend_input_len r - int (r_host_hit_length r)) \<ge> pa_rem_input_tokens a"

lemma add_one_req_eq:
  assumes run: "cache_run H s" and a: "booked ps a" and node: "r_last_node r = Some i" "i \<in> live s" and host: "\<not> needs_host_load_back r"
  obtains s1 s2 d c where "inc_lock_ref i s = Inr (c, s1)" "cache_run (i # H) s1" "inc_lock_ref i s1 = Inr (d, s2)"
    "\<forall>x. select_prefill_admission env (radix_pool_ops ps) r (admission_estimate env ps r) 0 0 align_size has_chunked_req a s1 = Inr x \<longrightarrow>
       gates_refuse env ps r a s \<or> (\<exists>v. x = Inl v) \<or> pa_delayer a = Some False \<longrightarrow>
       (\<exists>v. add_one_req env (radix_pool_ops ps) (radix_tree_ops rel) r has_chunked_req align_size a s = Inr (v, r, a, s))"
    "\<forall>adm r' a'. select_prefill_admission env (radix_pool_ops ps) r (admission_estimate env ps r) 0 0 align_size has_chunked_req a s1 = Inr (Inr adm) \<longrightarrow>
       \<not> gates_refuse env ps r a s \<longrightarrow> pa_delayer a \<noteq> Some False \<longrightarrow>
       commit_prefill_admission env (radix_pool_ops ps) (radix_tree_ops rel) r adm 0 a s1 = Inr (r', a', s2) \<longrightarrow>
       add_one_req env (radix_pool_ops ps) (radix_tree_ops rel) r has_chunked_req align_size a s = Inr (budget_state (radix_pool_ops ps) a' s1, r', a', s1)"
proof -
  note ok = run_okD [OF run_invariant [OF run]]
  note b = a [unfolded booked_def]
  let ?ops = "radix_pool_ops ps" and ?tops = "radix_tree_ops rel" and ?n = "admission_estimate env ps r"
  have h0: "r_host_hit_length r = 0" "r_swa_host_hit_length r = 0" using host by (simp_all add: needs_host_load_back_def)
  obtain X s1 where lock: "inc_lock_ref i s = Inr (- X, s1)" "dec_lock_ref i s1 = Inr (X, s)" using inc_dec_lock_ref [OF ok(1) node(2) ok(3)] by blast
  have run1: "cache_run (i # H) s1" by (rule run_lock [OF run node(2) lock(1)])
  note ok1 = run_okD [OF run_invariant [OF run1]]
  have i1: "i \<in> live s1" using wfD(3) [OF ok1(1)] by (simp add: locks_ok_def)
  then obtain Y s2 where lock2: "inc_lock_ref i s1 = Inr (- Y, s2)" "dec_lock_ref i s2 = Inr (Y, s1)" using inc_dec_lock_ref [OF ok1(1) _ ok1(3)] by blast
  have ok2: "\<not> rc_disable s2" using run_okD(3) [OF run_invariant [OF run_lock [OF run1 i1 lock2(1)]]] .
  have ops: "t_inc_lock ?tops (Some i) s = Inr s1" "t_dec_lock ?tops (Some i) s1 = Inr s" "t_dec_lock ?tops (Some i) s2 = Inr s1"
    using lock lock2 ok(3) ok1(3) ok2 by (simp_all add: radix_tree_ops_def lock_opt_def)
  have gate: "apply_swa_token_gate env ?ops k r l a w = (None, l, r)" for k l w using b by (simp add: apply_swa_token_gate_def)
  have mg: "mamba_gap_budget_for_req r a = 0" using b by (simp add: mamba_gap_budget_for_req_def)
  have dis: "t_disable ?tops s = False" using ok(3) by (simp add: radix_tree_ops_def)
  let ?k = "ceil_paged_tokens (int ps) (cand_extend_input_len r - int (r_host_hit_length r))"
  let ?body = "admit_locked env ?ops ?tops r ?n ?k 0 (pa_rem_chunk_tokens a) align_size has_chunked_req a"
  have body: "?body s1 = rbind (select_prefill_admission env ?ops r ?n 0 0 align_size has_chunked_req a s1) (\<lambda>x. case x of Inl v \<Rightarrow> Inr ((Some v, r, a), s1) | Inr adm \<Rightarrow>
      if pa_delayer a = Some False then Inr ((Some OTHER, r, a), s1)
      else rbind (commit_prefill_admission env ?ops ?tops r adm 0 a s1) (\<lambda>(r, a, w). Inr ((None, r, a), w)))"
    using host unfolding admit_locked_def h0 of_nat_0 gate load_back_def
    by (cases "select_prefill_admission env ?ops r ?n 0 0 align_size has_chunked_req a s1") (auto split: sum.split)
  have add: "add_one_req env ?ops ?tops r has_chunked_req align_size a s =
     (if case pa_prefill_max_requests a of None \<Rightarrow> False | Some x \<Rightarrow> length (pa_can_run_list a) \<ge> x then Inr (OTHER, r, a, s)
      else if of_int ?n \<ge> rem_total_tokens ?ops a s then Inr (NO_TOKEN, r, a, s)
      else if pa_rem_chunk_tokens a = None \<and> pa_can_run_list a \<noteq> [] \<and> ?k \<ge> pa_rem_input_tokens a then Inr (OTHER, r, a, s)
      else rbind (with_lock_node ?tops (Some i) ?body s) (\<lambda>((verdict, r, a), w).
        case verdict of Some v \<Rightarrow> Inr (v, r, a, w) | None \<Rightarrow> Inr (budget_state ?ops a w, r, a, w)))"
    using b unfolding add_one_req_def by (simp only: dis mg gate node(1) admission_estimate_def Let_def prod.case option.case simp_thms if_False add_0_right)
  show ?thesis
    by (rule that [OF lock(1) run1 lock2(1)]) (auto simp: add gates_refuse_def with_lock_node_def ops body split: sum.splits)
qed

lemma add_one_req_outcome:
  assumes run: "cache_run H s" and ps: "rc_page_size s = ps" and a: "booked ps a"
    and node: "r_last_node r = Some i" "i \<in> live s" and host: "\<not> needs_host_load_back r"
    and len: "length (r_prefix_indices r) \<le> length (r_full_untruncated_fill_ids r)" and mn: "0 \<le> r_max_new_tokens r" "0 \<le> ae_clip_max_new_tokens env"
    and align: "\<forall>n. align_size = Some n \<longrightarrow> 0 < n"
  obtains (refused) v where "add_one_req env (radix_pool_ops ps) (radix_tree_ops rel) r has_chunked_req align_size a s = Inr (v, r, a, s)"
  | (admitted) v r' a' s' e where "add_one_req env (radix_pool_ops ps) (radix_tree_ops rel) r has_chunked_req align_size a s = Inr (v, r', a', s')"
    "booked ps a'" "pa_can_run_list a' = pa_can_run_list a @ [r']" "r' = set_extend_range (length (r_prefix_indices r)) e r" "cache_run (i # H) s'"
    "batch_demand ps (pa_can_run_list a') < reachable_slots s'" "\<exists>c. inc_lock_ref i s = Inr (c, s')" "e \<le> length (r_full_untruncated_fill_ids r)"
    "length (r_prefix_indices r) < length (r_full_untruncated_fill_ids r) \<longrightarrow> length (r_prefix_indices r) < e"
proof -
  note ok = run_okD [OF run_invariant [OF run]]
  have p: "0 < ps" "0 < int ps" using ok(4) ps by simp_all
  let ?n = "admission_estimate env ps r"
  have c: "0 \<le> cand_extend_input_len r" using len by (simp add: cand_extend_input_len_def)
  obtain s1 s2 d c1 where l: "inc_lock_ref i s = Inr (c1, s1)" and e: "cache_run (i # H) s1" "inc_lock_ref i s1 = Inr (d, s2)"
    "\<forall>x. select_prefill_admission env (radix_pool_ops ps) r ?n 0 0 align_size has_chunked_req a s1 = Inr x \<longrightarrow>
       gates_refuse env ps r a s \<or> (\<exists>v. x = Inl v) \<or> pa_delayer a = Some False \<longrightarrow>
       (\<exists>v. add_one_req env (radix_pool_ops ps) (radix_tree_ops rel) r has_chunked_req align_size a s = Inr (v, r, a, s))"
    "\<forall>adm r' a'. select_prefill_admission env (radix_pool_ops ps) r ?n 0 0 align_size has_chunked_req a s1 = Inr (Inr adm) \<longrightarrow>
       \<not> gates_refuse env ps r a s \<longrightarrow> pa_delayer a \<noteq> Some False \<longrightarrow>
       commit_prefill_admission env (radix_pool_ops ps) (radix_tree_ops rel) r adm 0 a s1 = Inr (r', a', s2) \<longrightarrow>
       add_one_req env (radix_pool_ops ps) (radix_tree_ops rel) r has_chunked_req align_size a s = Inr (budget_state (radix_pool_ops ps) a' s1, r', a', s1)"
    by (rule add_one_req_eq [OF run a node host])
  obtain x where sel: "select_prefill_admission env (radix_pool_ops ps) r ?n 0 0 align_size has_chunked_req a s1 = Inr x" "\<forall>adm. x = Inr adm \<longrightarrow> sound_admission ps r ?n a s1 adm"
    using select_plain [OF p(1) a _ c mn, of align_size ?n has_chunked_req s1] align by (auto simp: admission_estimate_def)
  show ?thesis
  proof (cases "gates_refuse env ps r a s \<or> (\<exists>v. x = Inl v) \<or> pa_delayer a = Some False")
    case True
    then show ?thesis using e(3) sel(1) refused by blast
  next
    case False
    then obtain adm where adm: "x = Inr adm" by (cases x) auto
    then have sound: "sound_admission ps r ?n a s1 adm" using sel(2) by blast
    obtain r' a' where r': "commit_prefill_admission env (radix_pool_ops ps) (radix_tree_ops rel) r adm 0 a s1 = Inr (r', a', s2)" "booked ps a'" "pa_can_run_list a' = pa_can_run_list a @ [r']"
      "r' = extend_to (ad_prefix_len adm) (ad_prefix_len adm + ad_extend_len adm) r" "extend_len_of r' = ad_extend_len adm"
      using commit_plain [OF p(1) a sound node(1) e(2) run_okD(3) [OF run_invariant [OF e(1)]]] by blast
    have "ceil_paged_tokens (int ps) (ad_extend_len adm) \<le> ceil_paged_tokens (int ps) (cand_extend_input_len r)"
      using sound by (intro ceil_paged_mono [OF p(2)]) (simp add: sound_admission_def)
    then have "ceil_paged_tokens (int ps) (ad_extend_len adm) < ?n"
      using ceil_paged_bounds(2) [OF p(2), of "cand_extend_input_len r"] mn(2) by (auto simp: admission_estimate_def)
    then have "of_int (batch_demand ps (pa_can_run_list a) + ceil_paged_tokens (int ps) (ad_extend_len adm)) < (of_int (reachable_slots s1) :: rat)"
      using sound a unfolding sound_admission_def booked_def of_int_add by linarith
    then have "batch_demand ps (pa_can_run_list a') < reachable_slots s1" using r'(3,5) by (simp only: batch_demand_snoc of_int_less_iff)
    moreover let ?e = "nat (ad_prefix_len adm + ad_extend_len adm)"
    have "r' = set_extend_range (length (r_prefix_indices r)) ?e r" "?e \<le> length (r_full_untruncated_fill_ids r)"
      "length (r_prefix_indices r) < length (r_full_untruncated_fill_ids r) \<longrightarrow> length (r_prefix_indices r) < ?e"
      using sound by (auto simp: r'(4) extend_to_def sound_admission_def cand_extend_input_len_def)
    ultimately show ?thesis using admitted [of _ r' a' s1 ?e] e(1) e(4) False sel(1) r'(1-3) adm l by blast
  qed
qed

text \<open>
  Property C34: admission never promises more than the pool can give. For the radix cache over the token or the paged allocator,
  \<open>add_one_req\<close> returns for a request matched to a node of the tree. Either the request is refused and the adder and the cache are as before; or it is
  appended to the batch with a range that starts after its cached prefix and stays within its tokens, the lock on its node is held, and the
  prefill slots of the whole batch, in whole pages, are fewer than the slots that are free or evictable while that lock is held.
\<close>

theorem admission_never_overcommits:
  assumes run: "cache_run H s" and ps: "rc_page_size s = ps" and a: "booked ps a"
    and node: "r_last_node r = Some i" "i \<in> live s" and host: "\<not> needs_host_load_back r"
    and len: "length (r_prefix_indices r) \<le> length (r_full_untruncated_fill_ids r)" and mn: "0 \<le> r_max_new_tokens r" "0 \<le> ae_clip_max_new_tokens env"
    and align: "\<forall>n. align_size = Some n \<longrightarrow> 0 < n"
  shows "\<exists>v r' a' s'. add_one_req env (radix_pool_ops ps) (radix_tree_ops rel) r has_chunked_req align_size a s = Inr (v, r', a', s') \<and> booked ps a' \<and>
     (r' = r \<and> a' = a \<and> s' = s \<or>
      pa_can_run_list a' = pa_can_run_list a @ [r'] \<and> (\<exists>e\<le>length (r_full_untruncated_fill_ids r). r_extend_range r' = Some (length (r_prefix_indices r), e)) \<and> cache_run (i # H) s' \<and>
      batch_demand ps (pa_can_run_list a') < int (ka_available_size (rc_alloc s')) + evictable_size s')"
  by (rule add_one_req_outcome [OF assms, of rel has_chunked_req]) (use a in \<open>auto simp: reachable_slots_def set_extend_range_def\<close>)

definition ex_adm_req :: adm_req where
  "ex_adm_req = (sched_req.extend (wait_req ''a'' [11, 12, 13, 14, 15])
     (adm_req.fields False False 0 False False [] False None))\<lparr>r_last_node := Some 1, r_prefix_indices := [2, 3, 4, 5]\<rparr>"

definition ex_adm_env :: adm_env where
  "ex_adm_env = \<lparr>ae_clip_max_new_tokens = 2, ae_is_hip = False, ae_prefill_tile_budget = 0, ae_tile_mode_compact = False, ae_exact_chunk_fill = True,
     ae_encoder_swa_bounded_replay = False, ae_shortest_prefill_first = False, ae_low_priority_values_first = False\<rparr>"

definition ex_adder :: adder where
  "ex_adder = PrefillAdder ex_adm_env 2 64 PrefillBudget None 1 100 (Some 8) 0 0 None None None False 0 None"

theorem admission_never_overcommits_witness:
  "\<exists>v r' a' s'. add_one_req ex_adm_env (radix_pool_ops 2) (radix_tree_ops (\<lambda>r n s. Inr (r, s))) ex_adm_req False None ex_adder ex_cache1 = Inr (v, r', a', s') \<and> booked 2 a' \<and>
     (r' = ex_adm_req \<and> a' = ex_adder \<and> s' = ex_cache1 \<or>
      pa_can_run_list a' = pa_can_run_list ex_adder @ [r'] \<and> (\<exists>e\<le>5. r_extend_range r' = Some (length (r_prefix_indices ex_adm_req), e)) \<and> cache_run [1] s' \<and>
      batch_demand 2 (pa_can_run_list a') < int (ka_available_size (rc_alloc s')) + evictable_size s')"
proof -
  have b: "booked 2 ex_adder" by (simp add: booked_def ex_adder_def PrefillAdder_def new_budget_def batch_demand_def)
  have n: "length (r_full_untruncated_fill_ids ex_adm_req) = 5" by (simp add: ex_adm_req_def wait_req_def sched_req.defs)
  have r: "r_last_node ex_adm_req = Some 1" "\<not> needs_host_load_back ex_adm_req" "length (r_prefix_indices ex_adm_req) \<le> length (r_full_untruncated_fill_ids ex_adm_req)"
    "0 \<le> r_max_new_tokens ex_adm_req" "0 \<le> ae_clip_max_new_tokens ex_adm_env"
    by (simp_all add: ex_adm_req_def wait_req_def needs_host_load_back_def sched_req.defs ex_adm_env_def)
  show ?thesis
    using admission_never_overcommits [OF ex_run1 ex_frame1(1) b r(1) ex_live1 r(2-5), where align_size = None and has_chunked_req = False] unfolding n by simp
qed

lemma insert_index_above: "xs \<noteq> [] \<Longrightarrow> \<forall>x\<in>set xs. fst x < n \<Longrightarrow> insert_index n xs = length xs - 1"
  by (induction n xs rule: insert_index.induct) auto

text \<open>
  Property C35: the sorted insertion of \<open>add_one_req_ignore_eos\<close> loses the order it means to keep. A request with more tokens left than
  every recorded state is inserted before the last of them, so the states, which the capacity check reads as
  sorted, are not sorted.
\<close>

theorem ignore_eos_states_lose_order:
  assumes "states \<noteq> []" "r_ignore_eos r" "left = of_int (r_max_new_tokens r) - of_nat (length (r_output_ids r))" "0 < left" "\<forall>x\<in>set states. fst x < left"
  shows "map fst (add_req_state ratio r True states) = map fst (butlast states) @ [left, fst (last states)] \<and>
    \<not> sorted (map fst (add_req_state ratio r True states))"
proof -
  obtain ys y where s: "states = ys @ [y]" using assms(1) by (cases states rule: rev_cases) auto
  have "map fst (add_req_state ratio r True states) = map fst ys @ [left, fst y]"
    using assms(2-4) insert_index_above [OF assms(1,5)] by (simp add: add_req_state_def s)
  moreover have "fst y < left" using assms(5) by (simp add: s)
  ultimately show ?thesis by (simp add: s sorted_append)
qed

theorem ignore_eos_states_lose_order_witness:
  "map fst (add_req_state 1 (ex_adm_req\<lparr>r_ignore_eos := True\<rparr>) True [(5, 100)]) = [16, 5] \<and>
   \<not> sorted (map fst (add_req_state 1 (ex_adm_req\<lparr>r_ignore_eos := True\<rparr>) True [(5, 100)]))"
  using ignore_eos_states_lose_order [of "[(5, 100)]" "ex_adm_req\<lparr>r_ignore_eos := True\<rparr>" 16 1]
  by (simp add: ex_adm_req_def wait_req_def sched_req.defs adm_req.defs)

end
