(* ===== verification/Alloc_Theorems.thy ===== *)
theory Alloc_Theorems
  imports Row_Grow Adder_Theorems
begin

text \<open>
  What allocation does for the requests of a decode batch. A request that owned the pages of its row owns those of the longer row afterwards, and
  the check before a decode step answers yes exactly when the step finds its slots.
\<close>

section \<open>Last slots\<close>

lemma chain_last_slot:
  assumes t: "tree_ok ps b (rc_store s) (rc_root s) (live s)" and so: "slots_ok (live s) s" and p: "rc_page_size s = ps" "0 < ps"
  shows "chain (edge (rc_store s)) (rc_root s) is \<Longrightarrow> path_val (rc_store s) is \<noteq> [] \<Longrightarrow> (last (path_val (rc_store s) is) + 1) mod int ps = 0"
proof (induction "is" rule: rev_induct)
  case (snoc i "is")
  have c: "chain (edge (rc_store s)) (rc_root s) is" "edge (rc_store s) (last (rc_root s # is)) i" using snoc.prems(1) by (simp_all add: chain_append)
  let ?v = "the (n_value (nd s i))"
  have pv: "path_val (rc_store s) (is @ [i]) = path_val (rc_store s) is @ ?v" by (simp add: path_simps)
  show ?case
  proof (cases "?v = []")
    case True
    then show ?thesis using snoc c(1) pv by simp
  next
    case False
    have "i \<in> live s" "i \<noteq> rc_root s" using tree_ok_chain [OF t tree_okD(3) [OF t] snoc.prems(1)] by auto
    then obtain pages where v: "?v = page_slots ps pages" using slots_okD(3) [OF so] p(1) unfolding blocked_def by blast
    then obtain q x where q: "pages = q @ [x]" using False by (cases pages rule: rev_cases) auto
    then have "last ?v = x * int ps + int (ps - 1)" using p(2) by (simp add: v page_slots_append page_slots_def last_map)
    then show ?thesis using pv False p(2) by (simp add: of_nat_diff)
  qed
qed simp

lemma at_node_last_slot:
  assumes "cache_run H s" "at_node (rc_store s) (rc_root s) n u v" "v \<noteq> []"
  shows "(last v + 1) mod int (rc_page_size s) = 0"
proof -
  note ok = run_okD [OF run_invariant [OF assms(1)]]
  show ?thesis using assms(2,3) chain_last_slot [OF wfD(1) [OF ok(1)] ok(2) refl ok(4)] unfolding at_node_def by blast
qed

section \<open>Requests in a growing row\<close>

definition world_ok :: "nat list \<Rightarrow> 'a radix_world \<Rightarrow> bool" where
  "world_ok H w \<longleftrightarrow> evicting H (rw_cache w) \<and> ka_free_set (rc_alloc (rw_cache w)) \<subseteq> ka_universe (rc_alloc (rw_cache w)) \<and>
     rt_req_to_token (rw_pool w) \<noteq> [] \<and> rect_table (table_stride (rw_pool w)) (rt_req_to_token (rw_pool w)) \<and> rt_aux_cache (rw_pool w) = None"

lemma world_unowned:
  assumes "world_ok H w"
  shows "unowned (rw_cache w) \<subseteq> ka_universe (rc_alloc (rw_cache w))" "cache_run H (rw_cache w)" "0 < rc_page_size (rw_cache w)"
proof -
  show r: "cache_run H (rw_cache w)" using assms by (simp add: world_ok_def evicting_def)
  note ok = run_okD [OF run_invariant [OF r]]
  show "0 < rc_page_size (rw_cache w)" by (rule ok(4))
  show "unowned (rw_cache w) \<subseteq> ka_universe (rc_alloc (rw_cache w))"
    using slots_okD(6) [OF ok(2)] assms by (simp add: unowned_def world_ok_def held_slots_def)
qed

text \<open>A row of which the tree owns a part at a locked node, and the request the rest.\<close>

definition row_owned :: "nat list \<Rightarrow> 'b req_scheme \<Rightarrow> int list \<Rightarrow> int list \<Rightarrow> int list \<Rightarrow> cache \<Rightarrow> bool" where
  "row_owned H r ts row pages s \<longleftrightarrow> rc_page_size s dvd cache_protected_len (r_kv r) \<and> cache_protected_len (r_kv r) \<le> length (req_units s r ts) \<and>
     cache_protected_len (r_kv r) \<le> length row \<and>
     (\<exists>n. r_last_node r = Some n \<and> n \<in> set H \<and>
        at_node (rc_store s) (rc_root s) n (take (cache_protected_len (r_kv r)) (req_units s r ts)) (take (cache_protected_len (r_kv r)) row)) \<and>
     covers (rc_page_size s) (drop (cache_protected_len (r_kv r)) row) pages \<and>
     set (page_slots (rc_page_size s) pages) \<subseteq> ka_universe (rc_alloc s) \<and> set (page_slots (rc_page_size s) pages) \<inter> unowned s = {}"

lemma req_owns_row:
  "req_owns H r ts len pages w \<longleftrightarrow> (\<exists>i. req_pool_idx (r_kv r) = Some i \<and> i < length (rt_req_to_token (rw_pool w))) \<and> length ts \<le> len \<and>
     len \<le> length (req_row_of r w) \<and> row_owned H r ts (take len (req_row_of r w)) pages (rw_cache w)"
proof -
  let ?p = "cache_protected_len (r_kv r)"
  have "?p \<le> len \<and> take ?p (take len (req_row_of r w)) = take ?p (req_row_of r w)" if "?p \<le> length (req_units (rw_cache w) r ts)" "length ts \<le> len"
    using that length_req_units [of "rw_cache w" r ts] by (simp add: min_def)
  then show ?thesis by (auto simp: req_owns_def row_owned_def unowned_def slice_def drop_take Un_commute min_def)
qed

lemma row_owned_ask:
  assumes r: "cache_run H s" and o: "row_owned H r ts row pages s"
  shows "row_ask (rc_page_size s) (length row, n, if row = [] then - 1 else last row) (drop (cache_protected_len (r_kv r)) row) pages"
proof -
  let ?p = "cache_protected_len (r_kv r)" and ?ps = "rc_page_size s"
  have "?ps dvd ?p" using o by (simp add: row_owned_def)
  then obtain k where k: "?p = k * ?ps" by (metis dvdE mult.commute)
  have p: "?p \<le> length row" "covers ?ps (drop ?p row) pages" using o by (simp_all add: row_owned_def)
  have l: "\<exists>k. length row = k * ?ps + length (drop ?p row)" using p(1) k by (intro exI [of _ k]) simp
  have "(last row + 1) mod int ?ps = 0" if "row \<noteq> []" "drop ?p row = []"
  proof -
    have t: "take ?p row = row" using that(2) by simp
    obtain x u where "at_node (rc_store s) (rc_root s) x u (take ?p row)" using o by (auto simp: row_owned_def)
    then show ?thesis using at_node_last_slot [OF r] that(1) unfolding t by blast
  qed
  then show ?thesis using p l unfolding row_ask_def by (cases "row = []") (auto simp: last_drop)
qed

lemma row_owned_grows:
  assumes p: "parted H P s s'" and ps: "0 < rc_page_size s" and o: "row_owned H r ts row pages s"
    and u: "unowned s \<subseteq> ka_universe (rc_alloc s)" and N: "set N \<subseteq> set P"
    and c: "covers (rc_page_size s) (drop (cache_protected_len (r_kv r)) row @ new) (pages @ N)"
  shows "row_owned H r ts (row @ new) (pages @ N) s'"
proof -
  have f: "same_frame s s'" "rc_page_size s' = rc_page_size s" "rc_root s' = rc_root s" "ka_universe (rc_alloc s') = ka_universe (rc_alloc s)"
    using p by (simp_all add: parted_def same_frame_def)
  have N': "set (page_slots (rc_page_size s) N) \<subseteq> set (page_slots (rc_page_size s) P)" using N ps slots_of_mono by simp
  have "unowned s' = unowned s - set (page_slots (rc_page_size s) P)" "set (page_slots (rc_page_size s) P) \<subseteq> unowned s" using p by (simp_all add: parted_def)
  moreover have "\<forall>j\<in>set H. at_node (rc_store s') (rc_root s) j = at_node (rc_store s) (rc_root s) j" using p by (simp add: parted_def)
  moreover have q: "cache_protected_len (r_kv r) \<le> length row" using o by (simp add: row_owned_def)
  ultimately show ?thesis
    using o c u N' f req_frame(1) [OF f(1), of r] unfolding row_owned_def set_page_slots_append by auto
qed

section \<open>A decode step\<close>

lemma write_cells_ok:
  assumes "distinct rows" "length cols = length rows" "length vs = length rows"
    "\<And>k. k < length rows \<Longrightarrow> rows ! k < length (rt_req_to_token p) \<and> cols ! k < length (rt_req_to_token p ! (rows ! k))"
  shows "\<exists>t. write_cells rows cols vs p = Inr (p\<lparr>rt_req_to_token := t\<rparr>) \<and> map length t = map length (rt_req_to_token p) \<and>
     (\<forall>k<length rows. t ! (rows ! k) = (rt_req_to_token p ! (rows ! k))[cols ! k := vs ! k]) \<and>
     (\<forall>i. i \<notin> set rows \<longrightarrow> t ! i = rt_req_to_token p ! i)"
  using assms
proof (induction rows cols vs p rule: write_cells.induct)
  case (1 row rows col cols v vs p)
  let ?t = "rt_req_to_token p" and ?u = "(rt_req_to_token p)[row := (rt_req_to_token p ! row)[col := v]]"
  let ?p = "p\<lparr>rt_req_to_token := ?u\<rparr>"
  have rc: "row < length ?t" "col < length (?t ! row)" using "1.prems"(4) [of 0] by simp_all
  have ml: "map length ?u = map length ?t" using rc by (simp add: map_update list_update_same_conv)
  have ne: "row \<noteq> rows ! k" if "k < length rows" for k using "1.prems"(1) that by auto
  have "rows ! k < length (rt_req_to_token ?p) \<and> cols ! k < length (rt_req_to_token ?p ! (rows ! k))" if "k < length rows" for k
    using "1.prems"(4) [of "Suc k"] that ne by auto
  then obtain t where t: "write_cells rows cols vs ?p = Inr (?p\<lparr>rt_req_to_token := t\<rparr>)" "map length t = map length ?u"
    "\<forall>k<length rows. t ! (rows ! k) = (?u ! (rows ! k))[cols ! k := vs ! k]" "\<forall>i. i \<notin> set rows \<longrightarrow> t ! i = ?u ! i"
    using "1.IH" "1.prems"(1-3) rc by auto
  have "t ! ((row # rows) ! k) = (?t ! ((row # rows) ! k))[(col # cols) ! k := (v # vs) ! k]" if "k < length (row # rows)" for k
    using t(3,4) "1.prems"(1) rc ne that by (cases k) auto
  then show ?case using t rc ml by (intro exI [of _ t]) auto
qed (auto intro!: exI [where x = "rt_req_to_token p" for p])

lemma rect_map_length: "map length t = map length t' \<Longrightarrow> rect_table m t' \<Longrightarrow> rect_table m t"
  unfolding rect_table_def by (metis (no_types, lifting) in_set_conv_nth length_map nth_map)

text \<open>A batch of running requests before a decode step: \<open>tss\<close> are tokens under which the tree holds their prefixes, \<open>pgs\<close> their own pages.\<close>

definition decoding :: "nat list \<Rightarrow> 'b req_scheme batch \<Rightarrow> int list list \<Rightarrow> int list list \<Rightarrow> 'a radix_world \<Rightarrow> bool" where
  "decoding H b tss pgs w \<longleftrightarrow> world_ok H w \<and> length tss = length (b_reqs b) \<and> length pgs = length (b_reqs b) \<and>
     b_seq_lens b = map (\<lambda>r. kv_committed_len (r_kv r)) (b_reqs b) \<and> map Some (b_req_pool_indices b) = map (\<lambda>r. req_pool_idx (r_kv r)) (b_reqs b) \<and>
     distinct (b_req_pool_indices b) \<and> distinct (concat pgs) \<and> list_all (\<lambda>n. 0 < n) (b_seq_lens b) \<and>
     (\<forall>k<length (b_reqs b). req_owns H (b_reqs b ! k) (tss ! k) (b_seq_lens b ! k) (pgs ! k) w)"

definition decode_asks :: "'b req_scheme batch \<Rightarrow> 'a radix_world \<Rightarrow> ask list" where
  "decode_asks b w = map (\<lambda>(r, n). (n, 1, req_row_of r w ! (n - 1))) (zip (b_reqs b) (b_seq_lens b))"

text \<open>The rows of the batch, each with what the tree and the request own of it.\<close>

lemma decodingD:
  assumes d: "decoding H b tss pgs w" and k: "k < length (b_reqs b)"
  defines "r \<equiv> b_reqs b ! k" and "n \<equiv> b_seq_lens b ! k" and "i \<equiv> b_req_pool_indices b ! k"
  shows "req_pool_idx (r_kv r) = Some i" "req_row_of r w = rt_req_to_token (rw_pool w) ! i" "i < length (rt_req_to_token (rw_pool w))"
    "0 < n" "n \<le> length (req_row_of r w)" "length (req_row_of r w) = table_stride (rw_pool w)" "length (tss ! k) \<le> n" "kv_committed_len (r_kv r) = n"
    "row_owned H r (tss ! k) (take n (req_row_of r w)) (pgs ! k) (rw_cache w)"
    "row_ask (rc_page_size (rw_cache w)) (decode_asks b w ! k) (drop (cache_protected_len (r_kv r)) (take n (req_row_of r w))) (pgs ! k)"
proof -
  have l: "length (b_seq_lens b) = length (b_reqs b)" "length (b_req_pool_indices b) = length (b_reqs b)"
    using d by (simp_all add: decoding_def) (metis length_map)
  have "map Some (b_req_pool_indices b) ! k = map (\<lambda>r. req_pool_idx (r_kv r)) (b_reqs b) ! k" using d by (simp add: decoding_def)
  then show i: "req_pool_idx (r_kv r) = Some i" using k l by (simp add: r_def i_def)
  then show row: "req_row_of r w = rt_req_to_token (rw_pool w) ! i" by (simp add: req_row_of_def)
  have o: "req_owns H r (tss ! k) n (pgs ! k) w" "world_ok H w" using d k unfolding decoding_def r_def n_def by blast+
  show il: "i < length (rt_req_to_token (rw_pool w))" "n \<le> length (req_row_of r w)" "length (tss ! k) \<le> n"
    "row_owned H r (tss ! k) (take n (req_row_of r w)) (pgs ! k) (rw_cache w)"
    using o(1) i unfolding req_owns_row by auto
  have "list_all (\<lambda>n. 0 < n) (b_seq_lens b)" "b_seq_lens b = map (\<lambda>r. kv_committed_len (r_kv r)) (b_reqs b)" using d unfolding decoding_def by blast+
  then show "0 < n" "kv_committed_len (r_kv r) = n" using k l by (simp_all add: list_all_length n_def r_def)
  show "length (req_row_of r w) = table_stride (rw_pool w)" using o(2) row il(1) by (simp add: world_ok_def rect_table_def)
  have "decode_asks b w ! k = (n, 1, req_row_of r w ! (n - 1))" using k l by (simp add: decode_asks_def r_def n_def)
  moreover have ne: "take n (req_row_of r w) \<noteq> []" using \<open>0 < n\<close> il(2) by auto
  moreover have "last (take n (req_row_of r w)) = req_row_of r w ! (n - 1)" using \<open>0 < n\<close> il(2) unfolding last_conv_nth [OF ne] by (simp add: min_def)
  ultimately show "row_ask (rc_page_size (rw_cache w)) (decode_asks b w ! k) (drop (cache_protected_len (r_kv r)) (take n (req_row_of r w))) (pgs ! k)"
    using row_owned_ask [OF world_unowned(2) [OF o(2)] il(4), of 1] il(2) by (simp add: min_absorb2)
qed

lemma decode_demand:
  assumes "decoding H b tss pgs w"
  shows "rc_page_size (rw_cache w) * page_demand (rc_page_size (rw_cache w)) (decode_asks b w) =
    length (filter (\<lambda>kv. kv_committed_len kv mod rc_page_size (rw_cache w) = 0) (map r_kv (b_reqs b))) * rc_page_size (rw_cache w)"
    "rc_page_size (rw_cache w) * page_demand (rc_page_size (rw_cache w)) (decode_asks b w) \<le> length (b_seq_lens b) * rc_page_size (rw_cache w)"
proof -
  let ?ps = "rc_page_size (rw_cache w)"
  have ps: "0 < ?ps" using assms world_unowned(3) by (auto simp: decoding_def)
  have one: "nat (new_pages (int ?ps) (int n) (int n + 1)) = (if n mod ?ps = 0 then 1 else 0)" for n
  proof (cases "?ps = 1")
    case False
    then have p2: "2 \<le> int ?ps" using ps by simp
    have m: "(int n + 1) mod int ?ps = 1 \<longleftrightarrow> int n mod int ?ps = 0" using p2 mod_eq_dvd_iff [of "int n + 1" "int ?ps" 1] by (simp add: dvd_eq_mod_eq_0)
    then show ?thesis using new_pages_decode [OF p2, of "int n + 1"] by (simp add: zmod_int [symmetric] add.commute)
  qed (simp add: new_pages_def)
  have "page_demand ?ps (map (\<lambda>(r, n). (n, 1, l r n)) (zip rs (map (\<lambda>r. kv_committed_len (r_kv r)) rs))) =
      length (filter (\<lambda>kv. kv_committed_len kv mod ?ps = 0) (map r_kv rs))" for rs :: "'a req_scheme list" and l
    by (induction rs) (simp_all add: ask_pages_def one)
  then have e: "page_demand ?ps (decode_asks b w) = length (filter (\<lambda>kv. kv_committed_len kv mod ?ps = 0) (map r_kv (b_reqs b)))"
    using assms by (simp add: decode_asks_def decoding_def)
  then show "?ps * page_demand ?ps (decode_asks b w) = length (filter (\<lambda>kv. kv_committed_len kv mod ?ps = 0) (map r_kv (b_reqs b))) * ?ps" by simp
  have "length (filter (\<lambda>kv. kv_committed_len kv mod ?ps = 0) (map r_kv (b_reqs b))) \<le> length (b_seq_lens b)"
    using assms length_filter_le [of _ "map r_kv (b_reqs b)"] by (simp add: decoding_def)
  then show "?ps * page_demand ?ps (decode_asks b w) \<le> length (b_seq_lens b) * ?ps" unfolding e by (simp add: mult.commute)
qed

text \<open>The slots of a decode step, whichever allocator serves them.\<close>

lemma decoding_pages:
  assumes "decoding H b tss pgs w"
  shows "set (page_slots (rc_page_size (rw_cache w)) (concat pgs)) \<inter> unowned (rw_cache w) = {}"
proof -
  have "0 < rc_page_size (rw_cache w)" "length pgs = length (b_reqs b)" using assms world_unowned(3) [of H w] by (simp_all add: decoding_def)
  then show ?thesis using decodingD(9) [OF assms] by (intro concat_slots_disjoint) (simp_all add: row_owned_def)
qed

lemma decoding_len:
  assumes "decoding H b tss pgs w"
  shows "length (b_seq_lens b) = length (b_reqs b)" "length (b_req_pool_indices b) = length (b_reqs b)" "length pgs = length (b_reqs b)"
    "length tss = length (b_reqs b)" "length (decode_asks b w) = length (b_reqs b)" "\<forall>x\<in>set (decode_asks b w). fst (snd x) = 1"
    "sum_list (map (fst \<circ> snd) (decode_asks b w)) = length (b_reqs b)"
proof -
  show l: "length (b_seq_lens b) = length (b_reqs b)" "length (b_req_pool_indices b) = length (b_reqs b)" "length pgs = length (b_reqs b)" "length tss = length (b_reqs b)"
    using assms by (simp_all add: decoding_def) (metis length_map)
  then show "length (decode_asks b w) = length (b_reqs b)" "\<forall>x\<in>set (decode_asks b w). fst (snd x) = 1"
    "sum_list (map (fst \<circ> snd) (decode_asks b w)) = length (b_reqs b)"
    by (auto simp: decode_asks_def o_def split_def sum_list_triv)
qed

lemma decode_asks_ok:
  assumes d: "decoding H b tss pgs w"
  shows "asks_ok (rc_page_size (rw_cache w)) (unowned (rw_cache w)) (decode_asks b w)"
proof -
  let ?own = "map2 (\<lambda>r n. drop (cache_protected_len (r_kv r)) (take n (req_row_of r w))) (b_reqs b) (b_seq_lens b)"
  note l = decoding_len [OF d]
  have w: "0 < rc_page_size (rw_cache w)" "distinct (concat pgs)" using d world_unowned(3) [of H w] by (simp_all add: decoding_def)
  have a: "row_ask (rc_page_size (rw_cache w)) (decode_asks b w ! k) (?own ! k) (pgs ! k)" if "k < length (decode_asks b w)" for k
    using decodingD(10) [OF d, of k] that l by simp
  show ?thesis using row_asks_ok [OF w(1) a _ w(2) decoding_pages [OF d]] l by simp
qed

text \<open>The table keeps its auxiliary cache absent, so only the writes remain.\<close>

lemma write_without_aux:
  assumes "rt_aux_cache p = None"
  shows "rbind (rt_write_cells rows cols vs p) (\<lambda>p. rbind (alloc_aux_to_lengths ops is ns p) f) = rbind (rt_write_cells rows cols vs p) f"
proof -
  have wc: "write_cells rows cols vs p = Inr p' \<Longrightarrow> rt_aux_cache p' = rt_aux_cache p" for rows cols vs and p p' :: "'a req_pool"
    by (induction rows cols vs p rule: write_cells.induct) (auto split: if_splits)
  have "alloc_aux_to_lengths ops is ns p' = Inr p'" if "rt_write_cells rows cols vs p = Inr p'" for p'
    using that assms wc by (auto simp: rt_write_cells_def alloc_aux_to_lengths_def split: if_splits)
  then show ?thesis by (cases "rt_write_cells rows cols vs p") simp_all
qed

definition decode_writes :: "'b req_scheme batch \<Rightarrow> 'a radix_world \<Rightarrow> int list \<Rightarrow> cache \<Rightarrow> (int list \<times> 'b req_scheme batch \<times> 'a radix_world) result" where
  "decode_writes b w out s = rbind (rt_write_cells (b_req_pool_indices b) (b_seq_lens b) out (rw_pool w)) (\<lambda>p.
     Inr (out, b\<lparr>b_reqs := map (add_kv_lens 1) (b_reqs b)\<rparr>, w\<lparr>rw_cache := s, rw_pool := p\<rparr>))"

lemma decode_server_exists:
  assumes d: "decoding H b tss pgs w"
  obtains fit give n msg where "batch_server fit give" "\<forall>a. ka_page_size a = rc_page_size (rw_cache w) \<longrightarrow> ka_inv a \<longrightarrow> fit a (decode_asks b w)"
    "rc_page_size (rw_cache w) * page_demand (rc_page_size (rw_cache w)) (decode_asks b w) \<le> n"
    "alloc_for_decode dev ops None 1 b w = rbind (rbind (evict_from_tree_cache n (rw_cache w)) (\<lambda>s. or_out_of_memory msg (give (decode_asks b w) (rc_alloc s)) s))
       (\<lambda>(out, s). decode_writes b w out s)"
proof -
  let ?s = "rw_cache w" and ?ps = "rc_page_size (rw_cache w)" and ?as = "decode_asks b w" and ?p = "rw_pool w"
  have w: "world_ok H w" "0 < ?ps" "rt_aux_cache ?p = None" using d world_unowned(3) [of H w] by (simp_all add: decoding_def world_ok_def)
  note l = decoding_len [OF d] and wa = write_without_aux [OF w(3)]
  show ?thesis
  proof (cases "?ps = 1")
    case True
    have "alloc_token_slots (length (b_seq_lens b) * 1) ?s = rbind (evict_from_tree_cache (length (b_reqs b)) ?s) (\<lambda>s. or_out_of_memory ''Out of memory'' (give_tokens ?as (rc_alloc s)) s)"
      using l by (simp add: alloc_token_slots_def give_tokens_def)
    then have "alloc_for_decode dev ops None 1 b w = rbind (rbind (evict_from_tree_cache (length (b_reqs b)) ?s) (\<lambda>s. or_out_of_memory ''Out of memory'' (give_tokens ?as (rc_alloc s)) s)) (\<lambda>(out, s). decode_writes b w out s)"
      by (simp only: alloc_for_decode_def Let_def True if_True prod.case option.case wa simp_thms decode_writes_def)
    then show ?thesis using that [OF token_server.batch_server_axioms] True decode_demand(2) [OF d] l by simp
  next
    case False
    then have p2: "2 \<le> ?ps" using w(2) by simp
    have paged: "\<exists>p. a = PagedA p" if "ka_page_size a = ?ps" "ka_inv a" for a using that False by (cases a) (auto simp: tok_inv_def)
    have c1: "map2 (\<lambda>i n. if n = 0 then table_stride ?p - 1 else n - 1) (b_req_pool_indices b) (b_seq_lens b) = map (\<lambda>n. n - 1) (b_seq_lens b)"
      using decodingD(4) [OF d] l by (intro nth_equalityI) fastforce+
    have "list_all2 (\<lambda>i c. i < length (rt_req_to_token ?p) \<and> c < length (rt_req_to_token ?p ! i)) (b_req_pool_indices b) (map (\<lambda>n. n - 1) (b_seq_lens b))"
      using decodingD(2-6) [OF d] l by (fastforce simp: list_all2_conv_all_nth)
    moreover have "map2 (\<lambda>i c. rt_req_to_token ?p ! i ! c) (b_req_pool_indices b) (map (\<lambda>n. n - 1) (b_seq_lens b)) = map (snd \<circ> snd) ?as"
      using decodingD(2) [OF d] l by (intro nth_equalityI) (auto simp: decode_asks_def)
    ultimately have c2: "cells_at (b_req_pool_indices b) (map (\<lambda>n. n - 1) (b_seq_lens b)) (rt_req_to_token ?p) = Inr (map (snd \<circ> snd) ?as)" by (simp add: cells_at_def)
    have "map (\<lambda>(q, n, l). int (q + n)) ?as = map int (map (\<lambda>n. n + 1) (b_seq_lens b))" using l by (intro nth_equalityI) (auto simp: decode_asks_def)
    then have "alloc_paged_token_slots_decode dev (map (\<lambda>n. n + 1) (b_seq_lens b)) (map (snd \<circ> snd) ?as) ?s =
        rbind (evict_from_tree_cache (length (b_seq_lens b) * ?ps) ?s) (\<lambda>s. or_out_of_memory ''Decode out of memory'' (give_decode dev ?as (rc_alloc s)) s)"
      using run_pageD(3) [OF world_unowned(2) [OF w(1)]] by (simp add: alloc_paged_token_slots_decode_def give_decode_def)
    then have "alloc_for_decode dev ops None 1 b w = rbind (rbind (evict_from_tree_cache (length (b_seq_lens b) * ?ps) ?s)
        (\<lambda>s. or_out_of_memory ''Decode out of memory'' (give_decode dev ?as (rc_alloc s)) s)) (\<lambda>(out, s). decode_writes b w out s)"
      by (simp only: alloc_for_decode_def Let_def False if_False rbind_Inr prod.case option.case c1 c2 wa simp_thms decode_writes_def)
    note eq = this
    show ?thesis by (rule that [OF decode_server.batch_server_axioms _ _ eq]) (use paged p2 l(6) decode_demand(2) [OF d] in auto)
  qed
qed

lemma granted_nth:
  assumes "length P = page_demand ps as" "\<forall>x\<in>set as. fst (snd x) = 1" "k < length as"
  shows "[granted ps as P ! k] = ask_slots ps (as ! k) (shares ps as P ! k)"
  using assms
proof (induction as arbitrary: P k)
  case (Cons a as)
  obtain x where x: "ask_slots ps a (take (ask_pages ps a) P) = [x]"
    using Cons.prems(2) by (metis length_ask_slots list.set_intros(1) One_nat_def length_0_conv length_Suc_conv)
  then show ?case using Cons by (cases k) (simp_all add: granted_def)
qed simp

lemma length_granted: "\<forall>x\<in>set as. fst (snd x) = 1 \<Longrightarrow> length (granted ps as P) = length as"
  by (induction as arbitrary: P) (simp_all add: granted_def)

text \<open>Pages that change hands stay different, and the slots of the pool stay the same.\<close>

lemma parted_world:
  assumes w: "world_ok H w" and P: "parted H P (rw_cache w) s'" and t: "map length t = map length (rt_req_to_token (rw_pool w))"
  shows "world_ok H (w\<lparr>rw_cache := s', rw_pool := (rw_pool w)\<lparr>rt_req_to_token := t\<rparr>\<rparr>)" "length t = length (rt_req_to_token (rw_pool w))"
    "table_stride ((rw_pool w)\<lparr>rt_req_to_token := t\<rparr>) = table_stride (rw_pool w)"
proof -
  show l: "length t = length (rt_req_to_token (rw_pool w))" using t by (metis length_map)
  have ne: "rt_req_to_token (rw_pool w) \<noteq> []" "t \<noteq> []" using w l by (auto simp: world_ok_def)
  show st: "table_stride ((rw_pool w)\<lparr>rt_req_to_token := t\<rparr>) = table_stride (rw_pool w)" using t ne by (simp add: table_stride_def) (metis hd_map)
  have "ka_free_set (rc_alloc s') \<subseteq> unowned s'" by (simp add: unowned_def)
  then show "world_ok H (w\<lparr>rw_cache := s', rw_pool := (rw_pool w)\<lparr>rt_req_to_token := t\<rparr>\<rparr>)"
    using w P ne world_unowned(1) [OF w] rect_map_length [OF t] st unfolding world_ok_def parted_def by auto
qed

lemma parted_pages:
  assumes ps: "0 < rc_page_size s" and P: "parted H P s s'" and d: "distinct (concat pgs)" "set (page_slots (rc_page_size s) (concat pgs)) \<inter> unowned s = {}"
    and m: "mset (concat pgs') = mset (concat pgs @ P)"
  shows "distinct (concat pgs @ P)" "distinct (concat pgs')"
    "unowned s' \<union> set (page_slots (rc_page_size s) (concat pgs')) = unowned s \<union> set (page_slots (rc_page_size s) (concat pgs))"
proof -
  have p: "distinct P" "set (page_slots (rc_page_size s) P) \<subseteq> unowned s" "unowned s' = unowned s - set (page_slots (rc_page_size s) P)"
    using P by (simp_all add: parted_def)
  have "x * int (rc_page_size s) \<in> slots_of (rc_page_size s) A" if "x \<in> A" for x A using that ps by (simp add: slots_of_def)
  then show D: "distinct (concat pgs @ P)" using p d ps by (simp del: set_concat) blast
  then show "distinct (concat pgs')" using mset_eq_imp_distinct_iff [OF m] by simp
  have "set (concat pgs') = set (concat pgs) \<union> set P" using mset_eq_setD [OF m] by simp
  then show "unowned s' \<union> set (page_slots (rc_page_size s) (concat pgs')) = unowned s \<union> set (page_slots (rc_page_size s) (concat pgs))"
    using p ps by (auto simp: slots_of_Un simp del: set_concat)
qed

lemma decoding_grown:
  assumes d: "decoding H b tss pgs w" and P: "parted H P (rw_cache w) s'" "length P = page_demand (rc_page_size (rw_cache w)) (decode_asks b w)"
    and fits: "\<forall>n\<in>set (b_seq_lens b). n < table_stride (rw_pool w)" and tl: "map length t = map length (rt_req_to_token (rw_pool w))"
    and t: "\<And>k. k < length (b_reqs b) \<Longrightarrow> t ! (b_req_pool_indices b ! k) =
      (rt_req_to_token (rw_pool w) ! (b_req_pool_indices b ! k))[b_seq_lens b ! k := granted (rc_page_size (rw_cache w)) (decode_asks b w) P ! k]"
  defines "b' \<equiv> b\<lparr>b_reqs := map (add_kv_lens 1) (b_reqs b), b_out_cache_loc := granted (rc_page_size (rw_cache w)) (decode_asks b w) P, b_seq_lens := map Suc (b_seq_lens b)\<rparr>"
    and "w' \<equiv> w\<lparr>rw_cache := s', rw_pool := (rw_pool w)\<lparr>rt_req_to_token := t\<rparr>\<rparr>"
    and "pgs' \<equiv> map2 (@) pgs (shares (rc_page_size (rw_cache w)) (decode_asks b w) P)"
  shows "decoding H b' tss pgs' w'"
    "k < length (b_reqs b) \<Longrightarrow> req_row_of (b_reqs b' ! k) w' = (req_row_of (b_reqs b ! k) w)[b_seq_lens b ! k := b_out_cache_loc b' ! k]"
    "unowned (rw_cache w') \<union> set (page_slots (rc_page_size (rw_cache w)) (concat pgs')) =
       unowned (rw_cache w) \<union> set (page_slots (rc_page_size (rw_cache w)) (concat pgs))"
proof -
  let ?s = "rw_cache w" and ?ps = "rc_page_size (rw_cache w)" and ?as = "decode_asks b w" and ?p = "rw_pool w"
  let ?out = "granted ?ps ?as P" and ?N = "shares ?ps ?as P"
  have w: "world_ok H w" "0 < ?ps" "distinct (concat pgs)" using d world_unowned(3) [of H w] by (simp_all add: decoding_def)
  note l = decoding_len(1-4) [OF d] and as = decoding_len(5,6) [OF d]
  let ?own = "map2 (\<lambda>r n. drop (cache_protected_len (r_kv r)) (take n (req_row_of r w))) (b_reqs b) (b_seq_lens b)"
  have ask: "row_ask ?ps (?as ! k) (?own ! k) (pgs ! k)" if "k < length ?as" for k using decodingD(10) [OF d, of k] that l as(1) by simp
  have m: "mset (concat pgs') = mset (concat pgs @ P)"
    unfolding pgs'_def using l as(1) P(2) by (intro shares_mset) simp_all
  note pp = parted_pages [OF w(2) P(1) w(3) decoding_pages [OF d] m] and pw = parted_world [OF w(1) P(1) tl, folded w'_def]
  show "unowned (rw_cache w') \<union> set (page_slots ?ps (concat pgs')) = unowned ?s \<union> set (page_slots ?ps (concat pgs))" using pp(3) by (simp add: w'_def)
  show row: "req_row_of (b_reqs b' ! k) w' = (req_row_of (b_reqs b ! k) w)[b_seq_lens b ! k := b_out_cache_loc b' ! k]" if "k < length (b_reqs b)" for k
    using t [OF that] decodingD(1,2) [OF d that] that by (simp add: b'_def w'_def req_row_of_def add_kv_lens_def)
  have own: "req_owns H (b_reqs b' ! k) (tss ! k) (b_seq_lens b' ! k) (pgs' ! k) w'" if k: "k < length (b_reqs b)" for k
  proof -
    let ?r = "b_reqs b ! k" and ?n = "b_seq_lens b ! k"
    note D = decodingD [OF d k]
    have ka: "k < length ?as" and n: "?n < length (req_row_of ?r w)" using k as(1) D(6) fits l by simp_all
    have c: "covers ?ps (drop (cache_protected_len (r_kv ?r)) (take ?n (req_row_of ?r w)) @ [?out ! k]) (pgs ! k @ ?N ! k)"
      using row_asks_grow [OF w(2) ask _ pp(1) P(2) ka] granted_nth [OF P(2) as(2) ka] l as(1) k by simp
    have "set (?N ! k) \<subseteq> set P" using concat_shares [OF P(2)] ka by (metis length_shares nth_mem set_concat UN_upper)
    then have "row_owned H ?r (tss ! k) (take ?n (req_row_of ?r w) @ [?out ! k]) (pgs ! k @ ?N ! k) s'"
      by (rule row_owned_grows [OF P(1) w(2) D(9) world_unowned(1) [OF w(1)] _ c])
    moreover have "take (Suc ?n) ((req_row_of ?r w)[?n := x]) = take ?n (req_row_of ?r w) @ [x]" for x
      using n by (simp add: take_Suc_conv_app_nth)
    ultimately show ?thesis
      unfolding req_owns_row row [OF k] using D(1,3,7) n k l as(1) pw(2)
      by (simp add: b'_def w'_def pgs'_def add_kv_lens_def row_owned_def req_units_def)
  qed
  have b': "length (b_reqs b') = length (b_reqs b)" "b_seq_lens b' = map Suc (b_seq_lens b)" "b_req_pool_indices b' = b_req_pool_indices b"
    "map (\<lambda>r. req_pool_idx (r_kv r)) (b_reqs b') = map (\<lambda>r. req_pool_idx (r_kv r)) (b_reqs b)"
    "map (\<lambda>r. kv_committed_len (r_kv r)) (b_reqs b') = map Suc (map (\<lambda>r. kv_committed_len (r_kv r)) (b_reqs b))" "length pgs' = length (b_reqs b)"
    using l as(1) by (simp_all add: b'_def add_kv_lens_def pgs'_def)
  have D: "b_seq_lens b = map (\<lambda>r. kv_committed_len (r_kv r)) (b_reqs b)" "map Some (b_req_pool_indices b) = map (\<lambda>r. req_pool_idx (r_kv r)) (b_reqs b)"
    "distinct (b_req_pool_indices b)" using d unfolding decoding_def by blast+
  have pos: "list_all (\<lambda>n. 0 < n) (b_seq_lens b')" unfolding b'(2) by (simp add: list_all_length)
  show "decoding H b' tss pgs' w'"
    unfolding decoding_def
  proof (intro conjI allI impI)
    show "b_seq_lens b' = map (\<lambda>r. kv_committed_len (r_kv r)) (b_reqs b')" unfolding b'(5) b'(2) by (simp add: D(1))
    show "map Some (b_req_pool_indices b') = map (\<lambda>r. req_pool_idx (r_kv r)) (b_reqs b')" unfolding b'(4) b'(3) by (rule D(2))
    show "req_owns H (b_reqs b' ! k) (tss ! k) (b_seq_lens b' ! k) (pgs' ! k) w'" if "k < length (b_reqs b')" for k
      by (rule own [OF that [unfolded b'(1)]])
    show "length tss = length (b_reqs b')" "length pgs' = length (b_reqs b')" "distinct (b_req_pool_indices b')" using l(4) D(3) b'(1,3,6) by metis+
  qed (rule pw(1) pp(2) pos)+
qed

lemma decode_step:
  assumes d: "decoding H b tss pgs w" and fits: "\<forall>n\<in>set (b_seq_lens b). n < table_stride (rw_pool w)"
    and room: "int (rc_page_size (rw_cache w) * page_demand (rc_page_size (rw_cache w)) (decode_asks b w)) \<le> reachable_slots (rw_cache w)"
  shows "\<exists>b' w' pgs'. prepare_for_decode dev ops None b w = Inr (b', w') \<and> decoding H b' tss pgs' w' \<and>
     b_seq_lens b' = map Suc (b_seq_lens b) \<and> b_req_pool_indices b' = b_req_pool_indices b \<and>
     (\<forall>k<length (b_reqs b). req_row_of (b_reqs b' ! k) w' = (req_row_of (b_reqs b ! k) w)[b_seq_lens b ! k := b_out_cache_loc b' ! k]) \<and>
     unowned (rw_cache w') \<union> set (page_slots (rc_page_size (rw_cache w)) (concat pgs')) =
       unowned (rw_cache w) \<union> set (page_slots (rc_page_size (rw_cache w)) (concat pgs)) \<and>
     table_stride (rw_pool w') = table_stride (rw_pool w)"
proof -
  let ?s = "rw_cache w" and ?ps = "rc_page_size (rw_cache w)" and ?as = "decode_asks b w" and ?p = "rw_pool w"
  have w: "world_ok H w" "0 < ?ps" "distinct (concat pgs)" using d world_unowned(3) [of H w] by (simp_all add: decoding_def)
  note l = decoding_len(1-3) [OF d] and as = decoding_len(5,6) [OF d]
  obtain fit give n msg where sv: "batch_server fit give" "\<forall>a. ka_page_size a = ?ps \<longrightarrow> ka_inv a \<longrightarrow> fit a ?as" "?ps * page_demand ?ps ?as \<le> n"
    "alloc_for_decode dev ops None 1 b w = rbind (rbind (evict_from_tree_cache n ?s) (\<lambda>s. or_out_of_memory msg (give ?as (rc_alloc s)) s)) (\<lambda>(out, s). decode_writes b w out s)"
    by (rule decode_server_exists [OF d, where dev = dev and ops = ops])
  have ev: "evicting H ?s" using w(1) by (simp add: world_ok_def)
  obtain P s' where P: "parted H P ?s s'" "length P = page_demand ?ps ?as" and e: "alloc_for_decode dev ops None 1 b w = decode_writes b w (granted ?ps ?as P) s'"
    by (rule batch_server.make_room [OF sv(1) ev sv(2) [rule_format] decode_asks_ok [OF d] sv(3) room, of msg]) (auto simp: sv(4) simp del: One_nat_def)
  let ?out = "granted ?ps ?as P" and ?N = "shares ?ps ?as P"
  have "\<exists>t. write_cells (b_req_pool_indices b) (b_seq_lens b) ?out ?p = Inr (?p\<lparr>rt_req_to_token := t\<rparr>) \<and> map length t = map length (rt_req_to_token ?p) \<and>
     (\<forall>k<length (b_req_pool_indices b). t ! (b_req_pool_indices b ! k) = (rt_req_to_token ?p ! (b_req_pool_indices b ! k))[b_seq_lens b ! k := ?out ! k]) \<and>
     (\<forall>i. i \<notin> set (b_req_pool_indices b) \<longrightarrow> t ! i = rt_req_to_token ?p ! i)"
  proof (rule write_cells_ok)
    show "b_req_pool_indices b ! k < length (rt_req_to_token ?p) \<and> b_seq_lens b ! k < length (rt_req_to_token ?p ! (b_req_pool_indices b ! k))"
      if "k < length (b_req_pool_indices b)" for k using decodingD(2,3,6) [OF d, of k] that l fits by simp
  qed (use d l as length_granted [OF as(2)] in \<open>simp_all add: decoding_def\<close>)
  then obtain t where t: "write_cells (b_req_pool_indices b) (b_seq_lens b) ?out ?p = Inr (?p\<lparr>rt_req_to_token := t\<rparr>)" "map length t = map length (rt_req_to_token ?p)"
     "\<And>k. k < length (b_reqs b) \<Longrightarrow> t ! (b_req_pool_indices b ! k) = (rt_req_to_token ?p ! (b_req_pool_indices b ! k))[b_seq_lens b ! k := ?out ! k]"
    using l by auto
  have "rt_write_cells (b_req_pool_indices b) (b_seq_lens b) ?out ?p = Inr (?p\<lparr>rt_req_to_token := t\<rparr>)"
    using t(1) length_granted [OF as(2)] as(1) l by (simp add: rt_write_cells_def)
  then have "alloc_for_decode dev ops None 1 b w = Inr (?out, b\<lparr>b_reqs := map (add_kv_lens 1) (b_reqs b)\<rparr>, w\<lparr>rw_cache := s', rw_pool := ?p\<lparr>rt_req_to_token := t\<rparr>\<rparr>)"
    unfolding e decode_writes_def by simp
  then have "prepare_for_decode dev ops None b w = Inr (b\<lparr>b_reqs := map (add_kv_lens 1) (b_reqs b), b_out_cache_loc := ?out, b_seq_lens := map Suc (b_seq_lens b)\<rparr>,
      w\<lparr>rw_cache := s', rw_pool := ?p\<lparr>rt_req_to_token := t\<rparr>\<rparr>)"
    unfolding prepare_for_decode_def by simp
  then show ?thesis
    using decoding_grown [OF d P fits t(2,3)] parted_world(3) [OF w(1) P(1) t(2)] by (intro exI conjI allI impI) (assumption | simp)+
qed

section \<open>The check before a decode step\<close>

lemma decoding_evicted:
  assumes d: "decoding H b tss pgs w" and p: "parted H [] (rw_cache w) s1"
  shows "decoding H b tss pgs (w\<lparr>rw_cache := s1\<rparr>)" "decode_asks b (w\<lparr>rw_cache := s1\<rparr>) = decode_asks b w"
proof -
  have w: "world_ok H w" "0 < rc_page_size (rw_cache w)" using d world_unowned(3) [of H w] by (simp_all add: decoding_def)
  have row: "req_row_of r (w\<lparr>rw_cache := s1\<rparr>) = req_row_of r w" for r :: "'a req_scheme" by (simp add: req_row_of_def)
  then show "decode_asks b (w\<lparr>rw_cache := s1\<rparr>) = decode_asks b w" by (simp add: decode_asks_def)
  have "world_ok H (w\<lparr>rw_cache := s1\<rparr>)" using parted_world(1) [OF w(1) p refl] by simp
  moreover have "req_owns H (b_reqs b ! k) (tss ! k) (b_seq_lens b ! k) (pgs ! k) (w\<lparr>rw_cache := s1\<rparr>)" if k: "k < length (b_reqs b)" for k
  proof -
    note D = decodingD [OF d k]
    have "row_owned H (b_reqs b ! k) (tss ! k) (take (b_seq_lens b ! k) (req_row_of (b_reqs b ! k) w) @ []) (pgs ! k @ []) s1"
      by (rule row_owned_grows [OF p w(2) D(9) world_unowned(1) [OF w(1)]]) (use D(9) in \<open>simp_all add: row_owned_def\<close>)
    then show ?thesis unfolding req_owns_row row using D(1,3,5,7) by simp
  qed
  ultimately show "decoding H b tss pgs (w\<lparr>rw_cache := s1\<rparr>)" using d unfolding decoding_def by blast
qed

lemma decode_fails:
  assumes d: "decoding H b tss pgs w" and room: "reachable_slots (rw_cache w) < int (rc_page_size (rw_cache w) * page_demand (rc_page_size (rw_cache w)) (decode_asks b w))"
  shows "\<exists>err. prepare_for_decode dev ops None b w = Inl err"
proof -
  let ?s = "rw_cache w" and ?ps = "rc_page_size (rw_cache w)" and ?as = "decode_asks b w"
  obtain fit give n msg where sv: "batch_server fit give" "\<forall>a. ka_page_size a = ?ps \<longrightarrow> ka_inv a \<longrightarrow> fit a ?as" "?ps * page_demand ?ps ?as \<le> n"
    "alloc_for_decode dev ops None 1 b w = rbind (rbind (evict_from_tree_cache n ?s) (\<lambda>s. or_out_of_memory msg (give ?as (rc_alloc s)) s)) (\<lambda>(out, s). decode_writes b w out s)"
    by (rule decode_server_exists [OF d, where dev = dev and ops = ops])
  have ev: "evicting H ?s" using d by (simp add: decoding_def world_ok_def)
  show ?thesis using batch_server.no_room [OF sv(1) ev sv(2) [rule_format] decode_asks_ok [OF d] room, of n msg] by (auto simp: prepare_for_decode_def sv(4) simp del: One_nat_def)
qed

lemma decode_check:
  assumes d: "decoding H b tss pgs w" and c: "sc_algorithm c = None"
  obtains s1 where "check_decode_mem c (map r_kv (b_reqs b)) (rw_cache w) =
      Inr (rc_page_size (rw_cache w) * page_demand (rc_page_size (rw_cache w)) (decode_asks b w) \<le> ka_available_size (rc_alloc s1), s1)"
    "parted H [] (rw_cache w) s1" "decoding H b tss pgs (w\<lparr>rw_cache := s1\<rparr>)" "decode_asks b (w\<lparr>rw_cache := s1\<rparr>) = decode_asks b w" "0 \<le> evictable_size s1"
    "rc_page_size (rw_cache w) * page_demand (rc_page_size (rw_cache w)) (decode_asks b w) \<le> ka_available_size (rc_alloc s1) \<or> evictable_size s1 = 0"
proof -
  let ?s = "rw_cache w" and ?ps = "rc_page_size (rw_cache w)" and ?as = "decode_asks b w"
  have w: "world_ok H w" "evicting H ?s" using d by (simp_all add: decoding_def world_ok_def)
  let ?n = "?ps * page_demand ?ps ?as"
  obtain s1 where s1: "evict_from_tree_cache ?n ?s = Inr s1" "parted H [] ?s s1" "?n \<le> ka_available_size (rc_alloc s1) \<or> evictable_size s1 = 0"
    by (rule evict_from_tree_step [OF w(2)])
  have "new_tokens_required_next_decode c ?ps (map r_kv (b_reqs b)) = Inr (int ?n)"
    by (simp only: new_tokens_required_next_decode_def c Let_def decode_demand(1) [OF d] if_True simp_thms)
  then have "check_decode_mem c (map r_kv (b_reqs b)) ?s = Inr (?n \<le> ka_available_size (rc_alloc s1), s1)"
    using s1(1) run_pageD(3) [OF world_unowned(2) [OF w(1)]]
    by (simp only: check_decode_mem_def rbind_Inr nat_int check_decode_capacity_def evict_from_tree_cache_def)
  moreover have "0 \<le> evictable_size s1" using evicting_counts(1) [of H s1] s1(2) by (simp add: evictable_size_def parted_def)
  ultimately show ?thesis using that s1(2,3) decoding_evicted [OF d s1(2)] by blast
qed

text \<open>
  Property C38: the memory check of the scheduler decides whether the next decode step succeeds. For a batch of running requests the check
  returns, possibly after evicting. If it answers yes, \<open>prepare_for_decode\<close> gives every request the slot of its next token: the
  slot stands at the end of the request's row, the requests own the pages of their longer rows and no page has two owners, so the batch is again one of running requests; and
  no slot is lost. If it answers no, \<open>prepare_for_decode\<close> would raise.
\<close>

theorem decode_check_decides_step:
  assumes d: "decoding H b tss pgs w" and fits: "\<forall>n\<in>set (b_seq_lens b). n < table_stride (rw_pool w)" and c: "sc_algorithm c = None"
  shows "\<exists>ok s1. check_decode_mem c (map r_kv (b_reqs b)) (rw_cache w) = Inr (ok, s1) \<and>
     (if ok then \<exists>b' w' pgs'. prepare_for_decode dev ops None b (w\<lparr>rw_cache := s1\<rparr>) = Inr (b', w') \<and> decoding H b' tss pgs' w' \<and>
          b_seq_lens b' = map Suc (b_seq_lens b) \<and>
          (\<forall>k<length (b_reqs b). req_row_of (b_reqs b' ! k) w' = (req_row_of (b_reqs b ! k) w)[b_seq_lens b ! k := b_out_cache_loc b' ! k]) \<and>
          unowned (rw_cache w') \<union> set (page_slots (rc_page_size (rw_cache w)) (concat pgs')) =
            unowned (rw_cache w) \<union> set (page_slots (rc_page_size (rw_cache w)) (concat pgs))
      else \<exists>err. prepare_for_decode dev ops None b (w\<lparr>rw_cache := s1\<rparr>) = Inl err)"
proof -
  let ?s = "rw_cache w" and ?ps = "rc_page_size (rw_cache w)" and ?as = "decode_asks b w"
  let ?n = "?ps * page_demand ?ps ?as"
  obtain s1 where check: "check_decode_mem c (map r_kv (b_reqs b)) ?s = Inr (?n \<le> ka_available_size (rc_alloc s1), s1)" and s1: "parted H [] ?s s1"
    and d1: "decoding H b tss pgs (w\<lparr>rw_cache := s1\<rparr>)" "decode_asks b (w\<lparr>rw_cache := s1\<rparr>) = ?as"
    and ev: "0 \<le> evictable_size s1" "?n \<le> ka_available_size (rc_alloc s1) \<or> evictable_size s1 = 0"
    by (rule decode_check [OF d c])
  have f: "rc_page_size s1 = ?ps" "unowned s1 = unowned ?s" using s1 by (simp_all add: parted_def same_frame_def)
  have row: "req_row_of r (w\<lparr>rw_cache := s1\<rparr>) = req_row_of r w" for r :: "'a req_scheme" by (simp add: req_row_of_def)
  show ?thesis
  proof (cases "?n \<le> ka_available_size (rc_alloc s1)")
    case True
    then have "int ?n \<le> reachable_slots s1" using ev(1) unfolding reachable_slots_def by linarith
    then show ?thesis using decode_step [OF d1(1), of dev ops] fits check True f row d1(2) by auto
  next
    case False
    then have "reachable_slots s1 < int ?n" using ev(2) unfolding reachable_slots_def by linarith
    then show ?thesis using decode_fails [OF d1(1), of dev ops] check False f d1(2) by auto
  qed
qed

definition ex_batch :: "req batch" where
  "ex_batch = \<lparr>b_reqs = [ex_req], b_is_dllm = False, b_prefix_lens = [], b_extend_lens = [], b_seq_lens = [3], b_extend_num_tokens = 0,
     b_req_pool_indices = [1], b_out_cache_loc = []\<rparr>"

definition no_spec :: spec_conf where
  "no_spec = \<lparr>sc_algorithm = None, sc_is_uno = False, sc_has_draft_kv = False, sc_num_steps = None, sc_eagle_topk = None,
     sc_num_draft_tokens = None, sc_max_num_draft_tokens = None\<rparr>"

lemma ex_world_ok: "world_ok [0] ex_world"
proof -
  have "prio_total (rc_strategy ex_cache0)" "ka_idle ex_pool" "ka_free_set ex_pool \<subseteq> ka_universe ex_pool"
    by (auto simp: prio_total_def ex_cache0_def ex_pool_def pag_avail_def pag_pending_def pag_universe_def slots_of_def pag_get_all_free_pages_def)
  then show ?thesis
    using ex_world_run by (simp add: world_ok_def evicting_def) (simp add: ex_world_def ex_cache0_def rect_table_def table_stride_def ReqToTokenPool_def)
qed

lemma ex_decoding: "decoding [0] ex_batch [[11, 12, 13]] [[1, 2]] ex_world"
  using ex_world_ok ex_world_owns by (simp add: decoding_def ex_batch_def) (simp add: ex_req_def)

theorem decode_check_decides_step_witness:
  "check_decode_mem no_spec [r_kv ex_req] (rw_cache ex_world) = Inr (True, rw_cache ex_world) \<and>
   (\<exists>b' w'. prepare_for_decode demo_gpu no_aux None ex_batch ex_world = Inr (b', w') \<and> b_seq_lens b' = [4] \<and>
      req_row_of (b_reqs b' ! 0) w' = [2, 3, 4, b_out_cache_loc b' ! 0, 0])"
proof -
  have c: "check_decode_mem no_spec [r_kv ex_req] (rw_cache ex_world) = Inr (True, rw_cache ex_world)"
    by (simp add: check_decode_mem_def new_tokens_required_next_decode_def no_spec_def ex_req_def ex_world_def ex_cache0_def ex_pool_def
        check_decode_capacity_def evict_to_free_tokens_def)
  have row: "req_row_of ex_req ex_world = [2, 3, 4, 0, 0]" by (simp add: req_row_of_def ex_req_def ex_world_def)
  have "\<forall>n\<in>set (b_seq_lens ex_batch). n < table_stride (rw_pool ex_world)" "sc_algorithm no_spec = None"
    by (simp_all add: ex_batch_def ex_world_def table_stride_def no_spec_def)
  from decode_check_decides_step [OF ex_decoding this, of demo_gpu no_aux] c row show ?thesis by (auto simp: ex_batch_def)
qed

end
