(* ===== verification/Extend_Theorems.thy ===== *)
theory Extend_Theorems
  imports Alloc_Theorems
begin

text \<open>
  What \<open>prepare_for_extend\<close> does for the requests of a prefill batch: each gets a row of the table and the slots of its new tokens, and
  the batch is then one of running requests.
\<close>

section \<open>Rows for a batch\<close>

lemma bind_rows_same: "k < length kvs \<Longrightarrow> \<exists>x. bind_rows rows kvs ! k = (kvs ! k)\<lparr>req_pool_idx := x\<rparr>"
proof (induction kvs arbitrary: rows k)
  case (Cons kv kvs)
  have "\<exists>x. kv = kv\<lparr>req_pool_idx := x\<rparr>" by (rule exI [of _ "req_pool_idx kv"]) simp
  then show ?case using Cons.IH [of _ rows] Cons.IH [of _ "tl rows"] Cons.prems by (cases k) (simp_all, blast+)
qed simp

text \<open>Requests that can get rows: those with a row carry KV, the rows they have and the free ones are different, and there are enough.\<close>

definition rows_ready :: "kv_info list \<Rightarrow> 'a req_pool \<Rightarrow> bool" where
  "rows_ready kvs p \<longleftrightarrow> list_all (\<lambda>kv. holds_kv kv \<longrightarrow> 0 < kv_allocated_len kv) kvs \<and>
     length (filter (\<lambda>kv. \<not> holds_kv kv) kvs) \<le> length (rt_free_slots p) \<and>
     distinct (map (\<lambda>kv. the (req_pool_idx kv)) (filter holds_kv kvs) @ rt_free_slots p) \<and>
     list_all (\<lambda>i. i < length (rt_req_to_token p)) (map (\<lambda>kv. the (req_pool_idx kv)) (filter holds_kv kvs) @ rt_free_slots p)"

lemma alloc_req_slots_ok:
  assumes r: "rows_ready kvs p"
  obtains idxs kvs' p' where "alloc_req_slots kvs p = Inr (idxs, kvs', p')" "length kvs' = length kvs" "map Some idxs = map req_pool_idx kvs'"
    "distinct idxs" "list_all (\<lambda>i. i < length (rt_req_to_token p)) idxs" "rt_req_to_token p' = rt_req_to_token p" "rt_aux_cache p' = rt_aux_cache p"
    "\<And>k. k < length kvs \<Longrightarrow> \<exists>x. kvs' ! k = (kvs ! k)\<lparr>req_pool_idx := x\<rparr>"
proof -
  let ?n = "length (filter (\<lambda>kv. \<not> holds_kv kv) kvs)" and ?h = "map (\<lambda>kv. the (req_pool_idx kv)) (filter holds_kv kvs)"
  have n: "length kvs - length (filter holds_kv kvs) = ?n" using sum_length_filter_compl [of holds_kv kvs] by simp
  have a: "list_all (\<lambda>kv. kv_allocated_len kv > 0) (filter holds_kv kvs)" and le: "?n \<le> length (rt_free_slots p)"
    using r by (auto simp: rows_ready_def list_all_iff)
  obtain rows p' where al: "rt_alloc_rows ?n p = (Some rows, p')" "rt_req_to_token p' = rt_req_to_token p" "rt_aux_cache p' = rt_aux_cache p"
    using le by (cases "?n = 0") (simp_all add: rt_alloc_rows_def Let_def)
  note s = alloc_rows_Some [OF al(1)] and b = bind_rows_idx [of rows kvs]
  let ?kvs = "bind_rows rows kvs"
  have some: "map Some (map (\<lambda>kv. the (req_pool_idx kv)) ?kvs) = map req_pool_idx ?kvs" using b(1) s by (auto simp: list_all_iff holds_kv_def)
  have m: "mset (map (\<lambda>kv. the (req_pool_idx kv)) ?kvs) = mset (?h @ rows)" using b(3) s by simp
  have "distinct (?h @ rows)" "list_all (\<lambda>i. i < length (rt_req_to_token p)) (?h @ rows)" using r s by (auto simp: rows_ready_def)
  then have d: "distinct (map (\<lambda>kv. the (req_pool_idx kv)) ?kvs)" "list_all (\<lambda>i. i < length (rt_req_to_token p)) (map (\<lambda>kv. the (req_pool_idx kv)) ?kvs)"
    using mset_eq_imp_distinct_iff [OF m] mset_eq_setD [OF m] unfolding list_all_iff by auto
  have "alloc_req_slots kvs p = Inr (map (\<lambda>kv. the (req_pool_idx kv)) ?kvs, ?kvs, p')" using a n al(1) by (simp add: alloc_req_slots_def rt_alloc_def Let_def)
  then show ?thesis using that some d al(2,3) b(2) s bind_rows_same by blast
qed

section \<open>The slots of a batch\<close>

lemma granted_slice:
  assumes "length P = page_demand ps as" "k < length as"
  shows "slice (granted ps as P) (sum_list (map (fst \<circ> snd) (take k as))) (sum_list (map (fst \<circ> snd) (take k as)) + fst (snd (as ! k))) =
    ask_slots ps (as ! k) (shares ps as P ! k)"
  using assms
proof (induction as arbitrary: P k)
  case (Cons a as)
  then show ?case by (cases k) (simp_all add: granted_def slice_def)
qed simp

lemma length_granted_sum: "length (granted ps as P) = sum_list (map (fst \<circ> snd) as)"
  by (induction as arbitrary: P) (simp_all add: granted_def)

lemma extend_demand: "0 < ps \<Longrightarrow> ps * page_demand ps as \<le> sum_list (map (fst \<circ> snd) as) + length as * ps"
proof (induction as)
  case (Cons a as)
  obtain q n l where a: "a = (q, n, l)" by (cases a)
  have "new_pages (int ps) (int q) (int (q + n)) \<le> int n div int ps + 1" using new_pages_le [of "int ps" "int q" "int (q + n)"] Cons.prems by simp
  then have "ask_pages ps a \<le> n div ps + 1" by (simp add: a ask_pages_def nat_le_iff zdiv_int)
  then have "ps * ask_pages ps a \<le> ps * (n div ps + 1)" by (rule mult_le_mono2)
  also have "\<dots> \<le> n + ps" by simp
  finally show ?case using Cons by (simp add: a distrib_left)
qed simp

section \<open>A prefill batch\<close>

text \<open>
  Requests that wait to be extended, with their fill ids \<open>tss\<close>: the tree owns the first part of the prefix that was matched, and the
  request the pages \<open>pgs\<close> of the rest, as after an earlier chunk.
\<close>

definition waiting :: "nat list \<Rightarrow> 'b adm_req_scheme list \<Rightarrow> int list list \<Rightarrow> int list list \<Rightarrow> 'a radix_world \<Rightarrow> bool" where
  "waiting H reqs tss pgs w \<longleftrightarrow> world_ok H w \<and> length tss = length reqs \<and> length pgs = length reqs \<and> distinct (concat pgs) \<and>
     rows_ready (map r_kv reqs) (rw_pool w) \<and>
     (\<forall>k<length reqs. r_extend_range (reqs ! k) = Some (length (r_prefix_indices (reqs ! k)), length (tss ! k)) \<and>
        get_fill_ids (reqs ! k) = Inr (tss ! k) \<and> length (r_prefix_indices (reqs ! k)) \<le> length (tss ! k) \<and> 0 < length (tss ! k) \<and>
        length (tss ! k) \<le> table_stride (rw_pool w) \<and> row_owned H (reqs ! k) (tss ! k) (r_prefix_indices (reqs ! k)) (pgs ! k) (rw_cache w))"

definition extend_asks :: "'b adm_req_scheme list \<Rightarrow> int list list \<Rightarrow> ask list" where
  "extend_asks reqs tss = map2 (\<lambda>r ts. (length (r_prefix_indices r), length ts - length (r_prefix_indices r),
     if r_prefix_indices r = [] then - 1 else last (r_prefix_indices r))) reqs tss"

lemma waiting_ask:
  assumes w: "waiting H reqs tss pgs w" and k: "k < length reqs"
  shows "row_ask (rc_page_size (rw_cache w)) (extend_asks reqs tss ! k) (drop (cache_protected_len (r_kv (reqs ! k))) (r_prefix_indices (reqs ! k))) (pgs ! k)"
    "length (extend_asks reqs tss) = length reqs"
proof -
  have o: "world_ok H w" "row_owned H (reqs ! k) (tss ! k) (r_prefix_indices (reqs ! k)) (pgs ! k) (rw_cache w)" and l: "length tss = length reqs"
    using w k by (simp_all add: waiting_def)
  show "row_ask (rc_page_size (rw_cache w)) (extend_asks reqs tss ! k) (drop (cache_protected_len (r_kv (reqs ! k))) (r_prefix_indices (reqs ! k))) (pgs ! k)"
    using row_owned_ask [OF world_unowned(2) [OF o(1)] o(2), of "length (tss ! k) - length (r_prefix_indices (reqs ! k))"] k l by (simp add: extend_asks_def)
  show "length (extend_asks reqs tss) = length reqs" using l by (simp add: extend_asks_def)
qed

lemma waiting_pages:
  assumes "waiting H reqs tss pgs w"
  shows "set (page_slots (rc_page_size (rw_cache w)) (concat pgs)) \<inter> unowned (rw_cache w) = {}"
    "asks_ok (rc_page_size (rw_cache w)) (unowned (rw_cache w)) (extend_asks reqs tss)"
proof -
  have w: "0 < rc_page_size (rw_cache w)" "length pgs = length reqs" "distinct (concat pgs)" "length tss = length reqs"
    using assms world_unowned(3) [of H w] by (simp_all add: waiting_def)
  show p: "set (page_slots (rc_page_size (rw_cache w)) (concat pgs)) \<inter> unowned (rw_cache w) = {}"
    using assms by (intro concat_slots_disjoint [OF w(1)]) (simp add: waiting_def row_owned_def)
  have l: "length (extend_asks reqs tss) = length reqs" using w(4) by (simp add: extend_asks_def)
  show "asks_ok (rc_page_size (rw_cache w)) (unowned (rw_cache w)) (extend_asks reqs tss)"
    by (rule row_asks_ok [OF w(1) _ _ w(3) p, of _ "map (\<lambda>r. drop (cache_protected_len (r_kv r)) (r_prefix_indices r)) reqs"])
      (use waiting_ask(1) [OF assms] l w(2) in simp_all)
qed

definition extend_batch :: "'b adm_req_scheme list \<Rightarrow> int list list \<Rightarrow> 'b adm_req_scheme batch" where
  "extend_batch reqs tss = \<lparr>b_reqs = reqs, b_is_dllm = False, b_prefix_lens = map (\<lambda>r. length (r_prefix_indices r)) reqs,
     b_extend_lens = map (fst \<circ> snd) (extend_asks reqs tss), b_seq_lens = map length tss,
     b_extend_num_tokens = sum_list (map (fst \<circ> snd) (extend_asks reqs tss)), b_req_pool_indices = [], b_out_cache_loc = []\<rparr>"

definition extend_slots_of :: "gpu \<Rightarrow> 'b adm_req_scheme list \<Rightarrow> int list list \<Rightarrow> cache \<Rightarrow> (int list \<times> cache) result" where
  "extend_slots_of dev reqs tss s = (let b = extend_batch reqs tss in
     if rc_page_size s = 1 then alloc_token_slots (b_extend_num_tokens b) s
     else alloc_paged_token_slots_extend dev (b_prefix_lens b) (b_seq_lens b) (last_locs (map r_prefix_indices reqs)) (b_extend_num_tokens b) s)"

lemma rmap_nth: "length ys = length xs \<Longrightarrow> (\<And>k. k < length xs \<Longrightarrow> f (xs ! k) = Inr (ys ! k)) \<Longrightarrow> rmap f xs = Inr ys"
proof (induction xs arbitrary: ys)
  case (Cons x xs)
  then obtain y ys' where y: "ys = y # ys'" by (cases ys) auto
  have "f x = Inr y" using Cons.prems(2) [of 0] y by simp
  moreover have "rmap f xs = Inr ys'" using Cons.prems Cons.prems(2) [of "Suc _"] y by (intro Cons.IH) auto
  ultimately show ?case using y by simp
qed simp

lemma prepare_for_extend_batch:
  assumes w: "waiting H reqs tss pgs w"
  shows "prepare_for_extend dev triton ops False reqs w = rbind (alloc_for_extend dev triton ops (extend_batch reqs tss) w) (\<lambda>(out_cache_loc, req_pool_indices, b, w).
      rbind (py_assert (list_all2 (\<lambda>(seq_len, pre_len) n. int seq_len - int pre_len = int n) (zip (b_seq_lens b) (b_prefix_lens b)) (b_extend_lens b))
               ''seq_len - pre_len == req.extend_range.length'') (\<lambda>_.
        Inr (b\<lparr>b_req_pool_indices := req_pool_indices, b_out_cache_loc := out_cache_loc\<rparr>, w)))"
proof -
  have l: "length tss = length reqs" using w by (simp add: waiting_def)
  have W: "r_extend_range (reqs ! k) = Some (length (r_prefix_indices (reqs ! k)), length (tss ! k))" "get_fill_ids (reqs ! k) = Inr (tss ! k)" if "k < length reqs" for k
    using w that by (simp_all add: waiting_def)
  have 1: "rmap (\<lambda>r. rbind (get_fill_ids r) (\<lambda>ids. Inr (drop (length (r_prefix_indices r)) ids))) reqs = Inr (map2 (\<lambda>r ts. drop (length (r_prefix_indices r)) ts) reqs tss)"
    using W l by (intro rmap_nth) simp_all
  have 2: "rmap (\<lambda>r. case r_extend_range r of None \<Rightarrow> Inl AttributeError | Some x \<Rightarrow> Inr x) reqs = Inr (map2 (\<lambda>r ts. (length (r_prefix_indices r), length ts)) reqs tss)"
    using W l by (intro rmap_nth) simp_all
  have 3: "map (\<lambda>(start, en). en - start) (map2 (\<lambda>r ts. (length (r_prefix_indices r), length ts)) reqs tss) = map (fst \<circ> snd) (extend_asks reqs tss)"
    by (simp add: extend_asks_def split_def)
  have 4: "map snd (map2 (\<lambda>r ts. (length (r_prefix_indices r), length ts)) reqs tss) = map length tss"
    using l by (intro nth_equalityI) simp_all
  have 5: "map length (map2 (\<lambda>r ts. drop (length (r_prefix_indices r)) ts) reqs tss) = map (fst \<circ> snd) (extend_asks reqs tss)"
    by (simp add: extend_asks_def split_def)
  show ?thesis unfolding prepare_for_extend_def 1 2 rbind_Inr Let_def 3 4 5 extend_batch_def ..
qed

lemma extend_server_exists:
  assumes w: "waiting H reqs tss pgs w"
  obtains fit give n msg where "batch_server fit give" "\<forall>a. ka_page_size a = rc_page_size (rw_cache w) \<longrightarrow> ka_inv a \<longrightarrow> fit a (extend_asks reqs tss)"
    "rc_page_size (rw_cache w) * page_demand (rc_page_size (rw_cache w)) (extend_asks reqs tss) \<le> n"
    "extend_slots_of dev reqs tss (rw_cache w) = rbind (evict_from_tree_cache n (rw_cache w)) (\<lambda>s. or_out_of_memory msg (give (extend_asks reqs tss) (rc_alloc s)) s)"
proof -
  let ?s = "rw_cache w" and ?ps = "rc_page_size (rw_cache w)" and ?as = "extend_asks reqs tss"
  have ok: "world_ok H w" "0 < ?ps" and l: "length tss = length reqs" using w world_unowned(3) [of H w] by (simp_all add: waiting_def)
  have pre: "length (r_prefix_indices (reqs ! k)) \<le> length (tss ! k)" if "k < length reqs" for k using w that by (simp add: waiting_def)
  show ?thesis
  proof (cases "?ps = 1")
    case True
    then have "extend_slots_of dev reqs tss ?s = rbind (evict_from_tree_cache (page_demand 1 ?as) ?s) (\<lambda>s. or_out_of_memory ''Out of memory'' (give_tokens ?as (rc_alloc s)) s)"
      by (simp add: extend_slots_of_def extend_batch_def alloc_token_slots_def give_tokens_def tokens_demand del: One_nat_def)
    then show ?thesis using True by (intro that [OF token_server.batch_server_axioms]) simp_all
  next
    case False
    have paged: "\<exists>p. a = PagedA p" if "ka_page_size a = ?ps" "ka_inv a" for a using that False by (cases a) (auto simp: tok_inv_def)
    have e: "map (int \<circ> fst) ?as = map int (map (\<lambda>r. length (r_prefix_indices r)) reqs)" "map (\<lambda>(q, n, l). int (q + n)) ?as = map int (map length tss)"
      "map (snd \<circ> snd) ?as = last_locs (map r_prefix_indices reqs)"
      using l pre by (auto intro!: nth_equalityI simp: extend_asks_def last_locs_def)
    have sh: "page_interleave_shard_size a = 1" for a by (cases a) simp_all
    have "extend_slots_of dev reqs tss ?s = rbind (evict_from_tree_cache (sum_list (map (fst \<circ> snd) ?as) + length ?as * ?ps) ?s)
        (\<lambda>s. or_out_of_memory ''Prefill out of memory'' (give_extend dev ?as (rc_alloc s)) s)"
      using False run_pageD(3) [OF world_unowned(2) [OF ok(1)]] l e
      by (simp add: extend_slots_of_def extend_batch_def alloc_paged_token_slots_extend_def give_extend_def sh extend_asks_def Let_def)
    note eq = this
    show ?thesis by (rule that [OF extend_server.batch_server_axioms _ _ eq]) (use paged extend_demand [OF ok(2)] in auto)
  qed
qed

text \<open>Allocation for the batch: rows, then slots, then the writes.\<close>

lemma alloc_for_extend_parts:
  assumes w: "waiting H reqs tss pgs w" and a: "alloc_req_slots (map r_kv reqs) (rw_pool w) = Inr (idxs, kvs, p)" "rt_aux_cache p = None"
    "rt_req_to_token p = rt_req_to_token (rw_pool w)" "length idxs = length reqs" "list_all (\<lambda>i. i < length (rt_req_to_token p)) idxs"
    and s: "extend_slots_of dev reqs tss (rw_cache w) = Inr (out, s')" and n: "length out = sum_list (map (fst \<circ> snd) (extend_asks reqs tss))"
  defines "rs \<equiv> zip idxs (zip (map r_prefix_indices reqs) (map (fst \<circ> snd) (extend_asks reqs tss)))"
  shows "alloc_for_extend dev triton ops (extend_batch reqs tss) w = Inr (out, idxs,
      (extend_batch reqs tss)\<lparr>b_reqs := map2 set_kv_lens (map length tss) (map2 (\<lambda>r kv. r\<lparr>r_kv := kv\<rparr>) reqs kvs)\<rparr>,
      w\<lparr>rw_cache := s', rw_pool := p\<lparr>rt_req_to_token := fill_rows rs out (rt_req_to_token (rw_pool w))\<rparr>\<rparr>)"
    "rows_fit (table_stride (rw_pool w)) (length (rt_req_to_token (rw_pool w))) rs"
proof -
  let ?as = "extend_asks reqs tss" and ?m = "table_stride (rw_pool w)"
  have W: "world_ok H w" "length tss = length reqs" using w by (simp_all add: waiting_def)
  have as: "length ?as = length reqs" "\<And>k. k < length reqs \<Longrightarrow> fst (snd (?as ! k)) = length (tss ! k) - length (r_prefix_indices (reqs ! k))"
    using W(2) by (simp_all add: extend_asks_def)
  have P: "length (r_prefix_indices (reqs ! k)) \<le> length (tss ! k)" "length (tss ! k) \<le> ?m" if "k < length reqs" for k using w that by (simp_all add: waiting_def)
  have nth: "rs ! k = (idxs ! k, r_prefix_indices (reqs ! k), length (tss ! k) - length (r_prefix_indices (reqs ! k)))" if "k < length reqs" for k
    using that as a(4) by (simp add: rs_def)
  have len: "length rs = length reqs" using as a(4) by (simp add: rs_def)
  show f: "rows_fit ?m (length (rt_req_to_token (rw_pool w))) rs"
    unfolding rows_fit_def using nth len P a(3-5) by (auto simp: in_set_conv_nth list_all_length)
  have t: "rt_req_to_token p \<noteq> []" "rect_table ?m (rt_req_to_token p)" using W(1) a(3) by (simp_all add: world_ok_def)
  have e: "map fst rs = idxs" "map (\<lambda>(i, pre, n). length pre) rs = map (\<lambda>r. length (r_prefix_indices r)) reqs"
    "map (\<lambda>(i, pre, n). length pre + n) rs = map length tss" "map (\<lambda>(i, pre, n). n) rs = map (fst \<circ> snd) ?as" "map (\<lambda>(i, pre, n). pre) rs = map r_prefix_indices reqs"
    by (rule nth_equalityI; use nth len as P a(4) W(2) in simp)+
  have "new_tokens rs = length out" using e(4) n by simp
  then have wr: "write_cache_indices (behind dev) triton out idxs (map (\<lambda>r. length (r_prefix_indices r)) reqs) (map length tss) (map (fst \<circ> snd) ?as) (map r_prefix_indices reqs) p =
      Inr (p\<lparr>rt_req_to_token := fill_rows rs out (rt_req_to_token (rw_pool w))\<rparr>)"
    using write_cache_indices_fill [OF t, of rs out "behind dev" triton] f a(3) unfolding e by simp
  have sl: "(if rc_page_size (rw_cache w) = 1 then alloc_token_slots (sum_list (map (fst \<circ> snd) ?as)) (rw_cache w)
      else alloc_paged_token_slots_extend dev (map (\<lambda>r. length (r_prefix_indices r)) reqs) (map length tss) (last_locs (map r_prefix_indices reqs))
        (sum_list (map (fst \<circ> snd) ?as)) (rw_cache w)) = Inr (out, s')"
    using s by (simp add: extend_slots_of_def extend_batch_def Let_def split: if_splits)
  show "alloc_for_extend dev triton ops (extend_batch reqs tss) w = Inr (out, idxs,
      (extend_batch reqs tss)\<lparr>b_reqs := map2 set_kv_lens (map length tss) (map2 (\<lambda>r kv. r\<lparr>r_kv := kv\<rparr>) reqs kvs)\<rparr>,
      w\<lparr>rw_cache := s', rw_pool := p\<lparr>rt_req_to_token := fill_rows rs out (rt_req_to_token (rw_pool w))\<rparr>\<rparr>)"
  proof -
    have b: "b_reqs (extend_batch reqs tss) = reqs" "b_is_dllm (extend_batch reqs tss) = False" "b_prefix_lens (extend_batch reqs tss) = map (\<lambda>r. length (r_prefix_indices r)) reqs"
      "b_extend_lens (extend_batch reqs tss) = map (fst \<circ> snd) ?as" "b_seq_lens (extend_batch reqs tss) = map length tss"
      "b_extend_num_tokens (extend_batch reqs tss) = sum_list (map (fst \<circ> snd) ?as)" by (simp_all add: extend_batch_def)
    have aux: "alloc_aux_to_lengths ops is ns (p\<lparr>rt_req_to_token := t\<rparr>) = Inr (p\<lparr>rt_req_to_token := t\<rparr>)" for "is" ns t
      using a(2) by (simp add: alloc_aux_to_lengths_def)
    show ?thesis by (simp only: alloc_for_extend_def Let_def b a(1) if_False option.case rbind_Inr prod.case sl wr aux)
  qed
qed

lemma fill_rows_length: "length (fill_rows rs out table) = length table"
  by (induction rs out table rule: fill_rows.induct) simp_all

lemma row_owned_cong:
  assumes "cache_protected_len (r_kv r') = cache_protected_len (r_kv r)" "r_last_node r' = r_last_node r" "r_extra_key r' = r_extra_key r" "r_cache_salt r' = r_cache_salt r"
  shows "row_owned H r' ts row pages s = row_owned H r ts row pages s"
  using assms by (simp add: row_owned_def req_units_def)

text \<open>The requests of the batch own their longer rows.\<close>

lemma extended_owns:
  assumes w: "waiting H reqs tss pgs w" and P: "parted H P (rw_cache w) s'" "length P = page_demand (rc_page_size (rw_cache w)) (extend_asks reqs tss)"
    and i: "length kvs = length reqs" "map Some idxs = map req_pool_idx kvs" "distinct idxs"
    "\<And>k. k < length reqs \<Longrightarrow> \<exists>x. kvs ! k = (r_kv (reqs ! k))\<lparr>req_pool_idx := x\<rparr>"
  defines "rs \<equiv> zip idxs (zip (map r_prefix_indices reqs) (map (fst \<circ> snd) (extend_asks reqs tss)))"
    and "pgs' \<equiv> map2 (@) pgs (shares (rc_page_size (rw_cache w)) (extend_asks reqs tss) P)"
    and "out \<equiv> granted (rc_page_size (rw_cache w)) (extend_asks reqs tss) P"
    and "reqs' \<equiv> map2 set_kv_lens (map length tss) (map2 (\<lambda>r kv. r\<lparr>r_kv := kv\<rparr>) reqs kvs)"
  assumes f: "rows_fit (table_stride (rw_pool w)) (length (rt_req_to_token (rw_pool w))) rs"
    and t: "rt_req_to_token (rw_pool w') = fill_rows rs out (rt_req_to_token (rw_pool w))" and c: "rw_cache w' = s'" and k: "k < length reqs"
  shows "req_owns H (reqs' ! k) (tss ! k) (length (tss ! k)) (pgs' ! k) w'"
    "take (length (tss ! k)) (req_row_of (reqs' ! k) w') = r_prefix_indices (reqs ! k) @
       slice out (sum_list (map (fst \<circ> snd) (take k (extend_asks reqs tss)))) (sum_list (map (fst \<circ> snd) (take (Suc k) (extend_asks reqs tss))))"
proof -
  let ?s = "rw_cache w" and ?ps = "rc_page_size (rw_cache w)" and ?as = "extend_asks reqs tss" and ?T = "rt_req_to_token (rw_pool w)"
  let ?r = "reqs ! k" and ?pre = "r_prefix_indices (reqs ! k)"
  have W: "world_ok H w" "0 < ?ps" "length tss = length reqs" "length pgs = length reqs" "distinct (concat pgs)" using w world_unowned(3) [of H w] by (simp_all add: waiting_def)
  have R: "length ?pre \<le> length (tss ! k)" "row_owned H ?r (tss ! k) ?pre (pgs ! k) ?s" using w k by (simp_all add: waiting_def)
  have li: "length idxs = length reqs" using i(1,2) by (metis length_map)
  have as: "length ?as = length reqs" "fst (snd (?as ! k)) = length (tss ! k) - length ?pre" using W(3) k by (simp_all add: extend_asks_def)
  have len: "length rs = length reqs" using as li by (simp add: rs_def)
  have rk: "rs ! k = (idxs ! k, ?pre, length (tss ! k) - length ?pre)" using k as li by (simp add: rs_def)
  have ns: "map (\<lambda>(i, pre, n). n) rs = map (fst \<circ> snd) ?as" using as(1) li by (intro nth_equalityI) (simp_all add: rs_def)
  have nt: "new_tokens (take k rs) = sum_list (map (fst \<circ> snd) (take k ?as))" using ns by (simp flip: take_map)
  have S: "sum_list (map (fst \<circ> snd) (take (Suc k) ?as)) = sum_list (map (fst \<circ> snd) (take k ?as)) + (length (tss ! k) - length ?pre)"
    using k as by (simp add: take_Suc_conv_app_nth)
  let ?new = "slice out (sum_list (map (fst \<circ> snd) (take k ?as))) (sum_list (map (fst \<circ> snd) (take (Suc k) ?as)))"
  have ka: "k < length ?as" using k as by simp
  have new: "?new = ask_slots ?ps (?as ! k) (shares ?ps ?as P ! k)" using granted_slice [OF P(2) ka] as(2) S by (simp add: out_def)
  have ln: "length ?new = length (tss ! k) - length ?pre" unfolding new using as(2) by simp
  have ix: "req_pool_idx (kvs ! k) = Some (idxs ! k)" using arg_cong [OF i(2), of "\<lambda>xs. xs ! k"] k li i(1) by simp
  obtain x where x: "kvs ! k = (r_kv ?r)\<lparr>req_pool_idx := x\<rparr>" using i(4) [OF k] by blast
  have r': "req_pool_idx (r_kv (reqs' ! k)) = Some (idxs ! k)" "cache_protected_len (r_kv (reqs' ! k)) = cache_protected_len (r_kv ?r)"
    "r_last_node (reqs' ! k) = r_last_node ?r" "r_extra_key (reqs' ! k) = r_extra_key ?r" "r_cache_salt (reqs' ! k) = r_cache_salt ?r"
    using k i(1) W(3) ix x by (simp_all add: reqs'_def set_kv_lens_def)
  have fi: "idxs ! k < length ?T" "length (tss ! k) \<le> table_stride (rw_pool w)" using f rk nth_mem [of k rs] k len R(1) by (fastforce simp: rows_fit_def)+
  have d: "distinct (map fst rs)" using i(3) li as(1) by (simp add: rs_def)
  have row: "req_row_of (reqs' ! k) w' = ?pre @ ?new @ drop (length (tss ! k)) (?T ! (idxs ! k))"
    using fill_rows_nth [OF f d _ rk, of out] k len R(1) nt S by (simp add: req_row_of_def r'(1) t)
  then show tk: "take (length (tss ! k)) (req_row_of (reqs' ! k) w') = ?pre @ ?new" using ln R(1) by simp
  have m: "mset (concat pgs') = mset (concat pgs @ P)" unfolding pgs'_def using W(4) as(1) P(2) by (intro shares_mset) simp_all
  note pp = parted_pages [OF W(2) P(1) W(5) waiting_pages(1) [OF w] m]
  have cov: "covers ?ps (drop (cache_protected_len (r_kv ?r)) ?pre @ ?new) (pgs ! k @ shares ?ps ?as P ! k)"
    using row_asks_grow [OF W(2) _ _ pp(1) P(2) ka, of "map (\<lambda>r. drop (cache_protected_len (r_kv r)) (r_prefix_indices r)) reqs"]
      waiting_ask(1) [OF w] as(1) W(4) k unfolding new by simp
  have "set (shares ?ps ?as P ! k) \<subseteq> set P" using concat_shares [OF P(2)] ka by (metis length_shares nth_mem set_concat UN_upper)
  then have "row_owned H ?r (tss ! k) (?pre @ ?new) (pgs ! k @ shares ?ps ?as P ! k) s'"
    by (rule row_owned_grows [OF P(1) W(2) R(2) world_unowned(1) [OF W(1)] _ cov])
  then have "row_owned H (reqs' ! k) (tss ! k) (take (length (tss ! k)) (req_row_of (reqs' ! k) w')) (pgs' ! k) (rw_cache w')"
    unfolding tk c row_owned_cong [of "reqs' ! k" ?r, OF r'(2-5)] using k W(4) as(1) by (simp add: pgs'_def)
  moreover have "idxs ! k < length (rt_req_to_token (rw_pool w'))" "length (tss ! k) \<le> length (req_row_of (reqs' ! k) w')"
    using fi row ln R(1) W(1) fill_rows_length [of rs out ?T] by (simp_all add: t world_ok_def rect_table_def)
  ultimately show "req_owns H (reqs' ! k) (tss ! k) (length (tss ! k)) (pgs' ! k) w'" unfolding req_owns_row using r'(1) by simp
qed

lemma waiting_server:
  assumes w: "waiting H reqs tss pgs w"
  shows "reachable_slots (rw_cache w) < int (rc_page_size (rw_cache w) * page_demand (rc_page_size (rw_cache w)) (extend_asks reqs tss)) \<Longrightarrow>
      \<exists>err. extend_slots_of dev reqs tss (rw_cache w) = Inl err"
    "int (rc_page_size (rw_cache w) * page_demand (rc_page_size (rw_cache w)) (extend_asks reqs tss)) \<le> reachable_slots (rw_cache w) \<Longrightarrow>
      \<exists>P s'. extend_slots_of dev reqs tss (rw_cache w) = Inr (granted (rc_page_size (rw_cache w)) (extend_asks reqs tss) P, s') \<and>
        parted H P (rw_cache w) s' \<and> length P = page_demand (rc_page_size (rw_cache w)) (extend_asks reqs tss)"
proof -
  let ?s = "rw_cache w" and ?ps = "rc_page_size (rw_cache w)" and ?as = "extend_asks reqs tss"
  obtain fit give n msg where sv: "batch_server fit give" "\<forall>a. ka_page_size a = ?ps \<longrightarrow> ka_inv a \<longrightarrow> fit a ?as" "?ps * page_demand ?ps ?as \<le> n"
    "extend_slots_of dev reqs tss ?s = rbind (evict_from_tree_cache n ?s) (\<lambda>s. or_out_of_memory msg (give ?as (rc_alloc s)) s)"
    by (rule extend_server_exists [OF w, where dev = dev])
  have ev: "evicting H ?s" using w by (simp add: waiting_def world_ok_def)
  note ok = waiting_pages(2) [OF w]
  show "\<exists>err. extend_slots_of dev reqs tss ?s = Inl err" if "reachable_slots ?s < int (?ps * page_demand ?ps ?as)"
    using batch_server.no_room [OF sv(1) ev sv(2) [rule_format] ok that] unfolding sv(4) .
  show "\<exists>P s'. extend_slots_of dev reqs tss ?s = Inr (granted ?ps ?as P, s') \<and> parted H P ?s s' \<and> length P = page_demand ?ps ?as"
    if "int (?ps * page_demand ?ps ?as) \<le> reachable_slots ?s"
    unfolding sv(4) by (rule batch_server.make_room [OF sv(1) ev sv(2) [rule_format] ok sv(3) that, of msg]) (assumption | intro exI conjI)+
qed

lemma extend_step:
  assumes w: "waiting H reqs tss pgs w"
    and a: "alloc_req_slots (map r_kv reqs) (rw_pool w) = Inr (idxs, kvs, p)" "length kvs = length reqs" "map Some idxs = map req_pool_idx kvs"
    "distinct idxs" "list_all (\<lambda>i. i < length (rt_req_to_token (rw_pool w))) idxs" "rt_req_to_token p = rt_req_to_token (rw_pool w)" "rt_aux_cache p = rt_aux_cache (rw_pool w)"
    "\<And>k. k < length reqs \<Longrightarrow> \<exists>x. kvs ! k = (r_kv (reqs ! k))\<lparr>req_pool_idx := x\<rparr>"
    and s: "extend_slots_of dev reqs tss (rw_cache w) = Inr (granted (rc_page_size (rw_cache w)) (extend_asks reqs tss) P, s')"
    and P: "parted H P (rw_cache w) s'" "length P = page_demand (rc_page_size (rw_cache w)) (extend_asks reqs tss)"
  shows "\<exists>b' w' pgs'. prepare_for_extend dev triton ops False reqs w = Inr (b', w') \<and> decoding H b' tss pgs' w' \<and> length (b_reqs b') = length reqs \<and>
        (\<forall>k<length reqs. take (length (tss ! k)) (req_row_of (b_reqs b' ! k) w') = r_prefix_indices (reqs ! k) @
           slice (b_out_cache_loc b') (sum_list (map (fst \<circ> snd) (take k (extend_asks reqs tss)))) (sum_list (map (fst \<circ> snd) (take (Suc k) (extend_asks reqs tss))))) \<and>
        unowned (rw_cache w') \<union> set (page_slots (rc_page_size (rw_cache w)) (concat pgs')) =
          unowned (rw_cache w) \<union> set (page_slots (rc_page_size (rw_cache w)) (concat pgs))"
proof -
  let ?s = "rw_cache w" and ?ps = "rc_page_size (rw_cache w)" and ?as = "extend_asks reqs tss" and ?T = "rt_req_to_token (rw_pool w)"
  have W: "world_ok H w" "0 < ?ps" "length tss = length reqs" "length pgs = length reqs" "distinct (concat pgs)"
    using w world_unowned(3) [of H w] by (simp_all add: waiting_def)
  let ?out = "granted ?ps ?as P" and ?rs = "zip idxs (zip (map r_prefix_indices reqs) (map (fst \<circ> snd) ?as))"
  let ?reqs = "map2 set_kv_lens (map length tss) (map2 (\<lambda>r kv. r\<lparr>r_kv := kv\<rparr>) reqs kvs)" and ?pgs = "map2 (@) pgs (shares ?ps ?as P)"
  let ?w = "w\<lparr>rw_cache := s', rw_pool := p\<lparr>rt_req_to_token := fill_rows ?rs ?out ?T\<rparr>\<rparr>"
  let ?b = "(extend_batch reqs tss)\<lparr>b_reqs := ?reqs, b_req_pool_indices := idxs, b_out_cache_loc := ?out\<rparr>"
  have li: "length idxs = length reqs" using a(2,3) by (metis length_map)
  have la: "length ?as = length reqs" using W(3) by (simp add: extend_asks_def)
  have aux: "rt_aux_cache p = None" using W(1) a(7) by (simp add: world_ok_def)
  have idx: "list_all (\<lambda>i. i < length (rt_req_to_token p)) idxs" using a(5,6) by simp
  note al = alloc_for_extend_parts [OF w a(1) aux a(6) li idx s length_granted_sum]
  have own: "req_owns H (?reqs ! k) (tss ! k) (length (tss ! k)) (?pgs ! k) ?w"
    "take (length (tss ! k)) (req_row_of (?reqs ! k) ?w) = r_prefix_indices (reqs ! k) @
       slice ?out (sum_list (map (fst \<circ> snd) (take k ?as))) (sum_list (map (fst \<circ> snd) (take (Suc k) ?as)))" if "k < length reqs" for k
    by (rule extended_owns [OF w P a(2,3,4) a(8) al(2) _ _ that]; simp)+
  have m: "mset (concat ?pgs) = mset (concat pgs @ P)" using W(4) la P(2) by (intro shares_mset) simp_all
  note pp = parted_pages [OF W(2) P(1) W(5) waiting_pages(1) [OF w] m]
  have ns: "map (\<lambda>(i, pre, n). n) ?rs = map (fst \<circ> snd) ?as" using la li by (intro nth_equalityI) simp_all
  have "rect_table (table_stride (rw_pool w)) (fill_rows ?rs ?out ?T)"
    using fill_rows_ok [OF _ al(2), of ?out] W(1) length_granted_sum [of ?ps ?as P] ns by (simp add: world_ok_def)
  then have ml: "map length (fill_rows ?rs ?out ?T) = map length ?T"
    using W(1) fill_rows_length [of ?rs ?out ?T] by (intro nth_equalityI) (simp_all add: world_ok_def rect_table_def)
  have wo: "world_ok H ?w" using parted_world(1) [OF W(1) P(1) ml] aux by (simp add: world_ok_def table_stride_def)
  have "prepare_for_extend dev triton ops False reqs w = Inr (?b, ?w)"
  proof -
    have "length (r_prefix_indices (reqs ! k)) \<le> length (tss ! k)" if "k < length reqs" for k using w that by (simp add: waiting_def)
    then have "list_all2 (\<lambda>(seq_len, pre_len) n. int seq_len - int pre_len = int n) (zip (map length tss) (map (\<lambda>r. length (r_prefix_indices r)) reqs)) (map (fst \<circ> snd) ?as)"
      using la W(3) by (simp add: list_all2_conv_all_nth extend_asks_def of_nat_diff)
    then show ?thesis using prepare_for_extend_batch [OF w, of dev triton ops] al(1) [of triton ops] by (simp add: extend_batch_def)
  qed
  moreover have "decoding H ?b tss ?pgs ?w"
  proof -
    have lr: "length ?reqs = length reqs" using a(2) W(3) by simp
    have "map length tss = map (\<lambda>r. kv_committed_len (r_kv r)) ?reqs" using a(2) W(3) by (intro nth_equalityI) (simp_all add: set_kv_lens_def)
    moreover have "map Some idxs = map (\<lambda>r. req_pool_idx (r_kv r)) ?reqs" unfolding a(3) using a(2) W(3) by (intro nth_equalityI) (simp_all add: set_kv_lens_def)
    moreover have "0 < length (tss ! k)" if "k < length reqs" for k using w that by (simp add: waiting_def)
    ultimately show ?thesis unfolding decoding_def using wo pp(2) own(1) lr W(3,4) la a(4) by (simp add: extend_batch_def list_all_length)
  qed
  ultimately show ?thesis using own(2) pp(3) li a(2) W(3) by (intro exI [of _ ?b] exI [of _ ?w] exI [of _ ?pgs]) simp
qed

lemma waiting_rows:
  assumes w: "waiting H reqs tss pgs w"
  obtains idxs kvs p where "alloc_req_slots (map r_kv reqs) (rw_pool w) = Inr (idxs, kvs, p)" "length kvs = length reqs" "map Some idxs = map req_pool_idx kvs"
    "distinct idxs" "list_all (\<lambda>i. i < length (rt_req_to_token (rw_pool w))) idxs" "rt_req_to_token p = rt_req_to_token (rw_pool w)" "rt_aux_cache p = rt_aux_cache (rw_pool w)"
    "\<forall>k<length reqs. \<exists>x. kvs ! k = (r_kv (reqs ! k))\<lparr>req_pool_idx := x\<rparr>"
proof -
  have "rows_ready (map r_kv reqs) (rw_pool w)" using w by (simp add: waiting_def)
  then obtain idxs kvs p where a: "alloc_req_slots (map r_kv reqs) (rw_pool w) = Inr (idxs, kvs, p)" "length kvs = length (map r_kv reqs)" "map Some idxs = map req_pool_idx kvs"
    "distinct idxs" "list_all (\<lambda>i. i < length (rt_req_to_token (rw_pool w))) idxs" "rt_req_to_token p = rt_req_to_token (rw_pool w)" "rt_aux_cache p = rt_aux_cache (rw_pool w)"
    "\<And>k. k < length (map r_kv reqs) \<Longrightarrow> \<exists>x. kvs ! k = (map r_kv reqs ! k)\<lparr>req_pool_idx := x\<rparr>"
    by (rule alloc_req_slots_ok) blast
  have "\<forall>k<length reqs. \<exists>x. kvs ! k = (r_kv (reqs ! k))\<lparr>req_pool_idx := x\<rparr>" using a(8) by simp
  with a(1-7) [simplified length_map] show ?thesis by (rule that)
qed

lemma prefill_with_room:
  assumes w: "waiting H reqs tss pgs w"
    and room: "int (rc_page_size (rw_cache w) * page_demand (rc_page_size (rw_cache w)) (extend_asks reqs tss)) \<le> reachable_slots (rw_cache w)"
  shows "\<exists>b' w' pgs'. prepare_for_extend dev triton ops False reqs w = Inr (b', w') \<and> decoding H b' tss pgs' w' \<and> length (b_reqs b') = length reqs \<and>
        (\<forall>k<length reqs. take (length (tss ! k)) (req_row_of (b_reqs b' ! k) w') = r_prefix_indices (reqs ! k) @
           slice (b_out_cache_loc b') (sum_list (map (fst \<circ> snd) (take k (extend_asks reqs tss)))) (sum_list (map (fst \<circ> snd) (take (Suc k) (extend_asks reqs tss))))) \<and>
        unowned (rw_cache w') \<union> set (page_slots (rc_page_size (rw_cache w)) (concat pgs')) =
          unowned (rw_cache w) \<union> set (page_slots (rc_page_size (rw_cache w)) (concat pgs))"
proof -
  let ?s = "rw_cache w" and ?ps = "rc_page_size (rw_cache w)" and ?as = "extend_asks reqs tss"
  obtain idxs kvs p where a: "alloc_req_slots (map r_kv reqs) (rw_pool w) = Inr (idxs, kvs, p)" "length kvs = length reqs" "map Some idxs = map req_pool_idx kvs"
    "distinct idxs" "list_all (\<lambda>i. i < length (rt_req_to_token (rw_pool w))) idxs" "rt_req_to_token p = rt_req_to_token (rw_pool w)" "rt_aux_cache p = rt_aux_cache (rw_pool w)"
    "\<forall>k<length reqs. \<exists>x. kvs ! k = (r_kv (reqs ! k))\<lparr>req_pool_idx := x\<rparr>"
    by (rule waiting_rows [OF w])
  obtain P s' where P: "extend_slots_of dev reqs tss ?s = Inr (granted ?ps ?as P, s')" "parted H P ?s s'" "length P = page_demand ?ps ?as"
    using waiting_server(2) [OF w room, of dev] by blast
  show ?thesis by (rule extend_step [OF w a(1-7) a(8) [rule_format] P])
qed

text \<open>
  Property C39: a prefill batch gets its memory exactly when there is room for it. If the free slots and the evictable tokens reach the new pages
  of the batch, \<open>prepare_for_extend\<close> returns: each request then has a row of its own that consists of its cached prefix and of its share of
  the new slots, it owns the pages of that row which the tree does not own, no page has two owners, and no slot is
  lost; the batch is one of running requests, ready for a decode step. With less room it raises.
\<close>

theorem prefill_batch_gets_its_memory:
  assumes w: "waiting H reqs tss pgs w"
  shows "if int (rc_page_size (rw_cache w) * page_demand (rc_page_size (rw_cache w)) (extend_asks reqs tss)) \<le> reachable_slots (rw_cache w)
     then \<exists>b' w' pgs'. prepare_for_extend dev triton ops False reqs w = Inr (b', w') \<and> decoding H b' tss pgs' w' \<and> length (b_reqs b') = length reqs \<and>
        (\<forall>k<length reqs. take (length (tss ! k)) (req_row_of (b_reqs b' ! k) w') = r_prefix_indices (reqs ! k) @
           slice (b_out_cache_loc b') (sum_list (map (fst \<circ> snd) (take k (extend_asks reqs tss)))) (sum_list (map (fst \<circ> snd) (take (Suc k) (extend_asks reqs tss))))) \<and>
        unowned (rw_cache w') \<union> set (page_slots (rc_page_size (rw_cache w)) (concat pgs')) =
          unowned (rw_cache w) \<union> set (page_slots (rc_page_size (rw_cache w)) (concat pgs))
     else \<exists>err. prepare_for_extend dev triton ops False reqs w = Inl err"
proof (cases "int (rc_page_size (rw_cache w) * page_demand (rc_page_size (rw_cache w)) (extend_asks reqs tss)) \<le> reachable_slots (rw_cache w)")
  case True
  then show ?thesis using prefill_with_room [OF w True, of dev triton ops] by simp
next
  case False
  obtain err where e: "extend_slots_of dev reqs tss (rw_cache w) = Inl err" using waiting_server(1) [OF w, of dev] False by auto
  obtain idxs kvs p where "alloc_req_slots (map r_kv reqs) (rw_pool w) = Inr (idxs, kvs, p)" by (rule waiting_rows [OF w])
  then have "alloc_for_extend dev triton ops (extend_batch reqs tss) w = Inl err"
    using e by (simp add: extend_slots_of_def alloc_for_extend_def extend_batch_def Let_def split: if_splits)
  then show ?thesis using False prepare_for_extend_batch [OF w, of dev triton ops] by simp
qed

definition ex_wait_req :: adm_req where
  "ex_wait_req = ex_adm_req\<lparr>r_last_node := Some 0, r_prefix_indices := [], r_full_untruncated_fill_ids := [11, 12, 13], r_extend_range := Some (0, 3), r_kv := ReqKvInfo\<rparr>"

definition ex_wait_world :: "nat radix_world" where
  "ex_wait_world = ex_world\<lparr>rw_pool := ReqToTokenPool 1 5\<rparr>"

lemma ex_waiting: "waiting [0] [ex_wait_req] [[11, 12, 13]] [[]] ex_wait_world"
proof -
  have w: "world_ok [0] ex_wait_world"
    using ex_world_ok by (simp add: world_ok_def ex_wait_world_def rect_table_def table_stride_def ReqToTokenPool_def numeral_eq_Suc)
  have "rows_ready [r_kv ex_wait_req] (rw_pool ex_wait_world)"
    by (simp add: rows_ready_def ex_wait_req_def ReqKvInfo_def holds_kv_def ex_wait_world_def ReqToTokenPool_def)
  moreover have "row_owned [0] ex_wait_req [11, 12, 13] [] [] (rw_cache ex_wait_world)"
    using at_node_refl [of "rc_store ex_cache0" 0] by (simp add: row_owned_def ex_wait_req_def ReqKvInfo_def ex_wait_world_def ex_world_def covers_def) (simp add: ex_cache0_def)
  ultimately show ?thesis using w by (simp add: waiting_def) (simp add: ex_wait_req_def get_fill_ids_def ex_wait_world_def table_stride_def ReqToTokenPool_def)
qed

theorem prefill_batch_gets_its_memory_witness:
  "\<exists>b' w' pgs'. prepare_for_extend demo_gpu True no_aux False [ex_wait_req] ex_wait_world = Inr (b', w') \<and> decoding [0] b' [[11, 12, 13]] pgs' w' \<and>
     unowned (rw_cache w') \<union> set (page_slots 2 (concat pgs')) = ka_free_set ex_pool"
proof -
  have c: "rc_page_size (rw_cache ex_wait_world) = 2" "unowned (rw_cache ex_wait_world) = ka_free_set ex_pool" "reachable_slots (rw_cache ex_wait_world) = 4"
    using ex_run0(2) by (simp_all add: ex_wait_world_def ex_world_def unowned_def reachable_slots_def)
      (simp_all add: ex_cache0_def ex_pool_def pag_available_size_def evictable_size_def)
  have "page_demand 2 (extend_asks [ex_wait_req] [[11, 12, 13]]) = 2" by (simp add: extend_asks_def ex_wait_req_def ask_pages_def new_pages_def)
  then show ?thesis using prefill_batch_gets_its_memory [OF ex_waiting, of demo_gpu True no_aux] c by (auto split: if_splits)
qed

end
