(* ===== verification/Step_Theorems.thy ===== *)
theory Step_Theorems
  imports Extend_Theorems
begin

text \<open>
  A step of the scheduler over admission, allocation, retraction and the cache together: an admitted batch finds its memory, and the
  running batch always gets the slots of its next tokens, if need be after retracting requests.
\<close>

section \<open>Admission and allocation\<close>

lemma ceil_div_le: "0 < p \<Longrightarrow> x \<le> k * p \<Longrightarrow> ceil_div x p \<le> k" for x k p :: int
  using int_div_lessI [of p "x + p - 1" "k + 1"] by (simp add: ceil_div_def distrib_right)

lemma ask_pages_le: "0 < ps \<Longrightarrow> int (ps * ask_pages ps (q, n, l)) \<le> ceil_paged_tokens (int ps) (int n)"
proof -
  assume ps: "0 < ps"
  let ?c = "\<lambda>x. ceil_div x (int ps)"
  have ge: "x \<le> ?c x * int ps" for x using ceil_align_ge [of "int ps" x] ps by (simp add: ceil_align_def)
  have "?c (int (q + n)) \<le> ?c (int q) + ?c (int n)"
    using ps ge [of "int q"] ge [of "int n"] by (intro ceil_div_le) (simp_all add: distrib_right)
  then have le: "new_pages (int ps) (int q) (int (q + n)) \<le> ?c (int n)" by (simp add: new_pages_def ceil_div_def)
  have "int (ask_pages ps (q, n, l)) \<le> ?c (int n)"
    using le new_pages_nonneg [of "int ps" "int q" "int (q + n)"] ps by (simp add: ask_pages_def)
  then have "int ps * int (ask_pages ps (q, n, l)) \<le> int ps * ?c (int n)" using ps by (intro mult_left_mono) simp_all
  then show ?thesis using ps by (simp add: ceil_paged_tokens_def neg_ceil_div_eq mult.commute)
qed

lemma demand_le_charge:
  assumes ps: "0 < ps" and w: "waiting H reqs tss pgs w"
  shows "int (ps * page_demand ps (extend_asks reqs tss)) \<le> batch_demand ps reqs"
proof -
  have l: "length tss = length reqs" using w by (simp add: waiting_def)
  have "extend_len_of (reqs ! k) = int (length (tss ! k) - length (r_prefix_indices (reqs ! k)))" if "k < length reqs" for k
    using w that by (simp add: waiting_def extend_len_of_def of_nat_diff)
  then have eq: "map (\<lambda>a. ceil_paged_tokens (int ps) (int (fst (snd a)))) (extend_asks reqs tss) = map (\<lambda>r. ceil_paged_tokens (int ps) (extend_len_of r)) reqs"
    using l by (intro nth_equalityI) (simp_all add: extend_asks_def)
  have le: "int (ps * page_demand ps as) \<le> sum_list (map (\<lambda>a. ceil_paged_tokens (int ps) (int (fst (snd a)))) as)" for as
  proof (induction as)
    case (Cons a as)
    then show ?case using ask_pages_le [OF ps, of "fst a" "fst (snd a)" "snd (snd a)"] by (simp add: distrib_left)
  qed simp
  show ?thesis unfolding batch_demand_def using le [of "extend_asks reqs tss"] unfolding eq .
qed

section \<open>From admission to allocation\<close>

lemma row_owned_take:
  assumes ps: "0 < rc_page_size s" and o: "row_owned H r ts row pages s" and e: "length row < e" "e \<le> length ts"
  shows "row_owned H r (take e ts) row pages s"
proof -
  let ?p = "cache_protected_len (r_kv r)" and ?K = "RadixKey (take e ts) (r_extra_key r) (rc_eagle s) None (r_cache_salt r)"
  have p: "rc_page_size s dvd ?p" "?p \<le> length row" using o by (simp_all add: row_owned_def)
  have "?p \<le> rk_len ?K" using p(2) e by (auto simp: rk_len_def raw_len_def RadixKey_def Let_def)
  then have l: "?p \<le> length (req_units s r (take e ts))" using page_floor_geI [OF p(1)] by (simp add: req_units_def query_def Let_def)
  then have "take ?p (req_units s r (take e ts)) = take ?p (req_units s r ts)"
    using req_units_prefix [OF ps, of r e ts] by (metis append_take_drop_id prefix_def take_append diff_is_0_eq take_0 append_Nil2)
  then show ?thesis using o l by (simp add: row_owned_def)
qed

lemma row_owned_locks: "row_owned H r ts row pages s \<Longrightarrow> set H \<subseteq> set H' \<Longrightarrow> row_owned H' r ts row pages s"
  by (auto simp: row_owned_def)

lemma row_owned_relocked:
  assumes "same_frame s s'" "rc_alloc s' = rc_alloc s" "held_slots s' = held_slots s" "at_node (rc_store s') = at_node (rc_store s)"
  shows "row_owned H r ts row pages s' = row_owned H r ts row pages s"
  using assms req_frame(1) [OF assms(1), of r] by (simp add: row_owned_def unowned_def same_frame_def)

text \<open>A request whose cached prefix is the value of a node of the tree joins the waiting batch once that node is locked.\<close>

lemma waiting_admit:
  fixes reqs :: "adm_req list"
  assumes w: "waiting H reqs tss pgs w" and i: "i \<in> live (rw_cache w)" "inc_lock_ref i (rw_cache w) = Inr (c, s')"
    and o: "row_owned [i] r (r_full_untruncated_fill_ids r) (r_prefix_indices r) pages (rw_cache w)"
    and e: "length (r_prefix_indices r) < e" "e \<le> length (r_full_untruncated_fill_ids r)" "length (r_full_untruncated_fill_ids r) \<le> table_stride (rw_pool w)"
    and d: "distinct (concat pgs @ pages)" "rows_ready (map r_kv (reqs @ [r])) (rw_pool w)"
  shows "waiting (i # H) (reqs @ [set_extend_range (length (r_prefix_indices r)) e r]) (tss @ [take e (r_full_untruncated_fill_ids r)]) (pgs @ [pages]) (w\<lparr>rw_cache := s'\<rparr>)"
proof -
  let ?s = "rw_cache w" and ?r = "set_extend_range (length (r_prefix_indices r)) e r" and ?ts = "take e (r_full_untruncated_fill_ids r)"
  have wk: "world_ok H w" "length tss = length reqs" "length pgs = length reqs" using w unfolding waiting_def by blast+
  note run = world_unowned(2,3) [OF wk(1)]
  obtain d' s0 where l0: "inc_lock_ref i ?s = Inr (d', s0)" "cache_run (i # H) s0" "live s0 = live ?s" "held_slots s0 = held_slots ?s"
    "radix_contents s0 = radix_contents ?s" "same_frame ?s s0" "rc_alloc s0 = rc_alloc ?s" "rc_events s0 = rc_events ?s" "at_node (rc_store s0) = at_node (rc_store ?s)"
    by (rule lock_step [OF run(1) i(1)])
  note l = l0(2-9) [unfolded trans [OF l0(1) [symmetric] i(2), simplified, THEN conjunct2]]
  note keep = row_owned_relocked [OF l(5,6,3,8)]
  have W: "world_ok (i # H) (w\<lparr>rw_cache := s'\<rparr>)" using wk(1) l by (simp add: world_ok_def evicting_def same_frame_def)
  have new: "row_owned (i # H) ?r ?ts (r_prefix_indices r) pages s'"
    using row_owned_locks [OF row_owned_take [OF run(2) o e(1,2)], of "i # H"] unfolding keep by (simp add: row_owned_def req_units_def set_extend_range_def)
  have old: "row_owned (i # H) r ts row pages s'" if "row_owned H r ts row pages ?s" for r :: adm_req and ts row pages
    using row_owned_locks [OF that, of "i # H"] unfolding keep by auto
  have "map r_kv (reqs @ [?r]) = map r_kv (reqs @ [r])" by (simp add: set_extend_range_def)
  then have rows: "rows_ready (map r_kv (reqs @ [?r])) (rw_pool w)" using d(2) by simp
  let ?ok = "\<lambda>H w r ts pages. r_extend_range r = Some (length (r_prefix_indices r), length ts) \<and> get_fill_ids r = Inr ts \<and> length (r_prefix_indices r) \<le> length ts \<and>
    0 < length ts \<and> length ts \<le> table_stride (rw_pool w) \<and> row_owned H r ts (r_prefix_indices r) pages (rw_cache w)"
  have one: "?ok (i # H) (w\<lparr>rw_cache := s'\<rparr>) ?r ?ts pages"
    using new e by (auto simp: set_extend_range_def get_fill_ids_def)
  have all: "?ok (i # H) (w\<lparr>rw_cache := s'\<rparr>) (reqs ! k) (tss ! k) (pgs ! k)" if "k < length reqs" for k
  proof -
    have "?ok H w (reqs ! k) (tss ! k) (pgs ! k)" using w that unfolding waiting_def by blast
    then show ?thesis using old by simp
  qed
  have "?ok (i # H) (w\<lparr>rw_cache := s'\<rparr>) ((reqs @ [?r]) ! k) ((tss @ [?ts]) ! k) ((pgs @ [pages]) ! k)" if "k < length (reqs @ [?r])" for k
    using all [of k] one that wk(2,3) by (cases "k < length reqs") (simp_all add: nth_append)
  then show ?thesis using W wk(2,3) d(1) rows unfolding waiting_def by simp
qed

text \<open>
  Property C40: a request the adder admits gets its memory. Let the requests of the batch wait with their cached prefixes locked, and
  a further request be matched to a node of the tree. Then \<open>add_one_req\<close> returns; either the request is refused and nothing changes, or
  it joins the batch, and \<open>prepare_for_extend\<close>, run on that batch in the state reached, allocates for all its requests and leaves each of
  them the owner of its row: the budget of the adder covers what the allocator takes.
\<close>

theorem admitted_request_gets_its_memory:
  assumes w: "waiting H (pa_can_run_list a) tss pgs w" and ps: "rc_page_size (rw_cache w) = ps" and a: "booked ps a"
    and o: "row_owned [i] r (r_full_untruncated_fill_ids r) (r_prefix_indices r) pages (rw_cache w)" and i: "i \<in> live (rw_cache w)"
    and len: "length (r_prefix_indices r) < length (r_full_untruncated_fill_ids r)" "length (r_full_untruncated_fill_ids r) \<le> table_stride (rw_pool w)"
    and d: "distinct (concat pgs @ pages)" "rows_ready (map r_kv (pa_can_run_list a @ [r])) (rw_pool w)"
    and mn: "0 \<le> r_max_new_tokens r" "0 \<le> ae_clip_max_new_tokens env" and host: "\<not> needs_host_load_back r" and align: "\<forall>n. align_size = Some n \<longrightarrow> 0 < n"
  shows "\<exists>v r' a' s'. add_one_req env (radix_pool_ops ps) (radix_tree_ops rel) r has_chunked_req align_size a (rw_cache w) = Inr (v, r', a', s') \<and>
    (r' = r \<and> a' = a \<and> s' = rw_cache w \<or>
     (\<exists>e b' w' pgs'. pa_can_run_list a' = pa_can_run_list a @ [r'] \<and> waiting (i # H) (pa_can_run_list a') (tss @ [take e (r_full_untruncated_fill_ids r)]) (pgs @ [pages]) (w\<lparr>rw_cache := s'\<rparr>) \<and>
        prepare_for_extend dev triton ops False (pa_can_run_list a') (w\<lparr>rw_cache := s'\<rparr>) = Inr (b', w') \<and>
        decoding (i # H) b' (tss @ [take e (r_full_untruncated_fill_ids r)]) pgs' w'))"
proof -
  have run: "cache_run H (rw_cache w)" using w world_unowned(2) unfolding waiting_def by blast
  have node: "r_last_node r = Some i" using o by (auto simp: row_owned_def)
  show ?thesis
  proof (rule add_one_req_outcome [OF run ps a node i host less_imp_le [OF len(1)] mn align, of rel has_chunked_req])
    fix v assume "add_one_req env (radix_pool_ops ps) (radix_tree_ops rel) r has_chunked_req align_size a (rw_cache w) = Inr (v, r, a, rw_cache w)"
    then show ?thesis by blast
  next
    fix v r' a' s' e
    assume add: "add_one_req env (radix_pool_ops ps) (radix_tree_ops rel) r has_chunked_req align_size a (rw_cache w) = Inr (v, r', a', s')"
      "pa_can_run_list a' = pa_can_run_list a @ [r']" "r' = set_extend_range (length (r_prefix_indices r)) e r" "cache_run (i # H) s'"
      "batch_demand ps (pa_can_run_list a') < reachable_slots s'" "\<exists>c. inc_lock_ref i (rw_cache w) = Inr (c, s')" "e \<le> length (r_full_untruncated_fill_ids r)"
      "length (r_prefix_indices r) < length (r_full_untruncated_fill_ids r) \<longrightarrow> length (r_prefix_indices r) < e"
    obtain c where c: "inc_lock_ref i (rw_cache w) = Inr (c, s')" using add(6) by blast
    let ?w = "w\<lparr>rw_cache := s'\<rparr>" and ?tss = "tss @ [take e (r_full_untruncated_fill_ids r)]"
    have W: "waiting (i # H) (pa_can_run_list a') ?tss (pgs @ [pages]) ?w"
      unfolding add(2,3) using len(1) add(8) by (intro waiting_admit [OF w i c o _ add(7) len(2) d]) blast
    have ps': "rc_page_size s' = ps" using lock_step [OF run i] c ps by (metis Inr_inject Pair_inject same_frame_def)
    have p: "0 < ps" using world_unowned(3) [of "i # H" ?w] W ps' unfolding waiting_def by simp
    have "int (rc_page_size (rw_cache ?w) * page_demand (rc_page_size (rw_cache ?w)) (extend_asks (pa_can_run_list a') ?tss)) \<le> reachable_slots (rw_cache ?w)"
      using order_trans [OF demand_le_charge [OF p W] less_imp_le [OF add(5)]] ps' by simp
    from prefill_with_room [OF W this, of dev triton ops] show ?thesis using add(1,2) W by blast
  qed
qed

definition ex_small_req :: adm_req where
  "ex_small_req = ex_wait_req\<lparr>r_full_untruncated_fill_ids := [11], r_extend_range := None, r_max_new_tokens := 0\<rparr>"

lemma ex_small_admitted:
  "map_sum (\<lambda>_. ()) (\<lambda>(v, r', a', s'). r') (add_one_req ex_adm_env (radix_pool_ops 2) (radix_tree_ops (\<lambda>r n s. Inr (r, s))) ex_small_req False None ex_adder ex_cache0) =
     Inr (set_extend_range 0 1 ex_small_req)"
  by code_simp

theorem admitted_request_gets_its_memory_witness:
  "\<exists>v r' a' s' e b' w' pgs'. add_one_req ex_adm_env (radix_pool_ops 2) (radix_tree_ops (\<lambda>r n s. Inr (r, s))) ex_small_req False None ex_adder ex_cache0 = Inr (v, r', a', s') \<and>
     pa_can_run_list a' = [r'] \<and> prepare_for_extend demo_gpu True no_aux False [r'] (ex_wait_world\<lparr>rw_cache := s'\<rparr>) = Inr (b', w') \<and> decoding [0, 0] b' [take e [11]] pgs' w'"
proof -
  let ?r = ex_small_req and ?add = "add_one_req ex_adm_env (radix_pool_ops 2) (radix_tree_ops (\<lambda>r n s. Inr (r, s))) ex_small_req False None ex_adder ex_cache0"
  have w: "waiting [0] (pa_can_run_list ex_adder) [] [] ex_wait_world"
    using ex_waiting by (simp add: waiting_def ex_adder_def PrefillAdder_def rows_ready_def ex_wait_req_def ReqKvInfo_def holds_kv_def)
  have c: "rw_cache ex_wait_world = ex_cache0" "rc_page_size ex_cache0 = 2" by (simp_all add: ex_wait_world_def ex_world_def ex_cache0_def)
  have f: "r_prefix_indices ?r = []" "r_full_untruncated_fill_ids ?r = [11]" "r_kv ?r = ReqKvInfo" "r_max_new_tokens ?r = 0" "r_extend_range ?r = None" "\<not> needs_host_load_back ?r"
    by (simp_all add: ex_small_req_def ex_wait_req_def needs_host_load_back_def ex_adm_req_def wait_req_def sched_req.defs)
  have o: "row_owned [0] ?r [11] [] [] ex_cache0"
    using at_node_refl [of "rc_store ex_cache0" 0] by (simp add: row_owned_def f) (simp add: ReqKvInfo_def covers_def ex_small_req_def ex_wait_req_def ex_cache0_def)
  have l: "0 \<in> live ex_cache0" by (auto simp: live_def below_def ex_cache0_def intro: exI [of _ "[]"])
  have p: "rows_ready [ReqKvInfo] (rw_pool ex_wait_world)" "1 \<le> table_stride (rw_pool ex_wait_world)"
    by (simp_all add: rows_ready_def ReqKvInfo_def holds_kv_def ex_wait_world_def ReqToTokenPool_def table_stride_def)
  have a: "booked 2 ex_adder" "pa_can_run_list ex_adder = []" by (simp_all add: booked_def ex_adder_def PrefillAdder_def new_budget_def batch_demand_def)
  have env: "0 \<le> ae_clip_max_new_tokens ex_adm_env" by (simp add: ex_adm_env_def)
  note t = admitted_request_gets_its_memory [OF w, where ps = 2 and r = ?r and i = 0 and pages = "[]" and env = ex_adm_env and align_size = None and has_chunked_req = False
      and rel = "\<lambda>r n s. Inr (r, s)" and dev = demo_gpu and triton = True and ops = no_aux]
  have ne: "ex_small_req \<noteq> set_extend_range 0 1 ex_small_req" using f(5) by (auto simp: set_extend_range_def dest: arg_cong [where f = r_extend_range])
  have "\<exists>v r' a' s'. ?add = Inr (v, r', a', s') \<and> (r' = ?r \<or> (\<exists>e b' w' pgs'. pa_can_run_list a' = [r'] \<and> prepare_for_extend demo_gpu True no_aux False [r'] (ex_wait_world\<lparr>rw_cache := s'\<rparr>) = Inr (b', w') \<and>
      decoding [0, 0] b' [take e [11]] pgs' w'))"
    using t a env o l p f c by auto
  then obtain v r' a' s' where r: "?add = Inr (v, r', a', s')" "r' = ?r \<or> (\<exists>e b' w' pgs'. pa_can_run_list a' = [r'] \<and>
      prepare_for_extend demo_gpu True no_aux False [r'] (ex_wait_world\<lparr>rw_cache := s'\<rparr>) = Inr (b', w') \<and> decoding [0, 0] b' [take e [11]] pgs' w')" by blast
  then have "r' \<noteq> ?r" using ex_small_admitted ne by auto
  then show ?thesis using r by blast
qed

end
