(* ===== verification/Spec2Isabelle.thy ===== *)
theory Spec2Isabelle
  imports Finish_State Retract Step_Theorems
begin

text \<open>
  Verification development of the KV-cache memory and admission subsystem of the SGLang runtime
  (\<^verbatim>\<open>python/sglang/srt/mem_cache\<close> and \<^verbatim>\<open>python/sglang/srt/managers/schedule_policy.py\<close>).
\<close>

end
